(* ===== verification/Prelude.thy ===== *)
theory Prelude
  imports Main "HOL-Library.Word" "HOL-Library.Sublist"
begin

unbundle bit_operations_syntax

text \<open>
  Shared vocabulary of the development: the machine types of the C++ code, the result of
  a streaming parser, the byte-copying loops that every mqtt class repeats, and the
  generic lemmas about them.

  A pair \<open>(const char *data, int dlen)\<close> of the code, which its loops advance together
  (\<open>data++\<close>, \<open>dlen--\<close>), is the list of the \<open>dlen\<close> bytes still to be read.  Returning
  \<open>dlen\<close> after such a loop is therefore returning the list that is left.
\<close>

type_synonym byte = "8 word"     \<comment> \<open>\<open>char\<close> and \<open>unsigned char\<close>\<close>
type_synonym nibble = "4 word"   \<comment> \<open>\<open>unsigned char x:4\<close>\<close>
type_synonym u16 = "16 word"     \<comment> \<open>\<open>unsigned short\<close>\<close>
type_synonym u32 = "32 word"     \<comment> \<open>\<open>unsigned\<close>\<close>
type_synonym bytes = "8 word list" \<comment> \<open>\<open>std::string\<close>, or the bytes behind a pointer\<close>



text \<open>
  A parsing call returns the bytes it did not consume (a result \<open>>= 0\<close> in the code), the
  error value \<open>-1\<close>, or it dies in a failed \<open>assert\<close>; the build does not define NDEBUG, so
  the assertions are live.
\<close>

datatype parse_result = Rest bytes | Fail | AssertFail

definition parse_ret :: "parse_result \<Rightarrow> int option" where
  "parse_ret x = (case x of Rest r \<Rightarrow> Some (int (length r)) | Fail \<Rightarrow> Some (- 1) | AssertFail \<Rightarrow> None)"

subsection \<open>C strings\<close>

text \<open>
  The length of a \<open>const char *\<close> is found by its terminating 0 byte: a \<open>std::string\<close>
  assigned from it, and \<open>strlen\<close> of it, see the bytes before the first 0.
\<close>

definition c_str :: "bytes \<Rightarrow> bytes" where
  "c_str s = takeWhile (\<lambda>c. c \<noteq> 0) s"

definition strlen :: "bytes \<Rightarrow> nat" where
  "strlen s = length (c_str s)"

lemma c_str_id: "0 \<notin> set s \<Longrightarrow> c_str s = s"
  by (auto simp: c_str_def takeWhile_eq_all_conv)

lemma zero_notin_c_str: "0 \<notin> set (c_str s)"
  by (auto simp: c_str_def dest: set_takeWhileD)

subsection \<open>The copying loops\<close>

text \<open>
  \<open>for (; i < n && dlen > 0;) { buff_[i++] = *data++; dlen--; }\<close>
\<close>

fun fill_buff :: "nat \<Rightarrow> bytes \<Rightarrow> nat \<Rightarrow> bytes \<Rightarrow> bytes \<times> nat \<times> bytes" where
  "fill_buff n buf i [] = (buf, i, [])"
| "fill_buff n buf i (c # cs) =
     (if i < n then fill_buff n (buf[i := c]) (Suc i) cs else (buf, i, c # cs))"

text \<open>
  \<open>for (; k > 0 && dlen > 0;) { s += *data++; --k; --dlen; }\<close>
\<close>

fun take_str :: "nat \<Rightarrow> bytes \<Rightarrow> bytes \<Rightarrow> bytes \<times> nat \<times> bytes" where
  "take_str k s [] = (s, k, [])"
| "take_str k s (c # cs) = (if 0 < k then take_str (k - 1) (s @ [c]) cs else (s, k, c # cs))"

text \<open>What the two loops compute.\<close>

lemma fill_buff_stop [simp]: "n \<le> i \<Longrightarrow> fill_buff n buf i d = (buf, i, d)"
  by (cases d) auto

lemma fill_buff_append:
  "fill_buff n buf i (a @ b) =
     (case fill_buff n buf i a of (buf', i', r) \<Rightarrow> fill_buff n buf' i' (r @ b))"
  by (induction n buf i a rule: fill_buff.induct) (auto simp: fill_buff_stop)

lemma fill_buff_count:
  "fill_buff n buf i d = (buf', i', r) \<Longrightarrow>
     i' = i + (length d - length r) \<and> length r \<le> length d \<and> length buf' = length buf"
proof (induction n buf i d arbitrary: buf' i' r rule: fill_buff.induct)
  case (2 n buf i c cs)
  then show ?case by (fastforce split: if_splits)
qed simp

lemma fill_buff_suffix: "fill_buff n buf i d = (buf', i', r) \<Longrightarrow> suffix r d"
  by (induction n buf i d arbitrary: buf' i' r rule: fill_buff.induct)
     (auto simp: suffix_Cons split: if_splits)

text \<open>The loop stops below its bound only when the input is used up.\<close>

lemma fill_buff_short: "fill_buff n buf i d = (buf', i', r) \<Longrightarrow> i' < n \<Longrightarrow> r = []"
  by (induction n buf i d arbitrary: buf' i' r rule: fill_buff.induct) (auto split: if_splits)

lemma fill_buff_bound: "fill_buff n buf i d = (buf', i', r) \<Longrightarrow> i \<le> n \<Longrightarrow> i' \<le> n"
  by (induction n buf i d arbitrary: buf' i' r rule: fill_buff.induct) (auto split: if_splits)

text \<open>Cutting the input: an unfinished copy goes on with the rest, a finished one ignores it.\<close>

lemma fill_buff_more:
  "fill_buff n buf i a = (buf', i', r) \<Longrightarrow> i' < n \<Longrightarrow> fill_buff n buf i (a @ b) = fill_buff n buf' i' b"
  by (frule fill_buff_short, assumption, subst fill_buff_append, simp)

lemma fill_buff_done:
  "fill_buff n buf i a = (buf', i', r) \<Longrightarrow> n \<le> i' \<Longrightarrow> fill_buff n buf i (a @ b) = (buf', i', r @ b)"
  by (subst fill_buff_append) (simp add: fill_buff_stop)

lemma fill_buff_progress:
  "fill_buff n buf i d = (buf', i', r) \<Longrightarrow> i < n \<Longrightarrow> d \<noteq> [] \<Longrightarrow> length r < length d"
  by (cases d) (auto dest!: fill_buff_count)

lemma fill_buff_mono: "fill_buff n buf i d = (buf', i', r) \<Longrightarrow> i \<le> i'"
  using fill_buff_count by fastforce

text \<open>Two bytes read into an empty two-byte buffer, the case of every length and id field.\<close>

lemma fill_buff_two [simp]:
  "length buf = 2 \<Longrightarrow> fill_buff 2 buf 0 (a # b # d) = ([a, b], 2, d)"
  by (cases buf rule: list.exhaust [case_product list.exhaust [of "tl buf"]])
     (auto simp: fill_buff_stop numeral_2_eq_2 length_Suc_conv)

lemma fill_buff_eq:
  "i + length w = n \<Longrightarrow> n \<le> length buf \<Longrightarrow>
     fill_buff n buf i (w @ r) = (take i buf @ w @ drop n buf, n, r)"
proof (induction w arbitrary: buf i)
  case (Cons c w)
  then show ?case by (simp add: take_Suc_conv_app_nth)
qed simp

lemma fill_buff_all:
  "n \<le> length buf \<Longrightarrow> length w = n \<Longrightarrow> fill_buff n buf 0 (w @ r) = (w @ drop n buf, n, r)"
  using fill_buff_eq [of 0 w n buf r] by simp

lemma take_str_stop [simp]: "take_str 0 s d = (s, 0, d)"
  by (cases d) auto

lemma take_str_eq: "take_str k s d = (s @ take k d, k - length d, drop k d)"
proof (induction k s d rule: take_str.induct)
  case (2 k s c cs)
  then show ?case by (cases k) auto
qed simp

lemma take_str_append:
  "take_str k s (a @ b) = (case take_str k s a of (s', k', r) \<Rightarrow> take_str k' s' (r @ b))"
  by (induction k s a rule: take_str.induct) auto

subsection \<open>Bytes bit by bit\<close>

lemma byte_eqI:
  fixes a b :: byte
  assumes "bit a 0 = bit b 0" "bit a 1 = bit b 1" "bit a 2 = bit b 2" "bit a 3 = bit b 3"
    "bit a 4 = bit b 4" "bit a 5 = bit b 5" "bit a 6 = bit b 6" "bit a 7 = bit b 7"
  shows "a = b"
proof (rule bit_word_eqI)
  fix n assume "n < LENGTH(8)"
  then have "n = 0 \<or> n = 1 \<or> n = 2 \<or> n = 3 \<or> n = 4 \<or> n = 5 \<or> n = 6 \<or> n = 7" by auto
  with assms show "bit a n = bit b n" by auto
qed

lemma nibble_eqI:
  fixes a b :: nibble
  assumes "bit a 0 = bit b 0" "bit a 1 = bit b 1" "bit a 2 = bit b 2" "bit a 3 = bit b 3"
  shows "a = b"
proof (rule bit_word_eqI)
  fix n assume "n < LENGTH(4)"
  then have "n = 0 \<or> n = 1 \<or> n = 2 \<or> n = 3" by auto
  with assms show "bit a n = bit b n" by auto
qed

lemma and_7f: "(x :: byte) AND 0x7f = take_bit 7 x"
proof -
  have "(0x7f :: byte) = mask 7" by (simp add: mask_eq_exp_minus_1)
  then show ?thesis by (simp add: take_bit_eq_mask)
qed

lemma nibble_high [simp]:
  "\<not> bit (f :: nibble) 4" "\<not> bit f 5" "\<not> bit f 6" "\<not> bit f 7"
  by (auto dest: bit_imp_le_length)

lemma and_ff [simp]: "(x :: byte) AND 0xff = x"
  by (rule byte_eqI; simp add: bit_simps)

lemma unat_of_nat_u16 [simp]: "m < 65536 \<Longrightarrow> unat (of_nat m :: u16) = m"
  by (simp add: unat_of_nat)

lemma unat_of_nat_u32 [simp]: "m < 4294967296 \<Longrightarrow> unat (of_nat m :: u32) = m"
  by (simp add: unat_of_nat)

lemma word_eq_of_unat: "unat (w :: u32) = n \<Longrightarrow> w = of_nat n"
  by auto

lemma ucast_of_nat_u16: "n < 65536 \<Longrightarrow> (ucast (of_nat n :: u16) :: u32) = of_nat n"
  by (simp add: unsigned_of_nat take_bit_nat_eq_self)

lemma unat_less_2: "(w :: u32) < 2 \<longleftrightarrow> unat w < 2"
  by (simp add: word_less_nat_alt)

text \<open>Naming the components of a result.\<close>

lemma pair_witness: "P (fst x) (snd x) \<Longrightarrow> \<exists>a b. x = (a, b) \<and> P a b"
  by (cases x) auto

text \<open>A sequence of calls on an object, with the results.\<close>

fun run_calls :: "('c \<Rightarrow> 's \<Rightarrow> 's \<times> 'r) \<Rightarrow> 'c list \<Rightarrow> 's \<Rightarrow> 's \<times> 'r list" where
  "run_calls f [] s = (s, [])"
| "run_calls f (c # cs) s = (case f c s of (s1, r) \<Rightarrow> case run_calls f cs s1 of (s2, rs) \<Rightarrow> (s2, r # rs))"

text \<open>Calls that are allowed in the state they are made in.\<close>

fun calls_ok :: "('c \<Rightarrow> 's \<Rightarrow> bool) \<Rightarrow> ('c \<Rightarrow> 's \<Rightarrow> 's \<times> 'r) \<Rightarrow> 'c list \<Rightarrow> 's \<Rightarrow> bool" where
  "calls_ok ok f [] s = True"
| "calls_ok ok f (c # cs) s = (ok c s \<and> calls_ok ok f cs (fst (f c s)))"

text \<open>An object that simulates another call by call simulates every sequence of calls.\<close>

lemma run_calls_refines:
  assumes step: "\<And>c s t. R s t \<Longrightarrow> ok c t \<Longrightarrow> R (fst (f c s)) (fst (g c t)) \<and> snd (f c s) = snd (g c t)"
  shows "R s t \<Longrightarrow> calls_ok ok g cs t \<Longrightarrow>
     R (fst (run_calls f cs s)) (fst (run_calls g cs t)) \<and> snd (run_calls f cs s) = snd (run_calls g cs t)"
proof (induction cs arbitrary: s t)
  case (Cons c cs)
  from step [OF Cons.prems(1), of c] Cons.prems(2) have
    "R (fst (f c s)) (fst (g c t))" "snd (f c s) = snd (g c t)" by auto
  with Cons.IH [of "fst (f c s)" "fst (g c t)"] Cons.prems(2) show ?case
    by (auto simp: split_beta)
qed simp

end
