(* ===== verification/Stream_Parser.thy ===== *)
theory Stream_Parser
  imports Prelude
begin

text \<open>
  The contract of the streaming parsers.  Each mqtt class has the same loop
  \<open>while (dlen > 0 && !finished_) \<dots> handlers[status_] \<dots>\<close> around its own table of
  handlers.  The locale \<open>stream_parser\<close> states what such a table owes the loop and proves,
  once for all classes, what the loop then gives its caller; that second contract is the
  locale \<open>resumable\<close>, on which the client of the classes rests.
\<close>

subsection \<open>What a caller of \<open>update\<close> relies on\<close>

text \<open>Feeding a parser the successive reads of a connection; parsing stops when the
  object is finished, and the rest of the input is handed back.\<close>

fun feed :: "('s \<Rightarrow> bytes \<Rightarrow> 's \<times> parse_result) \<Rightarrow> 's \<Rightarrow> bytes list \<Rightarrow> 's \<times> parse_result" where
  "feed upd s [] = (s, Rest [])"
| "feed upd s (c # cs) =
     (case upd s c of
        (s', Rest r) \<Rightarrow> (if r = [] then feed upd s' cs else (s', Rest (r @ concat cs)))
      | (s', e) \<Rightarrow> (s', e))"

locale resumable =
  fixes upd :: "'s \<Rightarrow> bytes \<Rightarrow> 's \<times> parse_result"
    and fin :: "'s \<Rightarrow> bool"
    and inv :: "'s \<Rightarrow> bool"
  assumes upd_fin: "fin s \<Longrightarrow> upd s d = (s, Rest d)"
    and upd_nil: "upd s [] = (s, Rest [])"
    and upd_inv: "inv s \<Longrightarrow> inv (fst (upd s d))"
    and upd_safe: "inv s \<Longrightarrow> snd (upd s d) \<noteq> AssertFail"
    and upd_suffix: "upd s d = (s', Rest r) \<Longrightarrow> suffix r d"
    and upd_left: "upd s d = (s', Rest r) \<Longrightarrow> r \<noteq> [] \<Longrightarrow> fin s'"
    and upd_consumes: "inv s \<Longrightarrow> upd s d = (s', Rest r) \<Longrightarrow> \<not> fin s \<Longrightarrow> fin s' \<Longrightarrow> length r < length d"
    and upd_resume: "inv s \<Longrightarrow>
      upd s (a @ b) = (case upd s a of (s', Rest r) \<Rightarrow> upd s' (r @ b) | (s', e) \<Rightarrow> (s', e))"
begin

lemma upd_length: "upd s d = (s', Rest r) \<Longrightarrow> length r \<le> length d"
  by (blast dest: upd_suffix suffix_length_le)

text \<open>The result does not depend on how the input is cut into reads.\<close>

lemma feed_concat: "inv s \<Longrightarrow> feed upd s cs = upd s (concat cs)"
proof (induction cs arbitrary: s)
  case Nil
  show ?case by (simp add: upd_nil)
next
  case (Cons c cs)
  obtain s' x where u: "upd s c = (s', x)" by fastforce
  from Cons.prems u have inv': "inv s'" using upd_inv [of s c] by simp
  show ?case
  proof (cases x)
    case (Rest r)
    show ?thesis
    proof (cases "r = []")
      case True
      with u Rest show ?thesis
        by (simp add: upd_resume [OF Cons.prems] Cons.IH [OF inv'])
    next
      case False
      with u Rest have "fin s'" by (blast dest: upd_left)
      with u Rest False show ?thesis
        by (simp add: upd_resume [OF Cons.prems] upd_fin)
    qed
  qed (use u in \<open>simp_all add: upd_resume [OF Cons.prems]\<close>)
qed

end

subsection \<open>What a table of handlers owes the loop\<close>

text \<open>
  A handler that gets \<open>a\<close> now and \<open>b\<close> later does what it does with both at once: either it
  is done within \<open>a\<close>, or it uses up \<open>a\<close> and takes \<open>b\<close> as its next input.
\<close>

definition chunk_ok ::
  "('s \<Rightarrow> bytes \<Rightarrow> 's \<times> parse_result) \<Rightarrow> ('s \<Rightarrow> bool) \<Rightarrow> 's \<Rightarrow> bytes \<Rightarrow> bytes \<Rightarrow> bool" where
  "chunk_ok handle fin s a b \<longleftrightarrow>
     (case handle s a of
        (s', Rest r) \<Rightarrow> handle s (a @ b) = (s', Rest (r @ b))
          \<or> (r = [] \<and> \<not> fin s' \<and> handle s (a @ b) = handle s' b)
      | (s', e) \<Rightarrow> handle s (a @ b) = (s', e))"

text \<open>
  The two shapes of handler: fill a fixed buffer (\<open>P\<close> is the state while it fills, \<open>K\<close> the
  state and verdict once it is full), and append to a string until a count is used up.
\<close>

definition fill_phase ::
  "nat \<Rightarrow> (bytes \<Rightarrow> nat \<Rightarrow> 's) \<Rightarrow> (bytes \<Rightarrow> nat \<Rightarrow> 's \<times> bool) \<Rightarrow> bytes \<Rightarrow> nat \<Rightarrow> bytes \<Rightarrow> 's \<times> parse_result" where
  "fill_phase n P K buf i d =
     (case fill_buff n buf i d of (buf', i', r) \<Rightarrow>
        if i' < n then (P buf' i', if r \<noteq> [] then AssertFail else Rest r)
        else case K buf' i' of (s', ok) \<Rightarrow> (s', if ok then Rest r else Fail))"

definition take_phase ::
  "(bytes \<Rightarrow> nat \<Rightarrow> 's) \<Rightarrow> (bytes \<Rightarrow> 's \<times> bool) \<Rightarrow> bytes \<Rightarrow> nat \<Rightarrow> bytes \<Rightarrow> 's \<times> parse_result" where
  "take_phase P K str k d =
     (case take_str k str d of (str', k', r) \<Rightarrow>
        if k' > 0 then (P str' k', if r \<noteq> [] then AssertFail else Rest r)
        else case K str' of (s', ok) \<Rightarrow> (s', if ok then Rest r else Fail))"

lemma fill_phase_safe: "snd (fill_phase n P K buf i d) \<noteq> AssertFail"
  by (auto simp: fill_phase_def split: prod.splits dest: fill_buff_short)

lemma take_phase_safe: "snd (take_phase P K str k d) \<noteq> AssertFail"
  by (auto simp: take_phase_def take_str_eq split: prod.splits)

lemma chunk_fill:
  assumes h: "\<And>d. d \<noteq> [] \<Longrightarrow> handle s d = fill_phase n P K buf i d"
    and h': "\<And>buf' i' d. d \<noteq> [] \<Longrightarrow> i \<le> i' \<Longrightarrow> i' < n \<Longrightarrow> length buf' = length buf \<Longrightarrow>
      \<not> fin (P buf' i') \<and> handle (P buf' i') d = fill_phase n P K buf' i' d"
    and "a \<noteq> []" "b \<noteq> []"
  shows "chunk_ok handle fin s a b"
proof -
  obtain buf' i' r where f: "fill_buff n buf i a = (buf', i', r)" by (metis prod_cases3)
  show ?thesis
  proof (cases "i' < n")
    case True
    from fill_buff_short [OF f True] fill_buff_count [OF f] fill_buff_more [OF f True, of b]
      True f assms(3,4) h' [of b i' buf']
    show ?thesis by (auto simp: chunk_ok_def h fill_phase_def)
  next
    case False
    then have "n \<le> i'" by simp
    from fill_buff_done [OF f this, of b] False f assms(3,4)
    show ?thesis by (auto simp: chunk_ok_def h fill_phase_def split: prod.splits)
  qed
qed

lemma chunk_take:
  assumes h: "\<And>d. d \<noteq> [] \<Longrightarrow> handle s d = take_phase P K str k d"
    and h': "\<And>p d. d \<noteq> [] \<Longrightarrow> length p < k \<Longrightarrow>
      \<not> fin (P (str @ p) (k - length p)) \<and>
      handle (P (str @ p) (k - length p)) d = take_phase P K (str @ p) (k - length p) d"
    and "a \<noteq> []" "b \<noteq> []"
  shows "chunk_ok handle fin s a b"
proof (cases "length a < k")
  case True
  with assms(3,4) h' [of b a] show ?thesis
    by (simp add: chunk_ok_def h take_phase_def take_str_eq)
next
  case False
  with assms(3,4) show ?thesis
    by (auto simp: chunk_ok_def h take_phase_def take_str_eq split: prod.splits)
qed

text \<open>A handler that is done without reading is cut trivially.\<close>

lemma chunk_still: "(\<And>d. d \<noteq> [] \<Longrightarrow> handle s d = (s', Rest d)) \<Longrightarrow> a \<noteq> [] \<Longrightarrow> chunk_ok handle fin s a b"
  by (simp add: chunk_ok_def)

lemma chunk_fail: "(\<And>d. d \<noteq> [] \<Longrightarrow> handle s d = (s', Fail)) \<Longrightarrow> a \<noteq> [] \<Longrightarrow> chunk_ok handle fin s a b"
  by (simp add: chunk_ok_def)

text \<open>What the two shapes consume, and what they keep.\<close>

lemma fill_phase_suffix: "fill_phase n P K buf i d = (s', Rest r) \<Longrightarrow> suffix r d"
  by (auto simp: fill_phase_def split: prod.splits if_splits dest: fill_buff_suffix)

lemma take_phase_suffix: "take_phase P K str k d = (s', Rest r) \<Longrightarrow> suffix r d"
  by (auto simp: take_phase_def take_str_eq suffix_drop split: prod.splits if_splits)

lemma fill_phase_length:
  "fill_phase n P K buf i d = (s', Rest r) \<Longrightarrow> i < n \<Longrightarrow> d \<noteq> [] \<Longrightarrow> length r < length d"
  by (auto simp: fill_phase_def split: prod.splits if_splits dest: fill_buff_progress)

lemma take_phase_length:
  "take_phase P K str k d = (s', Rest r) \<Longrightarrow> 0 < k \<Longrightarrow> d \<noteq> [] \<Longrightarrow> length r < length d"
  by (auto simp: take_phase_def take_str_eq split: prod.splits if_splits)

lemma fill_phase_keeps:
  assumes "\<And>buf' i'. length buf' = length buf \<Longrightarrow> i \<le> i' \<Longrightarrow> i' < n \<Longrightarrow> Q (P buf' i')"
    and "\<And>buf' i'. length buf' = length buf \<Longrightarrow> i \<le> i' \<Longrightarrow> n \<le> i' \<Longrightarrow> Q (fst (K buf' i'))"
  shows "Q (fst (fill_phase n P K buf i d))"
proof -
  obtain buf' i' r where f: "fill_buff n buf i d = (buf', i', r)" by (metis prod_cases3)
  from fill_buff_count [OF f] have "length buf' = length buf" "i \<le> i'" by auto
  with f assms(1) [of buf' i'] assms(2) [of buf' i'] show ?thesis
    by (auto simp: fill_phase_def split: prod.splits)
qed

lemma take_phase_keeps:
  assumes "\<And>p. length p < k \<Longrightarrow> Q (P (str @ p) (k - length p))"
    and "Q (fst (K (str @ take k d)))"
  shows "Q (fst (take_phase P K str k d))"
proof (cases "length d < k")
  case True
  with assms(1) [of d] show ?thesis by (simp add: take_phase_def take_str_eq)
next
  case False
  with assms(2) show ?thesis by (auto simp: take_phase_def take_str_eq split: prod.splits)
qed

text \<open>The two shapes when the input holds all they want.\<close>

lemma fill_phase_all:
  "n \<le> length buf \<Longrightarrow> length w = n \<Longrightarrow>
     fill_phase n P K buf 0 (w @ r) =
       (case K (w @ drop n buf) n of (s', ok) \<Rightarrow> (s', if ok then Rest r else Fail))"
  by (simp add: fill_phase_def fill_buff_all)

lemma take_phase_all:
  "take_phase P K str (length w) (w @ r) =
     (case K (str @ w) of (s', ok) \<Rightarrow> (s', if ok then Rest r else Fail))"
  by (simp add: take_phase_def take_str_eq)

locale stream_parser =
  fixes handle :: "'s \<Rightarrow> bytes \<Rightarrow> 's \<times> parse_result"
    and fin :: "'s \<Rightarrow> bool"
    and loop :: "'s \<Rightarrow> bytes \<Rightarrow> 's \<times> parse_result"
    and rank :: "'s \<Rightarrow> nat"
    and inv :: "'s \<Rightarrow> bool"
  assumes loop_unfold: "loop s d =
      (if d = [] \<or> fin s then (s, Rest d)
       else case handle s d of (s', Rest r) \<Rightarrow> loop s' r | (s', e) \<Rightarrow> (s', e))"
    and handle_inv: "inv s \<Longrightarrow> \<not> fin s \<Longrightarrow> d \<noteq> [] \<Longrightarrow> inv (fst (handle s d))"
    and handle_safe: "inv s \<Longrightarrow> \<not> fin s \<Longrightarrow> d \<noteq> [] \<Longrightarrow> snd (handle s d) \<noteq> AssertFail"
    and handle_suffix: "handle s d = (s', Rest r) \<Longrightarrow> suffix r d"
    and handle_progress: "handle s d = (s', Rest r) \<Longrightarrow> d \<noteq> [] \<Longrightarrow> \<not> fin s \<Longrightarrow>
      length r < length d \<or> r = d \<and> rank s' < rank s"
    and handle_consumes: "inv s \<Longrightarrow> handle s d = (s', Rest r) \<Longrightarrow> d \<noteq> [] \<Longrightarrow> \<not> fin s \<Longrightarrow> fin s' \<Longrightarrow>
      length r < length d"
    and handle_chunk: "inv s \<Longrightarrow> \<not> fin s \<Longrightarrow> a \<noteq> [] \<Longrightarrow> b \<noteq> [] \<Longrightarrow> chunk_ok handle fin s a b"
begin

lemma loop_stop [simp]: "loop s [] = (s, Rest [])" "fin s \<Longrightarrow> loop s d = (s, Rest d)"
  by (subst loop_unfold, simp)+

lemma loop_step:
  "d \<noteq> [] \<Longrightarrow> \<not> fin s \<Longrightarrow> loop s d =
     (case handle s d of (s', Rest r) \<Rightarrow> loop s' r | (s', e) \<Rightarrow> (s', e))"
  by (subst loop_unfold) simp

lemma loop_stepE:
  assumes "loop s d = (s', Rest r)" "d \<noteq> []" "\<not> fin s"
  obtains s1 r1 where "handle s d = (s1, Rest r1)" "loop s1 r1 = (s', Rest r)"
  using assms by (auto simp: loop_step split: prod.splits parse_result.splits)

text \<open>Induction over the iterations of the loop: an iteration consumes input or, leaving it
  as it is, moves to a state of lower rank.\<close>

lemma loop_induct [case_names step]:
  assumes "\<And>s d. (\<And>s' r. d \<noteq> [] \<Longrightarrow> \<not> fin s \<Longrightarrow> handle s d = (s', Rest r) \<Longrightarrow> P s' r) \<Longrightarrow> P s d"
  shows "P s d"
proof (induction "(s, d)" arbitrary: s d
    rule: wf_induct_rule [OF wf_measures [of "[\<lambda>(s, d). length d, \<lambda>(s, d). rank s]"]])
  case (1 s d)
  show ?case
  proof (rule assms)
    fix s' r assume h: "d \<noteq> []" "\<not> fin s" "handle s d = (s', Rest r)"
    from handle_progress [OF h(3,1,2)]
    show "P s' r" by (intro 1) auto
  qed
qed

lemma loop_inv: "inv s \<Longrightarrow> inv (fst (loop s d))"
proof (induction s d rule: loop_induct)
  case (step s d)
  show ?case
  proof (cases "d = [] \<or> fin s")
    case True
    with step.prems show ?thesis by auto
  next
    case False
    then have d: "d \<noteq> []" and f: "\<not> fin s" by auto
    obtain s' x where h: "handle s d = (s', x)" by fastforce
    with handle_inv [OF step.prems f d] have "inv s'" by simp
    with step.IH [OF d f] h show ?thesis
      by (cases x) (simp_all add: loop_step [OF d f])
  qed
qed

lemma loop_safe: "inv s \<Longrightarrow> snd (loop s d) \<noteq> AssertFail"
proof (induction s d rule: loop_induct)
  case (step s d)
  show ?case
  proof (cases "d = [] \<or> fin s")
    case True
    then show ?thesis by auto
  next
    case False
    then have d: "d \<noteq> []" and f: "\<not> fin s" by auto
    obtain s' x where h: "handle s d = (s', x)" by fastforce
    from handle_inv [OF step.prems f d] handle_safe [OF step.prems f d] h
    have "inv s'" "x \<noteq> AssertFail" by simp_all
    with step.IH [OF d f] h show ?thesis
      by (cases x) (simp_all add: loop_step [OF d f])
  qed
qed

lemma loop_suffix: "loop s d = (s', Rest r) \<Longrightarrow> suffix r d"
proof (induction s d rule: loop_induct)
  case (step s d)
  show ?case
  proof (cases "d = [] \<or> fin s")
    case True
    with step.prems show ?thesis by auto
  next
    case False
    then have d: "d \<noteq> []" and f: "\<not> fin s" by auto
    from step.prems d f obtain s1 r1 where h: "handle s d = (s1, Rest r1)" and l: "loop s1 r1 = (s', Rest r)"
      by (rule loop_stepE)
    from step.IH [OF d f h l] handle_suffix [OF h] show ?thesis
      by (rule suffix_order.trans)
  qed
qed

lemma loop_left: "loop s d = (s', Rest r) \<Longrightarrow> r \<noteq> [] \<Longrightarrow> fin s'"
proof (induction s d rule: loop_induct)
  case (step s d)
  show ?case
  proof (cases "d = [] \<or> fin s")
    case True
    with step.prems show ?thesis by auto
  next
    case False
    then have d: "d \<noteq> []" and f: "\<not> fin s" by auto
    with step show ?thesis
      by (auto simp: loop_step [OF d f] split: prod.splits parse_result.splits)
  qed
qed

lemma loop_consumes:
  "inv s \<Longrightarrow> loop s d = (s', Rest r) \<Longrightarrow> \<not> fin s \<Longrightarrow> fin s' \<Longrightarrow> length r < length d"
proof (induction s d rule: loop_induct)
  case (step s d)
  show ?case
  proof (cases "d = []")
    case True
    with step.prems show ?thesis by auto
  next
    case False
    note d = this and f = step.prems(3)
    from step.prems(2) d f obtain s1 r1 where h: "handle s d = (s1, Rest r1)" and l: "loop s1 r1 = (s', Rest r)"
      by (rule loop_stepE)
    from handle_inv [OF step.prems(1) f d] h have inv1: "inv s1" by simp
    from loop_suffix [OF l] have le: "length r \<le> length r1" by (rule suffix_length_le)
    show ?thesis
    proof (cases "fin s1")
      case True
      from handle_consumes [OF step.prems(1) h d f True] le show ?thesis by simp
    next
      case False
      from step.IH [OF d f h inv1 l False step.prems(4)] handle_progress [OF h d f] show ?thesis by auto
    qed
  qed
qed

lemma loop_resume:
  "inv s \<Longrightarrow>
    loop s (a @ b) = (case loop s a of (s', Rest r) \<Rightarrow> loop s' (r @ b) | (s', e) \<Rightarrow> (s', e))"
proof (induction s a rule: loop_induct)
  case (step s a)
  show ?case
  proof (cases "a = [] \<or> fin s \<or> b = []")
    case True
    then consider "a = []" | "fin s" | "b = []" by blast
    then show ?thesis
    proof cases
      case 3
      have "loop s' r = (s', Rest r)" if "loop s a = (s', Rest r)" for s' r
        using loop_left [OF that] by (cases "r = []") auto
      with 3 show ?thesis by (auto split: prod.splits parse_result.splits)
    qed auto
  next
    case False
    then have a: "a \<noteq> []" and f: "\<not> fin s" and b: "b \<noteq> []" by auto
    obtain s' x where h: "handle s a = (s', x)" by fastforce
    from handle_inv [OF step.prems f a] h have inv': "inv s'" by simp
    note c = handle_chunk [OF step.prems f a b, unfolded chunk_ok_def h]
    show ?thesis
    proof (cases x)
      case (Rest r)
      have IH: "loop s' (r @ b) = (case loop s' r of (s'', Rest r') \<Rightarrow> loop s'' (r' @ b) | (s'', e) \<Rightarrow> (s'', e))"
        using step.IH [OF a f] h Rest inv' by simp
      from c Rest consider "handle s (a @ b) = (s', Rest (r @ b))"
        | "r = []" "\<not> fin s'" "handle s (a @ b) = handle s' b" by auto
      then show ?thesis
      proof cases
        case 1
        with a f h Rest IH show ?thesis by (simp add: loop_step)
      next
        case 2
        with a b f h Rest show ?thesis by (simp add: loop_step)
      qed
    qed (use c a f h in \<open>simp_all add: loop_step\<close>)
  qed
qed

end

text \<open>The loop of a well-behaved table is resumable.\<close>

sublocale stream_parser \<subseteq> resumable loop fin inv
  by unfold_locales
     (auto intro: loop_inv loop_suffix loop_left loop_consumes loop_resume dest: loop_safe)

end
