(* ===== verification/Mqtt_Header.thy ===== *)
theory Mqtt_Header
  imports Stream_Parser
begin

text \<open>
  The mqtt fixed header (cpp/include/nio/mqtt/mqtt_header.hpp, cpp/src/mqtt/mqtt_header.cpp):
  the packet types and their table of constraints, the header object with its setters and
  getters, the serializer \<open>build_header\<close> and the streaming parser \<open>update\<close>.  The
  remaining length is specified by the recursive variable-length code \<open>vbi\<close> on natural
  numbers, which serializer and parser are shown to implement.
\<close>

subsection \<open>Enumerations and the table of constraints\<close>

datatype mqtt_type =
    MQTT_RESERVED_MIN | MQTT_CONNECT | MQTT_CONNACK | MQTT_PUBLISH | MQTT_PUBACK
  | MQTT_PUBREC | MQTT_PUBREL | MQTT_PUBCOMP | MQTT_SUBSCRIBE | MQTT_SUBACK
  | MQTT_UNSUBSCRIBE | MQTT_UNSUBACK | MQTT_PINGREQ | MQTT_PINGRESP | MQTT_DISCONNECT
  | MQTT_RESERVED_MAX

definition mqtt_types :: "mqtt_type list" where
  "mqtt_types =
    [MQTT_RESERVED_MIN, MQTT_CONNECT, MQTT_CONNACK, MQTT_PUBLISH, MQTT_PUBACK,
     MQTT_PUBREC, MQTT_PUBREL, MQTT_PUBCOMP, MQTT_SUBSCRIBE, MQTT_SUBACK,
     MQTT_UNSUBSCRIBE, MQTT_UNSUBACK, MQTT_PINGREQ, MQTT_PINGRESP, MQTT_DISCONNECT,
     MQTT_RESERVED_MAX]"

text \<open>The numeric value of an enumerator.\<close>

primrec type_code :: "mqtt_type \<Rightarrow> nat" where
  "type_code MQTT_RESERVED_MIN = 0"
| "type_code MQTT_CONNECT = 1"
| "type_code MQTT_CONNACK = 2"
| "type_code MQTT_PUBLISH = 3"
| "type_code MQTT_PUBACK = 4"
| "type_code MQTT_PUBREC = 5"
| "type_code MQTT_PUBREL = 6"
| "type_code MQTT_PUBCOMP = 7"
| "type_code MQTT_SUBSCRIBE = 8"
| "type_code MQTT_SUBACK = 9"
| "type_code MQTT_UNSUBSCRIBE = 10"
| "type_code MQTT_UNSUBACK = 11"
| "type_code MQTT_PINGREQ = 12"
| "type_code MQTT_PINGRESP = 13"
| "type_code MQTT_DISCONNECT = 14"
| "type_code MQTT_RESERVED_MAX = 15"

text \<open>The cast \<open>(mqtt_type_t) n\<close> of a value in the range of the enumeration.\<close>

definition type_of_code :: "nat \<Rightarrow> mqtt_type" where
  "type_of_code n = mqtt_types ! n"

lemma type_of_type_code [simp]: "type_of_code (type_code t) = t"
  by (cases t) (simp_all add: type_of_code_def mqtt_types_def)

lemma type_code_less: "type_code t < 16"
  by (cases t) simp_all

lemma type_code_of_type: "n < 16 \<Longrightarrow> type_code (type_of_code n) = n"
  by (simp add: type_of_code_def mqtt_types_def numeral_eq_Suc less_Suc_eq)
     (elim disjE; simp)

lemma type_code_inject [simp]: "type_code s = type_code t \<longleftrightarrow> s = t"
  using type_of_type_code by metis

text \<open>The code compares types as integers.\<close>

instantiation mqtt_type :: linorder
begin

definition less_eq_mqtt_type :: "mqtt_type \<Rightarrow> mqtt_type \<Rightarrow> bool" where
  "less_eq_mqtt_type s t \<longleftrightarrow> type_code s \<le> type_code t"

definition less_mqtt_type :: "mqtt_type \<Rightarrow> mqtt_type \<Rightarrow> bool" where
  "less_mqtt_type s t \<longleftrightarrow> type_code s < type_code t"

instance
  by standard (auto simp: less_eq_mqtt_type_def less_mqtt_type_def)

end

datatype mqtt_option = MQTT_NONE | MQTT_NEED | MQTT_MAYBE

datatype mqtt_qos = MQTT_QOS0 | MQTT_QOS1 | MQTT_QOS2

primrec qos_code :: "mqtt_qos \<Rightarrow> nat" where
  "qos_code MQTT_QOS0 = 0"
| "qos_code MQTT_QOS1 = 1"
| "qos_code MQTT_QOS2 = 2"

instantiation mqtt_qos :: linorder
begin

definition less_eq_mqtt_qos :: "mqtt_qos \<Rightarrow> mqtt_qos \<Rightarrow> bool" where
  "less_eq_mqtt_qos p q \<longleftrightarrow> qos_code p \<le> qos_code q"

definition less_mqtt_qos :: "mqtt_qos \<Rightarrow> mqtt_qos \<Rightarrow> bool" where
  "less_mqtt_qos p q \<longleftrightarrow> qos_code p < qos_code q"

instance
proof
  fix p q :: mqtt_qos
  show "p \<le> q \<Longrightarrow> q \<le> p \<Longrightarrow> p = q"
    by (cases p; cases q) (simp_all add: less_eq_mqtt_qos_def)
qed (auto simp: less_eq_mqtt_qos_def less_mqtt_qos_def)

end

record mqtt_constrain =
  mc_type :: mqtt_type
  mc_flags :: nibble
  mc_id :: mqtt_option
  mc_payload :: mqtt_option
  mc_desc :: string

definition mk_constrain ::
  "mqtt_type \<Rightarrow> nibble \<Rightarrow> mqtt_option \<Rightarrow> mqtt_option \<Rightarrow> string \<Rightarrow> mqtt_constrain" where
  "mk_constrain t f i p d =
     \<lparr>mc_type = t, mc_flags = f, mc_id = i, mc_payload = p, mc_desc = d\<rparr>"

definition constrains_table :: "mqtt_constrain list" where
  "constrains_table =
    [mk_constrain MQTT_RESERVED_MIN 0x0 MQTT_NONE MQTT_NONE ''RESERVED'',
     mk_constrain MQTT_CONNECT 0x0 MQTT_NONE MQTT_NEED ''CONNECT'',
     mk_constrain MQTT_CONNACK 0x0 MQTT_NONE MQTT_NONE ''CONNACK'',
     mk_constrain MQTT_PUBLISH 0xf MQTT_MAYBE MQTT_MAYBE ''PUBLISH'',
     mk_constrain MQTT_PUBACK 0x0 MQTT_NEED MQTT_NONE ''PUBACK'',
     mk_constrain MQTT_PUBREC 0x0 MQTT_NEED MQTT_NONE ''PUBREC'',
     mk_constrain MQTT_PUBREL 0x2 MQTT_NEED MQTT_NONE ''PUBREL'',
     mk_constrain MQTT_PUBCOMP 0x0 MQTT_NEED MQTT_NONE ''PUBCOMP'',
     mk_constrain MQTT_SUBSCRIBE 0x2 MQTT_NEED MQTT_NEED ''SUBSCRIBE'',
     mk_constrain MQTT_SUBACK 0x0 MQTT_NEED MQTT_NEED ''SUBACK'',
     mk_constrain MQTT_UNSUBSCRIBE 0x2 MQTT_NEED MQTT_NEED ''UNSUBSCRIBE'',
     mk_constrain MQTT_UNSUBACK 0x0 MQTT_NEED MQTT_NONE ''UNSUBACK'',
     mk_constrain MQTT_PINGREQ 0x0 MQTT_NONE MQTT_NONE ''PINGREQ'',
     mk_constrain MQTT_PINGRESP 0x0 MQTT_NONE MQTT_NONE ''PINGRESP'',
     mk_constrain MQTT_DISCONNECT 0x0 MQTT_NONE MQTT_NONE ''DISCONNECT'',
     mk_constrain MQTT_RESERVED_MAX 0x0 MQTT_NONE MQTT_NONE ''RESERVED'']"

definition mqtt_type_desc :: "mqtt_type \<Rightarrow> string" where
  "mqtt_type_desc type =
     (if type \<le> MQTT_RESERVED_MIN \<or> type \<ge> MQTT_RESERVED_MAX then ''unknown''
      else mc_desc (constrains_table ! type_code type))"

definition mqtt_qos_desc :: "mqtt_qos \<Rightarrow> string" where
  "mqtt_qos_desc qos =
     (case qos of MQTT_QOS0 \<Rightarrow> ''QOS0'' | MQTT_QOS1 \<Rightarrow> ''QOS1'' | MQTT_QOS2 \<Rightarrow> ''QOS2'')"

text \<open>The table is indexed by the enumerators in order.\<close>

lemma constrains_table_types: "map mc_type constrains_table = mqtt_types"
  by (simp add: constrains_table_def mqtt_types_def mk_constrain_def)

subsection \<open>The header object\<close>

datatype hdr_status = STAT_HDR_TYPE | STAT_HDR_LEN

record mqtt_header =
  hbuf :: bytes          \<comment> \<open>\<open>char hbuf_[4]\<close>\<close>
  hlen :: nat            \<comment> \<open>\<open>unsigned hlen_\<close>, at most 4\<close>
  hdlen :: u32           \<comment> \<open>\<open>unsigned dlen_\<close>\<close>
  hstatus :: hdr_status
  htype :: mqtt_type
  hflags :: nibble       \<comment> \<open>\<open>unsigned char hflags_:4\<close>\<close>
  hfinished :: bool

text \<open>
  The array \<open>hbuf_\<close> is not initialised by the constructors; the parser reads of it only
  what it has stored before, so any contents serve.
\<close>

definition mqtt_header_new :: "mqtt_type \<Rightarrow> mqtt_header" where
  "mqtt_header_new type =
     \<lparr>hbuf = replicate 4 0, hlen = 0, hdlen = 0, hstatus = STAT_HDR_TYPE,
      htype = type, hflags = 0, hfinished = False\<rparr>"

text \<open>The assertion of that constructor.\<close>

definition mqtt_header_new_pre :: "mqtt_type \<Rightarrow> bool" where
  "mqtt_header_new_pre type \<longleftrightarrow> type \<ge> MQTT_RESERVED_MIN \<and> type < MQTT_RESERVED_MAX"

definition mqtt_header_copy :: "mqtt_header \<Rightarrow> mqtt_header" where
  "mqtt_header_copy h =
     \<lparr>hbuf = replicate 4 0, hlen = 0, hdlen = hdlen h, hstatus = STAT_HDR_TYPE,
      htype = htype h, hflags = hflags h, hfinished = False\<rparr>"

definition hdr_reset :: "mqtt_header \<Rightarrow> mqtt_header" where
  "hdr_reset h = h\<lparr>hstatus := STAT_HDR_TYPE, hfinished := False, htype := MQTT_RESERVED_MIN,
     hflags := 0, hdlen := 0, hlen := 0\<rparr>"

definition hdr_set_type :: "mqtt_type \<Rightarrow> mqtt_header \<Rightarrow> mqtt_header" where
  "hdr_set_type type h =
     (if type > MQTT_RESERVED_MIN \<and> type < MQTT_RESERVED_MAX then h\<lparr>htype := type\<rparr> else h)"

definition hdr_set_header_flags :: "byte \<Rightarrow> mqtt_header \<Rightarrow> mqtt_header" where
  "hdr_set_header_flags flags h = h\<lparr>hflags := ucast (flags AND 0x0f)\<rparr>"

definition hdr_set_remaing_length :: "u32 \<Rightarrow> mqtt_header \<Rightarrow> mqtt_header" where
  "hdr_set_remaing_length len h = h\<lparr>hdlen := len\<rparr>"

definition hdr_set_qos :: "mqtt_qos \<Rightarrow> mqtt_header \<Rightarrow> mqtt_header" where
  "hdr_set_qos qos h =
     (let f = hflags h AND NOT (push_bit 2 1 OR push_bit 1 1)
      in case qos of
           MQTT_QOS1 \<Rightarrow> h\<lparr>hflags := f OR push_bit 1 1\<rparr>
         | MQTT_QOS2 \<Rightarrow> h\<lparr>hflags := f OR push_bit 2 1\<rparr>
         | MQTT_QOS0 \<Rightarrow> h\<lparr>hflags := f\<rparr>)"

definition hdr_set_dup :: "bool \<Rightarrow> mqtt_header \<Rightarrow> mqtt_header" where
  "hdr_set_dup yes h =
     (if yes then h\<lparr>hflags := hflags h OR push_bit 3 1\<rparr>
      else h\<lparr>hflags := hflags h AND NOT (push_bit 3 1)\<rparr>)"

definition hdr_set_remain :: "bool \<Rightarrow> mqtt_header \<Rightarrow> mqtt_header" where
  "hdr_set_remain yes h =
     (if yes then h\<lparr>hflags := hflags h OR 0x01\<rparr>
      else h\<lparr>hflags := hflags h AND NOT 0x01\<rparr>)"

definition hdr_get_header_flags :: "mqtt_header \<Rightarrow> byte" where
  "hdr_get_header_flags h = ucast (hflags h)"

definition flags_qos :: "nibble \<Rightarrow> mqtt_qos" where
  "flags_qos f =
     (let v = drop_bit 1 f AND 0x03
      in if v = 1 then MQTT_QOS1 else if v = 2 then MQTT_QOS2 else MQTT_QOS0)"

definition hdr_get_qos :: "mqtt_header \<Rightarrow> mqtt_qos" where
  "hdr_get_qos h = flags_qos (hflags h)"

definition hdr_is_dup :: "mqtt_header \<Rightarrow> bool" where
  "hdr_is_dup h \<longleftrightarrow> hflags h AND 0x08 \<noteq> 0"

definition hdr_is_remain :: "mqtt_header \<Rightarrow> bool" where
  "hdr_is_remain h \<longleftrightarrow> hflags h AND 0x01 \<noteq> 0"

lemmas hdr_set_defs =
  hdr_set_type_def hdr_set_header_flags_def hdr_set_remaing_length_def hdr_set_qos_def
  hdr_set_dup_def hdr_set_remain_def

subsection \<open>Serializing\<close>

text \<open>\<open>out\<close> is the string appended to; the flag is the returned \<open>bool\<close>.\<close>

definition build_header :: "mqtt_header \<Rightarrow> bytes \<Rightarrow> mqtt_header \<times> bytes \<times> bool" where
  "build_header h0 out =
     (let flags = hdr_get_header_flags h0;
          h = h0\<lparr>hflags := hflags h0 OR ucast (flags AND 0x0f)\<rparr>;
          b0 = push_bit 4 (of_nat (type_code (htype h))) OR ucast (hflags h);
          d = hdlen h
      in if d < 128 then
           (h, out @ [b0, ucast (d AND 0x7f)], True)
         else if d < 16384 then
           (h, out @ [b0, ucast d AND 0x7f OR 0x80,
                          ucast (drop_bit 7 d) AND 0x7f], True)
         else if d < 2097152 then
           (h, out @ [b0, ucast d AND 0x7f OR 0x80,
                          ucast (drop_bit 7 d) AND 0x7f OR 0x80,
                          ucast (drop_bit 14 d) AND 0x7f], True)
         else if d < 268435456 then
           (h, out @ [b0, ucast d AND 0x7f OR 0x80,
                          ucast (drop_bit 7 d) AND 0x7f OR 0x80,
                          ucast (drop_bit 14 d) AND 0x7f OR 0x80,
                          ucast (drop_bit 21 d) AND 0x7f], True)
         else (h, out, False))"

subsection \<open>Parsing\<close>

definition update_header_type :: "mqtt_header \<Rightarrow> bytes \<Rightarrow> mqtt_header \<times> parse_result" where
  "update_header_type h data =
     (case data of
        [] \<Rightarrow> (h, AssertFail)
      | ch # rest \<Rightarrow>
          (let type = unat (drop_bit 4 (ch AND 0xff))
           in if type \<le> type_code MQTT_RESERVED_MIN \<or> type \<ge> type_code MQTT_RESERVED_MAX
              then (h, Fail)
              else (h\<lparr>htype := type_of_code type, hflags := ucast (ch AND 0x0f),
                      hstatus := STAT_HDR_LEN, hlen := 0\<rparr>, Rest rest)))"

text \<open>
  \<open>for (; hlen_ < sizeof(hbuf_) && dlen > 0;)\<close> with its \<open>break\<close> at the byte whose
  continuation bit is clear.
\<close>

fun read_len :: "bytes \<Rightarrow> nat \<Rightarrow> bytes \<Rightarrow> bytes \<times> nat \<times> bytes" where
  "read_len buf n [] = (buf, n, [])"
| "read_len buf n (c # cs) =
     (if n < 4
      then if c AND 0x80 = 0 then (buf[n := c], Suc n, cs)
           else read_len (buf[n := c]) (Suc n) cs
      else (buf, n, c # cs))"

text \<open>\<open>for (i = 0; i < hlen_; i++) dlen_ |= (unsigned) ((hbuf_[i] & 0x7f) << (7 * i));\<close>\<close>

definition decode_len :: "bytes \<Rightarrow> nat \<Rightarrow> u32" where
  "decode_len buf n =
     foldl (\<lambda>d i. d OR push_bit (7 * i) (ucast (buf ! i AND 0x7f))) 0 [0..<n]"

definition update_header_len :: "mqtt_header \<Rightarrow> bytes \<Rightarrow> mqtt_header \<times> parse_result" where
  "update_header_len h data =
     (if data = [] then (h, AssertFail)
      else if hlen h \<ge> 4 then (h, Fail)
      else case read_len (hbuf h) (hlen h) data of (buf, n, rest) \<Rightarrow>
        (let h' = h\<lparr>hbuf := buf, hlen := n\<rparr>
         in if \<not> (n > 0 \<and> n \<le> 4) then (h', AssertFail)
            else if buf ! (n - 1) AND 0x80 \<noteq> 0 then
              (if n = 4 then (h', Fail)
               else if rest \<noteq> [] then (h', AssertFail)
               else (h', Rest rest))
            else (h'\<lparr>hdlen := decode_len buf n, hfinished := True\<rparr>, Rest rest)))"

definition hdr_handle :: "mqtt_header \<Rightarrow> bytes \<Rightarrow> mqtt_header \<times> parse_result" where
  "hdr_handle h data =
     (case hstatus h of
        STAT_HDR_TYPE \<Rightarrow> update_header_type h data
      | STAT_HDR_LEN \<Rightarrow> update_header_len h data)"

lemma read_len_progress:
  "read_len buf n d = (buf', n', r) \<Longrightarrow> n < 4 \<Longrightarrow> d \<noteq> [] \<Longrightarrow> length r < length d"
proof (induction buf n d arbitrary: buf' n' r rule: read_len.induct)
  case (2 buf n c cs)
  then show ?case
    by (cases "cs = [] \<or> \<not> Suc n < 4") (auto split: if_splits elim: read_len.elims)
qed simp

lemma hdr_handle_length:
  "hdr_handle h d = (h', Rest r) \<Longrightarrow> d \<noteq> [] \<Longrightarrow> length r < length d"
  by (auto simp: hdr_handle_def update_header_type_def update_header_len_def Let_def
      split: hdr_status.splits list.splits if_splits prod.splits dest: read_len_progress)

text \<open>\<open>while (dlen > 0 && !finished_)\<close>\<close>

function hdr_loop :: "mqtt_header \<Rightarrow> bytes \<Rightarrow> mqtt_header \<times> parse_result" where
  "hdr_loop h data =
     (if data = [] \<or> hfinished h then (h, Rest data)
      else case hdr_handle h data of
             (h', Rest r) \<Rightarrow> hdr_loop h' r
           | (h', e) \<Rightarrow> (h', e))"
  by pat_completeness auto
termination
  by (relation "measure (\<lambda>(h, d). length d)") (auto dest: hdr_handle_length [OF sym])

declare hdr_loop.simps [simp del]

definition hdr_update :: "mqtt_header \<Rightarrow> bytes \<Rightarrow> mqtt_header \<times> parse_result" where
  "hdr_update h data = (if data = [] then (h, Fail) else hdr_loop h data)"

subsection \<open>Seven-bit groups\<close>

lemma of_nat_and_7f: "m < 128 \<Longrightarrow> (of_nat m :: byte) AND 0x7f = of_nat m"
  by (simp add: and_7f take_bit_of_nat take_bit_nat_eq_self)

lemma of_nat_and_80:
  assumes "m < 128" shows "(of_nat m :: byte) AND 0x80 = 0"
proof -
  have "(of_nat m :: byte) AND 0x80 = (of_nat m AND 0x7f) AND 0x80"
    by (simp only: of_nat_and_7f [OF assms])
  also have "\<dots> = 0" by (simp add: and.assoc)
  finally show ?thesis .
qed

lemma or_80 [simp]:
  "(b OR 0x80) AND 0x7f = b AND (0x7f :: byte)" "(b OR 0x80) AND 0x80 = (0x80 :: byte)"
  by (rule byte_eqI; simp add: bit_simps)+

subsection \<open>The abstract wire format\<close>

text \<open>
  The variable-length code of a natural number: seven bits per byte, least significant
  first, the top bit set on every byte but the last; and the value of such a byte string.
\<close>

fun vbi :: "nat \<Rightarrow> bytes" where
  "vbi n = (if n < 128 then [of_nat n] else (of_nat (n mod 128) OR 0x80) # vbi (n div 128))"

declare vbi.simps [simp del]

fun len_value :: "bytes \<Rightarrow> nat" where
  "len_value [] = 0"
| "len_value (b # bs) = unat (b AND 0x7f) + 128 * len_value bs"

text \<open>The first byte: the type in the upper half, the flags in the lower.\<close>

definition first_byte :: "mqtt_type \<Rightarrow> nibble \<Rightarrow> byte" where
  "first_byte t f = push_bit 4 (of_nat (type_code t)) OR ucast f"

lemma len_value_vbi: "len_value (vbi n) = n"
proof (induction n rule: vbi.induct)
  case (1 n)
  then show ?case
    by (simp add: vbi.simps [of n] of_nat_and_7f unat_of_nat)
qed

lemma length_vbi: "n < 128 ^ k \<Longrightarrow> 0 < k \<Longrightarrow> length (vbi n) \<le> k"
proof (induction n arbitrary: k rule: vbi.induct)
  case (1 n)
  show ?case
  proof (cases "n < 128")
    case True
    with 1 show ?thesis by (simp add: vbi.simps [of n])
  next
    case False
    with "1.prems" obtain k' where k: "k = Suc k'" "0 < k'"
      by (cases k rule: nat.exhaust [case_product nat.exhaust [of "k - 1"]]) auto
    with "1.prems" have "n div 128 < 128 ^ k'" by (simp add: less_mult_imp_div_less mult.commute)
    with "1.IH" [OF False] k False show ?thesis by (simp add: vbi.simps [of n])
  qed
qed

lemma vbi_nonempty: "vbi n \<noteq> []"
  by (simp add: vbi.simps [of n])

lemma len_value_snoc: "len_value (xs @ [b]) = len_value xs + 128 ^ length xs * unat (b AND 0x7f)"
  by (induction xs) (simp_all add: algebra_simps)

lemma unat_and_7f: "unat ((b :: byte) AND 0x7f) < 128"
  by (simp add: and_7f take_bit_eq_mod unat_mod)

lemma len_value_bound: "len_value xs < 128 ^ length xs"
proof (induction xs)
  case (Cons b bs)
  then have "Suc (len_value bs) * 128 \<le> 128 ^ length bs * 128" by (intro mult_le_mono1) simp
  with unat_and_7f [of b] show ?case by simp
qed simp

subsection \<open>The serializer writes the wire format\<close>

lemma ucast_and_7f: "ucast (d :: u32) AND 0x7f = (of_nat (unat d mod 128) :: byte)"
proof -
  have "ucast d AND 0x7f = (ucast (take_bit 7 d) :: byte)"
    by (simp add: and_7f bit_eq_iff bit_simps)
  also have "\<dots> = of_nat (unat (take_bit 7 d))" by simp
  also have "unat (take_bit 7 d) = unat d mod 128" by (simp add: take_bit_eq_mod unat_mod)
  finally show ?thesis .
qed

lemma flags_or: "(f::nibble) OR ucast ((ucast f::byte) AND (0x0f::byte))  = f"
  by (rule nibble_eqI; simp add: bit_simps)

lemma drop_bits:
  "unat (drop_bit 7 (d::u32)) = unat d div 128"
  "unat (drop_bit 14 d) = unat d div 128 div 128"
  "unat (drop_bit 21 d) = unat d div 128 div 128 div 128"
  by (simp_all add: drop_bit_eq_div unat_div flip: div_mult2_eq)

lemma ucast_low: "(ucast ((d::u32) AND 0x7f) :: byte) = of_nat (unat d mod 128)"
proof -
  have "ucast (d AND 0x7f) = (ucast d AND 0x7f :: byte)"
    by (rule byte_eqI; simp add: bit_simps)
  then show ?thesis by (simp add: ucast_and_7f)
qed

lemma build_header_eq:
  "build_header h out =
     (if unat (hdlen h) < 268435456
      then (h, out @ first_byte (htype h) (hflags h) # vbi (unat (hdlen h)), True)
      else (h, out, False))"
proof -
  let ?n = "unat (hdlen h)"
  have less: "hdlen h < 128 \<longleftrightarrow> ?n < 128" "hdlen h < 16384 \<longleftrightarrow> ?n < 16384"
    "hdlen h < 2097152 \<longleftrightarrow> ?n < 2097152" "hdlen h < 268435456 \<longleftrightarrow> ?n < 268435456"
    by (simp_all add: word_less_nat_alt)
  consider "?n < 128" | "128 \<le> ?n" "?n < 16384" | "16384 \<le> ?n" "?n < 2097152"
    | "2097152 \<le> ?n" "?n < 268435456" | "268435456 \<le> ?n"
    by linarith
  then show ?thesis
    by cases
       (simp_all add: build_header_def Let_def hdr_get_header_flags_def less
          flags_or first_byte_def vbi.simps ucast_low ucast_and_7f drop_bits
          div_less_iff_less_mult)
qed

subsection \<open>The parser reads the wire format\<close>

lemma or_shifted:
  assumes "A < 2 ^ k"
  shows "of_nat A OR push_bit k (x :: u32) = of_nat A + push_bit k x"
proof -
  have "\<not> bit A n" if "k \<le> n" for n
    using assms that by (metis bit_take_bit_iff not_le take_bit_nat_eq_self)
  then have "of_nat A AND push_bit k x = 0"
    by (intro bit_word_eqI) (auto simp: bit_simps not_le)
  then show ?thesis by (simp add: disjunctive_add_eq_or)
qed

lemma decode_len_eq: "n \<le> length buf \<Longrightarrow> decode_len buf n = of_nat (len_value (take n buf))"
proof (induction n)
  case 0
  show ?case by (simp add: decode_len_def)
next
  case (Suc n)
  let ?A = "len_value (take n buf)"
  have "?A < 2 ^ (7 * n)"
    using len_value_bound [of "take n buf"] Suc.prems by (simp add: power_mult)
  moreover have "decode_len buf (Suc n) = decode_len buf n OR push_bit (7 * n) (ucast (buf ! n AND 0x7f))"
    by (simp add: decode_len_def)
  ultimately have "decode_len buf (Suc n) = of_nat ?A + push_bit (7 * n) (ucast (buf ! n AND 0x7f))"
    using Suc by (simp add: or_shifted)
  also have "\<dots> = of_nat (?A + 128 ^ n * unat (buf ! n AND 0x7f))"
    using power_mult [of "2 :: u32" 7 n] by (simp add: push_bit_eq_mult mult.commute)
  finally show ?case
    using Suc.prems by (simp add: take_Suc_conv_app_nth len_value_snoc)
qed

lemma read_len_vbi:
  "k + length (vbi n) \<le> 4 \<Longrightarrow> length buf = 4 \<Longrightarrow>
   read_len buf k (vbi n @ r) =
     (take k buf @ vbi n @ drop (k + length (vbi n)) buf, k + length (vbi n), r)"
proof (induction n arbitrary: k buf rule: vbi.induct)
  case (1 n)
  show ?case
  proof (cases "n < 128")
    case True
    with "1.prems" show ?thesis
      by (simp add: vbi.simps [of n] of_nat_and_80 upd_conv_take_nth_drop)
  next
    case False
    let ?b = "of_nat (n mod 128) OR 0x80"
    have "0 < length (vbi n)" using vbi_nonempty by simp
    with "1.prems" have k: "k < 4" by linarith
    from False "1.prems" have "Suc k + length (vbi (n div 128)) \<le> 4" "length (buf[k := ?b]) = 4"
      by (simp_all add: vbi.simps [of n])
    note IH = "1.IH" [OF False this]
    have "take (Suc k) (buf[k := ?b]) = take k buf @ [?b]"
      using "1.prems" k by (simp add: take_Suc_conv_app_nth)
    with IH False k "1.prems" show ?thesis
      by (simp add: vbi.simps [of n])
  qed
qed

lemma last_vbi: "last (vbi n) AND 0x80 = 0"
proof (induction n rule: vbi.induct)
  case (1 n)
  then show ?case by (simp add: vbi.simps [of n] of_nat_and_80 vbi_nonempty)
qed

lemma drop_bit_first_byte: "drop_bit 4 (push_bit 4 w OR ucast (f::nibble) ::byte) = take_bit 4 w"
  by (rule byte_eqI; simp add: bit_simps)

lemma first_byte_type: "unat (drop_bit 4 (first_byte t f)) = type_code t"
proof -
  have "drop_bit 4 (first_byte t f) = (take_bit 4 (of_nat (type_code t)) :: byte)"
    by (simp only: first_byte_def drop_bit_first_byte)
  also have "\<dots> = of_nat (type_code t)"
    using type_code_less [of t] by (simp add: take_bit_of_nat take_bit_nat_eq_self)
  finally show ?thesis
    using type_code_less [of t] by (simp add: unat_of_nat)
qed

lemma first_byte_flags: "ucast (first_byte t f AND 0x0f) = f"
  unfolding first_byte_def by (rule nibble_eqI; simp add: bit_simps)

lemma hdr_handle_type:
  assumes "hstatus h = STAT_HDR_TYPE" "MQTT_RESERVED_MIN < t" "t < MQTT_RESERVED_MAX"
  shows "hdr_handle h (first_byte t f # d) =
     (h\<lparr>htype := t, hflags := f, hstatus := STAT_HDR_LEN, hlen := 0\<rparr>, Rest d)"
  using assms
  by (simp add: hdr_handle_def update_header_type_def first_byte_type first_byte_flags
      less_mqtt_type_def Let_def)

lemma hdr_handle_len:
  assumes "hstatus h = STAT_HDR_LEN" "hlen h = 0" "length (hbuf h) = 4" "n < 268435456"
  shows "hdr_handle h (vbi n @ r) =
     (h\<lparr>hbuf := vbi n @ drop (length (vbi n)) (hbuf h), hlen := length (vbi n),
        hdlen := of_nat n, hfinished := True\<rparr>, Rest r)"
proof -
  have len: "length (vbi n) \<le> 4" "0 < length (vbi n)"
    using assms(4) by (auto intro: length_vbi simp: vbi_nonempty)
  then have "(vbi n @ drop (length (vbi n)) (hbuf h)) ! (length (vbi n) - 1) = last (vbi n)"
    by (simp add: nth_append last_conv_nth vbi_nonempty)
  moreover have "decode_len (vbi n @ drop (length (vbi n)) (hbuf h)) (length (vbi n)) = of_nat n"
    by (simp add: decode_len_eq len_value_vbi)
  ultimately show ?thesis
    using assms len read_len_vbi [of 0 n "hbuf h" r]
    by (simp add: hdr_handle_def update_header_len_def vbi_nonempty last_vbi Let_def)
qed

lemma hdr_loop_wire:
  assumes "hstatus h = STAT_HDR_TYPE" "\<not> hfinished h" "length (hbuf h) = 4"
    "MQTT_RESERVED_MIN < t" "t < MQTT_RESERVED_MAX" "n < 268435456"
  shows "hdr_loop h (first_byte t f # vbi n @ r) =
     (h\<lparr>htype := t, hflags := f, hstatus := STAT_HDR_LEN, hlen := length (vbi n),
        hbuf := vbi n @ drop (length (vbi n)) (hbuf h),
        hdlen := of_nat n, hfinished := True\<rparr>, Rest r)"
  using assms vbi_nonempty [of n]
  by (simp add: hdr_loop.simps hdr_handle_type hdr_handle_len)


subsection \<open>The header parser meets the streaming contract\<close>

lemma read_len_bounds:
  "read_len buf n d = (buf', n', r) \<Longrightarrow> n < 4 \<Longrightarrow> d \<noteq> [] \<Longrightarrow>
     n < n' \<and> n' \<le> 4 \<and> length buf' = length buf \<and> suffix r d"
proof (induction buf n d arbitrary: buf' n' r rule: read_len.induct)
  case (2 buf n c cs)
  show ?case
  proof (cases "c AND 0x80 = 0 \<or> cs = [] \<or> \<not> Suc n < 4")
    case True
    with "2.prems" show ?thesis
      by (cases cs) (auto simp: suffix_Cons split: if_splits)
  next
    case False
    with "2" have "Suc n < n' \<and> n' \<le> 4 \<and> length buf' = length (buf[n := c]) \<and> suffix r cs"
      by simp
    then show ?thesis by (simp add: suffix_Cons)
  qed
qed simp

lemma read_len_done:
  "read_len buf n a = (buf', n', r) \<Longrightarrow> n < 4 \<Longrightarrow> a \<noteq> [] \<Longrightarrow> length buf = 4 \<Longrightarrow>
     buf' ! (n' - 1) AND 0x80 = 0 \<or> n' = 4 \<Longrightarrow>
     read_len buf n (a @ b) = (buf', n', r @ b)"
proof (induction buf n a arbitrary: buf' n' r rule: read_len.induct)
  case (2 buf n c cs)
  show ?case
  proof (cases "c AND 0x80 = 0 \<or> cs = [] \<or> \<not> Suc n < 4")
    case True
    with "2.prems" show ?thesis
      by (cases cs; cases b) (auto split: if_splits)
  next
    case False
    with "2" show ?thesis by simp
  qed
qed simp

lemma read_len_more:
  "read_len buf n a = (buf', n', r) \<Longrightarrow> n < 4 \<Longrightarrow> a \<noteq> [] \<Longrightarrow> length buf = 4 \<Longrightarrow>
     buf' ! (n' - 1) AND 0x80 \<noteq> 0 \<Longrightarrow> n' < 4 \<Longrightarrow>
     r = [] \<and> read_len buf n (a @ b) = read_len buf' n' b"
proof (induction buf n a arbitrary: buf' n' r rule: read_len.induct)
  case (2 buf n c cs)
  show ?case
  proof (cases "c AND 0x80 = 0 \<or> cs = [] \<or> \<not> Suc n < 4")
    case True
    with "2.prems" show ?thesis
      by (cases cs) (auto split: if_splits)
  next
    case False
    with "2" show ?thesis by simp
  qed
qed simp

definition hdr_inv :: "mqtt_header \<Rightarrow> bool" where
  "hdr_inv h \<longleftrightarrow> length (hbuf h) = 4"

lemma hdr_handle_chunk:
  assumes "hdr_inv h" "\<not> hfinished h" "a \<noteq> []" "b \<noteq> []"
  shows "chunk_ok hdr_handle hfinished h a b"
proof (cases "hstatus h = STAT_HDR_TYPE \<or> hlen h \<ge> 4")
  case True
  with assms show ?thesis
    by (cases a; cases "hstatus h")
       (auto simp: chunk_ok_def hdr_handle_def update_header_type_def update_header_len_def Let_def)
next
  case False
  then have st: "hstatus h = STAT_HDR_LEN" "hlen h < 4" by (cases "hstatus h", auto)+
  obtain buf n r where rl: "read_len (hbuf h) (hlen h) a = (buf, n, r)" by (metis prod_cases3)
  from read_len_bounds [OF rl st(2) assms(3)] have n: "0 < n" "n \<le> 4" "length buf = length (hbuf h)" by auto
  have len: "length (hbuf h) = 4" using assms(1) by (simp add: hdr_inv_def)
  show ?thesis
  proof (cases "buf ! (n - 1) AND 0x80 = 0 \<or> n = 4")
    case True
    from read_len_done [OF rl st(2) assms(3) len True] st rl n assms(2-4) True
    show ?thesis by (auto simp: chunk_ok_def hdr_handle_def update_header_len_def Let_def)
  next
    case False
    with n have n4: "n < 4" and hi: "buf ! (n - 1) AND 0x80 \<noteq> 0" by auto
    from read_len_more [OF rl st(2) assms(3) len hi n4, of b] st rl n n4 hi assms(2-4)
    show ?thesis by (auto simp: chunk_ok_def hdr_handle_def update_header_len_def Let_def)
  qed
qed


lemma hdr_handle_inv:
  assumes "hdr_inv h" "d \<noteq> []"
  shows "hdr_inv (fst (hdr_handle h d)) \<and> snd (hdr_handle h d) \<noteq> AssertFail"
proof (cases "hstatus h = STAT_HDR_TYPE \<or> hlen h \<ge> 4")
  case True
  with assms show ?thesis
    by (cases d; cases "hstatus h")
       (auto simp: hdr_inv_def hdr_handle_def update_header_type_def update_header_len_def Let_def)
next
  case False
  then have st: "hstatus h = STAT_HDR_LEN" "hlen h < 4" by (cases "hstatus h", auto)+
  obtain buf n r where rl: "read_len (hbuf h) (hlen h) d = (buf, n, r)" by (metis prod_cases3)
  have len: "length (hbuf h) = 4" using assms(1) by (simp add: hdr_inv_def)
  from read_len_bounds [OF rl st(2) assms(2)] read_len_more [OF rl st(2) assms(2) len] st rl len assms(2)
  show ?thesis by (auto simp: hdr_inv_def hdr_handle_def update_header_len_def Let_def)
qed

lemma hdr_handle_suffix: "hdr_handle h d = (h', Rest r) \<Longrightarrow> suffix r d"
  by (auto simp: hdr_handle_def update_header_type_def update_header_len_def Let_def suffix_Cons
      split: hdr_status.splits list.splits if_splits prod.splits dest: read_len_bounds)

interpretation hdr: stream_parser hdr_handle hfinished hdr_loop "\<lambda>_. 0" hdr_inv
proof
  show "hdr_loop s d =
      (if d = [] \<or> hfinished s then (s, Rest d)
       else case hdr_handle s d of (s', Rest r) \<Rightarrow> hdr_loop s' r | (s', e) \<Rightarrow> (s', e))" for s d
    by (rule hdr_loop.simps)
qed (auto simp: hdr_handle_inv hdr_handle_suffix hdr_handle_chunk dest: hdr_handle_length)

subsection \<open>Every accepted header is a wire header\<close>

text \<open>A length field as the parser accepts it: continuation bits on all bytes but the last.\<close>

definition len_field :: "bytes \<Rightarrow> bool" where
  "len_field ls \<longleftrightarrow> ls \<noteq> [] \<and> length ls \<le> 4 \<and>
     (\<forall>b \<in> set (butlast ls). b AND 0x80 \<noteq> 0) \<and> last ls AND 0x80 = 0"

lemma read_len_parts:
  "read_len buf n d = (buf', n', r) \<Longrightarrow> n < 4 \<Longrightarrow> length buf = 4 \<Longrightarrow> d \<noteq> [] \<Longrightarrow>
     \<exists>ls. d = ls @ r \<and> ls \<noteq> [] \<and> n' = n + length ls \<and> take n' buf' = take n buf @ ls \<and>
          (\<forall>b \<in> set (butlast ls). b AND 0x80 \<noteq> 0)"
proof (induction buf n d arbitrary: buf' n' r rule: read_len.induct)
  case (2 buf n c cs)
  from "2.prems"(2,3) have tk: "take (Suc n) (buf[n := c]) = take n buf @ [c]"
    by (simp add: take_Suc_conv_app_nth)
  show ?case
  proof (cases "c AND 0x80 = 0 \<or> cs = [] \<or> \<not> Suc n < 4")
    case True
    with "2.prems" have "buf' = buf[n := c]" "n' = Suc n" "r = cs"
      by (cases cs; auto split: if_splits)+
    with tk show ?thesis by (intro exI [of _ "[c]"]) simp
  next
    case False
    with "2" obtain ls where "cs = ls @ r" "ls \<noteq> []" "n' = Suc n + length ls"
      "take n' buf' = take (Suc n) (buf[n := c]) @ ls" "\<forall>b \<in> set (butlast ls). b AND 0x80 \<noteq> 0"
      by fastforce
    with tk False show ?thesis by (intro exI [of _ "c # ls"]) auto
  qed
qed simp

lemma hdr_handle_len_finished:
  assumes "hdr_handle h d = (h', Rest r)" "hstatus h = STAT_HDR_LEN" "hlen h = 0"
    "hdr_inv h" "d \<noteq> []" "hfinished h'" "\<not> hfinished h"
  shows "\<exists>ls. d = ls @ r \<and> len_field ls \<and> hdlen h' = of_nat (len_value ls) \<and>
           htype h' = htype h \<and> hflags h' = hflags h"
proof -
  obtain buf n r' where rl: "read_len (hbuf h) 0 d = (buf, n, r')" by (metis prod_cases3)
  have len: "length (hbuf h) = 4" using assms(4) by (simp add: hdr_inv_def)
  from read_len_parts [OF rl _ len assms(5)]
  have "\<exists>ls. d = ls @ r' \<and> ls \<noteq> [] \<and> n = length ls \<and> take n buf = ls \<and>
      (\<forall>b \<in> set (butlast ls). b AND 0x80 \<noteq> 0)" by simp
  then obtain ls where ls: "d = ls @ r'" "ls \<noteq> []" "n = length ls" "take n buf = ls"
      "\<forall>b \<in> set (butlast ls). b AND 0x80 \<noteq> 0" by blast
  from read_len_bounds [OF rl _ assms(5)] len have n: "0 < n" "n \<le> 4" "length buf = 4" by auto
  have "buf ! (n - 1) = last ls"
    using ls(2-4) n by (metis last_conv_nth diff_less nth_take zero_less_one)
  with assms rl n ls show ?thesis
    by (intro exI [of _ ls])
       (auto simp: hdr_handle_def update_header_len_def Let_def decode_len_eq len_field_def
         split: if_splits)
qed

subsection \<open>Properties of the header\<close>

text \<open>
  \<open>build_header\<close> appends the first byte (type and flags) and the variable-length code of
  the remaining length when that is below 268435456, changing nothing of the object, and
  refuses any larger length without output.
\<close>

theorem header_build_wire:
  "build_header h out =
     (if unat (hdlen h) < 268435456
      then (h, out @ first_byte (htype h) (hflags h) # vbi (unat (hdlen h)), True)
      else (h, out, False))"
  by (rule build_header_eq)

text \<open>
  C10: a header that is built and then parsed by a fresh header object is finished, has the
  same type, flags and remaining length, and the bytes after it are handed back.
\<close>

theorem header_roundtrip:
  assumes "MQTT_RESERVED_MIN < htype h" "htype h < MQTT_RESERVED_MAX"
    and "build_header h [] = (h1, w, True)"
  shows "\<exists>h'. hdr_update (mqtt_header_new MQTT_RESERVED_MIN) (w @ r) = (h', Rest r) \<and>
     hfinished h' \<and> htype h' = htype h \<and> hflags h' = hflags h \<and> hdlen h' = hdlen h"
proof -
  have "unat (hdlen h) < 268435456" "w = first_byte (htype h) (hflags h) # vbi (unat (hdlen h))"
    using assms(3) by (auto simp: build_header_eq split: if_splits)
  with assms(1,2) show ?thesis
    by (simp add: hdr_update_def hdr_loop_wire mqtt_header_new_def)
qed

theorem header_roundtrip_witness:
  "\<exists>h'. hdr_update (mqtt_header_new MQTT_RESERVED_MIN) ([0x3d, 0xc1, 0x02] @ [7]) = (h', Rest [7]) \<and>
     hfinished h' \<and> htype h' = MQTT_PUBLISH \<and> hflags h' = 0xd \<and> hdlen h' = 321"
proof -
  let ?h = "hdr_set_remaing_length 321 (hdr_set_header_flags 0xd (mqtt_header_new MQTT_PUBLISH))"
  have "build_header ?h [] = (?h, [0x3d, 0xc1, 0x02], True)"
    by (simp add: build_header_eq first_byte_def vbi.simps hdr_set_defs mqtt_header_new_def)
  from header_roundtrip [OF _ _ this] show ?thesis
    by (simp add: hdr_set_defs mqtt_header_new_def less_mqtt_type_def)
qed

text \<open>A length field that need not be the shortest one for its value.\<close>

lemma read_len_field:
  "k + length ls \<le> 4 \<Longrightarrow> length buf = 4 \<Longrightarrow> ls \<noteq> [] \<Longrightarrow> \<forall>b \<in> set (butlast ls). b AND 0x80 \<noteq> 0 \<Longrightarrow> last ls AND 0x80 = 0 \<Longrightarrow>
   read_len buf k (ls @ r) = (take k buf @ ls @ drop (k + length ls) buf, k + length ls, r)"
proof (induction ls arbitrary: k buf)
  case (Cons b ls)
  then have k: "k < 4" by simp
  show ?case
  proof (cases "ls = []")
    case True
    with Cons.prems k show ?thesis by (simp add: upd_conv_take_nth_drop)
  next
    case False
    with Cons.prems have ls: "Suc k + length ls \<le> 4" "length (buf[k := b]) = 4" "\<forall>b \<in> set (butlast ls). b AND 0x80 \<noteq> 0"
      "last ls AND 0x80 = 0" "b AND 0x80 \<noteq> 0" by simp_all
    have "take (Suc k) (buf[k := b]) = take k buf @ [b]"
      using Cons.prems(2) k by (simp add: take_Suc_conv_app_nth)
    with Cons.IH [OF ls(1,2) False ls(3,4)] ls(5) k show ?thesis by simp
  qed
qed simp

lemma hdr_handle_field:
  assumes "hstatus h = STAT_HDR_LEN" "hlen h = 0" "length (hbuf h) = 4" "len_field ls"
  shows "\<exists>buf. hdr_handle h (ls @ r) =
     (h\<lparr>hbuf := buf, hlen := length ls, hdlen := of_nat (len_value ls), hfinished := True\<rparr>, Rest r)"
proof -
  have ls: "ls \<noteq> []" "length ls \<le> 4" "last ls AND 0x80 = 0" using assms(4) by (simp_all add: len_field_def)
  let ?buf = "ls @ drop (length ls) (hbuf h)"
  have "?buf ! (length ls - 1) = last ls" using ls by (simp add: nth_append last_conv_nth)
  moreover have "decode_len ?buf (length ls) = of_nat (len_value ls)" by (simp add: decode_len_eq)
  ultimately show ?thesis
    using assms ls read_len_field [of 0 ls "hbuf h" r]
    by (intro exI [of _ ?buf]) (simp add: hdr_handle_def update_header_len_def len_field_def Let_def)
qed

lemma len_field_small: "len_field ls \<Longrightarrow> len_value ls < 268435456"
proof -
  assume "len_field ls"
  then have "128 ^ length ls \<le> (128 :: nat) ^ 4" by (intro power_increasing) (auto simp: len_field_def)
  with len_value_bound [of ls] show ?thesis by simp
qed

lemma header_accepts_wire:
  assumes "len_field ls" "0 < unat (drop_bit 4 (c :: byte))" "unat (drop_bit 4 c) < 15"
  shows "\<exists>h'. hdr_update (mqtt_header_new t) (c # ls @ r) = (h', Rest r) \<and> hfinished h' \<and>
     type_code (htype h') = unat (drop_bit 4 c) \<and> hflags h' = ucast c \<and> unat (hdlen h') = len_value ls"
proof -
  let ?h = "mqtt_header_new t" and ?ty = "unat (drop_bit 4 c)"
  let ?h1 = "?h\<lparr>htype := type_of_code ?ty, hflags := ucast (c AND 0x0f), hstatus := STAT_HDR_LEN, hlen := 0\<rparr>"
  have n: "\<not> hfinished ?h" "\<not> hfinished ?h1" by (simp_all add: mqtt_header_new_def)
  have h1: "hdr_handle ?h (c # ls @ r) = (?h1, Rest (ls @ r))"
    using assms(2,3) by (simp add: hdr_handle_def update_header_type_def mqtt_header_new_def Let_def)
  obtain buf where h2: "hdr_handle ?h1 (ls @ r) =
      (?h1\<lparr>hbuf := buf, hlen := length ls, hdlen := of_nat (len_value ls), hfinished := True\<rparr>, Rest r)"
    using hdr_handle_field [of ?h1 ls r] assms(1) by (auto simp: mqtt_header_new_def)
  have l: "ls \<noteq> []" using assms(1) by (simp add: len_field_def)
  have "hdr_loop ?h (c # ls @ r) = hdr_loop ?h1 (ls @ r)" using hdr.loop_step [of "c # ls @ r" ?h] h1 n by simp
  also have "\<dots> = hdr_loop (?h1\<lparr>hbuf := buf, hlen := length ls, hdlen := of_nat (len_value ls), hfinished := True\<rparr>) r"
    using hdr.loop_step [of "ls @ r" ?h1] h2 n l by simp
  finally have "hdr_update ?h (c # ls @ r) =
      (?h1\<lparr>hbuf := buf, hlen := length ls, hdlen := of_nat (len_value ls), hfinished := True\<rparr>, Rest r)"
    by (simp add: hdr_update_def hdr_loop.simps)
  moreover have "ucast (c AND 0x0f) = (ucast c :: nibble)" by (rule nibble_eqI; simp add: bit_simps)
  ultimately show ?thesis
    using assms len_field_small [OF assms(1)] by (simp add: type_code_of_type unat_of_nat)
qed

text \<open>The other direction.\<close>

lemma header_accepted:
  assumes "hdr_update (mqtt_header_new t) d = (h', Rest r)" "hfinished h'"
  shows "\<exists>c ls. d = c # ls @ r \<and> len_field ls \<and>
     type_code (htype h') = unat (drop_bit 4 c) \<and> 0 < type_code (htype h') \<and>
     type_code (htype h') < 15 \<and> hflags h' = ucast c \<and>
     unat (hdlen h') = len_value ls \<and> len_value ls < 268435456"
proof -
  let ?h = "mqtt_header_new t"
  from assms(1) obtain c d1 where d: "d = c # d1"
    by (cases d) (auto simp: hdr_update_def)
  let ?ty = "unat (drop_bit 4 c)"
  let ?h1 = "?h\<lparr>htype := type_of_code ?ty, hflags := ucast (c AND 0x0f),
                hstatus := STAT_HDR_LEN, hlen := 0\<rparr>"
  have "hdr_handle ?h d = (if ?ty \<le> 0 \<or> ?ty \<ge> 15 then (?h, Fail) else (?h1, Rest d1))"
    by (simp add: d hdr_handle_def update_header_type_def mqtt_header_new_def Let_def)
  moreover have "\<not> hfinished ?h" by (simp add: mqtt_header_new_def)
  ultimately have h1: "hdr_loop ?h1 d1 = (h', Rest r)" and ty: "0 < ?ty" "?ty < 15"
    using assms(1) d hdr.loop_step [of d ?h]
    by (auto simp: hdr_update_def split: if_splits)
  have inv: "hdr_inv ?h1" "\<not> hfinished ?h1" by (simp_all add: hdr_inv_def mqtt_header_new_def)
  with h1 assms(2) have d1: "d1 \<noteq> []" by (auto simp: hdr_loop.simps)
  from h1 d1 inv(2) obtain h2 r2 where h2: "hdr_handle ?h1 d1 = (h2, Rest r2)"
      and l: "hdr_loop h2 r2 = (h', Rest r)"
    by (rule hdr.loop_stepE)
  show ?thesis
  proof (cases "hfinished h2")
    case True
    with l have [simp]: "h' = h2" "r = r2" by (auto simp: hdr_loop.simps)
    from hdr_handle_len_finished [OF h2 _ _ inv(1) d1 True inv(2)] obtain ls
      where ls: "d1 = ls @ r2" "len_field ls" "hdlen h2 = of_nat (len_value ls)"
        "htype h2 = type_of_code ?ty" "hflags h2 = ucast (c AND 0x0f)"
      by auto
    have "128 ^ length ls \<le> (128 :: nat) ^ 4"
      using ls(2) by (intro power_increasing) (auto simp: len_field_def)
    with len_value_bound [of ls] have small: "len_value ls < 268435456" by simp
    have "ucast (c AND 0x0f) = (ucast c :: nibble)" by (rule nibble_eqI; simp add: bit_simps)
    then show ?thesis
      using ls d ty small by (auto simp: type_code_of_type unat_of_nat)
  next
    case False
    with h2 have "r2 = []"
      using hdr.handle_progress inv d1 by (auto simp: hdr_handle_def update_header_len_def Let_def split: if_splits prod.splits)
    with l False assms(2) show ?thesis by (auto simp: hdr_loop.simps)
  qed
qed

text \<open>
  C11: a fresh header object accepts exactly the input that is one byte with a type other than the two reserved ones, followed by
  a length field: one to four bytes of which all but the last have the top bit.  It uses up these bytes and no more, and the
  type, flags and remaining length it then has are those the bytes denote.  Anything else it refuses or has not finished with.
\<close>

theorem header_accepts_exactly_wire:
  "(\<exists>h'. hdr_update (mqtt_header_new t) d = (h', Rest r) \<and> hfinished h' \<and> type_code (htype h') = ty \<and> hflags h' = fl \<and> unat (hdlen h') = n) \<longleftrightarrow>
   (\<exists>c ls. d = c # ls @ r \<and> len_field ls \<and> unat (drop_bit 4 c) = ty \<and> 0 < ty \<and> ty < 15 \<and> ucast c = fl \<and> len_value ls = n)"
proof
  assume "\<exists>h'. hdr_update (mqtt_header_new t) d = (h', Rest r) \<and> hfinished h' \<and> type_code (htype h') = ty \<and> hflags h' = fl \<and> unat (hdlen h') = n"
  then show "\<exists>c ls. d = c # ls @ r \<and> len_field ls \<and> unat (drop_bit 4 c) = ty \<and> 0 < ty \<and> ty < 15 \<and> ucast c = fl \<and> len_value ls = n"
    using header_accepted by metis
next
  assume "\<exists>c ls. d = c # ls @ r \<and> len_field ls \<and> unat (drop_bit 4 c) = ty \<and> 0 < ty \<and> ty < 15 \<and> ucast c = fl \<and> len_value ls = n"
  then show "\<exists>h'. hdr_update (mqtt_header_new t) d = (h', Rest r) \<and> hfinished h' \<and> type_code (htype h') = ty \<and> hflags h' = fl \<and> unat (hdlen h') = n"
    using header_accepts_wire by blast
qed

lemma nibble_eq_iff:
  "(a :: nibble) = b \<longleftrightarrow> bit a 0 = bit b 0 \<and> bit a 1 = bit b 1 \<and> bit a 2 = bit b 2 \<and> bit a 3 = bit b 3"
  using nibble_eqI by blast

lemma flags_bits:
  "hdr_is_dup h \<longleftrightarrow> bit (hflags h) 3"
  "hdr_is_remain h \<longleftrightarrow> bit (hflags h) 0"
  "hdr_get_qos h = (if bit (hflags h) 1 \<and> \<not> bit (hflags h) 2 then MQTT_QOS1
     else if bit (hflags h) 2 \<and> \<not> bit (hflags h) 1 then MQTT_QOS2 else MQTT_QOS0)"
  by (simp_all add: hdr_is_dup_def hdr_is_remain_def hdr_get_qos_def flags_qos_def
      nibble_eq_iff bit_simps Let_def numeral_2_eq_2)

text \<open>
  The flag setters and getters of the header agree, and each setter leaves the other
  two flags alone.
\<close>

theorem header_flags:
  "hdr_get_qos (hdr_set_qos q h) = q \<and> hdr_is_dup (hdr_set_qos q h) = hdr_is_dup h \<and>
   hdr_is_remain (hdr_set_qos q h) = hdr_is_remain h \<and>
   hdr_is_dup (hdr_set_dup b h) = b \<and> hdr_get_qos (hdr_set_dup b h) = hdr_get_qos h \<and>
   hdr_is_remain (hdr_set_dup b h) = hdr_is_remain h \<and>
   hdr_is_remain (hdr_set_remain b h) = b \<and> hdr_get_qos (hdr_set_remain b h) = hdr_get_qos h \<and>
   hdr_is_dup (hdr_set_remain b h) = hdr_is_dup h"
  by (cases q; cases b) (simp_all add: flags_bits hdr_set_defs bit_simps Let_def numeral_2_eq_2)

end
