(* ===== verification/Mqtt_Message.thy ===== *)
theory Mqtt_Message
  imports Mqtt_Header
begin

text \<open>
  The base class of the mqtt messages (cpp/include/nio/mqtt/mqtt_message.hpp,
  cpp/src/mqtt/mqtt_message.cpp): its header field, the \<open>pack_add\<close> overloads of the
  serializers and \<open>unpack_short\<close> of the parsers.  The message classes are record extensions
  of \<open>mqtt_message\<close>.
\<close>

subsection \<open>The base class\<close>

record mqtt_message =
  mheader :: mqtt_header

definition mqtt_message_new :: "mqtt_type \<Rightarrow> mqtt_message" where
  "mqtt_message_new type = \<lparr>mheader = mqtt_header_new type\<rparr>"

definition mqtt_message_of :: "mqtt_header \<Rightarrow> mqtt_message" where
  "mqtt_message_of header = \<lparr>mheader = mqtt_header_copy header\<rparr>"

text \<open>\<open>pack_add\<close> for a byte, a short (most significant byte first) and a string.\<close>

definition pack_add_char :: "byte \<Rightarrow> bytes \<Rightarrow> bytes" where
  "pack_add_char ch out = out @ [ch]"

definition mosq_msb :: "u16 \<Rightarrow> byte" where
  "mosq_msb x = ucast (drop_bit 8 x AND 0xff)"

definition mosq_lsb :: "u16 \<Rightarrow> byte" where
  "mosq_lsb x = ucast (x AND 0xff)"

definition pack_add_short :: "u16 \<Rightarrow> bytes \<Rightarrow> bytes" where
  "pack_add_short n out = (out @ [mosq_msb n]) @ [mosq_lsb n]"

text \<open>
  The length prefix is the size cast to \<open>unsigned short\<close>; the whole string follows it
  unless the cast gave 0.
\<close>

definition pack_add_string :: "bytes \<Rightarrow> bytes \<Rightarrow> bytes" where
  "pack_add_string s out =
     (let n = (of_nat (length s) :: u16);
          out1 = out @ [mosq_msb n];
          out2 = out1 @ [mosq_lsb n]
      in if n > 0 then out2 @ s else out2)"

definition unpack_short :: "bytes \<Rightarrow> nat \<Rightarrow> u16 option" where
  "unpack_short dat len =
     (if len < 2 then None
      else Some (push_bit 8 (ucast (dat ! 0 AND 0xff)) OR ucast (dat ! 1 AND 0xff)))"

text \<open>
  A quality of service as the subscribe and suback parsers read it: a \<open>char\<close>, signed as on the
  platforms the library targets, that becomes QoS 0 when it is not one of the three levels.
\<close>

definition qos_of_char :: "byte \<Rightarrow> mqtt_qos" where
  "qos_of_char ch =
     (let q = sint ch;
          q = (if q < int (qos_code MQTT_QOS0) \<or> q > 0x80 \<or> q > int (qos_code MQTT_QOS2)
               then int (qos_code MQTT_QOS0) else q)
      in if q = 1 then MQTT_QOS1 else if q = 2 then MQTT_QOS2 else MQTT_QOS0)"

definition qos_char :: "mqtt_qos \<Rightarrow> byte" where
  "qos_char q = of_nat (qos_code q)"

lemma qos_of_qos_char [simp]: "qos_of_char (qos_char q) = q"
  by (cases q) (simp_all add: qos_of_char_def qos_char_def)

text \<open>The failure code 0x80 of a suback is read as QoS 0.\<close>

lemma qos_of_char_failure: "qos_of_char 0x80 = MQTT_QOS0"
  by (simp add: qos_of_char_def)

subsection \<open>Wire form of shorts and strings\<close>

definition short_bytes :: "u16 \<Rightarrow> bytes" where
  "short_bytes n = [mosq_msb n, mosq_lsb n]"

definition str_bytes :: "bytes \<Rightarrow> bytes" where
  "str_bytes s = short_bytes (of_nat (length s)) @ s"

text \<open>A whole message: the fixed header with the length of the body, and the body.\<close>

definition wire :: "mqtt_type \<Rightarrow> nibble \<Rightarrow> bytes \<Rightarrow> bytes" where
  "wire t f body = first_byte t f # vbi (length body) @ body"

lemma build_header_wire:
  "unat (hdlen h) = length body \<Longrightarrow> length body < 268435456 \<Longrightarrow>
     build_header h out = (h, out', ok) \<Longrightarrow> ok \<and> out' @ body = out @ wire (htype h) (hflags h) body"
  by (auto simp: build_header_eq wire_def)

lemma length_short_bytes [simp]: "length (short_bytes n) = 2"
  by (simp add: short_bytes_def)

lemma length_str_bytes [simp]: "length (str_bytes s) = length s + 2"
  by (simp add: str_bytes_def)

lemma pack_add_short_eq: "pack_add_short n out = out @ short_bytes n"
  by (simp add: pack_add_short_def short_bytes_def)

lemma pack_add_string_eq: "length s < 65536 \<Longrightarrow> pack_add_string s out = out @ str_bytes s"
proof -
  assume "length s < 65536"
  then have "unat (of_nat (length s) :: u16) = length s" by simp
  then have "(0 :: u16) < of_nat (length s) \<longleftrightarrow> s \<noteq> []"
    by (simp add: word_less_nat_alt)
  then show ?thesis
    by (simp add: pack_add_string_def str_bytes_def short_bytes_def Let_def)
qed

lemma short_of_bytes: "push_bit 8 (ucast (mosq_msb n)) OR ucast (mosq_lsb n) = n"
proof -
  have "(0xff :: u16) = mask 8" by (simp add: mask_eq_exp_minus_1)
  then have "(x :: u16) AND 0xff = take_bit 8 x" for x by (simp add: take_bit_eq_mask)
  then show ?thesis
    by (intro bit_word_eqI) (auto simp: mosq_msb_def mosq_lsb_def bit_simps)
qed

lemma unpack_pack_short [simp]: "unpack_short [mosq_msb n, mosq_lsb n] 2 = Some n"
  by (simp add: unpack_short_def short_of_bytes)

lemma unpack_short_Some: "2 \<le> len \<Longrightarrow> \<exists>n. unpack_short d len = Some n"
  by (simp add: unpack_short_def)

lemma unpack_short_bytes [simp]: "unpack_short (short_bytes n) 2 = Some n"
  by (simp add: short_bytes_def)

lemma short_bytes_nonempty [simp]: "short_bytes n \<noteq> []"
  by (simp add: short_bytes_def)

lemma fill_short [simp]:
  "length buf = 2 \<Longrightarrow> fill_buff 2 buf 0 (short_bytes n @ r) = (short_bytes n, 2, r)"
  by (simp add: short_bytes_def del: fill_buff.simps)

lemma build_header_keeps: "build_header h out = (h', out', ok) \<Longrightarrow> h' = h"
  by (auto simp: build_header_eq split: if_splits)

lemma short_inject:
  "push_bit 8 (ucast (a :: byte)) OR ucast (b :: byte) = (push_bit 8 (ucast c) OR ucast d :: u16) \<longleftrightarrow>
     a = c \<and> b = d"
proof
  assume e: "push_bit 8 (ucast a) OR ucast b = (push_bit 8 (ucast c) OR ucast d :: u16)"
  have hi: "ucast (drop_bit 8 (push_bit 8 (ucast x) OR ucast y :: u16)) = x"
    and lo: "ucast (push_bit 8 (ucast x) OR ucast y :: u16) = y" for x y :: byte
    by (rule bit_word_eqI, auto simp: bit_simps dest: bit_imp_le_length)+
  from hi [of a b] lo [of a b] show "a = c \<and> b = d" unfolding e hi lo by simp
qed simp

end
