(* ===== verification/Mqtt_Connect.thy ===== *)
theory Mqtt_Connect
  imports Mqtt_Message
begin

text \<open>
  The connect request (cpp/include/nio/mqtt/mqtt_connect.hpp, cpp/src/mqtt/mqtt_connect.cpp):
  a variable header of ten bytes (protocol name and level, connect flags, keep-alive) and up to
  five strings, each with its length, whose presence the flags announce.
\<close>

subsection \<open>State\<close>

datatype connect_status =
    CN_HDR_VAR | CN_CID_LEN | CN_CID_VAL | CN_USERNAME_LEN | CN_USERNAME_VAL
  | CN_PASSWD_LEN | CN_PASSWD_VAL | CN_WILL_TOPIC_LEN | CN_WILL_TOPIC_VAL
  | CN_WILL_MSG_LEN | CN_WILL_MSG_VAL

text \<open>
  The member \<open>buff_\<close> is followed by a byte of padding before \<open>dlen_\<close>, which
  \<open>update_header_var\<close> reads; \<open>cn_pad\<close> is its value, about which nothing is known.
\<close>

record mqtt_connect = mqtt_message +
  cn_status :: connect_status
  cn_finished :: bool
  cn_buff :: bytes          \<comment> \<open>\<open>char buff_[10]\<close>\<close>
  cn_pad :: byte
  cn_dlen :: nat            \<comment> \<open>\<open>int dlen_\<close>, 0 to 65535\<close>
  cn_will_qos :: mqtt_qos
  cn_conn_flags :: byte
  cn_keep_alive :: u16
  cn_cid :: bytes
  cn_username :: bytes
  cn_passwd :: bytes
  cn_will_topic :: bytes
  cn_will_msg :: bytes

definition mqtt_connect_new :: "byte \<Rightarrow> mqtt_connect" where
  "mqtt_connect_new pad =
     \<lparr>mheader = mheader (mqtt_message_new MQTT_CONNECT), cn_status = CN_HDR_VAR, cn_finished = False,
      cn_buff = replicate 10 0, cn_pad = pad, cn_dlen = 0, cn_will_qos = MQTT_QOS0, cn_conn_flags = 0,
      cn_keep_alive = 300, cn_cid = [], cn_username = [], cn_passwd = [], cn_will_topic = [],
      cn_will_msg = []\<rparr>"

definition mqtt_connect_of :: "byte \<Rightarrow> mqtt_header \<Rightarrow> mqtt_connect" where
  "mqtt_connect_of pad header =
     \<lparr>mheader = mheader (mqtt_message_of header), cn_status = CN_HDR_VAR, cn_finished = False,
      cn_buff = replicate 10 0, cn_pad = pad, cn_dlen = 0, cn_will_qos = MQTT_QOS0, cn_conn_flags = 0,
      cn_keep_alive = 300, cn_cid = [], cn_username = [], cn_passwd = [], cn_will_topic = [],
      cn_will_msg = []\<rparr>"

subsection \<open>Setters\<close>

text \<open>A pointer argument is \<open>None\<close> when null.\<close>

definition cstr_arg :: "bytes option \<Rightarrow> bytes option" where
  "cstr_arg a = (case a of None \<Rightarrow> None | Some d \<Rightarrow> if c_str d \<noteq> [] then Some (c_str d) else None)"

definition connect_set_keep_alive :: "u16 \<Rightarrow> mqtt_connect \<Rightarrow> mqtt_connect" where
  "connect_set_keep_alive n s = s\<lparr>cn_keep_alive := n\<rparr>"

definition connect_set_cid :: "bytes option \<Rightarrow> mqtt_connect \<Rightarrow> mqtt_connect" where
  "connect_set_cid a s = (case cstr_arg a of None \<Rightarrow> s | Some d \<Rightarrow> s\<lparr>cn_cid := d\<rparr>)"

definition connect_set_username :: "bytes option \<Rightarrow> mqtt_connect \<Rightarrow> mqtt_connect" where
  "connect_set_username a s = (case cstr_arg a of None \<Rightarrow> s | Some d \<Rightarrow> s\<lparr>cn_username := d\<rparr>)"

definition connect_set_passwd :: "bytes option \<Rightarrow> mqtt_connect \<Rightarrow> mqtt_connect" where
  "connect_set_passwd a s = (case cstr_arg a of None \<Rightarrow> s | Some d \<Rightarrow> s\<lparr>cn_passwd := d\<rparr>)"

definition connect_set_will_qos :: "mqtt_qos \<Rightarrow> mqtt_connect \<Rightarrow> mqtt_connect" where
  "connect_set_will_qos qos s0 =
     (let s = s0\<lparr>cn_will_qos := qos\<rparr>; f = cn_conn_flags s
      in case qos of
           MQTT_QOS0 \<Rightarrow> s\<lparr>cn_conn_flags := f AND NOT (push_bit 4 1 OR push_bit 3 1)\<rparr>
         | MQTT_QOS1 \<Rightarrow> s\<lparr>cn_conn_flags := f AND NOT (push_bit 4 1) OR push_bit 3 1\<rparr>
         | MQTT_QOS2 \<Rightarrow> s\<lparr>cn_conn_flags := f AND NOT (push_bit 3 1) OR push_bit 4 1\<rparr>)"

definition connect_set_will_topic :: "bytes option \<Rightarrow> mqtt_connect \<Rightarrow> mqtt_connect" where
  "connect_set_will_topic a s = (case cstr_arg a of None \<Rightarrow> s | Some d \<Rightarrow> s\<lparr>cn_will_topic := d\<rparr>)"

definition connect_set_will_msg :: "bytes option \<Rightarrow> mqtt_connect \<Rightarrow> mqtt_connect" where
  "connect_set_will_msg a s = (case cstr_arg a of None \<Rightarrow> s | Some d \<Rightarrow> s\<lparr>cn_will_msg := d\<rparr>)"

definition connect_clean_session :: "mqtt_connect \<Rightarrow> mqtt_connect" where
  "connect_clean_session s = s\<lparr>cn_conn_flags := cn_conn_flags s OR 0x02\<rparr>"

definition connect_has_session :: "mqtt_connect \<Rightarrow> bool" where
  "connect_has_session s \<longleftrightarrow> cn_conn_flags s AND 0x02 \<noteq> 0"

subsection \<open>Serializer\<close>

definition connect_to_string :: "mqtt_connect \<Rightarrow> bytes \<Rightarrow> mqtt_connect \<times> bytes \<times> bool" where
  "connect_to_string s0 out =
     (let len0 = (10 :: u32) + 2 + of_nat (length (cn_cid s0));
          (s1, len1) = (if cn_username s0 \<noteq> []
             then (s0\<lparr>cn_conn_flags := cn_conn_flags s0 OR push_bit 7 1\<rparr>,
                   len0 + 2 + of_nat (length (cn_username s0)))
             else (s0, len0));
          (s2, len2) = (if cn_passwd s1 \<noteq> []
             then (s1\<lparr>cn_conn_flags := cn_conn_flags s1 OR push_bit 6 1\<rparr>,
                   len1 + 2 + of_nat (length (cn_passwd s1)))
             else (s1, len1));
          (s3, len3) = (if cn_will_topic s2 \<noteq> [] \<and> cn_will_msg s2 \<noteq> []
             then (s2\<lparr>cn_conn_flags := cn_conn_flags s2 OR push_bit 2 1\<rparr>,
                   len2 + 2 + of_nat (length (cn_will_topic s2)) + 2 + of_nat (length (cn_will_msg s2)))
             else (s2\<lparr>cn_will_topic := [], cn_will_msg := []\<rparr>, len2))
      in case build_header (hdr_set_remaing_length len3 (mheader s3)) out of (h, out1, ok) \<Rightarrow>
           let s = s3\<lparr>mheader := h\<rparr>
           in if \<not> ok then (s, out1, False)
              else
                let o2 = foldl (\<lambda>o1 ch. pack_add_char ch o1) out1
                           [0, 0x04, 0x4d, 0x51, 0x54, 0x54, 0x04, cn_conn_flags s];
                    o3 = pack_add_short (cn_keep_alive s) o2;
                    o4 = pack_add_string (cn_cid s) o3;
                    o5 = (if cn_will_topic s \<noteq> [] \<and> cn_will_msg s \<noteq> []
                          then pack_add_string (cn_will_msg s) (pack_add_string (cn_will_topic s) o4) else o4);
                    o6 = (if cn_username s \<noteq> [] then pack_add_string (cn_username s) o5 else o5);
                    o7 = (if cn_passwd s \<noteq> [] then pack_add_string (cn_passwd s) o6 else o6)
                in (s, o7, True))"

subsection \<open>The macros of the parser\<close>

text \<open>
  \<open>SAVE_LENGTH(dlen_)\<close> with the rest \<open>k\<close> of the function behind it, and \<open>SAVE_DATA(x)\<close> for the
  string member with accessor \<open>get\<close> and update \<open>put\<close>.
\<close>

definition SAVE_LENGTH ::
  "mqtt_connect \<Rightarrow> bytes \<Rightarrow> (mqtt_connect \<Rightarrow> mqtt_connect) \<Rightarrow> mqtt_connect \<times> parse_result" where
  "SAVE_LENGTH s data k =
     (if data = [] then (s, AssertFail)
      else case fill_buff 2 (cn_buff s) (cn_dlen s) data of (buf, i, rest) \<Rightarrow>
        let s1 = s\<lparr>cn_buff := buf, cn_dlen := i\<rparr>
        in if i < 2 then (s1, if rest \<noteq> [] then AssertFail else Rest rest)
           else case unpack_short buf 2 of
                  None \<Rightarrow> (s1, Fail)
                | Some n \<Rightarrow> (k (s1\<lparr>cn_dlen := unat n\<rparr>), Rest rest))"

definition SAVE_DATA ::
  "mqtt_connect \<Rightarrow> bytes \<Rightarrow> (mqtt_connect \<Rightarrow> bytes) \<Rightarrow> ((bytes \<Rightarrow> bytes) \<Rightarrow> mqtt_connect \<Rightarrow> mqtt_connect) \<Rightarrow>
   (mqtt_connect \<Rightarrow> mqtt_connect) \<Rightarrow> mqtt_connect \<times> parse_result" where
  "SAVE_DATA s data get put k =
     (if cn_dlen s = 0 then (s, Fail)
      else if data = [] then (s, AssertFail)
      else case take_str (cn_dlen s) (get s) data of (str, j, rest) \<Rightarrow>
        let s1 = put (\<lambda>_. str) s\<lparr>cn_dlen := j\<rparr>
        in if j > 0 then (s1, if rest \<noteq> [] then AssertFail else Rest rest)
           else (k s1, Rest rest))"

subsection \<open>The handlers\<close>

text \<open>
  The label is compared with "MQTT" only to log a warning.  The keep-alive is unpacked from
  \<open>&buff_[9]\<close>: its first byte is the last of the buffer, its second lies behind it.
\<close>

definition connect_update_header_var :: "mqtt_connect \<Rightarrow> bytes \<Rightarrow> mqtt_connect \<times> parse_result" where
  "connect_update_header_var s data =
     (if data = [] then (s, AssertFail)
      else if cn_dlen s \<ge> 10 then (s, Fail)
      else case fill_buff 10 (cn_buff s) (cn_dlen s) data of (buf, i, rest) \<Rightarrow>
        let s1 = s\<lparr>cn_buff := buf, cn_dlen := i\<rparr>
        in if i < 10 then (s1, if rest \<noteq> [] then AssertFail else Rest rest)
           else
             let s2 = s1\<lparr>cn_conn_flags := buf ! 7\<rparr>
             in case unpack_short [buf ! 9, cn_pad s2] 2 of
                  None \<Rightarrow> (s2, Fail)
                | Some n \<Rightarrow> (s2\<lparr>cn_keep_alive := n, cn_dlen := 0, cn_status := CN_CID_LEN\<rparr>, Rest rest))"

text \<open>What each of the other functions does after its macro.\<close>

definition cid_len_next :: "mqtt_connect \<Rightarrow> mqtt_connect" where
  "cid_len_next s =
     (if cn_dlen s > 0 then s\<lparr>cn_status := CN_CID_VAL\<rparr>
      else if cn_conn_flags s AND 0x04 \<noteq> 0 then s\<lparr>cn_status := CN_WILL_TOPIC_LEN\<rparr>
      else if cn_conn_flags s AND 0x80 \<noteq> 0 then s\<lparr>cn_status := CN_USERNAME_LEN\<rparr>
      else if cn_conn_flags s AND 0x40 \<noteq> 0 then s\<lparr>cn_status := CN_PASSWD_LEN\<rparr>
      else s\<lparr>cn_finished := True\<rparr>)"

definition cid_val_next :: "mqtt_connect \<Rightarrow> mqtt_connect" where
  "cid_val_next s =
     (if cn_conn_flags s AND 0x04 \<noteq> 0 then s\<lparr>cn_status := CN_WILL_TOPIC_LEN\<rparr>
      else if cn_conn_flags s AND 0x80 \<noteq> 0 then s\<lparr>cn_status := CN_USERNAME_LEN\<rparr>
      else if cn_conn_flags s AND 0x40 \<noteq> 0 then s\<lparr>cn_status := CN_PASSWD_LEN\<rparr>
      else s\<lparr>cn_finished := True\<rparr>)"

definition will_topic_len_next :: "mqtt_connect \<Rightarrow> mqtt_connect" where
  "will_topic_len_next s = s\<lparr>cn_status := CN_WILL_TOPIC_VAL\<rparr>"

definition will_topic_val_next :: "mqtt_connect \<Rightarrow> mqtt_connect" where
  "will_topic_val_next s = s\<lparr>cn_status := CN_WILL_MSG_LEN\<rparr>"

definition will_msg_len_next :: "mqtt_connect \<Rightarrow> mqtt_connect" where
  "will_msg_len_next s =
     (if cn_dlen s > 0 then s\<lparr>cn_status := CN_WILL_MSG_VAL\<rparr>
      else if cn_conn_flags s AND 0x80 \<noteq> 0 then s\<lparr>cn_status := CN_USERNAME_LEN\<rparr>
      else if cn_conn_flags s AND 0x40 \<noteq> 0 then s\<lparr>cn_status := CN_PASSWD_LEN\<rparr>
      else s\<lparr>cn_finished := True\<rparr>)"

definition will_msg_val_next :: "mqtt_connect \<Rightarrow> mqtt_connect" where
  "will_msg_val_next s =
     (if cn_conn_flags s AND 0x80 \<noteq> 0 then s\<lparr>cn_status := CN_USERNAME_LEN\<rparr>
      else if cn_conn_flags s AND 0x40 \<noteq> 0 then s\<lparr>cn_status := CN_PASSWD_LEN\<rparr>
      else s\<lparr>cn_finished := True\<rparr>)"

definition username_len_next :: "mqtt_connect \<Rightarrow> mqtt_connect" where
  "username_len_next s =
     (if cn_dlen s > 0 then s\<lparr>cn_status := CN_USERNAME_VAL\<rparr>
      else if cn_conn_flags s AND 0x40 \<noteq> 0 then s\<lparr>cn_status := CN_PASSWD_LEN\<rparr>
      else s\<lparr>cn_finished := True\<rparr>)"

definition username_val_next :: "mqtt_connect \<Rightarrow> mqtt_connect" where
  "username_val_next s =
     (if cn_conn_flags s AND 0x40 \<noteq> 0 then s\<lparr>cn_status := CN_PASSWD_LEN\<rparr>
      else s\<lparr>cn_finished := True\<rparr>)"

definition passwd_len_next :: "mqtt_connect \<Rightarrow> mqtt_connect" where
  "passwd_len_next s =
     (if cn_dlen s > 0 then s\<lparr>cn_status := CN_PASSWD_VAL\<rparr> else s\<lparr>cn_finished := True\<rparr>)"

definition passwd_val_next :: "mqtt_connect \<Rightarrow> mqtt_connect" where
  "passwd_val_next s = s\<lparr>cn_finished := True\<rparr>"

definition connect_update_cid_len :: "mqtt_connect \<Rightarrow> bytes \<Rightarrow> mqtt_connect \<times> parse_result" where
  "connect_update_cid_len s data = SAVE_LENGTH s data cid_len_next"
definition connect_update_cid_val :: "mqtt_connect \<Rightarrow> bytes \<Rightarrow> mqtt_connect \<times> parse_result" where
  "connect_update_cid_val s data = SAVE_DATA s data cn_cid cn_cid_update cid_val_next"
definition connect_update_will_topic_len :: "mqtt_connect \<Rightarrow> bytes \<Rightarrow> mqtt_connect \<times> parse_result" where
  "connect_update_will_topic_len s data = SAVE_LENGTH s data will_topic_len_next"
definition connect_update_will_topic_val :: "mqtt_connect \<Rightarrow> bytes \<Rightarrow> mqtt_connect \<times> parse_result" where
  "connect_update_will_topic_val s data =
     SAVE_DATA s data cn_will_topic cn_will_topic_update will_topic_val_next"
definition connect_update_will_msg_len :: "mqtt_connect \<Rightarrow> bytes \<Rightarrow> mqtt_connect \<times> parse_result" where
  "connect_update_will_msg_len s data = SAVE_LENGTH s data will_msg_len_next"
definition connect_update_will_msg_val :: "mqtt_connect \<Rightarrow> bytes \<Rightarrow> mqtt_connect \<times> parse_result" where
  "connect_update_will_msg_val s data =
     SAVE_DATA s data cn_will_msg cn_will_msg_update will_msg_val_next"
definition connect_update_username_len :: "mqtt_connect \<Rightarrow> bytes \<Rightarrow> mqtt_connect \<times> parse_result" where
  "connect_update_username_len s data = SAVE_LENGTH s data username_len_next"
definition connect_update_username_val :: "mqtt_connect \<Rightarrow> bytes \<Rightarrow> mqtt_connect \<times> parse_result" where
  "connect_update_username_val s data = SAVE_DATA s data cn_username cn_username_update username_val_next"
definition connect_update_passwd_len :: "mqtt_connect \<Rightarrow> bytes \<Rightarrow> mqtt_connect \<times> parse_result" where
  "connect_update_passwd_len s data = SAVE_LENGTH s data passwd_len_next"
definition connect_update_passwd_val :: "mqtt_connect \<Rightarrow> bytes \<Rightarrow> mqtt_connect \<times> parse_result" where
  "connect_update_passwd_val s data = SAVE_DATA s data cn_passwd cn_passwd_update passwd_val_next"

definition connect_handle :: "mqtt_connect \<Rightarrow> bytes \<Rightarrow> mqtt_connect \<times> parse_result" where
  "connect_handle s data =
     (case cn_status s of
        CN_HDR_VAR \<Rightarrow> connect_update_header_var s data
      | CN_CID_LEN \<Rightarrow> connect_update_cid_len s data
      | CN_CID_VAL \<Rightarrow> connect_update_cid_val s data
      | CN_USERNAME_LEN \<Rightarrow> connect_update_username_len s data
      | CN_USERNAME_VAL \<Rightarrow> connect_update_username_val s data
      | CN_PASSWD_LEN \<Rightarrow> connect_update_passwd_len s data
      | CN_PASSWD_VAL \<Rightarrow> connect_update_passwd_val s data
      | CN_WILL_TOPIC_LEN \<Rightarrow> connect_update_will_topic_len s data
      | CN_WILL_TOPIC_VAL \<Rightarrow> connect_update_will_topic_val s data
      | CN_WILL_MSG_LEN \<Rightarrow> connect_update_will_msg_len s data
      | CN_WILL_MSG_VAL \<Rightarrow> connect_update_will_msg_val s data)"

subsection \<open>The handlers as phases\<close>

lemmas connect_next_defs =
  cid_len_next_def cid_val_next_def will_topic_len_next_def will_topic_val_next_def
  will_msg_len_next_def will_msg_val_next_def username_len_next_def username_val_next_def
  passwd_len_next_def passwd_val_next_def

lemmas connect_handler_defs =
  connect_handle_def connect_update_cid_len_def connect_update_cid_val_def
  connect_update_will_topic_len_def connect_update_will_topic_val_def
  connect_update_will_msg_len_def connect_update_will_msg_val_def
  connect_update_username_len_def connect_update_username_val_def
  connect_update_passwd_len_def connect_update_passwd_val_def

text \<open>The states that read a length, and those that read a string.\<close>

definition len_next :: "connect_status \<Rightarrow> (mqtt_connect \<Rightarrow> mqtt_connect) option" where
  "len_next st =
     (case st of
        CN_CID_LEN \<Rightarrow> Some cid_len_next
      | CN_USERNAME_LEN \<Rightarrow> Some username_len_next
      | CN_PASSWD_LEN \<Rightarrow> Some passwd_len_next
      | CN_WILL_TOPIC_LEN \<Rightarrow> Some will_topic_len_next
      | CN_WILL_MSG_LEN \<Rightarrow> Some will_msg_len_next
      | _ \<Rightarrow> None)"

definition val_next :: "connect_status \<Rightarrow>
    ((mqtt_connect \<Rightarrow> bytes) \<times> ((bytes \<Rightarrow> bytes) \<Rightarrow> mqtt_connect \<Rightarrow> mqtt_connect) \<times>
     (mqtt_connect \<Rightarrow> mqtt_connect)) option" where
  "val_next st =
     (case st of
        CN_CID_VAL \<Rightarrow> Some (cn_cid, cn_cid_update, cid_val_next)
      | CN_USERNAME_VAL \<Rightarrow> Some (cn_username, cn_username_update, username_val_next)
      | CN_PASSWD_VAL \<Rightarrow> Some (cn_passwd, cn_passwd_update, passwd_val_next)
      | CN_WILL_TOPIC_VAL \<Rightarrow> Some (cn_will_topic, cn_will_topic_update, will_topic_val_next)
      | CN_WILL_MSG_VAL \<Rightarrow> Some (cn_will_msg, cn_will_msg_update, will_msg_val_next)
      | _ \<Rightarrow> None)"

lemma status_cases:
  obtains "st = CN_HDR_VAR" | k where "len_next st = Some k" | g p k where "val_next st = Some (g, p, k)"
  by (cases st) (auto simp: len_next_def val_next_def)

lemma handle_len: "len_next (cn_status s) = Some k \<Longrightarrow> connect_handle s d = SAVE_LENGTH s d k"
  by (cases "cn_status s") (auto simp: len_next_def connect_handler_defs)

lemma handle_val: "val_next (cn_status s) = Some (g, p, k) \<Longrightarrow> connect_handle s d = SAVE_DATA s d g p k"
  by (cases "cn_status s") (auto simp: val_next_def connect_handler_defs)

lemma val_len_None: "val_next st = Some x \<Longrightarrow> len_next st = None"
  by (cases st) (simp_all add: len_next_def val_next_def)

text \<open>The accessor and the update of a string member.\<close>

lemma val_field:
  assumes "val_next st = Some (g, p, k)"
  shows "g (p f s) = f (g s)" "cn_dlen (p f s) = cn_dlen s" "cn_status (p f s) = cn_status s"
    "cn_finished (p f s) = cn_finished s" "cn_buff (p f s) = cn_buff s" 
    "g (s\<lparr>cn_dlen := j\<rparr>) = g s" "p f (s\<lparr>cn_dlen := j\<rparr>) = (p f s)\<lparr>cn_dlen := j\<rparr>"
    "p f (p f' s) = p (f \<circ> f') s"
  using assms by (cases st; auto simp: val_next_def)+

lemma connect_phase_hdr:
  "d \<noteq> [] \<Longrightarrow> cn_status s = CN_HDR_VAR \<Longrightarrow> cn_dlen s < 10 \<Longrightarrow>
     connect_handle s d =
       fill_phase 10 (\<lambda>buf i. s\<lparr>cn_buff := buf, cn_dlen := i\<rparr>)
         (\<lambda>buf i. (s\<lparr>cn_buff := buf, cn_conn_flags := buf ! 7,
            cn_keep_alive := the (unpack_short [buf ! 9, cn_pad s] 2), cn_dlen := 0,
            cn_status := CN_CID_LEN\<rparr>, True)) (cn_buff s) (cn_dlen s) d"
  by (auto simp: connect_handle_def connect_update_header_var_def fill_phase_def unpack_short_def Let_def
      split: prod.splits)

lemma connect_hdr_stuck:
  "cn_status s = CN_HDR_VAR \<Longrightarrow> 10 \<le> cn_dlen s \<Longrightarrow> d \<noteq> [] \<Longrightarrow> connect_handle s d = (s, Fail)"
  by (simp add: connect_handle_def connect_update_header_var_def)

definition len_done :: "(mqtt_connect \<Rightarrow> mqtt_connect) \<Rightarrow> mqtt_connect \<Rightarrow> bytes \<Rightarrow> nat \<Rightarrow> mqtt_connect \<times> bool" where
  "len_done k s buf i = (k (s\<lparr>cn_buff := buf, cn_dlen := unat (the (unpack_short buf 2))\<rparr>), True)"

lemma connect_phase_len:
  "d \<noteq> [] \<Longrightarrow> len_next (cn_status s) = Some k \<Longrightarrow>
     connect_handle s d =
       fill_phase 2 (\<lambda>buf i. s\<lparr>cn_buff := buf, cn_dlen := i\<rparr>) (len_done k s) (cn_buff s) (cn_dlen s) d"
  by (auto simp: handle_len SAVE_LENGTH_def fill_phase_def len_done_def unpack_short_def Let_def
      split: prod.splits)

lemma len_done_same [simp]: "len_done k (s\<lparr>cn_buff := b, cn_dlen := i\<rparr>) = len_done k s"
  by (simp add: fun_eq_iff len_done_def)

lemma connect_phase_val:
  assumes "d \<noteq> []" "val_next (cn_status s) = Some (g, p, k)" "0 < cn_dlen s"
  shows "connect_handle s d =
     take_phase (\<lambda>str j. p (\<lambda>_. str) s\<lparr>cn_dlen := j\<rparr>) (\<lambda>str. (k (p (\<lambda>_. str) s\<lparr>cn_dlen := 0\<rparr>), True))
       (g s) (cn_dlen s) d"
  using assms by (auto simp: handle_val SAVE_DATA_def take_phase_def Let_def split: prod.splits)

lemma connect_val_stuck:
  "val_next (cn_status s) = Some (g, p, k) \<Longrightarrow> cn_dlen s = 0 \<Longrightarrow> connect_handle s d = (s, Fail)"
  by (simp add: handle_val SAVE_DATA_def)

subsection \<open>The streaming contract\<close>

fun status_rank :: "connect_status \<Rightarrow> nat" where
  "status_rank CN_HDR_VAR = 11"
| "status_rank CN_CID_LEN = 10"
| "status_rank CN_CID_VAL = 9"
| "status_rank CN_WILL_TOPIC_LEN = 8"
| "status_rank CN_WILL_TOPIC_VAL = 7"
| "status_rank CN_WILL_MSG_LEN = 6"
| "status_rank CN_WILL_MSG_VAL = 5"
| "status_rank CN_USERNAME_LEN = 4"
| "status_rank CN_USERNAME_VAL = 3"
| "status_rank CN_PASSWD_LEN = 2"
| "status_rank CN_PASSWD_VAL = 1"

definition connect_rank :: "mqtt_connect \<Rightarrow> nat" where
  "connect_rank s = (if cn_finished s then 0 else status_rank (cn_status s))"

definition connect_inv :: "mqtt_connect \<Rightarrow> bool" where
  "connect_inv s \<longleftrightarrow> length (cn_buff s) = 10 \<and>
     (cn_finished s \<or> len_next (cn_status s) = None \<or> cn_dlen s < 2)"

lemma len_next_rank:
  "len_next (cn_status s) = Some k \<Longrightarrow> \<not> cn_finished s \<Longrightarrow> connect_rank (k s) < connect_rank s"
  by (cases "cn_status s") (auto simp: len_next_def connect_rank_def connect_next_defs)

lemma len_next_inv:
  "len_next (cn_status s) = Some k \<Longrightarrow> length (cn_buff s) = 10 \<Longrightarrow> connect_inv (k s)"
  by (cases "cn_status s") (auto simp: len_next_def connect_inv_def connect_next_defs)

lemma val_next_inv:
  "val_next (cn_status s) = Some (g, p, k) \<Longrightarrow> length (cn_buff s) = 10 \<Longrightarrow> cn_dlen s = 0 \<Longrightarrow> connect_inv (k s)"
  by (cases "cn_status s") (auto simp: val_next_def connect_inv_def connect_next_defs)

lemma connect_handle_moves:
  assumes "connect_handle s d = (s', Rest r)" "d \<noteq> []" "\<not> cn_finished s"
  shows "length r < length d \<or> r = d \<and> connect_rank s' < connect_rank s"
proof (cases rule: status_cases [of "cn_status s"])
  case 1
  with assms show ?thesis
    by (cases "cn_dlen s < 10")
       (auto simp: connect_phase_hdr connect_hdr_stuck not_less dest: fill_phase_length)
next
  case (2 k)
  note h = assms(1) [unfolded connect_phase_len [OF assms(2) 2]]
  show ?thesis
  proof (cases "cn_dlen s < 2")
    case True
    from fill_phase_length [OF h True assms(2)] show ?thesis by simp
  next
    case False
    with h have "r = d" "s' = k (s\<lparr>cn_buff := cn_buff s, cn_dlen := unat (the (unpack_short (cn_buff s) 2))\<rparr>)"
      by (auto simp: fill_phase_def len_done_def)
    with len_next_rank [of "s\<lparr>cn_buff := cn_buff s, cn_dlen := unat (the (unpack_short (cn_buff s) 2))\<rparr>" k]
      2 assms(3) show ?thesis by (simp add: connect_rank_def)
  qed
next
  case (3 g p k)
  with assms show ?thesis
    by (cases "0 < cn_dlen s")
       (auto simp: connect_phase_val connect_val_stuck dest: take_phase_length)
qed

lemma connect_handle_consumes:
  assumes "connect_inv s" "connect_handle s d = (s', Rest r)" "d \<noteq> []" "\<not> cn_finished s" "cn_finished s'"
  shows "length r < length d"
proof (cases rule: status_cases [of "cn_status s"])
  case 1
  with assms show ?thesis
    by (cases "cn_dlen s < 10")
       (auto simp: connect_phase_hdr connect_hdr_stuck not_less dest: fill_phase_length)
next
  case (2 k)
  with assms(1,4) have "cn_dlen s < 2" by (simp add: connect_inv_def)
  from fill_phase_length [OF assms(2) [unfolded connect_phase_len [OF assms(3) 2]] this assms(3)]
  show ?thesis .
next
  case (3 g p k)
  with assms show ?thesis
    by (cases "0 < cn_dlen s")
       (auto simp: connect_phase_val connect_val_stuck dest: take_phase_length)
qed

function connect_loop :: "mqtt_connect \<Rightarrow> bytes \<Rightarrow> mqtt_connect \<times> parse_result" where
  "connect_loop s data =
     (if data = [] \<or> cn_finished s then (s, Rest data)
      else case connect_handle s data of
             (s', Rest r) \<Rightarrow> connect_loop s' r
           | (s', e) \<Rightarrow> (s', e))"
  by pat_completeness auto
termination
  by (relation "measures [\<lambda>(s, d). length d, \<lambda>(s, d). connect_rank s]")
     (auto dest: connect_handle_moves [OF sym])

declare connect_loop.simps [simp del]

definition connect_update :: "mqtt_connect \<Rightarrow> bytes \<Rightarrow> mqtt_connect \<times> parse_result" where
  "connect_update s data = (if data = [] then (s, Fail) else connect_loop s data)"

lemma connect_handle_inv:
  assumes "connect_inv s" "\<not> cn_finished s" "d \<noteq> []"
  shows "connect_inv (fst (connect_handle s d))"
proof (cases rule: status_cases [of "cn_status s"])
  case 1
  show ?thesis
  proof (cases "cn_dlen s < 10")
    case True
    show ?thesis
      unfolding connect_phase_hdr [OF assms(3) 1 True]
      by (rule fill_phase_keeps) (use assms(1) 1 in \<open>auto simp: connect_inv_def len_next_def\<close>)
  qed (use assms 1 in \<open>simp add: connect_hdr_stuck\<close>)
next
  case (2 k)
  from assms(1) have l: "length (cn_buff s) = 10" by (simp add: connect_inv_def)
  show ?thesis
    unfolding connect_phase_len [OF assms(3) 2]
  proof (rule fill_phase_keeps)
    show "connect_inv (fst (len_done k s buf i))" if "length buf = length (cn_buff s)" for buf i
      using l 2 that by (simp add: len_done_def len_next_inv)
  qed (use l in \<open>simp add: connect_inv_def\<close>)
next
  case (3 g p k)
  show ?thesis
  proof (cases "0 < cn_dlen s")
    case True
    from assms(1) have l: "length (cn_buff s) = 10" by (simp add: connect_inv_def)
    show ?thesis
      unfolding connect_phase_val [OF assms(3) 3 True]
    proof (rule take_phase_keeps)
      have "connect_inv (k t)" if "cn_status t = cn_status s" "cn_buff t = cn_buff s" "cn_dlen t = 0" for t
        using val_next_inv [of t g p k] 3 l that by simp
      then show "connect_inv (fst (k (p (\<lambda>_. g s @ take (cn_dlen s) d) s\<lparr>cn_dlen := 0\<rparr>), True))"
        by (simp add: val_field [OF 3])
    qed (use l 3 in \<open>simp add: connect_inv_def val_field [OF 3] val_len_None\<close>)
  qed (use assms(1) 3 in \<open>simp add: connect_val_stuck\<close>)
qed

lemma connect_handle_safe:
  assumes "connect_inv s" "\<not> cn_finished s" "d \<noteq> []"
  shows "snd (connect_handle s d) \<noteq> AssertFail"
proof (cases rule: status_cases [of "cn_status s"])
  case 1
  with assms show ?thesis
    by (cases "cn_dlen s < 10") (simp_all add: connect_phase_hdr connect_hdr_stuck fill_phase_safe)
next
  case (2 k)
  with assms show ?thesis by (simp add: connect_phase_len fill_phase_safe)
next
  case (3 g p k)
  with assms show ?thesis
    by (cases "0 < cn_dlen s") (simp_all add: connect_phase_val connect_val_stuck take_phase_safe)
qed

lemma connect_handle_suffix: "connect_handle s d = (s', Rest r) \<Longrightarrow> suffix r d"
proof (cases "d = []")
  case True
  assume "connect_handle s d = (s', Rest r)"
  with True show ?thesis
    by (cases "cn_status s")
       (auto simp: connect_handler_defs connect_update_header_var_def SAVE_LENGTH_def SAVE_DATA_def
          split: if_splits)
next
  case False
  assume h: "connect_handle s d = (s', Rest r)"
  show ?thesis
  proof (cases rule: status_cases [of "cn_status s"])
    case 1
    with h False show ?thesis
      by (cases "cn_dlen s < 10")
         (auto simp: connect_phase_hdr connect_hdr_stuck dest: fill_phase_suffix)
  next
    case (2 k)
    with h False show ?thesis by (auto simp: connect_phase_len dest: fill_phase_suffix)
  next
    case (3 g p k)
    with h False show ?thesis
      by (cases "0 < cn_dlen s")
         (auto simp: connect_phase_val connect_val_stuck dest: take_phase_suffix)
  qed
qed

lemma connect_chunk:
  assumes "connect_inv s" "\<not> cn_finished s" "a \<noteq> []" "b \<noteq> []"
  shows "chunk_ok connect_handle cn_finished s a b"
proof (cases rule: status_cases [of "cn_status s"])
  case 1
  show ?thesis
  proof (cases "cn_dlen s < 10")
    case True
    show ?thesis
      by (rule chunk_fill [OF connect_phase_hdr])
         (use True 1 assms in \<open>auto simp: connect_phase_hdr\<close>)
  qed (use 1 assms in \<open>auto intro: chunk_fail [OF connect_hdr_stuck]\<close>)
next
  case (2 k)
  show ?thesis
    by (rule chunk_fill [OF connect_phase_len])
       (use 2 assms in \<open>auto simp: connect_phase_len\<close>)
next
  case (3 g p k)
  show ?thesis
  proof (cases "0 < cn_dlen s")
    case True
    show ?thesis
    proof (rule chunk_take [where P = "\<lambda>str j. p (\<lambda>_. str) s\<lparr>cn_dlen := j\<rparr>"
          and K = "\<lambda>str. (k (p (\<lambda>_. str) s\<lparr>cn_dlen := 0\<rparr>), True)" and str = "g s" and k = "cn_dlen s"])
      fix w d :: bytes
      assume "d \<noteq> []" "length w < cn_dlen s"
      let ?t = "p (\<lambda>_. g s @ w) s\<lparr>cn_dlen := cn_dlen s - length w\<rparr>"
      have t: "val_next (cn_status ?t) = Some (g, p, k)" "0 < cn_dlen ?t"
        using 3 \<open>length w < cn_dlen s\<close> by (simp_all add: val_field [OF 3])
      show "\<not> cn_finished ?t \<and> connect_handle ?t d =
          take_phase (\<lambda>str j. p (\<lambda>_. str) s\<lparr>cn_dlen := j\<rparr>) (\<lambda>str. (k (p (\<lambda>_. str) s\<lparr>cn_dlen := 0\<rparr>), True))
            (g s @ w) (cn_dlen s - length w) d"
        using connect_phase_val [OF \<open>d \<noteq> []\<close> t] assms(2)
        by (simp add: val_field [OF 3] comp_def)
    qed (use assms 3 True in \<open>simp_all add: connect_phase_val\<close>)
  qed (use 3 assms in \<open>auto intro: chunk_fail [OF connect_val_stuck]\<close>)
qed

interpretation connect: stream_parser connect_handle cn_finished connect_loop connect_rank connect_inv
proof
  show "connect_loop s d =
      (if d = [] \<or> cn_finished s then (s, Rest d)
       else case connect_handle s d of (s', Rest r) \<Rightarrow> connect_loop s' r | (s', e) \<Rightarrow> (s', e))" for s d
    by (rule connect_loop.simps)
qed (rule connect_handle_inv connect_handle_safe connect_handle_suffix
      connect_handle_moves connect_handle_consumes connect_chunk; assumption)+

subsection \<open>Wire form\<close>

definition opt_str :: "bytes \<Rightarrow> bytes" where
  "opt_str s = (if s = [] then [] else str_bytes s)"

text \<open>The body: flags, keep-alive and the strings; the two of the will go together.\<close>

definition connect_body :: "byte \<Rightarrow> u16 \<Rightarrow> bytes \<Rightarrow> bytes \<Rightarrow> bytes \<Rightarrow> bytes \<Rightarrow> bytes \<Rightarrow> bytes" where
  "connect_body f ka cid wt wm un pw =
     ([0, 0x04, 0x4d, 0x51, 0x54, 0x54, 0x04, f] @ short_bytes ka) @ str_bytes cid @
     opt_str wt @ opt_str wm @ opt_str un @ opt_str pw"

text \<open>What a connect request carries, without the parser's own state.\<close>

definition connect_view :: "mqtt_connect \<Rightarrow> byte \<times> u16 \<times> mqtt_qos \<times> bytes \<times> bytes \<times> bytes \<times> bytes \<times> bytes" where
  "connect_view s = (cn_conn_flags s, cn_keep_alive s, cn_will_qos s, cn_cid s, cn_will_topic s,
     cn_will_msg s, cn_username s, cn_passwd s)"

definition len_val :: "connect_status \<Rightarrow> connect_status" where
  "len_val st =
     (case st of
        CN_CID_LEN \<Rightarrow> CN_CID_VAL
      | CN_USERNAME_LEN \<Rightarrow> CN_USERNAME_VAL
      | CN_PASSWD_LEN \<Rightarrow> CN_PASSWD_VAL
      | CN_WILL_TOPIC_LEN \<Rightarrow> CN_WILL_TOPIC_VAL
      | CN_WILL_MSG_LEN \<Rightarrow> CN_WILL_MSG_VAL
      | _ \<Rightarrow> st)"

lemma len_next_pos:
  "len_next (cn_status s) = Some k \<Longrightarrow> 0 < cn_dlen s \<Longrightarrow> k s = s\<lparr>cn_status := len_val (cn_status s)\<rparr>"
  by (cases "cn_status s") (auto simp: len_next_def len_val_def connect_next_defs)

lemma unpack_short_prefix [simp]: "unpack_short (short_bytes n @ x) 2 = Some n"
  using unpack_short_bytes [of n] by (simp add: short_bytes_def unpack_short_def)

definition connect_ready :: "mqtt_connect \<Rightarrow> bool" where
  "connect_ready s \<longleftrightarrow> \<not> cn_finished s \<and> cn_dlen s = 0 \<and> length (cn_buff s) = 10"

text \<open>A length and its string are read.\<close>

lemma connect_loop_str:
  assumes "len_next (cn_status s) = Some kl" "val_next (len_val (cn_status s)) = Some (g, p, kv)"
    "connect_ready s" "g s = []" "t \<noteq> []" "length t < 65536"
    "\<And>u. g (s\<lparr>cn_buff := u, cn_dlen := length t, cn_status := len_val (cn_status s)\<rparr>) = g s"
    "u = p (\<lambda>_. t) (s\<lparr>cn_buff := short_bytes (of_nat (length t)) @ drop 2 (cn_buff s),
        cn_dlen := length t, cn_status := len_val (cn_status s)\<rparr>)\<lparr>cn_dlen := 0\<rparr>"
  shows "connect_loop s (str_bytes t @ d) = connect_loop (kv u) d"
proof -
  let ?n = "of_nat (length t) :: u16"
  let ?b = "short_bytes ?n @ drop 2 (cn_buff s)"
  let ?s1 = "s\<lparr>cn_buff := ?b, cn_dlen := length t, cn_status := len_val (cn_status s)\<rparr>"
  let ?s2 = "kv (p (\<lambda>_. t) ?s1\<lparr>cn_dlen := 0\<rparr>)"
  have t: "0 < length t" using assms(5) by simp
  have "kl (s\<lparr>cn_buff := ?b, cn_dlen := length t\<rparr>) = ?s1"
    using len_next_pos [of "s\<lparr>cn_buff := ?b, cn_dlen := length t\<rparr>" kl] assms(1) t by simp
  then have h1: "connect_handle s (str_bytes t @ d) = (?s1, Rest (t @ d))"
    using assms(1,3,6)
    by (simp add: connect_phase_len str_bytes_def fill_phase_all len_done_def connect_ready_def)
  have "connect_handle ?s1 (t @ d) = (?s2, Rest d)"
    using assms(2,4,5,7) t
    by (simp add: connect_phase_val [of _ _ g p kv] take_phase_all)
  then have "connect_loop ?s1 (t @ d) = connect_loop ?s2 d"
    using connect.loop_step [of "t @ d" ?s1] assms(3,5) by (simp add: connect_ready_def)
  with h1 connect.loop_step [of "str_bytes t @ d" s] assms(3,5,8) show ?thesis
    by (simp add: connect_ready_def str_bytes_def)
qed

lemma connect_after_username:
  assumes "connect_ready s" "cn_passwd s = []" "cn_conn_flags s AND 0x40 \<noteq> 0 \<longleftrightarrow> pw \<noteq> []" "length pw < 65536"
  shows "\<exists>p. connect_loop (username_val_next s) (opt_str pw @ r) = (p, Rest r) \<and> cn_finished p \<and>
     connect_view p = connect_view (s\<lparr>cn_passwd := pw\<rparr>)"
proof (cases "pw = []")
  case True
  with assms show ?thesis
    by (simp add: username_val_next_def opt_str_def connect_view_def)
next
  case False
  let ?s = "s\<lparr>cn_status := CN_PASSWD_LEN\<rparr>"
  have "username_val_next s = ?s" using assms(3) False by (simp add: username_val_next_def)
  moreover have "connect_loop ?s (str_bytes pw @ r) =
     connect_loop (passwd_val_next (s\<lparr>cn_buff := short_bytes (of_nat (length pw)) @ drop 2 (cn_buff s),
        cn_dlen := 0, cn_status := CN_PASSWD_VAL, cn_passwd := pw\<rparr>)) r"
    by (rule connect_loop_str [where g = cn_passwd and p = cn_passwd_update])
       (use assms False in \<open>simp_all add: len_next_def val_next_def len_val_def connect_ready_def\<close>)
  ultimately show ?thesis
    using False by (simp add: opt_str_def passwd_val_next_def connect_view_def)
qed

lemma connect_after_will:
  assumes "connect_ready s" "cn_passwd s = []" "cn_conn_flags s AND 0x40 \<noteq> 0 \<longleftrightarrow> pw \<noteq> []" "length pw < 65536"
    "cn_username s = []" "cn_conn_flags s AND 0x80 \<noteq> 0 \<longleftrightarrow> un \<noteq> []" "length un < 65536"
  shows "\<exists>p. connect_loop (will_msg_val_next s) (opt_str un @ opt_str pw @ r) = (p, Rest r) \<and> cn_finished p \<and>
     connect_view p = connect_view (s\<lparr>cn_username := un, cn_passwd := pw\<rparr>)"
proof (cases "un = []")
  case True
  with assms have "will_msg_val_next s = username_val_next s"
    by (simp add: will_msg_val_next_def username_val_next_def)
  with connect_after_username [OF assms(1-4), of r] True assms(5) show ?thesis
    by (simp add: opt_str_def connect_view_def)
next
  case False
  let ?s = "s\<lparr>cn_status := CN_USERNAME_LEN\<rparr>"
  let ?t = "s\<lparr>cn_buff := short_bytes (of_nat (length un)) @ drop 2 (cn_buff s), cn_dlen := 0,
      cn_status := CN_USERNAME_VAL, cn_username := un\<rparr>"
  have "will_msg_val_next s = ?s" using assms(6) False by (simp add: will_msg_val_next_def)
  moreover have "connect_loop ?s (str_bytes un @ opt_str pw @ r) =
     connect_loop (username_val_next ?t) (opt_str pw @ r)"
    by (rule connect_loop_str [where g = cn_username and p = cn_username_update])
       (use assms False in \<open>simp_all add: len_next_def val_next_def len_val_def connect_ready_def\<close>)
  moreover have "\<exists>p. connect_loop (username_val_next ?t) (opt_str pw @ r) = (p, Rest r) \<and> cn_finished p \<and>
     connect_view p = connect_view (?t\<lparr>cn_passwd := pw\<rparr>)"
    by (rule connect_after_username) (use assms in \<open>simp_all add: connect_ready_def\<close>)
  ultimately show ?thesis
    using False by (simp add: opt_str_def connect_view_def)
qed

lemma connect_after_cid:
  assumes "connect_ready s" "cn_passwd s = []" "cn_conn_flags s AND 0x40 \<noteq> 0 \<longleftrightarrow> pw \<noteq> []" "length pw < 65536"
    "cn_username s = []" "cn_conn_flags s AND 0x80 \<noteq> 0 \<longleftrightarrow> un \<noteq> []" "length un < 65536"
    "cn_will_topic s = []" "cn_will_msg s = []" "cn_conn_flags s AND 0x04 \<noteq> 0 \<longleftrightarrow> wt \<noteq> []"
    "wt = [] \<longleftrightarrow> wm = []" "length wt < 65536" "length wm < 65536"
  shows "\<exists>p. connect_loop (cid_val_next s) (opt_str wt @ opt_str wm @ opt_str un @ opt_str pw @ r) = (p, Rest r) \<and>
     cn_finished p \<and> connect_view p =
       connect_view (s\<lparr>cn_will_topic := wt, cn_will_msg := wm, cn_username := un, cn_passwd := pw\<rparr>)"
proof (cases "wt = []")
  case True
  with assms have "cid_val_next s = will_msg_val_next s"
    by (simp add: will_msg_val_next_def cid_val_next_def)
  with connect_after_will [OF assms(1-7), of r] True assms(8,9,11) show ?thesis
    by (simp add: opt_str_def connect_view_def)
next
  case False
  let ?d = "opt_str un @ opt_str pw @ r"
  let ?s = "s\<lparr>cn_status := CN_WILL_TOPIC_LEN\<rparr>"
  let ?t = "s\<lparr>cn_buff := short_bytes (of_nat (length wt)) @ drop 2 (cn_buff s), cn_dlen := 0,
      cn_will_topic := wt, cn_status := CN_WILL_TOPIC_VAL\<rparr>"
  let ?t' = "s\<lparr>cn_buff := short_bytes (of_nat (length wt)) @ drop 2 (cn_buff s), cn_dlen := 0,
      cn_will_topic := wt, cn_status := CN_WILL_MSG_LEN\<rparr>"
  let ?u = "?t'\<lparr>cn_buff := short_bytes (of_nat (length wm)) @ drop 2 (cn_buff ?t'), cn_dlen := 0,
      cn_status := CN_WILL_MSG_VAL, cn_will_msg := wm\<rparr>"
  have "cid_val_next s = ?s" using assms(10) False by (simp add: cid_val_next_def)
  moreover have "connect_loop ?s (str_bytes wt @ str_bytes wm @ ?d) =
     connect_loop (will_topic_val_next ?t) (str_bytes wm @ ?d)"
    by (rule connect_loop_str [where g = cn_will_topic and p = cn_will_topic_update])
       (use assms False in \<open>simp_all add: len_next_def val_next_def len_val_def connect_ready_def\<close>)
  moreover have "will_topic_val_next ?t = ?t'" by (simp add: will_topic_val_next_def)
  moreover have "connect_loop ?t' (str_bytes wm @ ?d) = connect_loop (will_msg_val_next ?u) ?d"
    by (rule connect_loop_str [where g = cn_will_msg and p = cn_will_msg_update])
       (use assms False in \<open>simp_all add: len_next_def val_next_def len_val_def connect_ready_def\<close>)
  moreover have "\<exists>p. connect_loop (will_msg_val_next ?u) ?d = (p, Rest r) \<and> cn_finished p \<and>
     connect_view p = connect_view (?u\<lparr>cn_username := un, cn_passwd := pw\<rparr>)"
    by (rule connect_after_will) (use assms in \<open>simp_all add: connect_ready_def\<close>)
  ultimately show ?thesis
    using False assms(11)
    by (simp add: opt_str_def connect_view_def)
qed

lemma connect_loop_body:
  assumes "length cid < 65536" "length wt < 65536" "length wm < 65536" "length un < 65536" "length pw < 65536"
    "f AND 0x40 \<noteq> 0 \<longleftrightarrow> pw \<noteq> []" "f AND 0x80 \<noteq> 0 \<longleftrightarrow> un \<noteq> []"
    "f AND 0x04 \<noteq> 0 \<longleftrightarrow> wt \<noteq> []" "wt = [] \<longleftrightarrow> wm = []"
  shows "\<exists>p. connect_loop (mqtt_connect_of pad h) (connect_body f ka cid wt wm un pw @ r) = (p, Rest r) \<and>
     cn_finished p \<and> connect_view p =
       (f, push_bit 8 (ucast (mosq_lsb ka)) OR ucast pad, MQTT_QOS0, cid, wt, wm, un, pw)"
proof -
  let ?K = "push_bit 8 (ucast (mosq_lsb ka)) OR ucast pad :: u16"
  let ?s = "mqtt_connect_of pad h"
  define H where "H = [0, 0x04, 0x4d, 0x51, 0x54, 0x54, 0x04, f] @ short_bytes ka"
  let ?d = "opt_str wt @ opt_str wm @ opt_str un @ opt_str pw @ r"
  let ?s1 = "?s\<lparr>cn_buff := H, cn_conn_flags := f, cn_keep_alive := ?K, cn_dlen := 0, cn_status := CN_CID_LEN\<rparr>"
    have H: "H ! 7 = f" "H ! 9 = mosq_lsb ka" "length H = 10"
    by (simp_all add: H_def short_bytes_def eval_nat_numeral)
  then have ne: "H \<noteq> []" by auto
  have r1: "connect_ready ?s1" using H(3) by (simp add: connect_ready_def mqtt_connect_of_def)
  have "connect_handle ?s (H @ str_bytes cid @ ?d) = (?s1, Rest (str_bytes cid @ ?d))"
    using H ne by (simp add: connect_phase_hdr mqtt_connect_of_def unpack_short_def fill_phase_all)
  with ne have start: "connect_loop ?s (H @ str_bytes cid @ ?d) = connect_loop ?s1 (str_bytes cid @ ?d)"
    using connect.loop_step [of "H @ str_bytes cid @ ?d" ?s] by (simp add: mqtt_connect_of_def)
  have cid: "connect_loop ?s1 (str_bytes cid @ ?d) =
      connect_loop (cid_val_next (?s1\<lparr>cn_buff := short_bytes (of_nat (length cid)) @ drop 2 H, cn_cid := cid,
        cn_status := (if cid = [] then CN_CID_LEN else CN_CID_VAL)\<rparr>)) ?d"
  proof (cases "cid = []")
    case True
    have "connect_handle ?s1 (str_bytes cid @ ?d) =
        (cid_len_next (?s1\<lparr>cn_buff := short_bytes 0 @ drop 2 H, cn_dlen := 0\<rparr>), Rest ?d)"
      using True r1 H(3) by (simp add: connect_phase_len len_next_def str_bytes_def fill_phase_all len_done_def)
    moreover have "cid_len_next t = cid_val_next t" if "cn_dlen t = 0" for t
      using that by (simp add: cid_len_next_def cid_val_next_def)
    ultimately show ?thesis
      using True connect.loop_step [of "str_bytes cid @ ?d" ?s1]
      by (simp add: str_bytes_def mqtt_connect_of_def)
  next
    case False
    have "connect_loop ?s1 (str_bytes cid @ ?d) =
      connect_loop (cid_val_next (?s1\<lparr>cn_buff := short_bytes (of_nat (length cid)) @ drop 2 H,
        cn_cid := cid, cn_status := CN_CID_VAL\<rparr>)) ?d"
      by (rule connect_loop_str [where g = cn_cid and p = cn_cid_update])
         (use assms(1) False r1 in \<open>simp_all add: len_next_def val_next_def len_val_def mqtt_connect_of_def\<close>)
    with False show ?thesis by simp
  qed
  have "\<exists>p. connect_loop (cid_val_next (?s1\<lparr>cn_buff := short_bytes (of_nat (length cid)) @ drop 2 H, cn_cid := cid,
        cn_status := (if cid = [] then CN_CID_LEN else CN_CID_VAL)\<rparr>)) ?d = (p, Rest r) \<and>
     cn_finished p \<and> connect_view p =
       connect_view ((?s1\<lparr>cn_buff := short_bytes (of_nat (length cid)) @ drop 2 H, cn_cid := cid,
        cn_status := (if cid = [] then CN_CID_LEN else CN_CID_VAL)\<rparr>)
        \<lparr>cn_will_topic := wt, cn_will_msg := wm, cn_username := un, cn_passwd := pw\<rparr>)"
    by (rule connect_after_cid)
       (use assms H in \<open>simp_all add: connect_ready_def mqtt_connect_of_def\<close>)
  with start cid have "\<exists>p. connect_loop ?s (H @ str_bytes cid @ ?d) = (p, Rest r) \<and>
     cn_finished p \<and> connect_view p = (f, ?K, MQTT_QOS0, cid, wt, wm, un, pw)"
    by (simp add: connect_view_def mqtt_connect_of_def)
  moreover have "connect_body f ka cid wt wm un pw @ r = H @ str_bytes cid @ ?d"
    by (simp add: connect_body_def H_def)
  ultimately show ?thesis by (simp only:)
qed

text \<open>The request as the serializer completes it: its flags, and the will without its half.\<close>

definition connect_flags :: "mqtt_connect \<Rightarrow> byte" where
  "connect_flags s =
     cn_conn_flags s OR (if cn_username s \<noteq> [] then push_bit 7 1 else 0)
       OR (if cn_passwd s \<noteq> [] then push_bit 6 1 else 0)
       OR (if cn_will_topic s \<noteq> [] \<and> cn_will_msg s \<noteq> [] then push_bit 2 1 else 0)"

definition will_of :: "mqtt_connect \<Rightarrow> bytes \<Rightarrow> bytes" where
  "will_of s t = (if cn_will_topic s \<noteq> [] \<and> cn_will_msg s \<noteq> [] then t else [])"

definition connect_wire_body :: "mqtt_connect \<Rightarrow> bytes" where
  "connect_wire_body s =
     connect_body (connect_flags s) (cn_keep_alive s) (cn_cid s) (will_of s (cn_will_topic s))
       (will_of s (cn_will_msg s)) (cn_username s) (cn_passwd s)"

definition connect_ok :: "mqtt_connect \<Rightarrow> bool" where
  "connect_ok s \<longleftrightarrow> length (cn_cid s) < 65536 \<and> length (cn_will_topic s) < 65536 \<and>
     length (cn_will_msg s) < 65536 \<and> length (cn_username s) < 65536 \<and> length (cn_passwd s) < 65536"

text \<open>The presence bits are those of members that are there; the setters set no other.\<close>

definition flags_ok :: "mqtt_connect \<Rightarrow> bool" where
  "flags_ok s \<longleftrightarrow> (bit (cn_conn_flags s) 7 \<longrightarrow> cn_username s \<noteq> []) \<and>
     (bit (cn_conn_flags s) 6 \<longrightarrow> cn_passwd s \<noteq> []) \<and>
     (bit (cn_conn_flags s) 2 \<longrightarrow> cn_will_topic s \<noteq> [] \<and> cn_will_msg s \<noteq> [])"

lemma byte_eq_iff:
  "(a :: byte) = b \<longleftrightarrow> bit a 0 = bit b 0 \<and> bit a 1 = bit b 1 \<and> bit a 2 = bit b 2 \<and> bit a 3 = bit b 3 \<and>
     bit a 4 = bit b 4 \<and> bit a 5 = bit b 5 \<and> bit a 6 = bit b 6 \<and> bit a 7 = bit b 7"
  by (auto intro: byte_eqI)

lemma and_flag:
  "(f :: byte) AND 0x80 \<noteq> 0 \<longleftrightarrow> bit f 7" "f AND 0x40 \<noteq> 0 \<longleftrightarrow> bit f 6" "f AND 0x04 \<noteq> 0 \<longleftrightarrow> bit f 2"
  by (simp_all add: byte_eq_iff bit_simps)

lemma connect_flags_bits:
  "flags_ok s \<Longrightarrow> bit (connect_flags s) 7 \<longleftrightarrow> cn_username s \<noteq> []"
  "flags_ok s \<Longrightarrow> bit (connect_flags s) 6 \<longleftrightarrow> cn_passwd s \<noteq> []"
  "flags_ok s \<Longrightarrow> bit (connect_flags s) 2 \<longleftrightarrow> cn_will_topic s \<noteq> [] \<and> cn_will_msg s \<noteq> []"
  by (auto simp: flags_ok_def connect_flags_def bit_simps)

lemma length_opt_str: "length (opt_str s) = (if s = [] then 0 else length s + 2)"
  by (simp add: opt_str_def)

lemma connect_body_bound: "connect_ok s \<Longrightarrow> length (connect_wire_body s) < 268435456"
  by (simp add: connect_ok_def connect_wire_body_def connect_body_def length_opt_str will_of_def)

lemma connect_to_string_eq:
  assumes "connect_ok s"
  shows "\<exists>s'. connect_to_string s out =
     (s', out @ wire (htype (mheader s)) (hflags (mheader s)) (connect_wire_body s), True) \<and>
     cn_conn_flags s' = connect_flags s \<and> cn_will_topic s' = will_of s (cn_will_topic s) \<and>
     cn_will_msg s' = will_of s (cn_will_msg s)"
proof -
  let ?n = "length (connect_wire_body s)"
  let ?h = "hdr_set_remaing_length (of_nat ?n) (mheader s)"
  have n: "?n < 268435456" by (rule connect_body_bound [OF assms])
  then have bh: "build_header ?h out = (?h, out @ first_byte (htype (mheader s)) (hflags (mheader s)) # vbi ?n, True)"
    by (simp add: build_header_eq hdr_set_remaing_length_def)
  have len: "of_nat ?n = (10 :: u32) + 2 + of_nat (length (cn_cid s)) +
      (if cn_username s = [] then 0 else 2 + of_nat (length (cn_username s))) +
      (if cn_passwd s = [] then 0 else 2 + of_nat (length (cn_passwd s))) +
      (if cn_will_topic s \<noteq> [] \<and> cn_will_msg s \<noteq> []
       then 2 + of_nat (length (cn_will_topic s)) + 2 + of_nat (length (cn_will_msg s)) else 0)"
    by (simp add: connect_wire_body_def connect_body_def length_opt_str will_of_def)
  define w where "w \<longleftrightarrow> cn_will_topic s \<noteq> [] \<and> cn_will_msg s \<noteq> []"
  note ok = assms [unfolded connect_ok_def]
  show ?thesis
    using ok bh [unfolded len]
    by (cases "cn_username s = []"; cases "cn_passwd s = []"; cases w)
       (auto simp: connect_to_string_def Let_def w_def algebra_simps or.assoc connect_flags_def will_of_def
         wire_def connect_wire_body_def connect_body_def opt_str_def pack_add_string_eq pack_add_short_eq
         pack_add_char_def)
qed

subsection \<open>Properties of the connect request\<close>

lemma connect_inv_of: "connect_inv (mqtt_connect_of pad h)"
  by (simp add: connect_inv_def mqtt_connect_of_def len_next_def)

lemma connect_parse:
  assumes "connect_ok s" "flags_ok s" "concat cs = connect_wire_body s @ r"
  shows "\<exists>p. feed connect_loop (mqtt_connect_of pad h) cs = (p, Rest r) \<and> cn_finished p \<and>
     connect_view p = (connect_flags s, push_bit 8 (ucast (mosq_lsb (cn_keep_alive s))) OR ucast pad, MQTT_QOS0,
       cn_cid s, will_of s (cn_will_topic s), will_of s (cn_will_msg s), cn_username s, cn_passwd s)"
  unfolding connect.feed_concat [OF connect_inv_of] assms(3) connect_wire_body_def
  by (rule connect_loop_body)
     (use assms(1,2) in \<open>simp_all add: connect_ok_def and_flag connect_flags_bits will_of_def
        del: not_not\<close>)

text \<open>
  C13: a connect request whose strings are below 64 KB is written as fixed header and body, and
  that body, cut anywhere, is read back with the same connect flags, client id, user name,
  password and will; a will that lacks its topic or its message is dropped by the sender.  The
  will's quality of service is not taken from the flags: it reads as QoS 0.
\<close>

theorem connect_roundtrip:
  assumes "connect_ok s" "flags_ok s" "connect_to_string s out = (s', w, ok)"
    "concat cs = connect_wire_body s @ r"
  shows "ok \<and> w = out @ wire (htype (mheader s)) (hflags (mheader s)) (connect_wire_body s) \<and>
     (\<exists>p. feed connect_loop (mqtt_connect_of pad h) cs = (p, Rest r) \<and> cn_finished p \<and>
        cn_conn_flags p = cn_conn_flags s' \<and> cn_cid p = cn_cid s \<and> cn_username p = cn_username s \<and>
        cn_passwd p = cn_passwd s \<and> cn_will_topic p = cn_will_topic s' \<and>
        cn_will_msg p = cn_will_msg s' \<and> cn_will_qos p = MQTT_QOS0)"
proof -
  from connect_to_string_eq [OF assms(1), of out] assms(3) have "ok"
    "w = out @ wire (htype (mheader s)) (hflags (mheader s)) (connect_wire_body s)"
    "cn_conn_flags s' = connect_flags s" "cn_will_topic s' = will_of s (cn_will_topic s)"
    "cn_will_msg s' = will_of s (cn_will_msg s)" by auto
  with connect_parse [OF assms(1,2,4), of pad h] show ?thesis
    by (auto simp: connect_view_def)
qed

theorem connect_roundtrip_witness:
  "\<exists>p. feed connect_loop (mqtt_connect_of 0x55 (mqtt_header_new MQTT_CONNECT))
      [[0x00, 0x04, 0x4d, 0x51, 0x54], [0x54, 0x04, 0x82, 0x01, 0x2c, 0x00, 0x01, 0x61, 0x00],
       [0x01, 0x62, 0x99]] = (p, Rest [0x99]) \<and> cn_finished p \<and> cn_cid p = [0x61] \<and>
     cn_username p = [0x62] \<and> cn_passwd p = [] \<and> cn_conn_flags p = 0x82"
proof -
  let ?s = "connect_clean_session (connect_set_will_msg (Some [0x63, 0])
      (connect_set_username (Some [0x62, 0]) (connect_set_cid (Some [0x61, 0]) (mqtt_connect_new 0))))"
  have f: "cn_cid ?s = [0x61]" "cn_username ?s = [0x62]" "cn_passwd ?s = []" "cn_will_topic ?s = []"
      "cn_conn_flags ?s = 0x02" "cn_keep_alive ?s = 300" "length (cn_will_msg ?s) = 1"
    by (simp_all add: connect_clean_session_def connect_set_will_msg_def connect_set_username_def
        connect_set_cid_def cstr_arg_def c_str_def mqtt_connect_new_def)
  have ok: "connect_ok ?s" "flags_ok ?s" by (simp_all add: connect_ok_def flags_ok_def f)
  obtain s' w k where e: "connect_to_string ?s [] = (s', w, k)" by (metis prod_cases3)
  have b: "connect_wire_body ?s = [0x00, 0x04, 0x4d, 0x51, 0x54, 0x54, 0x04, 0x82, 0x01, 0x2c, 0x00, 0x01, 0x61,
      0x00, 0x01, 0x62]"
    by (simp add: connect_wire_body_def connect_body_def connect_flags_def will_of_def f opt_str_def
        str_bytes_def short_bytes_def mosq_msb_def mosq_lsb_def)
  have fl: "cn_conn_flags s' = 0x82"
    using connect_to_string_eq [OF ok(1), of "[]"] e by (simp add: connect_flags_def f)
  from connect_roundtrip [OF ok e, of "[[0x00, 0x04, 0x4d, 0x51, 0x54],
      [0x54, 0x04, 0x82, 0x01, 0x2c, 0x00, 0x01, 0x61, 0x00], [0x01, 0x62, 0x99]]" "[0x99]" "0x55"
      "mqtt_header_new MQTT_CONNECT"] show ?thesis
    unfolding b f fl by auto
qed

text \<open>
  C28: the keep-alive does not survive: its low byte is read as the high one, and the low one
  comes from the padding behind the buffer.  What the parser reports is what was sent only if
  both bytes sent are the same and equal to that padding byte; the default of 300 seconds is
  never read back.
\<close>

theorem connect_keep_alive_lost:
  assumes "connect_ok s" "flags_ok s" "concat cs = connect_wire_body s @ r"
  shows "\<exists>p. feed connect_loop (mqtt_connect_of pad h) cs = (p, Rest r) \<and> cn_finished p \<and>
     (cn_keep_alive p = cn_keep_alive s \<longleftrightarrow>
        mosq_msb (cn_keep_alive s) = mosq_lsb (cn_keep_alive s) \<and> pad = mosq_lsb (cn_keep_alive s))"
proof -
  let ?k = "cn_keep_alive s"
  have "push_bit 8 (ucast (mosq_lsb ?k)) OR ucast pad = ?k \<longleftrightarrow> mosq_msb ?k = mosq_lsb ?k \<and> pad = mosq_lsb ?k"
    (is "?l = ?k \<longleftrightarrow> _")
  proof -
    have "?l = push_bit 8 (ucast (mosq_msb ?k)) OR ucast (mosq_lsb ?k) \<longleftrightarrow>
        mosq_lsb ?k = mosq_msb ?k \<and> pad = mosq_lsb ?k" by (rule short_inject)
    then show ?thesis unfolding short_of_bytes by auto
  qed
  with connect_parse [OF assms, of pad h] show ?thesis by (auto simp: connect_view_def)
qed

theorem connect_keep_alive_lost_witness:
  "\<exists>p. feed connect_loop (mqtt_connect_of 0x2c (mqtt_header_new MQTT_CONNECT))
      [[0x00, 0x04, 0x4d, 0x51, 0x54, 0x54, 0x04, 0x00, 0x01, 0x2c, 0x00, 0x00]] = (p, Rest []) \<and>
     cn_finished p \<and> cn_keep_alive p \<noteq> 300"
proof -
  let ?s = "mqtt_connect_new 0"
  have ok: "connect_ok ?s" "flags_ok ?s" by (simp_all add: connect_ok_def flags_ok_def mqtt_connect_new_def)
  have b: "connect_wire_body ?s = [0x00, 0x04, 0x4d, 0x51, 0x54, 0x54, 0x04, 0x00, 0x01, 0x2c, 0x00, 0x00]"
    by (simp add: connect_wire_body_def connect_body_def connect_flags_def will_of_def opt_str_def
        str_bytes_def short_bytes_def mosq_msb_def mosq_lsb_def mqtt_connect_new_def)
  have k: "cn_keep_alive ?s = 300" "mosq_msb 300 \<noteq> mosq_lsb 300"
    by (simp_all add: mqtt_connect_new_def mosq_msb_def mosq_lsb_def)
  from connect_keep_alive_lost [OF ok, of "[[0x00, 0x04, 0x4d, 0x51, 0x54, 0x54, 0x04, 0x00, 0x01, 0x2c, 0x00, 0x00]]"
      "[]" "0x2c" "mqtt_header_new MQTT_CONNECT"] show ?thesis
    unfolding b k(1) using k(2) by auto
qed

text \<open>The setters as calls, and what the last call with an argument has left.\<close>

datatype connect_call =
    Set_Keep_Alive u16 | Set_Cid "bytes option" | Set_Username "bytes option" | Set_Passwd "bytes option"
  | Set_Will_Qos mqtt_qos | Set_Will_Topic "bytes option" | Set_Will_Msg "bytes option" | Clean_Session

fun do_connect :: "connect_call \<Rightarrow> mqtt_connect \<Rightarrow> mqtt_connect" where
  "do_connect (Set_Keep_Alive n) s = connect_set_keep_alive n s"
| "do_connect (Set_Cid a) s = connect_set_cid a s"
| "do_connect (Set_Username a) s = connect_set_username a s"
| "do_connect (Set_Passwd a) s = connect_set_passwd a s"
| "do_connect (Set_Will_Qos q) s = connect_set_will_qos q s"
| "do_connect (Set_Will_Topic a) s = connect_set_will_topic a s"
| "do_connect (Set_Will_Msg a) s = connect_set_will_msg a s"
| "do_connect Clean_Session s = connect_clean_session s"

definition last_set :: "(connect_call \<Rightarrow> 'a option) \<Rightarrow> 'a \<Rightarrow> connect_call list \<Rightarrow> 'a" where
  "last_set f d cs = fold (\<lambda>c x. case f c of None \<Rightarrow> x | Some y \<Rightarrow> y) cs d"

lemma last_set_snoc [simp]:
  "last_set f d [] = d" "last_set f d (cs @ [c]) = (case f c of None \<Rightarrow> last_set f d cs | Some y \<Rightarrow> y)"
  by (simp_all add: last_set_def split: option.split)

text \<open>The string arguments: a null pointer and an empty string set nothing.\<close>

definition arg_of :: "connect_call \<Rightarrow> connect_call \<Rightarrow> bytes option" where
  "arg_of k c = (case (k, c) of
     (Set_Cid _, Set_Cid a) \<Rightarrow> cstr_arg a | (Set_Username _, Set_Username a) \<Rightarrow> cstr_arg a
   | (Set_Passwd _, Set_Passwd a) \<Rightarrow> cstr_arg a | (Set_Will_Topic _, Set_Will_Topic a) \<Rightarrow> cstr_arg a
   | (Set_Will_Msg _, Set_Will_Msg a) \<Rightarrow> cstr_arg a | _ \<Rightarrow> None)"

definition was_set :: "connect_call list \<Rightarrow> mqtt_connect \<Rightarrow> bool" where
  "was_set cs s \<longleftrightarrow>
     cn_keep_alive s = last_set (\<lambda>c. case c of Set_Keep_Alive n \<Rightarrow> Some n | _ \<Rightarrow> None) 300 cs \<and>
     cn_cid s = last_set (arg_of (Set_Cid None)) [] cs \<and> cn_username s = last_set (arg_of (Set_Username None)) [] cs \<and>
     cn_passwd s = last_set (arg_of (Set_Passwd None)) [] cs \<and>
     cn_will_qos s = last_set (\<lambda>c. case c of Set_Will_Qos q \<Rightarrow> Some q | _ \<Rightarrow> None) MQTT_QOS0 cs \<and>
     cn_will_topic s = last_set (arg_of (Set_Will_Topic None)) [] cs \<and> cn_will_msg s = last_set (arg_of (Set_Will_Msg None)) [] cs"

text \<open>The connect flags before the request is serialized: the session and the level of the will.\<close>

definition setter_flags :: "bool \<Rightarrow> mqtt_qos \<Rightarrow> byte \<Rightarrow> bool" where
  "setter_flags clean q f \<longleftrightarrow> \<not> bit f 0 \<and> bit f 1 = clean \<and> \<not> bit f 2 \<and> bit f 3 = (q = MQTT_QOS1) \<and> bit f 4 = (q = MQTT_QOS2) \<and>
     \<not> bit f 5 \<and> \<not> bit f 6 \<and> \<not> bit f 7"

lemma connect_calls:
  "was_set cs (fold do_connect cs (mqtt_connect_new pad)) \<and>
   setter_flags (Clean_Session \<in> set cs) (cn_will_qos (fold do_connect cs (mqtt_connect_new pad)))
     (cn_conn_flags (fold do_connect cs (mqtt_connect_new pad)))"
proof (induction cs rule: rev_induct)
  case Nil
  show ?case by (simp add: was_set_def setter_flags_def mqtt_connect_new_def)
next
  case (snoc c cs)
  then show ?case
    by (cases c; auto simp: was_set_def setter_flags_def arg_of_def connect_set_keep_alive_def connect_set_cid_def
        connect_set_username_def connect_set_passwd_def connect_set_will_topic_def connect_set_will_msg_def
        connect_clean_session_def connect_set_will_qos_def Let_def bit_simps split: option.splits mqtt_qos.splits)
qed

text \<open>
  C18: whatever setters are called on a new connect request, with whatever arguments: each member is what the last call with a
  string in it has set, and a request that is then serialized carries, as eighth byte of its body, flags of which bit 7, 6 and 2 tell
  whether there is a user name, a password and a will (a topic and a message), bits 3 and 4 the level given last for the will, be
  there a will or not, and bit 1 whether \<open>clean_session\<close> has been called; the other bits are clear.
\<close>

theorem connect_setters_flags:
  assumes "s = fold do_connect cs (mqtt_connect_new pad)" "connect_ok s" "connect_to_string s out = (s', w, ok)"
  shows "was_set cs s \<and> ok \<and> w = out @ wire (htype (mheader s)) (hflags (mheader s)) (connect_wire_body s) \<and>
     (\<exists>f. connect_wire_body s ! 7 = f \<and> (bit f 7 \<longleftrightarrow> cn_username s \<noteq> []) \<and> (bit f 6 \<longleftrightarrow> cn_passwd s \<noteq> []) \<and>
        (bit f 2 \<longleftrightarrow> cn_will_topic s \<noteq> [] \<and> cn_will_msg s \<noteq> []) \<and>
        of_bool (bit f 3) + 2 * of_bool (bit f 4) = qos_code (cn_will_qos s) \<and>
        (bit f 1 \<longleftrightarrow> Clean_Session \<in> set cs) \<and> \<not> bit f 0 \<and> \<not> bit f 5)"
proof -
  have "connect_wire_body s ! 7 = connect_flags s" by (simp add: connect_wire_body_def connect_body_def)
  moreover have "was_set cs s" "setter_flags (Clean_Session \<in> set cs) (cn_will_qos s) (cn_conn_flags s)"
    using connect_calls [of cs pad] assms(1) by simp_all
  ultimately show ?thesis
    using connect_to_string_eq [OF assms(2), of out] assms(3)
    by (cases "cn_will_qos s") (auto simp: setter_flags_def connect_flags_def bit_simps)
qed

theorem connect_setters_flags_witness:
  "\<exists>s w s'. s = fold do_connect [Set_Username (Some [0x61, 0]), Set_Username None, Set_Will_Qos MQTT_QOS2, Set_Username (Some [0x62, 0]), Clean_Session]
       (mqtt_connect_new 0) \<and> connect_to_string s [] = (s', w, True) \<and> cn_username s = [0x62] \<and> was_set
         [Set_Username (Some [0x61, 0]), Set_Username None, Set_Will_Qos MQTT_QOS2, Set_Username (Some [0x62, 0]), Clean_Session] s \<and>
     bit (connect_wire_body s ! 7) 7 \<and> bit (connect_wire_body s ! 7) 4 \<and> \<not> bit (connect_wire_body s ! 7) 6"
proof -
  let ?cs = "[Set_Username (Some [0x61, 0]), Set_Username None, Set_Will_Qos MQTT_QOS2, Set_Username (Some [0x62, 0]), Clean_Session]"
  define s where s: "s = fold do_connect ?cs (mqtt_connect_new 0)"
  have f: "cn_cid s = []" "cn_username s = [0x62]" "cn_passwd s = []" "cn_will_topic s = []" "cn_will_msg s = []"
      "cn_will_qos s = MQTT_QOS2"
    by (simp_all add: s connect_clean_session_def connect_set_will_qos_def connect_set_username_def cstr_arg_def c_str_def
        mqtt_connect_new_def Let_def)
  have ok: "connect_ok s" by (simp add: connect_ok_def f)
  obtain s' w k where e: "connect_to_string s [] = (s', w, k)" by (metis prod_cases3)
  from connect_setters_flags [OF s ok e] have r: "was_set ?cs s" "k" "bit (connect_wire_body s ! 7) 7 \<longleftrightarrow> cn_username s \<noteq> []"
      "bit (connect_wire_body s ! 7) 6 \<longleftrightarrow> cn_passwd s \<noteq> []"
      "of_bool (bit (connect_wire_body s ! 7) 3) + 2 * of_bool (bit (connect_wire_body s ! 7) 4) = qos_code (cn_will_qos s)"
    by simp_all
  from r(5) f(6) have "bit (connect_wire_body s ! 7) 4" by (simp add: of_bool_def split: if_splits)
  with r e f(2,3) s show ?thesis by (intro exI [of _ s] exI [of _ w] exI [of _ s']) simp
qed

end
