(* ===== verification/Mqtt_Connack.thy ===== *)
theory Mqtt_Connack
  imports Mqtt_Message
begin

text \<open>
  The answer to a connect request (cpp/include/nio/mqtt/mqtt_connack.hpp,
  cpp/src/mqtt/mqtt_connack.cpp): a flags byte and a return code.
\<close>

subsection \<open>State and operations\<close>

definition MQTT_CONNACK_OK :: byte where "MQTT_CONNACK_OK = 0x00"
definition MQTT_CONNACK_ERR_VER :: byte where "MQTT_CONNACK_ERR_VER = 0x01"
definition MQTT_CONNACK_ERR_CID :: byte where "MQTT_CONNACK_ERR_CID = 0x02"
definition MQTT_CONNACK_ERR_SVR :: byte where "MQTT_CONNACK_ERR_SVR = 0x03"
definition MQTT_CONNACK_ERR_AUTH :: byte where "MQTT_CONNACK_ERR_AUTH = 0x04"
definition MQTT_CONNACK_ERR_DENY :: byte where "MQTT_CONNACK_ERR_DENY = 0x05"

record mqtt_connack = mqtt_message +
  ca_dlen :: nat            \<comment> \<open>\<open>int dlen_\<close>, 0 to 2\<close>
  ca_buff :: bytes          \<comment> \<open>\<open>char buff_[2]\<close>\<close>
  ca_conn_flags :: byte
  ca_connack_code :: byte
  ca_session :: bool
  ca_finished :: bool

definition mqtt_connack_new :: mqtt_connack where
  "mqtt_connack_new =
     \<lparr>mheader = mheader (mqtt_message_new MQTT_CONNACK), ca_dlen = 0, ca_buff = replicate 2 0,
      ca_conn_flags = 0, ca_connack_code = MQTT_CONNACK_OK, ca_session = False,
      ca_finished = False\<rparr>"

definition mqtt_connack_of :: "mqtt_header \<Rightarrow> mqtt_connack" where
  "mqtt_connack_of header =
     \<lparr>mheader = mheader (mqtt_message_of header), ca_dlen = 0, ca_buff = replicate 2 0,
      ca_conn_flags = 0, ca_connack_code = MQTT_CONNACK_OK, ca_session = False,
      ca_finished = False\<rparr>"

definition connack_set_session :: "bool \<Rightarrow> mqtt_connack \<Rightarrow> mqtt_connack" where
  "connack_set_session on s =
     s\<lparr>ca_session := on, ca_conn_flags := (if on then 0x01 else 0x00)\<rparr>"

definition connack_set_code :: "byte \<Rightarrow> mqtt_connack \<Rightarrow> mqtt_connack" where
  "connack_set_code code s = s\<lparr>ca_connack_code := code\<rparr>"

definition connack_to_string :: "mqtt_connack \<Rightarrow> bytes \<Rightarrow> mqtt_connack \<times> bytes \<times> bool" where
  "connack_to_string s out =
     (case build_header (hdr_set_remaing_length 2 (mheader s)) out of (h, out1, ok) \<Rightarrow>
        let s' = s\<lparr>mheader := h\<rparr>
        in if \<not> ok then (s', out1, False)
           else (s', pack_add_char (ca_connack_code s') (pack_add_char (ca_conn_flags s') out1), True))"

definition connack_update_header_var :: "mqtt_connack \<Rightarrow> bytes \<Rightarrow> mqtt_connack \<times> parse_result" where
  "connack_update_header_var s data =
     (if data = [] then (s, AssertFail)
      else if ca_dlen s \<ge> 2 then (s, Fail)
      else case fill_buff 2 (ca_buff s) (ca_dlen s) data of (buf, n, rest) \<Rightarrow>
        (let s1 = s\<lparr>ca_buff := buf, ca_dlen := n\<rparr>
         in if n < 2 then (s1, if rest \<noteq> [] then AssertFail else Rest rest)
            else (s1\<lparr>ca_conn_flags := buf ! 0, ca_connack_code := buf ! 1, ca_finished := True\<rparr>,
                  Rest rest)))"

lemma connack_update_length:
  "connack_update_header_var s d = (s', Rest r) \<Longrightarrow> length r < length d"
  by (auto simp: connack_update_header_var_def Let_def split: if_splits prod.splits
      dest: fill_buff_progress)

function connack_loop :: "mqtt_connack \<Rightarrow> bytes \<Rightarrow> mqtt_connack \<times> parse_result" where
  "connack_loop s data =
     (if data = [] \<or> ca_finished s then (s, Rest data)
      else case connack_update_header_var s data of
             (s', Rest r) \<Rightarrow> connack_loop s' r
           | (s', e) \<Rightarrow> (s', e))"
  by pat_completeness auto
termination
  by (relation "measure (\<lambda>(s, d). length d)") (auto dest: connack_update_length [OF sym])

declare connack_loop.simps [simp del]

definition connack_update :: "mqtt_connack \<Rightarrow> bytes \<Rightarrow> mqtt_connack \<times> parse_result" where
  "connack_update s data = (if data = [] then (s, Fail) else connack_loop s data)"

subsection \<open>The streaming contract\<close>

definition connack_inv :: "mqtt_connack \<Rightarrow> bool" where
  "connack_inv s \<longleftrightarrow> length (ca_buff s) = 2"

lemma connack_phase:
  "d \<noteq> [] \<Longrightarrow> ca_dlen s < 2 \<Longrightarrow> connack_update_header_var s d =
     fill_phase 2 (\<lambda>buf n. s\<lparr>ca_buff := buf, ca_dlen := n\<rparr>)
       (\<lambda>buf n. (s\<lparr>ca_buff := buf, ca_dlen := n, ca_conn_flags := buf ! 0,
                   ca_connack_code := buf ! 1, ca_finished := True\<rparr>, True))
       (ca_buff s) (ca_dlen s) d"
  by (auto simp: connack_update_header_var_def fill_phase_def Let_def split: prod.splits)

lemma connack_chunk:
  assumes "a \<noteq> []" "b \<noteq> []" "\<not> ca_finished s"
  shows "chunk_ok connack_update_header_var ca_finished s a b"
proof (cases "ca_dlen s < 2")
  case True
  show ?thesis
    by (rule chunk_fill [OF connack_phase]) (use True assms in \<open>auto simp: connack_phase\<close>)
next
  case False
  with assms(1) show ?thesis by (simp add: chunk_ok_def connack_update_header_var_def)
qed

interpretation connack: stream_parser connack_update_header_var ca_finished connack_loop "\<lambda>_. 0" connack_inv
proof
  show "connack_loop s d =
      (if d = [] \<or> ca_finished s then (s, Rest d)
       else case connack_update_header_var s d of
              (s', Rest r) \<Rightarrow> connack_loop s' r | (s', e) \<Rightarrow> (s', e))" for s d
    by (rule connack_loop.simps)
next
  fix s d s' r
  show "connack_update_header_var s d = (s', Rest r) \<Longrightarrow> suffix r d"
    by (auto simp: connack_update_header_var_def Let_def split: if_splits prod.splits
        dest: fill_buff_suffix)
next
  fix s d assume "connack_inv s" "d \<noteq> ([] :: bytes)"
  then show "connack_inv (fst (connack_update_header_var s d))"
    and "snd (connack_update_header_var s d) \<noteq> AssertFail"
    by (auto simp: connack_update_header_var_def connack_inv_def Let_def split: prod.splits
        dest: fill_buff_short fill_buff_count)
qed (auto dest: connack_update_length intro: connack_chunk)

subsection \<open>Wire form\<close>

lemma connack_to_string_eq:
  "connack_to_string s out =
     (let h = hdr_set_remaing_length 2 (mheader s)
      in (s\<lparr>mheader := h\<rparr>,
          out @ first_byte (htype h) (hflags h) # vbi 2 @ [ca_conn_flags s, ca_connack_code s], True))"
  by (simp add: connack_to_string_def build_header_eq hdr_set_remaing_length_def pack_add_char_def Let_def)

lemma connack_loop_body:
  assumes "connack_inv s" "\<not> ca_finished s" "ca_dlen s = 0"
  shows "connack_loop s (f # c # r) =
     (s\<lparr>ca_buff := [f, c], ca_dlen := 2, ca_conn_flags := f, ca_connack_code := c,
        ca_finished := True\<rparr>, Rest r)"
  using assms
  by (simp add: connack_loop.simps [of s] connack_update_header_var_def connack_inv_def
      connack_loop.simps del: fill_buff.simps)

subsection \<open>Properties\<close>

text \<open>
  A serialized connack is parsed back, however it is cut, with the same flags byte and
  return code; the session flag of the parsed object is false whatever the sender set, for
  the parser never derives it from the flags byte.
\<close>

theorem connack_roundtrip:
  assumes "connack_to_string s out = (s', w, ok)"
    "concat cs = [ca_conn_flags s, ca_connack_code s] @ r"
  shows "ok \<and> w = out @ first_byte (htype (mheader s)) (hflags (mheader s)) # vbi 2 @
             [ca_conn_flags s, ca_connack_code s] \<and>
     (\<exists>p. feed connack_loop (mqtt_connack_of h) cs = (p, Rest r) \<and> ca_finished p \<and>
       ca_conn_flags p = ca_conn_flags s \<and> ca_connack_code p = ca_connack_code s \<and> \<not> ca_session p)"
proof -
  have "connack_inv (mqtt_connack_of h)" by (simp add: connack_inv_def mqtt_connack_of_def)
  then show ?thesis
    using assms connack_loop_body [of "mqtt_connack_of h"]
    by (auto simp: connack.feed_concat connack_to_string_eq hdr_set_remaing_length_def
        mqtt_connack_of_def Let_def)
qed

theorem connack_roundtrip_witness:
  "\<exists>(s :: mqtt_connack) p. ca_session s \<and> ca_connack_code s = MQTT_CONNACK_ERR_DENY \<and>
     feed connack_loop (mqtt_connack_of (mqtt_header_new MQTT_CONNACK)) [[0x01], [0x05, 0x42]] = (p, Rest [0x42]) \<and>
     ca_conn_flags p = 0x01 \<and> ca_connack_code p = MQTT_CONNACK_ERR_DENY \<and> \<not> ca_session p"
proof -
  let ?s = "connack_set_session True (connack_set_code MQTT_CONNACK_ERR_DENY mqtt_connack_new)"
  obtain s' w ok where "connack_to_string ?s [] = (s', w, ok)" by (metis prod_cases3)
  from connack_roundtrip [OF this, of "[[0x01], [0x05, 0x42]]" "[0x42]" "mqtt_header_new MQTT_CONNACK"]
  obtain p where "feed connack_loop (mqtt_connack_of (mqtt_header_new MQTT_CONNACK))
      [[0x01], [0x05, 0x42]] = (p, Rest [0x42])"
    and "ca_conn_flags p = 0x01" "ca_connack_code p = MQTT_CONNACK_ERR_DENY" "\<not> ca_session p"
    by (auto simp: connack_set_session_def connack_set_code_def MQTT_CONNACK_ERR_DENY_def)
  moreover have "ca_session ?s" "ca_connack_code ?s = MQTT_CONNACK_ERR_DENY"
    by (simp_all add: connack_set_session_def connack_set_code_def)
  ultimately show ?thesis by blast
qed

end
