(* ===== verification/Mqtt_Publish.thy ===== *)
theory Mqtt_Publish
  imports Mqtt_Message
begin

text \<open>
  A published message (cpp/include/nio/mqtt/mqtt_publish.hpp, cpp/src/mqtt/mqtt_publish.cpp):
  topic, packet id (when the quality of service asks for one) and payload.  The length of the
  payload is not on the wire: the parser starts from the remaining length of the header and
  subtracts the size of the variable header.
\<close>

subsection \<open>State\<close>

datatype publish_status = PUB_HDR_VAR | PUB_TOPIC_LEN | PUB_TOPIC_VAL | PUB_PKTID | PUB_PAYLOAD

record mqtt_publish = mqtt_message +
  pb_pkt_id :: u16
  pb_buff :: bytes          \<comment> \<open>\<open>char buff_[2]\<close>, not initialised; stored to before it is read\<close>
  pb_dlen :: nat            \<comment> \<open>\<open>int dlen_\<close>, 0 to 65535\<close>
  pb_status :: publish_status
  pb_hlen_var :: u32
  pb_topic :: bytes
  pb_payload :: bytes
  pb_payload_len :: u32
  pb_finished :: bool

definition mqtt_publish_new :: mqtt_publish where
  "mqtt_publish_new =
     \<lparr>mheader = mheader (mqtt_message_new MQTT_PUBLISH), pb_pkt_id = 0, pb_buff = replicate 2 0,
      pb_dlen = 0, pb_status = PUB_HDR_VAR, pb_hlen_var = 0, pb_topic = [], pb_payload = [],
      pb_payload_len = 0, pb_finished = False\<rparr>"

definition mqtt_publish_of :: "mqtt_header \<Rightarrow> mqtt_publish" where
  "mqtt_publish_of header =
     \<lparr>mheader = mheader (mqtt_message_of header), pb_pkt_id = 0, pb_buff = replicate 2 0,
      pb_dlen = 0, pb_status = PUB_HDR_VAR, pb_hlen_var = 0, pb_topic = [], pb_payload = [],
      pb_payload_len = hdlen header, pb_finished = False\<rparr>"

subsection \<open>Setters and serializer\<close>

definition publish_set_topic :: "bytes \<Rightarrow> mqtt_publish \<Rightarrow> mqtt_publish" where
  "publish_set_topic topic s = s\<lparr>pb_topic := c_str topic\<rparr>"

definition publish_set_pkt_id :: "u16 \<Rightarrow> mqtt_publish \<Rightarrow> mqtt_publish" where
  "publish_set_pkt_id i s = (if i > 0 then s\<lparr>pb_pkt_id := i\<rparr> else s)"

text \<open>\<open>data\<close> is the null pointer or the memory it points to, of at least \<open>len\<close> bytes.\<close>

definition publish_set_payload :: "u32 \<Rightarrow> bytes option \<Rightarrow> mqtt_publish \<Rightarrow> mqtt_publish" where
  "publish_set_payload len dat s =
     (let s' = s\<lparr>pb_payload_len := len\<rparr>
      in case dat of
           None \<Rightarrow> s'
         | Some d \<Rightarrow> if len > 0 then s'\<lparr>pb_payload := take (unat len) d\<rparr> else s')"

text \<open>
  \<open>out.append(payload_.c_str(), payload_len_)\<close> reads \<open>payload_len_\<close> bytes whatever the size of
  \<open>payload_\<close>: after its bytes and their terminating 0 it reads \<open>mem\<close>, the memory behind them.
\<close>

definition publish_to_string :: "bytes \<Rightarrow> mqtt_publish \<Rightarrow> bytes \<Rightarrow> mqtt_publish \<times> bytes \<times> bool" where
  "publish_to_string mem s out =
     (let len = (of_nat (length (pb_topic s)) :: u32) + 2 + pb_payload_len s;
          qos = hdr_get_qos (mheader s)
      in if qos > MQTT_QOS0 \<and> pb_pkt_id s = 0 then (s, out, False)
         else
           let len = (if qos > MQTT_QOS0 then len + 2 else len);
               h1 = (if hdr_is_dup (mheader s) \<and> qos = MQTT_QOS0
                     then hdr_set_dup False (mheader s) else mheader s);
               h2 = hdr_set_remaing_length len h1
           in case build_header h2 out of (h3, out1, ok) \<Rightarrow>
                let s' = s\<lparr>mheader := h3\<rparr>
                in if \<not> ok then (s', out1, False)
                   else
                     let out2 = pack_add_string (pb_topic s') out1;
                         out3 = (if qos \<noteq> MQTT_QOS0 then pack_add_short (pb_pkt_id s') out2 else out2);
                         out4 = (if pb_payload_len s' > 0 \<and> pb_payload s' \<noteq> []
                                 then out3 @ take (unat (pb_payload_len s')) (pb_payload s' @ 0 # mem)
                                 else out3)
                     in (s', out4, True))"

subsection \<open>The handlers of the streaming parser\<close>

definition publish_update_header_var :: "mqtt_publish \<Rightarrow> bytes \<Rightarrow> mqtt_publish \<times> parse_result" where
  "publish_update_header_var s data =
     (if data = [] then (s, AssertFail)
      else (s\<lparr>pb_dlen := 0, pb_status := PUB_TOPIC_LEN\<rparr>, Rest data))"

definition publish_update_topic_len :: "mqtt_publish \<Rightarrow> bytes \<Rightarrow> mqtt_publish \<times> parse_result" where
  "publish_update_topic_len s data =
     (if data = [] then (s, AssertFail)
      else case fill_buff 2 (pb_buff s) (pb_dlen s) data of (buf, i, rest) \<Rightarrow>
        let s1 = s\<lparr>pb_buff := buf, pb_dlen := i\<rparr>
        in if i < 2 then (s1, if rest \<noteq> [] then AssertFail else Rest rest)
           else case unpack_short buf 2 of
                  None \<Rightarrow> (s1, Fail)
                | Some n \<Rightarrow>
                    if n = 0 then (s1, Fail)
                    else (s1\<lparr>pb_dlen := unat n, pb_hlen_var := ucast n + 2,
                             pb_status := PUB_TOPIC_VAL\<rparr>, Rest rest))"

definition publish_update_topic_val :: "mqtt_publish \<Rightarrow> bytes \<Rightarrow> mqtt_publish \<times> parse_result" where
  "publish_update_topic_val s data =
     (if data = [] \<or> \<not> pb_dlen s > 0 then (s, AssertFail)
      else case take_str (pb_dlen s) (pb_topic s) data of (topic, k, rest) \<Rightarrow>
        let s1 = s\<lparr>pb_topic := topic, pb_dlen := k\<rparr>
        in if k > 0 then (s1, if rest \<noteq> [] then AssertFail else Rest rest)
           else
             let s2 = s1\<lparr>pb_dlen := 0\<rparr>
             in if hdr_get_qos (mheader s2) \<noteq> MQTT_QOS0
                then (s2\<lparr>pb_status := PUB_PKTID\<rparr>, Rest rest)
                else (s2\<lparr>pb_payload_len := pb_payload_len s2 - pb_hlen_var s2,
                         pb_status := PUB_PAYLOAD\<rparr>, Rest rest))"

definition publish_update_pktid :: "mqtt_publish \<Rightarrow> bytes \<Rightarrow> mqtt_publish \<times> parse_result" where
  "publish_update_pktid s data =
     (if data = [] then (s, AssertFail)
      else if pb_dlen s \<ge> 2 then (s, Fail)
      else case fill_buff 2 (pb_buff s) (pb_dlen s) data of (buf, i, rest) \<Rightarrow>
        let s1 = s\<lparr>pb_buff := buf, pb_dlen := i\<rparr>
        in if i < 2 then (s1, if rest \<noteq> [] then AssertFail else Rest rest)
           else case unpack_short buf 2 of
                  None \<Rightarrow> (s1, Fail)
                | Some n \<Rightarrow>
                    let s2 = s1\<lparr>pb_pkt_id := n, pb_hlen_var := pb_hlen_var s1 + 2\<rparr>
                    in if pb_payload_len s2 = 0 then (s2\<lparr>pb_finished := True\<rparr>, Rest rest)
                       else if pb_payload_len s2 < pb_hlen_var s2 then (s2, Fail)
                       else
                         let s3 = s2\<lparr>pb_payload_len := pb_payload_len s2 - pb_hlen_var s2\<rparr>
                         in if pb_payload_len s3 = 0 then (s3\<lparr>pb_finished := True\<rparr>, Rest rest)
                            else (s3\<lparr>pb_status := PUB_PAYLOAD\<rparr>, Rest rest))"

definition publish_update_payload :: "mqtt_publish \<Rightarrow> bytes \<Rightarrow> mqtt_publish \<times> parse_result" where
  "publish_update_payload s data =
     (if unat (pb_payload_len s) \<le> length (pb_payload s) then (s, Fail)
      else if data = [] then (s, AssertFail)
      else
        let left = unat (pb_payload_len s) - length (pb_payload s)
        in case take_str left (pb_payload s) data of (payload, k, rest) \<Rightarrow>
             let s1 = s\<lparr>pb_payload := payload\<rparr>
             in (if k = 0 then s1\<lparr>pb_finished := True\<rparr> else s1, Rest rest))"

definition publish_handle :: "mqtt_publish \<Rightarrow> bytes \<Rightarrow> mqtt_publish \<times> parse_result" where
  "publish_handle s data =
     (case pb_status s of
        PUB_HDR_VAR \<Rightarrow> publish_update_header_var s data
      | PUB_TOPIC_LEN \<Rightarrow> publish_update_topic_len s data
      | PUB_TOPIC_VAL \<Rightarrow> publish_update_topic_val s data
      | PUB_PKTID \<Rightarrow> publish_update_pktid s data
      | PUB_PAYLOAD \<Rightarrow> publish_update_payload s data)"

text \<open>The order in which the states are passed: a handler that reads nothing moves on.\<close>

fun publish_rank :: "publish_status \<Rightarrow> nat" where
  "publish_rank PUB_HDR_VAR = 4"
| "publish_rank PUB_TOPIC_LEN = 3"
| "publish_rank PUB_TOPIC_VAL = 2"
| "publish_rank PUB_PKTID = 1"
| "publish_rank PUB_PAYLOAD = 0"

lemmas publish_handler_defs =
  publish_handle_def publish_update_header_var_def publish_update_topic_len_def
  publish_update_topic_val_def publish_update_pktid_def publish_update_payload_def

subsection \<open>The handlers as phases\<close>

lemma publish_phase_hdr:
  "d \<noteq> [] \<Longrightarrow> pb_status s = PUB_HDR_VAR \<Longrightarrow>
     publish_handle s d = (s\<lparr>pb_dlen := 0, pb_status := PUB_TOPIC_LEN\<rparr>, Rest d)"
  by (simp add: publish_handler_defs)

definition publish_topic_len_done :: "mqtt_publish \<Rightarrow> bytes \<Rightarrow> nat \<Rightarrow> mqtt_publish \<times> bool" where
  "publish_topic_len_done s buf i =
     (let s1 = s\<lparr>pb_buff := buf, pb_dlen := i\<rparr>; n = the (unpack_short buf 2)
      in if n = 0 then (s1, False)
         else (s1\<lparr>pb_dlen := unat n, pb_hlen_var := ucast n + 2, pb_status := PUB_TOPIC_VAL\<rparr>, True))"

lemma publish_phase_topic_len:
  "d \<noteq> [] \<Longrightarrow> pb_status s = PUB_TOPIC_LEN \<Longrightarrow>
     publish_handle s d =
       fill_phase 2 (\<lambda>buf i. s\<lparr>pb_buff := buf, pb_dlen := i\<rparr>) (publish_topic_len_done s)
         (pb_buff s) (pb_dlen s) d"
  by (auto simp: publish_handler_defs fill_phase_def publish_topic_len_done_def unpack_short_def Let_def
      split: prod.splits)

definition publish_topic_done :: "mqtt_publish \<Rightarrow> bytes \<Rightarrow> mqtt_publish \<times> bool" where
  "publish_topic_done s topic =
     (let s1 = s\<lparr>pb_topic := topic, pb_dlen := 0\<rparr>
      in (if hdr_get_qos (mheader s) \<noteq> MQTT_QOS0 then s1\<lparr>pb_status := PUB_PKTID\<rparr>
          else s1\<lparr>pb_payload_len := pb_payload_len s - pb_hlen_var s, pb_status := PUB_PAYLOAD\<rparr>, True))"

lemma publish_phase_topic_val:
  "d \<noteq> [] \<Longrightarrow> pb_status s = PUB_TOPIC_VAL \<Longrightarrow> 0 < pb_dlen s \<Longrightarrow>
     publish_handle s d =
       take_phase (\<lambda>topic k. s\<lparr>pb_topic := topic, pb_dlen := k\<rparr>) (publish_topic_done s)
         (pb_topic s) (pb_dlen s) d"
  by (auto simp: publish_handler_defs take_phase_def publish_topic_done_def Let_def
      split: prod.splits)

definition publish_pktid_done :: "mqtt_publish \<Rightarrow> bytes \<Rightarrow> nat \<Rightarrow> mqtt_publish \<times> bool" where
  "publish_pktid_done s buf i =
     (let s2 = s\<lparr>pb_buff := buf, pb_dlen := i, pb_pkt_id := the (unpack_short buf 2),
                 pb_hlen_var := pb_hlen_var s + 2\<rparr>;
          n = pb_payload_len s - (pb_hlen_var s + 2)
      in if pb_payload_len s = 0 then (s2\<lparr>pb_finished := True\<rparr>, True)
         else if pb_payload_len s < pb_hlen_var s + 2 then (s2, False)
         else if n = 0 then (s2\<lparr>pb_payload_len := n, pb_finished := True\<rparr>, True)
         else (s2\<lparr>pb_payload_len := n, pb_status := PUB_PAYLOAD\<rparr>, True))"

lemma publish_phase_pktid:
  "d \<noteq> [] \<Longrightarrow> pb_status s = PUB_PKTID \<Longrightarrow> pb_dlen s < 2 \<Longrightarrow>
     publish_handle s d =
       fill_phase 2 (\<lambda>buf i. s\<lparr>pb_buff := buf, pb_dlen := i\<rparr>) (publish_pktid_done s)
         (pb_buff s) (pb_dlen s) d"
  by (auto simp: publish_handler_defs fill_phase_def publish_pktid_done_def unpack_short_def Let_def
      split: prod.splits)

lemma publish_phase_payload:
  "d \<noteq> [] \<Longrightarrow> pb_status s = PUB_PAYLOAD \<Longrightarrow> length (pb_payload s) < unat (pb_payload_len s) \<Longrightarrow>
     publish_handle s d =
       take_phase (\<lambda>payload k. s\<lparr>pb_payload := payload\<rparr>)
         (\<lambda>payload. (s\<lparr>pb_payload := payload, pb_finished := True\<rparr>, True))
         (pb_payload s) (unat (pb_payload_len s) - length (pb_payload s)) d"
  by (auto simp: publish_handler_defs take_phase_def take_str_eq Let_def)

lemma publish_stuck:
  "pb_status s = PUB_PKTID \<Longrightarrow> 2 \<le> pb_dlen s \<Longrightarrow> d \<noteq> [] \<Longrightarrow> publish_handle s d = (s, Fail)"
  "pb_status s = PUB_PAYLOAD \<Longrightarrow> unat (pb_payload_len s) \<le> length (pb_payload s) \<Longrightarrow>
     publish_handle s d = (s, Fail)"
  by (simp_all add: publish_handler_defs)

lemmas publish_phases =
  publish_phase_hdr publish_phase_topic_len publish_phase_topic_val publish_phase_pktid
  publish_phase_payload

text \<open>What is done at the end of a phase does not depend on how far the phase had got.\<close>

lemma publish_done_same [simp]:
  "publish_topic_len_done (s\<lparr>pb_buff := b, pb_dlen := i\<rparr>) = publish_topic_len_done s"
  "publish_pktid_done (s\<lparr>pb_buff := b, pb_dlen := i\<rparr>) = publish_pktid_done s"
  "publish_topic_done (s\<lparr>pb_topic := t, pb_dlen := i\<rparr>) = publish_topic_done s"
  by (simp_all add: fun_eq_iff publish_topic_len_done_def publish_pktid_done_def
      publish_topic_done_def Let_def)

lemmas publish_done_defs = publish_topic_len_done_def publish_topic_done_def publish_pktid_done_def

subsection \<open>The streaming contract\<close>

definition publish_inv :: "mqtt_publish \<Rightarrow> bool" where
  "publish_inv s \<longleftrightarrow> length (pb_buff s) = 2 \<and> (pb_status s = PUB_TOPIC_VAL \<longrightarrow> 0 < pb_dlen s)"

lemma publish_topic_val_stop: "pb_status s = PUB_TOPIC_VAL \<Longrightarrow> pb_dlen s = 0 \<Longrightarrow>
    publish_handle s d = (s, AssertFail)"
  by (simp add: publish_handler_defs)

lemma publish_hdr_case: "pb_status s = PUB_HDR_VAR \<Longrightarrow> publish_handle s [] = (s, AssertFail)"
  by (simp add: publish_handler_defs)

lemma publish_handle_progress:
  assumes "publish_handle s d = (s', Rest r)" "d \<noteq> []" "\<not> pb_finished s"
  shows "length r < length d \<or>
    r = d \<and> publish_rank (pb_status s') < publish_rank (pb_status s) \<and> \<not> pb_finished s'"
proof (cases "pb_status s")
  case PUB_TOPIC_LEN
  show ?thesis
  proof (cases "pb_dlen s < 2")
    case True
    with assms PUB_TOPIC_LEN show ?thesis
      by (auto simp: publish_phase_topic_len dest: fill_phase_length)
  next
    case False
    with assms PUB_TOPIC_LEN show ?thesis
      by (auto simp: publish_phase_topic_len fill_phase_def publish_topic_len_done_def Let_def
          split: if_splits)
  qed
next
  case PUB_TOPIC_VAL
  with assms show ?thesis
    by (cases "0 < pb_dlen s")
       (auto simp: publish_phase_topic_val publish_topic_val_stop dest: take_phase_length)
next
  case PUB_PKTID
  with assms show ?thesis
    by (cases "pb_dlen s < 2")
       (auto simp: publish_phase_pktid publish_stuck dest: fill_phase_length)
next
  case PUB_PAYLOAD
  with assms show ?thesis
    by (cases "length (pb_payload s) < unat (pb_payload_len s)")
       (auto simp: publish_phase_payload publish_stuck dest: take_phase_length)
qed (use assms in \<open>auto simp: publish_phase_hdr\<close>)

lemma publish_handle_consumes:
  "publish_inv s \<Longrightarrow> publish_handle s d = (s', Rest r) \<Longrightarrow> d \<noteq> [] \<Longrightarrow> \<not> pb_finished s \<Longrightarrow> pb_finished s' \<Longrightarrow>
     length r < length d"
  by (blast dest: publish_handle_progress)

lemma publish_handle_moves:
  "publish_handle s d = (s', Rest r) \<Longrightarrow> d \<noteq> [] \<Longrightarrow> \<not> pb_finished s \<Longrightarrow>
     length r < length d \<or> r = d \<and> publish_rank (pb_status s') < publish_rank (pb_status s)"
  by (blast dest: publish_handle_progress)

function publish_loop :: "mqtt_publish \<Rightarrow> bytes \<Rightarrow> mqtt_publish \<times> parse_result" where
  "publish_loop s data =
     (if data = [] \<or> pb_finished s then (s, Rest data)
      else case publish_handle s data of
             (s', Rest r) \<Rightarrow> publish_loop s' r
           | (s', e) \<Rightarrow> (s', e))"
  by pat_completeness auto
termination
  by (relation "measures [\<lambda>(s, d). length d, \<lambda>(s, d). publish_rank (pb_status s)]")
     (auto dest: publish_handle_progress [OF sym])

declare publish_loop.simps [simp del]

definition publish_update :: "mqtt_publish \<Rightarrow> bytes \<Rightarrow> mqtt_publish \<times> parse_result" where
  "publish_update s data = (if data = [] then (s, Fail) else publish_loop s data)"

lemma publish_handle_inv:
  assumes "publish_inv s" "d \<noteq> []"
  shows "publish_inv (fst (publish_handle s d))"
proof (cases "pb_status s")
  case PUB_TOPIC_LEN
  show ?thesis
    unfolding publish_phase_topic_len [OF assms(2) PUB_TOPIC_LEN]
    by (rule fill_phase_keeps)
       (use assms(1) PUB_TOPIC_LEN in \<open>auto simp: publish_inv_def publish_topic_len_done_def Let_def
          word_less_nat_alt unat_gt_0\<close>)
next
  case PUB_TOPIC_VAL
  with assms(1) have k: "0 < pb_dlen s" by (simp add: publish_inv_def)
  show ?thesis
    unfolding publish_phase_topic_val [OF assms(2) PUB_TOPIC_VAL k]
    by (rule take_phase_keeps)
       (use assms(1) PUB_TOPIC_VAL in \<open>auto simp: publish_inv_def publish_topic_done_def Let_def\<close>)
next
  case PUB_PKTID
  show ?thesis
  proof (cases "pb_dlen s < 2")
    case True
    show ?thesis
      unfolding publish_phase_pktid [OF assms(2) PUB_PKTID True]
      by (rule fill_phase_keeps)
         (use assms(1) PUB_PKTID in \<open>auto simp: publish_inv_def publish_pktid_done_def Let_def\<close>)
  qed (use assms PUB_PKTID in \<open>simp add: publish_stuck\<close>)
next
  case PUB_PAYLOAD
  show ?thesis
  proof (cases "length (pb_payload s) < unat (pb_payload_len s)")
    case True
    show ?thesis
      unfolding publish_phase_payload [OF assms(2) PUB_PAYLOAD True]
      by (rule take_phase_keeps) (use assms(1) PUB_PAYLOAD in \<open>auto simp: publish_inv_def\<close>)
  qed (use assms PUB_PAYLOAD in \<open>simp add: publish_stuck\<close>)
qed (use assms in \<open>auto simp: publish_phase_hdr publish_inv_def\<close>)

lemma publish_handle_safe:
  assumes "publish_inv s" "d \<noteq> []"
  shows "snd (publish_handle s d) \<noteq> AssertFail"
proof (cases "pb_status s")
  case PUB_PKTID
  with assms show ?thesis
    by (cases "pb_dlen s < 2") (simp_all add: publish_phase_pktid publish_stuck fill_phase_safe)
next
  case PUB_PAYLOAD
  with assms show ?thesis
    by (cases "length (pb_payload s) < unat (pb_payload_len s)")
       (simp_all add: publish_phase_payload publish_stuck take_phase_safe)
qed (use assms in \<open>simp_all add: publish_phases publish_inv_def fill_phase_safe take_phase_safe\<close>)

lemma publish_handle_suffix: "publish_handle s d = (s', Rest r) \<Longrightarrow> suffix r d"
  by (auto simp: publish_handler_defs Let_def take_str_eq suffix_drop
      split: publish_status.splits if_splits prod.splits option.splits dest: fill_buff_suffix)

lemma publish_chunk:
  assumes "publish_inv s" "\<not> pb_finished s" "a \<noteq> []" "b \<noteq> []"
  shows "chunk_ok publish_handle pb_finished s a b"
proof (cases "pb_status s")
  case PUB_HDR_VAR
  with assms show ?thesis by (auto intro: chunk_still publish_phase_hdr)
next
  case PUB_TOPIC_LEN
  show ?thesis
    by (rule chunk_fill [OF publish_phase_topic_len])
       (use PUB_TOPIC_LEN assms in \<open>auto simp: publish_phase_topic_len\<close>)
next
  case PUB_TOPIC_VAL
  with assms have "0 < pb_dlen s" by (simp add: publish_inv_def)
  then show ?thesis
    by (intro chunk_take [OF publish_phase_topic_val])
       (use PUB_TOPIC_VAL assms in \<open>auto simp: publish_phase_topic_val\<close>)
next
  case PUB_PKTID
  show ?thesis
  proof (cases "pb_dlen s < 2")
    case True
    show ?thesis
      by (rule chunk_fill [OF publish_phase_pktid])
         (use True PUB_PKTID assms in \<open>auto simp: publish_phase_pktid\<close>)
  qed (use PUB_PKTID assms in \<open>auto intro: chunk_fail [OF publish_stuck(1)]\<close>)
next
  case PUB_PAYLOAD
  show ?thesis
  proof (cases "length (pb_payload s) < unat (pb_payload_len s)")
    case True
    show ?thesis
      by (rule chunk_take [OF publish_phase_payload])
         (use True PUB_PAYLOAD assms in \<open>auto simp: publish_phase_payload diff_diff_left\<close>)
  qed (use PUB_PAYLOAD assms in \<open>auto intro: chunk_fail [OF publish_stuck(2)]\<close>)
qed

interpretation publish: stream_parser publish_handle pb_finished publish_loop
  "\<lambda>s. publish_rank (pb_status s)" publish_inv
proof
  show "publish_loop s d =
      (if d = [] \<or> pb_finished s then (s, Rest d)
       else case publish_handle s d of (s', Rest r) \<Rightarrow> publish_loop s' r | (s', e) \<Rightarrow> (s', e))" for s d
    by (rule publish_loop.simps)
qed (rule publish_handle_inv publish_handle_safe publish_handle_suffix
      publish_handle_moves publish_handle_consumes publish_chunk; assumption)+

subsection \<open>Wire form\<close>

definition publish_body :: "mqtt_qos \<Rightarrow> bytes \<Rightarrow> u16 \<Rightarrow> bytes \<Rightarrow> bytes" where
  "publish_body qos topic i payload =
     str_bytes topic @ (if qos = MQTT_QOS0 then [] else short_bytes i) @ payload"

text \<open>A message the serializer is meant for: a topic that a length field can describe, a
  payload length that is the length of the payload, and a body within the protocol's limit.\<close>

definition publish_ok :: "mqtt_publish \<Rightarrow> bool" where
  "publish_ok s \<longleftrightarrow> pb_topic s \<noteq> [] \<and> length (pb_topic s) < 65536 \<and>
     unat (pb_payload_len s) = length (pb_payload s) \<and>
     length (publish_body (hdr_get_qos (mheader s)) (pb_topic s) (pb_pkt_id s) (pb_payload s)) < 268435456 \<and>
     (hdr_get_qos (mheader s) \<noteq> MQTT_QOS0 \<longrightarrow> pb_pkt_id s \<noteq> 0)"

lemma qos_pos: "q > MQTT_QOS0 \<longleftrightarrow> q \<noteq> MQTT_QOS0"
  by (cases q) (simp_all add: less_mqtt_qos_def)

lemma set_dup_qos: "hdr_get_qos (hdr_set_dup b h) = hdr_get_qos h"
  by (cases b) (simp_all add: flags_bits hdr_set_defs bit_simps)

lemma set_len_qos [simp]: "hdr_get_qos (hdr_set_remaing_length n h) = hdr_get_qos h"
  by (simp add: hdr_get_qos_def hdr_set_remaing_length_def)

lemma publish_to_string_eq:
  assumes "publish_ok s"
  shows "\<exists>h. publish_to_string mem s out =
      (s\<lparr>mheader := h\<rparr>, out @ wire (htype (mheader s)) (hflags h)
         (publish_body (hdr_get_qos (mheader s)) (pb_topic s) (pb_pkt_id s) (pb_payload s)), True) \<and>
    hdr_get_qos h = hdr_get_qos (mheader s) \<and> htype h = htype (mheader s) \<and>
    (hflags h = hflags (mheader s) \<or> hdr_get_qos (mheader s) = MQTT_QOS0) \<and>
    hdr_is_dup h = (hdr_is_dup (mheader s) \<and> hdr_get_qos (mheader s) \<noteq> MQTT_QOS0) \<and> hdr_is_remain h = hdr_is_remain (mheader s)"
proof -
  let ?q = "hdr_get_qos (mheader s)"
  let ?body = "publish_body ?q (pb_topic s) (pb_pkt_id s) (pb_payload s)"
  let ?len = "(of_nat (length (pb_topic s)) :: u32) + 2 + pb_payload_len s"
  let ?h1 = "if hdr_is_dup (mheader s) \<and> ?q = MQTT_QOS0 then hdr_set_dup False (mheader s) else mheader s"
  let ?h = "hdr_set_remaing_length (if ?q \<noteq> MQTT_QOS0 then ?len + 2 else ?len) ?h1"
  have pl: "pb_payload_len s = of_nat (length (pb_payload s))"
    using assms by (intro word_eq_of_unat) (simp add: publish_ok_def)
  have "(if ?q \<noteq> MQTT_QOS0 then ?len + 2 else ?len) = of_nat (length ?body)"
    by (simp add: publish_body_def pl algebra_simps)
  moreover have "length ?body < 268435456" using assms by (simp add: publish_ok_def)
  ultimately have bh: "build_header ?h out = (?h, out @ first_byte (htype ?h) (hflags ?h) # vbi (length ?body), True)"
    by (simp add: build_header_eq hdr_set_remaing_length_def)
  have t: "htype ?h = htype (mheader s)" by (simp add: hdr_set_defs)
  have p0: "0 < pb_payload_len s \<longleftrightarrow> pb_payload s \<noteq> []"
    using assms by (auto simp: publish_ok_def word_less_nat_alt)
  have "publish_to_string mem s out = (s\<lparr>mheader := ?h\<rparr>, out @ wire (htype (mheader s)) (hflags ?h) ?body, True)"
    using assms bh t
    by (auto simp: publish_to_string_def Let_def qos_pos publish_ok_def pack_add_string_eq
        pack_add_short_eq wire_def publish_body_def p0)
  moreover have "hdr_get_qos ?h = ?q" by (simp add: set_dup_qos)
  moreover have "hflags ?h = hflags (mheader s) \<or> ?q = MQTT_QOS0"
    by (simp add: hdr_set_remaing_length_def)
  moreover have "hdr_is_dup ?h = (hdr_is_dup (mheader s) \<and> ?q \<noteq> MQTT_QOS0)" "hdr_is_remain ?h = hdr_is_remain (mheader s)"
    using header_flags [of _ _ False] by (simp_all add: hdr_set_remaing_length_def hdr_is_dup_def hdr_is_remain_def)
  ultimately show ?thesis using t by blast
qed

text \<open>The parser on such a body.\<close>

lemma publish_loop_topic:
  assumes "pb_status s = PUB_HDR_VAR" "\<not> pb_finished s" "length (pb_buff s) = 2" "pb_topic s = []"
    "topic \<noteq> []" "length topic < 65536"
  shows "publish_loop s (str_bytes topic @ d) =
     (let s1 = s\<lparr>pb_buff := short_bytes (of_nat (length topic)), pb_dlen := 0, pb_topic := topic,
                 pb_hlen_var := of_nat (length topic + 2)\<rparr>
      in if hdr_get_qos (mheader s) \<noteq> MQTT_QOS0
         then publish_loop (s1\<lparr>pb_status := PUB_PKTID\<rparr>) d
         else publish_loop (s1\<lparr>pb_status := PUB_PAYLOAD,
                pb_payload_len := pb_payload_len s - of_nat (length topic + 2)\<rparr>) d)"
proof -
  have n: "unat (of_nat (length topic) :: u16) = length topic" using assms(6) by simp
  then have n0: "(of_nat (length topic) :: u16) \<noteq> 0" using assms(5) by force
  note u = ucast_of_nat_u16 [OF assms(6)]
  have [simp]: "topic @ d \<noteq> []" using assms(5) by simp
  show ?thesis
    using assms(1-5) n0 n
    by (simp add: publish.loop_step str_bytes_def publish_phases fill_phase_all take_phase_all
        publish_done_defs u add.commute Let_def)
       (cases s, simp)
qed

lemma publish_loop_payload:
  assumes "pb_status s = PUB_PAYLOAD" "\<not> pb_finished s" "pb_payload s = []"
    "unat (pb_payload_len s) = length payload" "payload \<noteq> []"
  shows "publish_loop s (payload @ r) = (s\<lparr>pb_payload := payload, pb_finished := True\<rparr>, Rest r)"
  using assms by (simp add: publish.loop_step publish_phases take_phase_all)

lemma publish_loop_pktid:
  assumes "pb_status s = PUB_PKTID" "\<not> pb_finished s" "length (pb_buff s) = 2" "pb_dlen s = 0"
    "pb_payload s = []" "pb_hlen_var s = of_nat k" "pb_payload_len s = of_nat (k + 2 + length payload)"
    "k + 2 + length payload < 268435456"
  shows "publish_loop s (short_bytes i @ payload @ r) =
     (let s1 = s\<lparr>pb_buff := short_bytes i, pb_dlen := 2, pb_pkt_id := i,
                 pb_hlen_var := of_nat (k + 2), pb_payload_len := of_nat (length payload)\<rparr>
      in if payload = [] then (s1\<lparr>pb_finished := True\<rparr>, Rest r)
         else (s1\<lparr>pb_status := PUB_PAYLOAD, pb_payload := payload, pb_finished := True\<rparr>, Rest r))"
proof -
  define V :: u32 where "V = of_nat (k + 2)"
  define L :: u32 where "L = of_nat (length payload)"
  have V: "pb_hlen_var s + 2 = V" and L: "pb_payload_len s - V = L"
    using assms(6,7) by (simp_all add: V_def L_def)
  have un: "unat (pb_payload_len s) = k + 2 + length payload" "unat V = k + 2" "unat L = length payload"
    unfolding assms(7) V_def L_def by (rule unat_of_nat_u32, use assms(8) in simp)+
  then have nz: "pb_payload_len s \<noteq> 0" "\<not> pb_payload_len s < V" and L0: "L = 0 \<longleftrightarrow> payload = []"
    by (auto simp: word_less_nat_alt unat_eq_zero [symmetric])
  have d: "publish_pktid_done s (short_bytes i) 2 =
     (let s1 = s\<lparr>pb_buff := short_bytes i, pb_dlen := 2, pb_pkt_id := i,
                 pb_hlen_var := V, pb_payload_len := L\<rparr>
      in if payload = [] then (s1\<lparr>pb_finished := True\<rparr>, True) else (s1\<lparr>pb_status := PUB_PAYLOAD\<rparr>, True))"
    by (simp add: publish_pktid_done_def V L nz L0 Let_def)
  have "publish_handle s (short_bytes i @ payload @ r) =
      (case publish_pktid_done s (short_bytes i) 2 of (s', ok) \<Rightarrow> (s', if ok then Rest (payload @ r) else Fail))"
    using assms(1,3,4) by (simp add: publish_phases fill_phase_all)
  with d publish.loop_step [of "short_bytes i @ payload @ r" s] assms(2,5) un(3) show ?thesis
    by (simp add: publish_loop_payload L_def V_def Let_def)
qed

lemma publish_loop_body:
  assumes "topic \<noteq> []" "length topic < 65536" "q = MQTT_QOS0 \<longrightarrow> payload \<noteq> []"
    "length (publish_body q topic i payload) < 268435456"
    "hdlen h = of_nat (length (publish_body q topic i payload))" "hdr_get_qos h = q"
  shows "\<exists>p. publish_loop (mqtt_publish_of h) (publish_body q topic i payload @ r) = (p, Rest r) \<and>
     pb_finished p \<and> mheader p = mqtt_header_copy h \<and> pb_topic p = topic \<and>
     (q \<noteq> MQTT_QOS0 \<longrightarrow> pb_pkt_id p = i) \<and> pb_payload p = payload \<and>
     pb_payload_len p = of_nat (length payload)"
proof -
  have g: "hdr_get_qos (mqtt_header_copy h) = q"
    using assms(6) by (simp add: hdr_get_qos_def mqtt_header_copy_def)
  note start = publish_loop_topic [of "mqtt_publish_of h" topic, simplified mqtt_publish_of_def mqtt_message_of_def, simplified,
      OF assms(1,2)]
  show ?thesis
  proof (cases "q = MQTT_QOS0")
    case True
    from assms(4) True have "unat (of_nat (length payload) :: u32) = length payload"
      by (simp add: publish_body_def)
    with True assms(3,5) g start [of "payload @ r"] show ?thesis
      by (simp add: publish_body_def publish_loop_payload mqtt_publish_of_def mqtt_message_of_def Let_def)
  next
    case False
    have "length topic + 2 + 2 + length payload < 268435456"
      using assms(4) False by (simp add: publish_body_def)
    with False assms(5) g start [of "short_bytes i @ payload @ r"] show ?thesis
      by (simp add: publish_body_def publish_loop_pktid [where k = "length topic + 2"]
          mqtt_publish_of_def mqtt_message_of_def Let_def add.commute add.left_commute)
  qed
qed

subsection \<open>Properties of the published message\<close>

text \<open>
  C12: a published message with a topic, a body below 256 MB, a payload of the announced length
  and, above QoS 0, a packet id is written as fixed header and body; parsing that body into the
  object made from the header, cut anywhere, finishes it with the same topic, payload and (above
  QoS 0) packet id, and hands back what follows.  At QoS 0 the payload must not be empty.
\<close>

theorem publish_roundtrip:
  assumes "publish_ok s" "publish_to_string mem s out = (s', w, ok)"
    "q = hdr_get_qos (mheader s)" "q = MQTT_QOS0 \<longrightarrow> pb_payload s \<noteq> []"
    "body = publish_body q (pb_topic s) (pb_pkt_id s) (pb_payload s)"
    "hdlen h = of_nat (length body)" "hflags h = hflags (mheader s')" "concat cs = body @ r"
  shows "ok \<and> w = out @ wire (htype (mheader s)) (hflags h) body \<and>
     (\<exists>p. feed publish_loop (mqtt_publish_of h) cs = (p, Rest r) \<and> pb_finished p \<and>
        pb_topic p = pb_topic s \<and> pb_payload p = pb_payload s \<and>
        (q \<noteq> MQTT_QOS0 \<longrightarrow> pb_pkt_id p = pb_pkt_id s))"
proof -
  from publish_to_string_eq [OF assms(1), of mem out] assms(2,3,5,7)
  have w: "ok" "w = out @ wire (htype (mheader s)) (hflags h) body" "hdr_get_qos h = q"
    by (auto simp: hdr_get_qos_def)
  have "publish_inv (mqtt_publish_of h)" by (simp add: publish_inv_def mqtt_publish_of_def)
  with publish_loop_body [of "pb_topic s" q "pb_payload s" "pb_pkt_id s" h r] assms w
  show ?thesis by (auto simp: publish.feed_concat publish_ok_def)
qed

theorem publish_roundtrip_witness:
  "\<exists>p. feed publish_loop
       (mqtt_publish_of (hdr_set_remaing_length 7 (hdr_set_qos MQTT_QOS1 (mqtt_header_new MQTT_PUBLISH))))
       [[0x00], [0x01, 0x61, 0x12], [0x34, 0x68, 0x69, 0xee]] = (p, Rest [0xee]) \<and> pb_finished p \<and>
     pb_topic p = [0x61] \<and> pb_payload p = [0x68, 0x69] \<and> pb_pkt_id p = 0x1234"
proof -
  let ?h = "hdr_set_remaing_length 7 (hdr_set_qos MQTT_QOS1 (mqtt_header_new MQTT_PUBLISH))"
  let ?s = "(publish_set_payload 2 (Some [0x68, 0x69]) (publish_set_pkt_id 0x1234
      (publish_set_topic [0x61, 0] mqtt_publish_new)))\<lparr>mheader := ?h\<rparr>"
  have q: "hdr_get_qos ?h = MQTT_QOS1"
    by (simp add: hdr_get_qos_def flags_qos_def hdr_set_defs mqtt_header_new_def)
  then have q': "hdr_get_qos (hdr_set_qos MQTT_QOS1 (mqtt_header_new MQTT_PUBLISH)) = MQTT_QOS1"
    by simp
  have f: "pb_topic ?s = [0x61]" "pb_payload ?s = [0x68, 0x69]" "pb_pkt_id ?s = 0x1234"
      "pb_payload_len ?s = 2" "mheader ?s = ?h"
    by (simp_all add: publish_set_topic_def publish_set_pkt_id_def publish_set_payload_def c_str_def Let_def)
  have b: "publish_body MQTT_QOS1 [0x61] 0x1234 [0x68, 0x69] = [0x00, 0x01, 0x61, 0x12, 0x34, 0x68, 0x69]"
    by (simp add: publish_body_def str_bytes_def short_bytes_def mosq_msb_def mosq_lsb_def)
  have ok: "publish_ok ?s" by (simp add: publish_ok_def f q' b)
  obtain s' w k where e: "publish_to_string [] ?s [] = (s', w, k)" by (metis prod_cases3)
  with publish_to_string_eq [OF ok, of "[]" "[]"] q f have "hflags (mheader s') = hflags ?h" by auto
  then have hf: "hflags ?h = hflags (mheader s')" by simp
  from publish_roundtrip [OF ok e _ _ _ _ hf, of MQTT_QOS1 "[0x00, 0x01, 0x61, 0x12, 0x34, 0x68, 0x69]"
      "[[0x00], [0x01, 0x61, 0x12], [0x34, 0x68, 0x69, 0xee]]" "[0xee]"]
  show ?thesis by (simp add: f q' b) (simp add: hdr_set_remaing_length_def)
qed

text \<open>
  Serializing a published message succeeds exactly when it has a packet id or QoS 0 and the
  length of its parts, as 32-bit sum, is below 256 MB; when it fails nothing is written.
\<close>

theorem publish_to_string_ok:
  "case publish_to_string mem s out of (s', out', ok) \<Rightarrow>
     (ok \<longleftrightarrow> (hdr_get_qos (mheader s) = MQTT_QOS0 \<or> 0 < pb_pkt_id s) \<and>
        unat ((of_nat (length (pb_topic s)) :: u32) + 2 + pb_payload_len s +
          (if hdr_get_qos (mheader s) = MQTT_QOS0 then 0 else 2)) < 268435456) \<and>
     (ok \<or> out' = out)"
  by (auto simp: publish_to_string_def build_header_eq hdr_set_remaing_length_def qos_pos Let_def word_neq_0_conv)

text \<open>
  C27: at QoS 0 a message with an empty payload is never finished.  The whole body leaves the
  parser unfinished with no error, and the next byte of the connection makes it fail.
\<close>

theorem publish_qos0_empty_stuck:
  assumes "topic \<noteq> []" "length topic < 65536" "hdr_get_qos h = MQTT_QOS0"
    "body = publish_body MQTT_QOS0 topic 0 []" "hdlen h = of_nat (length body)" "concat cs = body"
  shows "\<exists>p. feed publish_loop (mqtt_publish_of h) cs = (p, Rest []) \<and> \<not> pb_finished p \<and>
     pb_topic p = topic \<and> (\<forall>c d. publish_update p (c # d) = (p, Fail))"
proof -
  have g: "hdr_get_qos (mqtt_header_copy h) = MQTT_QOS0"
    using assms(3) by (simp add: hdr_get_qos_def mqtt_header_copy_def)
  have inv: "publish_inv (mqtt_publish_of h)" by (simp add: publish_inv_def mqtt_publish_of_def)
  have z: "hdlen h - of_nat (length topic + 2) = 0"
    using assms(4,5) by (simp add: publish_body_def)
  note publish_loop_topic [of "mqtt_publish_of h" topic "[]", simplified mqtt_publish_of_def mqtt_message_of_def,
      simplified, OF assms(1,2)]
  with inv g z assms(4,6) show ?thesis
    by (simp add: publish.feed_concat publish_body_def publish_update_def publish.loop_step publish_stuck
        mqtt_publish_of_def mqtt_message_of_def Let_def)
qed

theorem publish_qos0_empty_stuck_witness:
  "\<exists>p. feed publish_loop
       (mqtt_publish_of (hdr_set_remaing_length 3 (mqtt_header_new MQTT_PUBLISH))) [[0x00, 0x01], [0x61]] = (p, Rest []) \<and>
     \<not> pb_finished p \<and> publish_update p [0xc0] = (p, Fail)"
proof -
  let ?h = "hdr_set_remaing_length 3 (mqtt_header_new MQTT_PUBLISH)"
  have q: "hdr_get_qos ?h = MQTT_QOS0"
    by (simp add: hdr_get_qos_def flags_qos_def hdr_set_defs mqtt_header_new_def)
  have b: "publish_body MQTT_QOS0 [0x61] 0 [] = [0x00, 0x01, 0x61]"
    by (simp add: publish_body_def str_bytes_def short_bytes_def mosq_msb_def mosq_lsb_def)
  from publish_qos0_empty_stuck [OF _ _ q b [symmetric], of "[[0x00, 0x01], [0x61]]"] show ?thesis
    by (simp add: hdr_set_remaing_length_def mqtt_header_new_def) blast
qed

text \<open>
  C26: at QoS 0 the remaining length is not checked against the topic.  When it is smaller than
  the topic field, the payload length wraps around, and the next bytes of the connection, up to
  4294901760 of them, are taken as payload of an unfinished message.
\<close>

theorem publish_qos0_overrun:
  assumes "topic \<noteq> []" "length topic < 65536" "hdr_get_qos h = MQTT_QOS0"
    "unat (hdlen h) < length topic + 2" "length d < 4294901759" "concat cs = str_bytes topic @ d"
  shows "\<exists>p. feed publish_loop (mqtt_publish_of h) cs = (p, Rest []) \<and> \<not> pb_finished p \<and>
     pb_topic p = topic \<and> pb_payload p = d \<and>
     unat (pb_payload_len p) = 4294967296 + unat (hdlen h) - (length topic + 2)"
proof -
  have g: "hdr_get_qos (mqtt_header_copy h) = MQTT_QOS0"
    using assms(3) by (simp add: hdr_get_qos_def mqtt_header_copy_def)
  have inv: "publish_inv (mqtt_publish_of h)" by (simp add: publish_inv_def mqtt_publish_of_def)
  have k: "unat (of_nat (length topic + 2) :: u32) = length topic + 2"
    by (rule unat_of_nat_u32) (use assms(2) in simp)
  with assms(4) have len: "unat (hdlen h - of_nat (length topic + 2)) = 4294967296 + unat (hdlen h) - (length topic + 2)"
    by (simp add: unat_sub_if' del: of_nat_add)
  have start: "publish_loop (mqtt_publish_of h) (str_bytes topic @ d) =
      publish_loop ((mqtt_publish_of h)\<lparr>pb_buff := short_bytes (of_nat (length topic)), pb_dlen := 0,
         pb_topic := topic, pb_hlen_var := of_nat (length topic + 2), pb_status := PUB_PAYLOAD,
         pb_payload_len := hdlen h - of_nat (length topic + 2)\<rparr>) d"
    using g publish_loop_topic [of "mqtt_publish_of h" topic d, simplified mqtt_publish_of_def mqtt_message_of_def,
      simplified, OF assms(1,2)]
    by (simp add: mqtt_publish_of_def mqtt_message_of_def Let_def)
  let ?p = "(mqtt_publish_of h)\<lparr>pb_buff := short_bytes (of_nat (length topic)), pb_dlen := 0,
         pb_topic := topic, pb_hlen_var := of_nat (length topic + 2), pb_status := PUB_PAYLOAD,
         pb_payload_len := hdlen h - of_nat (length topic + 2)\<rparr>"
  have "length d < unat (hdlen h - of_nat (length topic + 2))" using len assms(2,5) by simp
  then have "publish_loop ?p d = (?p\<lparr>pb_payload := d\<rparr>, Rest [])"
    by (cases d)
       (simp_all add: publish.loop_step publish_phases take_phase_def take_str_eq mqtt_publish_of_def del: of_nat_add)
  with inv start len assms(6) show ?thesis
    by (simp add: publish.feed_concat mqtt_publish_of_def del: of_nat_add)
qed

theorem publish_qos0_overrun_witness:
  "\<exists>p. feed publish_loop
       (mqtt_publish_of (hdr_set_remaing_length 1 (mqtt_header_new MQTT_PUBLISH)))
       [[0x00, 0x01, 0x61], [0xc0, 0x00]] = (p, Rest []) \<and>
     \<not> pb_finished p \<and> pb_payload p = [0xc0, 0x00] \<and> unat (pb_payload_len p) = 4294967294"
proof -
  let ?h = "hdr_set_remaing_length 1 (mqtt_header_new MQTT_PUBLISH)"
  have q: "hdr_get_qos ?h = MQTT_QOS0"
    by (simp add: hdr_get_qos_def flags_qos_def hdr_set_defs mqtt_header_new_def)
  have b: "str_bytes [0x61] = [0x00, 0x01, 0x61]"
    by (simp add: str_bytes_def short_bytes_def mosq_msb_def mosq_lsb_def)
  have l: "unat (hdlen ?h) = 1" by (simp add: hdr_set_remaing_length_def)
  from publish_qos0_overrun [OF _ _ q, of "[0x61]" "[0xc0, 0x00]" "[[0x00, 0x01, 0x61], [0xc0, 0x00]]"] b l
  show ?thesis by simp blast
qed

end
