(* ===== verification/Mqtt_Ack.thy ===== *)
theory Mqtt_Ack
  imports Mqtt_Message
begin

text \<open>
  The acknowledgements (cpp/src/mqtt/mqtt_ack.cpp and the five subclasses mqtt_puback,
  mqtt_pubrec, mqtt_pubrel, mqtt_pubcomp, mqtt_unsuback): a message whose body is a packet id.
\<close>

subsection \<open>State and operations\<close>

record mqtt_ack = mqtt_message +
  ak_pkt_id :: u16
  ak_hbuf :: bytes      \<comment> \<open>\<open>char hbuf_[2]\<close>\<close>
  ak_hlen :: nat        \<comment> \<open>\<open>unsigned hlen_\<close>, at most 2\<close>
  ak_finished :: bool

text \<open>The table of handlers has the single row \<open>MQTT_STAT_HDR_VAR\<close>, so \<open>status_\<close> is constant.\<close>

definition mqtt_ack_new :: "mqtt_type \<Rightarrow> mqtt_ack" where
  "mqtt_ack_new type = \<lparr>mheader = mheader (mqtt_message_new type),
      ak_pkt_id = 0, ak_hbuf = replicate 2 0, ak_hlen = 0, ak_finished = False\<rparr>"

definition mqtt_ack_of :: "mqtt_header \<Rightarrow> mqtt_ack" where
  "mqtt_ack_of header = \<lparr>mheader = mheader (mqtt_message_of header),
      ak_pkt_id = 0, ak_hbuf = replicate 2 0, ak_hlen = 0, ak_finished = False\<rparr>"

definition mqtt_puback_new :: mqtt_ack where "mqtt_puback_new = mqtt_ack_new MQTT_PUBACK"
definition mqtt_pubrec_new :: mqtt_ack where "mqtt_pubrec_new = mqtt_ack_new MQTT_PUBREC"
definition mqtt_pubcomp_new :: mqtt_ack where "mqtt_pubcomp_new = mqtt_ack_new MQTT_PUBCOMP"
definition mqtt_unsuback_new :: mqtt_ack where "mqtt_unsuback_new = mqtt_ack_new MQTT_UNSUBACK"

definition mqtt_pubrel_new :: mqtt_ack where
  "mqtt_pubrel_new = (let s = mqtt_ack_new MQTT_PUBREL
     in s\<lparr>mheader := hdr_set_header_flags 0x02 (mheader s)\<rparr>)"

definition mqtt_puback_of :: "mqtt_header \<Rightarrow> mqtt_ack" where "mqtt_puback_of = mqtt_ack_of"
definition mqtt_pubrec_of :: "mqtt_header \<Rightarrow> mqtt_ack" where "mqtt_pubrec_of = mqtt_ack_of"
definition mqtt_pubcomp_of :: "mqtt_header \<Rightarrow> mqtt_ack" where "mqtt_pubcomp_of = mqtt_ack_of"
definition mqtt_unsuback_of :: "mqtt_header \<Rightarrow> mqtt_ack" where "mqtt_unsuback_of = mqtt_ack_of"

definition mqtt_pubrel_of :: "mqtt_header \<Rightarrow> mqtt_ack" where
  "mqtt_pubrel_of h = (let s = mqtt_ack_of h
     in s\<lparr>mheader := hdr_set_header_flags 0x02 (mheader s)\<rparr>)"

definition ack_set_pkt_id :: "u16 \<Rightarrow> mqtt_ack \<Rightarrow> mqtt_ack" where
  "ack_set_pkt_id i s = (if i > 0 then s\<lparr>ak_pkt_id := i\<rparr> else s)"

definition ack_to_string :: "mqtt_ack \<Rightarrow> bytes \<Rightarrow> mqtt_ack \<times> bytes \<times> bool" where
  "ack_to_string s out =
     (let h = hdr_set_remaing_length 2 (mheader s)
      in case build_header h out of (h', out1, ok) \<Rightarrow>
           let s' = s\<lparr>mheader := h'\<rparr>
           in if \<not> ok then (s', out1, False)
              else (s', pack_add_short (ak_pkt_id s') out1, True))"

definition ack_update_header_var :: "mqtt_ack \<Rightarrow> bytes \<Rightarrow> mqtt_ack \<times> parse_result" where
  "ack_update_header_var s data =
     (if data = [] then (s, AssertFail)
      else if ak_hlen s \<ge> 2 then (s, Fail)
      else case fill_buff 2 (ak_hbuf s) (ak_hlen s) data of (buf, n, rest) \<Rightarrow>
        (let s1 = s\<lparr>ak_hbuf := buf, ak_hlen := n\<rparr>
         in if n < 2 then (s1, if rest \<noteq> [] then AssertFail else Rest rest)
            else case unpack_short buf 2 of
                   None \<Rightarrow> (s1, Fail)
                 | Some i \<Rightarrow> (s1\<lparr>ak_pkt_id := i, ak_finished := True\<rparr>, Rest rest)))"

lemma ack_update_length:
  "ack_update_header_var s d = (s', Rest r) \<Longrightarrow> length r < length d"
  by (auto simp: ack_update_header_var_def Let_def split: if_splits prod.splits option.splits
      dest: fill_buff_progress)

function ack_loop :: "mqtt_ack \<Rightarrow> bytes \<Rightarrow> mqtt_ack \<times> parse_result" where
  "ack_loop s data =
     (if data = [] \<or> ak_finished s then (s, Rest data)
      else case ack_update_header_var s data of
             (s', Rest r) \<Rightarrow> ack_loop s' r
           | (s', e) \<Rightarrow> (s', e))"
  by pat_completeness auto
termination
  by (relation "measure (\<lambda>(s, d). length d)") (auto dest: ack_update_length [OF sym])

declare ack_loop.simps [simp del]

definition ack_update :: "mqtt_ack \<Rightarrow> bytes \<Rightarrow> mqtt_ack \<times> parse_result" where
  "ack_update s data = (if data = [] then (s, Fail) else ack_loop s data)"

subsection \<open>The streaming contract\<close>

definition ack_inv :: "mqtt_ack \<Rightarrow> bool" where
  "ack_inv s \<longleftrightarrow> length (ak_hbuf s) = 2"

lemma ack_phase:
  "d \<noteq> [] \<Longrightarrow> ak_hlen s < 2 \<Longrightarrow> ack_update_header_var s d =
     fill_phase 2 (\<lambda>buf n. s\<lparr>ak_hbuf := buf, ak_hlen := n\<rparr>)
       (\<lambda>buf n. (s\<lparr>ak_hbuf := buf, ak_hlen := n, ak_pkt_id := the (unpack_short buf 2), ak_finished := True\<rparr>, True))
       (ak_hbuf s) (ak_hlen s) d"
  by (auto simp: ack_update_header_var_def fill_phase_def Let_def unpack_short_def split: prod.splits)

lemma ack_chunk:
  assumes "a \<noteq> []" "b \<noteq> []" "\<not> ak_finished s"
  shows "chunk_ok ack_update_header_var ak_finished s a b"
proof (cases "ak_hlen s < 2")
  case True
  show ?thesis
    by (rule chunk_fill [OF ack_phase]) (use True assms in \<open>auto simp: ack_phase\<close>)
next
  case False
  with assms(1) show ?thesis by (simp add: chunk_ok_def ack_update_header_var_def)
qed

interpretation ack: stream_parser ack_update_header_var ak_finished ack_loop "\<lambda>_. 0" ack_inv
proof
  show "ack_loop s d =
      (if d = [] \<or> ak_finished s then (s, Rest d)
       else case ack_update_header_var s d of (s', Rest r) \<Rightarrow> ack_loop s' r | (s', e) \<Rightarrow> (s', e))" for s d
    by (rule ack_loop.simps)
next
  fix s d s' r
  show "ack_update_header_var s d = (s', Rest r) \<Longrightarrow> suffix r d"
    by (auto simp: ack_update_header_var_def Let_def split: if_splits prod.splits option.splits
        dest: fill_buff_suffix)
next
  fix s d assume "ack_inv s" "d \<noteq> ([] :: bytes)"
  then show "ack_inv (fst (ack_update_header_var s d))" "snd (ack_update_header_var s d) \<noteq> AssertFail"
    by (auto simp: ack_update_header_var_def ack_inv_def Let_def split: prod.splits option.splits
        dest: fill_buff_short fill_buff_count)
qed (auto dest: ack_update_length intro: ack_chunk)


subsection \<open>Wire form\<close>

lemma ack_to_string_eq:
  "ack_to_string s out =
     (let h = hdr_set_remaing_length 2 (mheader s)
      in (s\<lparr>mheader := h\<rparr>,
          out @ first_byte (htype h) (hflags h) # vbi 2 @ short_bytes (ak_pkt_id s), True))"
  by (simp add: ack_to_string_def build_header_eq hdr_set_remaing_length_def pack_add_short_eq Let_def)

lemma ack_loop_body:
  assumes "ack_inv s" "\<not> ak_finished s" "ak_hlen s = 0"
  shows "ack_loop s (short_bytes i @ r) =
     (s\<lparr>ak_hbuf := short_bytes i, ak_hlen := 2, ak_pkt_id := i, ak_finished := True\<rparr>, Rest r)"
  using assms
  by (simp add: ack_loop.simps [of s] ack_update_header_var_def ack_inv_def ack_loop.simps)

subsection \<open>Properties of the acknowledgements\<close>

text \<open>
  C17: an acknowledgement that is serialized announces a body of two bytes; parsing that body
  into any fresh acknowledgement, cut anywhere, finishes it with the same packet id and
  hands back what follows.
\<close>

theorem ack_roundtrip:
  assumes "ack_to_string s out = (s', w, ok)" "concat cs = short_bytes (ak_pkt_id s) @ r"
  shows "ok \<and> w = out @ first_byte (htype (mheader s)) (hflags (mheader s)) # vbi 2 @ short_bytes (ak_pkt_id s) \<and>
     (\<exists>p. feed ack_loop (mqtt_ack_of h) cs = (p, Rest r) \<and> ak_finished p \<and> ak_pkt_id p = ak_pkt_id s)"
proof -
  have "ack_inv (mqtt_ack_of h)" by (simp add: ack_inv_def mqtt_ack_of_def)
  moreover have "\<not> ak_finished (mqtt_ack_of h)" "ak_hlen (mqtt_ack_of h) = 0"
    by (simp_all add: mqtt_ack_of_def)
  ultimately show ?thesis
    using assms
    by (auto simp: ack.feed_concat ack_loop_body ack_to_string_eq hdr_set_remaing_length_def Let_def)
qed

theorem ack_roundtrip_witness:
  "\<exists>s'. feed ack_loop (mqtt_ack_of (mqtt_header_new MQTT_PUBACK)) [[0x12], [0x34, 9]] = (s', Rest [9]) \<and> ak_finished s' \<and>
     ak_pkt_id s' = 0x1234"
proof -
  let ?s = "ack_set_pkt_id 0x1234 mqtt_puback_new"
  obtain s' w ok where "ack_to_string ?s [] = (s', w, ok)" by (metis prod_cases3)
  from ack_roundtrip [OF this, of "[[0x12], [0x34, 9]]" "[9]" "mqtt_header_new MQTT_PUBACK"] show ?thesis
    by (simp add: ack_set_pkt_id_def mqtt_puback_new_def mqtt_ack_new_def short_bytes_def
        mosq_msb_def mosq_lsb_def)
qed

end
