(* ===== verification/Mqtt_Subscribe.thy ===== *)
theory Mqtt_Subscribe
  imports Mqtt_Message
begin

text \<open>
  A subscribe request (cpp/include/nio/mqtt/mqtt_subscribe.hpp,
  cpp/src/mqtt/mqtt_subscribe.cpp): a packet id and a list of topics, each with a quality of
  service.  The parser counts the bytes of the body it has read against the remaining length.
\<close>

subsection \<open>State, setters and serializer\<close>

datatype subscribe_status = SUB_HDR_VAR | SUB_TOPIC_LEN | SUB_TOPIC_VAL | SUB_TOPIC_QOS

record mqtt_subscribe = mqtt_message +
  sb_pkt_id :: u16
  sb_buff :: bytes         \<comment> \<open>\<open>char buff_[2]\<close>\<close>
  sb_dlen :: nat           \<comment> \<open>\<open>unsigned dlen_\<close>, at most 65535\<close>
  sb_status :: subscribe_status
  sb_topics :: "bytes list"
  sb_qoses :: "mqtt_qos list"
  sb_body_len :: u32
  sb_nread :: u32
  sb_topic :: bytes
  sb_finished :: bool

definition mqtt_subscribe_new :: mqtt_subscribe where
  "mqtt_subscribe_new =
     \<lparr>mheader = mheader (mqtt_message_new MQTT_SUBSCRIBE), sb_pkt_id = 0, sb_buff = replicate 2 0,
      sb_dlen = 0, sb_status = SUB_HDR_VAR, sb_topics = [], sb_qoses = [], sb_body_len = 0,
      sb_nread = 0, sb_topic = [], sb_finished = False\<rparr>"

text \<open>The constructor of the parsing side takes only the length from the header.\<close>

definition mqtt_subscribe_of :: "mqtt_header \<Rightarrow> mqtt_subscribe" where
  "mqtt_subscribe_of header =
     \<lparr>mheader = mheader (mqtt_message_new MQTT_SUBSCRIBE), sb_pkt_id = 0, sb_buff = replicate 2 0,
      sb_dlen = 0, sb_status = SUB_HDR_VAR, sb_topics = [], sb_qoses = [],
      sb_body_len = hdlen header, sb_nread = 0, sb_topic = [], sb_finished = False\<rparr>"

definition subscribe_set_pkt_id :: "u16 \<Rightarrow> mqtt_subscribe \<Rightarrow> mqtt_subscribe" where
  "subscribe_set_pkt_id i s = (if i > 0 then s\<lparr>sb_pkt_id := i\<rparr> else s)"

definition subscribe_add_topic :: "bytes \<Rightarrow> mqtt_qos \<Rightarrow> mqtt_subscribe \<Rightarrow> mqtt_subscribe" where
  "subscribe_add_topic topic qos s =
     s\<lparr>sb_topics := sb_topics s @ [c_str topic], sb_qoses := sb_qoses s @ [qos],
       sb_body_len := sb_body_len s + (2 + of_nat (strlen topic) + 1)\<rparr>"

text \<open>\<open>for (size_t i = 0; i < n; i++)\<close> over the two vectors.\<close>

definition subscribe_pack :: "mqtt_subscribe \<Rightarrow> bytes \<Rightarrow> bytes" where
  "subscribe_pack s out =
     foldl (\<lambda>o1 i. pack_add_char (qos_char (sb_qoses s ! i)) (pack_add_string (sb_topics s ! i) o1))
       out [0..<length (sb_topics s)]"

definition subscribe_to_string :: "mqtt_subscribe \<Rightarrow> bytes \<Rightarrow> mqtt_subscribe \<times> bytes \<times> bool" where
  "subscribe_to_string s out =
     (if sb_topics s = [] then (s, out, False)
      else
        let s1 = s\<lparr>sb_body_len := sb_body_len s + 2\<rparr>;
            h = hdr_set_remaing_length (sb_body_len s1) (hdr_set_header_flags 0x02 (mheader s1))
        in case build_header h out of (h', out1, ok) \<Rightarrow>
             let s2 = s1\<lparr>mheader := h'\<rparr>
             in if \<not> ok then (s2, out1, False)
                else (s2, subscribe_pack s2 (pack_add_short (sb_pkt_id s2) out1), True))"

subsection \<open>The handlers of the streaming parser\<close>

definition subscribe_update_header_var :: "mqtt_subscribe \<Rightarrow> bytes \<Rightarrow> mqtt_subscribe \<times> parse_result" where
  "subscribe_update_header_var s data =
     (if data = [] then (s, AssertFail)
      else if sb_nread s \<ge> 2 then (s, Fail)
      else case fill_buff 2 (sb_buff s) (unat (sb_nread s)) data of (buf, i, rest) \<Rightarrow>
        let s1 = s\<lparr>sb_buff := buf, sb_nread := of_nat i\<rparr>
        in if i < 2 then (s1, if rest \<noteq> [] then AssertFail else Rest rest)
           else case unpack_short buf 2 of
                  None \<Rightarrow> (s1, Fail)
                | Some n \<Rightarrow>
                    let s2 = s1\<lparr>sb_pkt_id := n\<rparr>
                    in if sb_nread s2 \<ge> sb_body_len s2 then (s2, Fail)
                       else (s2\<lparr>sb_dlen := 0, sb_status := SUB_TOPIC_LEN\<rparr>, Rest rest))"

definition subscribe_update_topic_len :: "mqtt_subscribe \<Rightarrow> bytes \<Rightarrow> mqtt_subscribe \<times> parse_result" where
  "subscribe_update_topic_len s data =
     (if data = [] then (s, AssertFail)
      else case fill_buff 2 (sb_buff s) (sb_dlen s) data of (buf, i, rest) \<Rightarrow>
        let s1 = s\<lparr>sb_buff := buf, sb_dlen := i,
                   sb_nread := sb_nread s + of_nat (length data - length rest)\<rparr>
        in if i < 2 then (s1, if rest \<noteq> [] then AssertFail else Rest rest)
           else case unpack_short buf 2 of
                  None \<Rightarrow> (s1, Fail)
                | Some n \<Rightarrow>
                    if n = 0 then (s1, Fail)
                    else if sb_nread s1 \<ge> sb_body_len s1 then (s1, Fail)
                    else (s1\<lparr>sb_dlen := unat n, sb_status := SUB_TOPIC_VAL\<rparr>, Rest rest))"

definition subscribe_update_topic_val :: "mqtt_subscribe \<Rightarrow> bytes \<Rightarrow> mqtt_subscribe \<times> parse_result" where
  "subscribe_update_topic_val s data =
     (if data = [] \<or> \<not> sb_dlen s > 0 then (s, AssertFail)
      else case take_str (sb_dlen s) (sb_topic s) data of (topic, k, rest) \<Rightarrow>
        let s1 = s\<lparr>sb_topic := topic, sb_dlen := k\<rparr>
        in if k > 0 then (s1, if rest \<noteq> [] then AssertFail else Rest rest)
           else (s1\<lparr>sb_nread := sb_nread s1 + of_nat (length topic), sb_dlen := 0,
                    sb_status := SUB_TOPIC_QOS\<rparr>, Rest rest))"

definition subscribe_update_topic_qos :: "mqtt_subscribe \<Rightarrow> bytes \<Rightarrow> mqtt_subscribe \<times> parse_result" where
  "subscribe_update_topic_qos s data =
     (case data of
        [] \<Rightarrow> (s, AssertFail)
      | ch # rest \<Rightarrow>
          if sb_topic s = [] then (s, Fail)
          else
            let s1 = s\<lparr>sb_nread := sb_nread s + 1, sb_topics := sb_topics s @ [sb_topic s],
                       sb_topic := [], sb_qoses := sb_qoses s @ [qos_of_char ch]\<rparr>
            in if sb_nread s1 \<ge> sb_body_len s1 then (s1\<lparr>sb_finished := True\<rparr>, Rest rest)
               else (s1\<lparr>sb_dlen := 0, sb_status := SUB_TOPIC_LEN\<rparr>, Rest rest))"

definition subscribe_handle :: "mqtt_subscribe \<Rightarrow> bytes \<Rightarrow> mqtt_subscribe \<times> parse_result" where
  "subscribe_handle s data =
     (case sb_status s of
        SUB_HDR_VAR \<Rightarrow> subscribe_update_header_var s data
      | SUB_TOPIC_LEN \<Rightarrow> subscribe_update_topic_len s data
      | SUB_TOPIC_VAL \<Rightarrow> subscribe_update_topic_val s data
      | SUB_TOPIC_QOS \<Rightarrow> subscribe_update_topic_qos s data)"

lemmas subscribe_handler_defs =
  subscribe_handle_def subscribe_update_header_var_def subscribe_update_topic_len_def
  subscribe_update_topic_val_def subscribe_update_topic_qos_def

subsection \<open>The handlers as phases\<close>

definition subscribe_hdr_done :: "mqtt_subscribe \<Rightarrow> bytes \<Rightarrow> nat \<Rightarrow> mqtt_subscribe \<times> bool" where
  "subscribe_hdr_done s buf i =
     (let s2 = s\<lparr>sb_buff := buf, sb_nread := of_nat i, sb_pkt_id := the (unpack_short buf 2)\<rparr>
      in if of_nat i \<ge> sb_body_len s then (s2, False)
         else (s2\<lparr>sb_dlen := 0, sb_status := SUB_TOPIC_LEN\<rparr>, True))"

lemma subscribe_phase_hdr:
  "d \<noteq> [] \<Longrightarrow> sb_status s = SUB_HDR_VAR \<Longrightarrow> sb_nread s < 2 \<Longrightarrow>
     subscribe_handle s d =
       fill_phase 2 (\<lambda>buf i. s\<lparr>sb_buff := buf, sb_nread := of_nat i\<rparr>) (subscribe_hdr_done s)
         (sb_buff s) (unat (sb_nread s)) d"
  by (auto simp: subscribe_handler_defs fill_phase_def subscribe_hdr_done_def unpack_short_def Let_def
      split: prod.splits)

text \<open>The counter advances with the fill of the buffer.\<close>

definition subscribe_len_fill :: "mqtt_subscribe \<Rightarrow> bytes \<Rightarrow> nat \<Rightarrow> mqtt_subscribe" where
  "subscribe_len_fill s buf i =
     s\<lparr>sb_buff := buf, sb_dlen := i, sb_nread := sb_nread s - of_nat (sb_dlen s) + of_nat i\<rparr>"

definition subscribe_len_done :: "mqtt_subscribe \<Rightarrow> bytes \<Rightarrow> nat \<Rightarrow> mqtt_subscribe \<times> bool" where
  "subscribe_len_done s buf i =
     (let s1 = subscribe_len_fill s buf i; n = the (unpack_short buf 2)
      in if n = 0 \<or> sb_nread s1 \<ge> sb_body_len s1 then (s1, False)
         else (s1\<lparr>sb_dlen := unat n, sb_status := SUB_TOPIC_VAL\<rparr>, True))"

lemma subscribe_phase_len:
  assumes "d \<noteq> []" "sb_status s = SUB_TOPIC_LEN"
  shows "subscribe_handle s d =
     fill_phase 2 (subscribe_len_fill s) (subscribe_len_done s) (sb_buff s) (sb_dlen s) d"
proof -
  obtain buf i r where f: "fill_buff 2 (sb_buff s) (sb_dlen s) d = (buf, i, r)" by (metis prod_cases3)
  from fill_buff_count [OF f] have i: "i = sb_dlen s + (length d - length r)" by simp
  then have "s\<lparr>sb_buff := buf, sb_dlen := i, sb_nread := sb_nread s + of_nat (length d - length r)\<rparr> =
      subscribe_len_fill s buf i" by (simp add: subscribe_len_fill_def)
  with assms f show ?thesis
    by (auto simp: subscribe_handler_defs fill_phase_def subscribe_len_done_def unpack_short_def Let_def)
qed

definition subscribe_topic_done :: "mqtt_subscribe \<Rightarrow> bytes \<Rightarrow> mqtt_subscribe \<times> bool" where
  "subscribe_topic_done s topic =
     (s\<lparr>sb_topic := topic, sb_dlen := 0, sb_nread := sb_nread s + of_nat (length topic),
        sb_status := SUB_TOPIC_QOS\<rparr>, True)"

lemma subscribe_phase_val:
  "d \<noteq> [] \<Longrightarrow> sb_status s = SUB_TOPIC_VAL \<Longrightarrow> 0 < sb_dlen s \<Longrightarrow>
     subscribe_handle s d =
       take_phase (\<lambda>topic k. s\<lparr>sb_topic := topic, sb_dlen := k\<rparr>) (subscribe_topic_done s)
         (sb_topic s) (sb_dlen s) d"
  by (auto simp: subscribe_handler_defs take_phase_def subscribe_topic_done_def Let_def
      split: prod.splits)

lemma subscribe_stuck:
  "sb_status s = SUB_HDR_VAR \<Longrightarrow> 2 \<le> sb_nread s \<Longrightarrow> d \<noteq> [] \<Longrightarrow> subscribe_handle s d = (s, Fail)"
  by (simp add: subscribe_handler_defs)

lemma subscribe_val_stop:
  "sb_status s = SUB_TOPIC_VAL \<Longrightarrow> sb_dlen s = 0 \<Longrightarrow> subscribe_handle s d = (s, AssertFail)"
  by (simp add: subscribe_handler_defs)

lemma subscribe_done_same [simp]:
  "subscribe_hdr_done (s\<lparr>sb_buff := b, sb_nread := n\<rparr>) = subscribe_hdr_done s"
  "subscribe_len_fill (subscribe_len_fill s b i) = subscribe_len_fill s"
  "subscribe_len_done (subscribe_len_fill s b i) = subscribe_len_done s"
  "subscribe_topic_done (s\<lparr>sb_topic := t, sb_dlen := k\<rparr>) = subscribe_topic_done s"
  by (simp_all add: fun_eq_iff subscribe_hdr_done_def subscribe_len_done_def subscribe_len_fill_def
      subscribe_topic_done_def Let_def)

lemma subscribe_len_fill_simps [simp]:
  "sb_status (subscribe_len_fill s b i) = sb_status s"
  "sb_buff (subscribe_len_fill s b i) = b"
  "sb_dlen (subscribe_len_fill s b i) = i"
  "sb_finished (subscribe_len_fill s b i) = sb_finished s"
  by (simp_all add: subscribe_len_fill_def)

lemmas subscribe_phases = subscribe_phase_hdr subscribe_phase_len subscribe_phase_val
lemmas subscribe_done_defs = subscribe_hdr_done_def subscribe_len_done_def subscribe_topic_done_def

subsection \<open>The streaming contract\<close>

definition subscribe_inv :: "mqtt_subscribe \<Rightarrow> bool" where
  "subscribe_inv s \<longleftrightarrow> length (sb_buff s) = 2 \<and> (sb_status s = SUB_TOPIC_VAL \<longrightarrow> 0 < sb_dlen s)"

definition subscribe_rank :: "mqtt_subscribe \<Rightarrow> nat" where
  "subscribe_rank s = (if sb_status s = SUB_TOPIC_LEN then 1 else 0)"

lemma subscribe_handle_progress:
  assumes "subscribe_handle s d = (s', Rest r)" "d \<noteq> []" "\<not> sb_finished s"
  shows "length r < length d \<or> r = d \<and> subscribe_rank s' < subscribe_rank s \<and> \<not> sb_finished s'"
proof (cases "sb_status s")
  case SUB_HDR_VAR
  with assms show ?thesis
    by (cases "sb_nread s < 2")
       (auto simp: subscribe_phase_hdr subscribe_stuck not_less unat_less_2 dest: fill_phase_length)
next
  case SUB_TOPIC_LEN
  show ?thesis
  proof (cases "sb_dlen s < 2")
    case True
    with assms SUB_TOPIC_LEN show ?thesis
      by (auto simp: subscribe_phase_len dest: fill_phase_length)
  next
    case False
    with assms SUB_TOPIC_LEN show ?thesis
      by (auto simp: subscribe_phase_len fill_phase_def subscribe_len_done_def subscribe_rank_def Let_def
          split: if_splits)
  qed
next
  case SUB_TOPIC_VAL
  with assms show ?thesis
    by (cases "0 < sb_dlen s")
       (auto simp: subscribe_phase_val subscribe_val_stop dest: take_phase_length)
next
  case SUB_TOPIC_QOS
  with assms show ?thesis
    by (auto simp: subscribe_handler_defs Let_def split: list.splits if_splits)
qed

lemma subscribe_handle_consumes:
  "subscribe_inv s \<Longrightarrow> subscribe_handle s d = (s', Rest r) \<Longrightarrow> d \<noteq> [] \<Longrightarrow> \<not> sb_finished s \<Longrightarrow> sb_finished s' \<Longrightarrow>
     length r < length d"
  by (blast dest: subscribe_handle_progress)

lemma subscribe_handle_moves:
  "subscribe_handle s d = (s', Rest r) \<Longrightarrow> d \<noteq> [] \<Longrightarrow> \<not> sb_finished s \<Longrightarrow>
     length r < length d \<or> r = d \<and> subscribe_rank s' < subscribe_rank s"
  by (blast dest: subscribe_handle_progress)

function subscribe_loop :: "mqtt_subscribe \<Rightarrow> bytes \<Rightarrow> mqtt_subscribe \<times> parse_result" where
  "subscribe_loop s data =
     (if data = [] \<or> sb_finished s then (s, Rest data)
      else case subscribe_handle s data of
             (s', Rest r) \<Rightarrow> subscribe_loop s' r
           | (s', e) \<Rightarrow> (s', e))"
  by pat_completeness auto
termination
  by (relation "measures [\<lambda>(s, d). length d, \<lambda>(s, d). subscribe_rank s]")
     (auto dest: subscribe_handle_progress [OF sym])

declare subscribe_loop.simps [simp del]

definition subscribe_update :: "mqtt_subscribe \<Rightarrow> bytes \<Rightarrow> mqtt_subscribe \<times> parse_result" where
  "subscribe_update s data = (if data = [] then (s, Fail) else subscribe_loop s data)"

lemma subscribe_handle_inv:
  assumes "subscribe_inv s" "d \<noteq> []"
  shows "subscribe_inv (fst (subscribe_handle s d))"
proof (cases "sb_status s")
  case SUB_HDR_VAR
  show ?thesis
  proof (cases "sb_nread s < 2")
    case True
    show ?thesis
      unfolding subscribe_phase_hdr [OF assms(2) SUB_HDR_VAR True]
      by (rule fill_phase_keeps)
         (use assms(1) SUB_HDR_VAR in \<open>auto simp: subscribe_inv_def subscribe_hdr_done_def Let_def\<close>)
  qed (use assms SUB_HDR_VAR in \<open>simp add: subscribe_stuck\<close>)
next
  case SUB_TOPIC_LEN
  show ?thesis
    unfolding subscribe_phase_len [OF assms(2) SUB_TOPIC_LEN]
    by (rule fill_phase_keeps)
       (use assms(1) SUB_TOPIC_LEN in \<open>auto simp: subscribe_inv_def subscribe_len_done_def Let_def
          word_less_nat_alt unat_gt_0\<close>)
next
  case SUB_TOPIC_VAL
  with assms(1) have k: "0 < sb_dlen s" by (simp add: subscribe_inv_def)
  show ?thesis
    unfolding subscribe_phase_val [OF assms(2) SUB_TOPIC_VAL k]
    by (rule take_phase_keeps)
       (use assms(1) SUB_TOPIC_VAL in \<open>auto simp: subscribe_inv_def subscribe_topic_done_def\<close>)
next
  case SUB_TOPIC_QOS
  with assms show ?thesis
    by (auto simp: subscribe_handler_defs subscribe_inv_def Let_def split: list.splits)
qed

lemma subscribe_handle_safe:
  assumes "subscribe_inv s" "d \<noteq> []"
  shows "snd (subscribe_handle s d) \<noteq> AssertFail"
proof (cases "sb_status s")
  case SUB_HDR_VAR
  with assms show ?thesis
    by (cases "sb_nread s < 2") (simp_all add: subscribe_phase_hdr subscribe_stuck not_less fill_phase_safe)
next
  case SUB_TOPIC_QOS
  with assms show ?thesis
    by (auto simp: subscribe_handler_defs Let_def split: list.splits)
qed (use assms in \<open>simp_all add: subscribe_phases subscribe_inv_def fill_phase_safe take_phase_safe\<close>)

lemma subscribe_handle_suffix: "subscribe_handle s d = (s', Rest r) \<Longrightarrow> suffix r d"
  by (auto simp: subscribe_handler_defs Let_def take_str_eq suffix_drop suffix_ConsI
      split: subscribe_status.splits if_splits prod.splits option.splits list.splits dest: fill_buff_suffix)

lemma subscribe_chunk:
  assumes "subscribe_inv s" "\<not> sb_finished s" "a \<noteq> []" "b \<noteq> []"
  shows "chunk_ok subscribe_handle sb_finished s a b"
proof (cases "sb_status s")
  case SUB_HDR_VAR
  show ?thesis
  proof (cases "sb_nread s < 2")
    case True
    show ?thesis
      by (rule chunk_fill [OF subscribe_phase_hdr])
         (use True SUB_HDR_VAR assms in \<open>auto simp: subscribe_phase_hdr unat_less_2\<close>)
  qed (use SUB_HDR_VAR assms in \<open>auto intro: chunk_fail [OF subscribe_stuck(1)]\<close>)
next
  case SUB_TOPIC_LEN
  show ?thesis
    by (rule chunk_fill [OF subscribe_phase_len])
       (use SUB_TOPIC_LEN assms in \<open>auto simp: subscribe_phase_len\<close>)
next
  case SUB_TOPIC_VAL
  with assms have "0 < sb_dlen s" by (simp add: subscribe_inv_def)
  then show ?thesis
    by (intro chunk_take [OF subscribe_phase_val])
       (use SUB_TOPIC_VAL assms in \<open>auto simp: subscribe_phase_val\<close>)
next
  case SUB_TOPIC_QOS
  with assms show ?thesis
    by (auto simp: chunk_ok_def subscribe_handler_defs Let_def split: list.splits)
qed

interpretation subscribe: stream_parser subscribe_handle sb_finished subscribe_loop
  subscribe_rank subscribe_inv
proof
  show "subscribe_loop s d =
      (if d = [] \<or> sb_finished s then (s, Rest d)
       else case subscribe_handle s d of (s', Rest r) \<Rightarrow> subscribe_loop s' r | (s', e) \<Rightarrow> (s', e))" for s d
    by (rule subscribe_loop.simps)
qed (rule subscribe_handle_inv subscribe_handle_safe subscribe_handle_suffix
      subscribe_handle_moves subscribe_handle_consumes subscribe_chunk; assumption)+

subsection \<open>Wire form\<close>

definition subscribe_entry :: "bytes \<times> mqtt_qos \<Rightarrow> bytes" where
  "subscribe_entry tq = str_bytes (fst tq) @ [qos_char (snd tq)]"

definition subscribe_body :: "u16 \<Rightarrow> (bytes \<times> mqtt_qos) list \<Rightarrow> bytes" where
  "subscribe_body i ts = short_bytes i @ concat (map subscribe_entry ts)"

text \<open>A list of topics that the length fields of the wire form can describe.\<close>

definition topics_ok :: "(bytes \<times> mqtt_qos) list \<Rightarrow> bool" where
  "topics_ok ts \<longleftrightarrow> ts \<noteq> [] \<and>
     list_all (\<lambda>tq. fst tq \<noteq> [] \<and> 0 \<notin> set (fst tq) \<and> length (fst tq) < 65536) ts \<and>
     length (subscribe_body 0 ts) < 268435456"

lemma length_subscribe_entry [simp]: "length (subscribe_entry tq) = length (fst tq) + 3"
  by (simp add: subscribe_entry_def)

lemma length_subscribe_body: "length (subscribe_body i ts) = length (subscribe_body j ts)"
  by (simp add: subscribe_body_def)

text \<open>A request as a program builds it: packet id, then the topics in turn.\<close>

definition subscribe_build :: "u16 \<Rightarrow> (bytes \<times> mqtt_qos) list \<Rightarrow> mqtt_subscribe" where
  "subscribe_build i ts =
     fold (\<lambda>tq. subscribe_add_topic (fst tq) (snd tq)) ts (subscribe_set_pkt_id i mqtt_subscribe_new)"

lemma fold_add_topic:
  "list_all (\<lambda>tq. 0 \<notin> set (fst tq)) ts \<Longrightarrow>
   fold (\<lambda>tq. subscribe_add_topic (fst tq) (snd tq)) ts s =
     s\<lparr>sb_topics := sb_topics s @ map fst ts, sb_qoses := sb_qoses s @ map snd ts,
       sb_body_len := sb_body_len s + of_nat (length (concat (map subscribe_entry ts)))\<rparr>"
proof (induction ts arbitrary: s)
  case (Cons tq ts)
  then show ?case by (simp add: subscribe_add_topic_def c_str_id strlen_def)
qed simp

lemma subscribe_pack_eq:
  assumes "sb_topics s = map fst ts" "sb_qoses s = map snd ts"
    "list_all (\<lambda>tq. length (fst tq) < 65536) ts"
  shows "subscribe_pack s out = out @ concat (map subscribe_entry ts)"
proof -
  have "foldl (\<lambda>o1 i. pack_add_char (qos_char (sb_qoses s ! i)) (pack_add_string (sb_topics s ! i) o1))
      out [0..<n] = out @ concat (map subscribe_entry (take n ts))" if "n \<le> length ts" for n
    using that
  proof (induction n)
    case (Suc n)
    then show ?case
      using assms
      by (simp add: take_Suc_conv_app_nth pack_add_string_eq pack_add_char_def subscribe_entry_def
          list_all_length)
  qed simp
  from this [of "length ts"] assms(1) show ?thesis by (simp add: subscribe_pack_def)
qed

lemma subscribe_to_string_len:
  assumes "topics_ok ts" "sb_topics s = map fst ts" "sb_qoses s = map snd ts"
    "sb_body_len s + 2 = of_nat m" "m < 268435456"
  shows "subscribe_to_string s out =
     (s\<lparr>sb_body_len := of_nat m, mheader := (mheader s)\<lparr>hflags := 0x2, hdlen := of_nat m\<rparr>\<rparr>,
      out @ first_byte (htype (mheader s)) 0x2 # vbi m @ subscribe_body (sb_pkt_id s) ts, True)"
proof -
  have "list_all (\<lambda>tq. length (fst tq) < 65536) ts" "sb_topics s \<noteq> []"
    using assms(1,2) by (auto simp: topics_ok_def list_all_iff)
  then show ?thesis
    using assms(2,3,5)
    by (simp add: subscribe_to_string_def assms(4) build_header_eq hdr_set_defs pack_add_short_eq
        subscribe_pack_eq [where ts = ts] subscribe_body_def Let_def)
qed

lemma subscribe_to_string_eq:
  assumes "topics_ok ts" "sb_topics s = map fst ts" "sb_qoses s = map snd ts"
    "sb_body_len s = of_nat (length (concat (map subscribe_entry ts)))"
  shows "subscribe_to_string s out =
     (s\<lparr>sb_body_len := of_nat (length (subscribe_body (sb_pkt_id s) ts)),
        mheader := (mheader s)\<lparr>hflags := 0x2, hdlen := of_nat (length (subscribe_body (sb_pkt_id s) ts))\<rparr>\<rparr>,
      out @ wire (htype (mheader s)) 0x2 (subscribe_body (sb_pkt_id s) ts), True)"
proof -
  let ?n = "length (subscribe_body (sb_pkt_id s) ts)"
  have n: "?n < 268435456"
    using assms(1) length_subscribe_body [of "sb_pkt_id s" ts 0] by (simp add: topics_ok_def)
  have b: "sb_body_len s + 2 = of_nat ?n" by (simp add: assms(4) subscribe_body_def)
  from subscribe_to_string_len [OF assms(1-3) b n] show ?thesis by (simp add: wire_def)
qed

lemma subscribe_build_eq:
  assumes "topics_ok ts"
  shows "sb_topics (subscribe_build i ts) = map fst ts" "sb_qoses (subscribe_build i ts) = map snd ts"
    "sb_body_len (subscribe_build i ts) = of_nat (length (concat (map subscribe_entry ts)))"
    "sb_pkt_id (subscribe_build i ts) = i"
    "mheader (subscribe_build i ts) = mqtt_header_new MQTT_SUBSCRIBE"
proof -
  have "list_all (\<lambda>tq. 0 \<notin> set (fst tq)) ts" using assms by (auto simp: topics_ok_def list_all_iff)
  note e = fold_add_topic [OF this]
  have "(0 :: u16) < i \<or> i = 0" by (cases "i = 0") (simp_all add: word_gt_0)
  then show "sb_topics (subscribe_build i ts) = map fst ts" "sb_qoses (subscribe_build i ts) = map snd ts"
    "sb_body_len (subscribe_build i ts) = of_nat (length (concat (map subscribe_entry ts)))"
    "sb_pkt_id (subscribe_build i ts) = i"
    "mheader (subscribe_build i ts) = mqtt_header_new MQTT_SUBSCRIBE"
    by (auto simp: subscribe_build_def e subscribe_set_pkt_id_def mqtt_subscribe_new_def mqtt_message_new_def)
qed

text \<open>The parser on one topic, and on a list of them.\<close>

lemma subscribe_loop_entry:
  assumes "sb_status s = SUB_TOPIC_LEN" "\<not> sb_finished s" "sb_dlen s = 0" "length (sb_buff s) = 2"
    "sb_topic s = []" "sb_nread s = of_nat N" "sb_body_len s = of_nat B"
    "N + length t + 3 \<le> B" "B < 268435456" "t \<noteq> []" "length t < 65536"
  shows "subscribe_loop s (subscribe_entry (t, q) @ d) =
     (let s1 = s\<lparr>sb_buff := short_bytes (of_nat (length t)), sb_dlen := 0, sb_nread := of_nat (N + length t + 3),
                 sb_topics := sb_topics s @ [t], sb_qoses := sb_qoses s @ [q]\<rparr>
      in if N + length t + 3 = B then (s1\<lparr>sb_status := SUB_TOPIC_QOS, sb_finished := True\<rparr>, Rest d)
         else subscribe_loop s1 d)"
proof -
  let ?n = "of_nat (length t) :: u16"
  define s1 where "s1 = s\<lparr>sb_buff := short_bytes ?n, sb_dlen := length t, sb_nread := of_nat (N + 2),
     sb_status := SUB_TOPIC_VAL\<rparr>"
  define s2 where "s2 = s1\<lparr>sb_topic := t, sb_dlen := 0, sb_nread := of_nat (N + 2 + length t),
     sb_status := SUB_TOPIC_QOS\<rparr>"
  define s3 where "s3 = s2\<lparr>sb_nread := of_nat (N + length t + 3), sb_topics := sb_topics s @ [t],
     sb_topic := [], sb_qoses := sb_qoses s @ [q]\<rparr>"
  have un: "unat ?n = length t" using assms(11) by simp
  then have n0: "?n \<noteq> 0" using assms(10) by force
  have le: "(of_nat B :: u32) \<le> of_nat k \<longleftrightarrow> B \<le> k" if "k < 268435456" for k
    using assms(9) that by (simp add: word_le_nat_alt)
  have "\<not> (of_nat B :: u32) \<le> of_nat (N + 2)"
    by (subst le) (use assms(8,9) in auto)
  then have "subscribe_len_done s (short_bytes ?n) 2 = (s1, True)"
    using assms(3,6,7) n0 un
    by (simp add: subscribe_len_done_def subscribe_len_fill_def s1_def Let_def add.commute)
  then have h1: "subscribe_handle s (subscribe_entry (t, q) @ d) = (s1, Rest (t @ qos_char q # d))"
    using assms(1,3,4)
    by (simp add: subscribe_phase_len fill_phase_all subscribe_entry_def str_bytes_def)
  have h2: "subscribe_handle s1 (t @ qos_char q # d) = (s2, Rest (qos_char q # d))"
    using assms(5,10)
    by (simp add: subscribe_phase_val take_phase_all subscribe_topic_done_def s1_def s2_def add.assoc)
  have s3: "s2\<lparr>sb_nread := sb_nread s2 + 1, sb_topics := sb_topics s2 @ [sb_topic s2], sb_topic := [],
      sb_qoses := sb_qoses s2 @ [qos_of_char (qos_char q)]\<rparr> = s3"
    by (simp add: s3_def s2_def s1_def)
  have cmp: "(of_nat B :: u32) \<le> sb_nread s3 \<longleftrightarrow> N + length t + 3 = B"
    unfolding s3_def by (simp del: of_nat_add) (subst le, use assms(8,9) in auto)
  have b3: "sb_body_len s3 = of_nat B" "sb_status s2 = SUB_TOPIC_QOS" "sb_topic s2 \<noteq> []"
    using assms(7,10) by (simp_all add: s3_def s2_def s1_def)
  have h3: "subscribe_handle s2 (qos_char q # d) =
      (if N + length t + 3 = B then (s3\<lparr>sb_finished := True\<rparr>, Rest d)
       else (s3\<lparr>sb_dlen := 0, sb_status := SUB_TOPIC_LEN\<rparr>, Rest d))"
    using b3 cmp by (simp add: subscribe_handle_def subscribe_update_topic_qos_def s3 Let_def del: qos_of_qos_char)
  have ne: "subscribe_entry (t, q) @ d \<noteq> []" "\<not> sb_finished s1" "\<not> sb_finished s2"
    using assms(2) by (simp_all add: subscribe_entry_def s1_def s2_def str_bytes_def)
  have "subscribe_loop s (subscribe_entry (t, q) @ d) = 
      (if N + length t + 3 = B then (s3\<lparr>sb_finished := True\<rparr>, Rest d)
       else subscribe_loop (s3\<lparr>sb_dlen := 0, sb_status := SUB_TOPIC_LEN\<rparr>) d)"
    using assms(2,10) ne h1 h2 h3
    by (simp add: subscribe.loop_step [of _ s] subscribe.loop_step [of _ s1] subscribe.loop_step [of _ s2])
  moreover have "s3\<lparr>sb_finished := True\<rparr> = s\<lparr>sb_buff := short_bytes ?n, sb_dlen := 0,
      sb_nread := of_nat (N + length t + 3), sb_topics := sb_topics s @ [t], sb_qoses := sb_qoses s @ [q],
      sb_status := SUB_TOPIC_QOS, sb_finished := True\<rparr>"
    using assms(5) by (simp add: s3_def s2_def s1_def)
  moreover have "s3\<lparr>sb_dlen := 0, sb_status := SUB_TOPIC_LEN\<rparr> = s\<lparr>sb_buff := short_bytes ?n, sb_dlen := 0,
      sb_nread := of_nat (N + length t + 3), sb_topics := sb_topics s @ [t], sb_qoses := sb_qoses s @ [q]\<rparr>"
    using assms(1,5) by (simp add: s3_def s2_def s1_def)
  ultimately show ?thesis by (simp add: Let_def del: of_nat_add)
qed

lemma subscribe_loop_topics:
  assumes "sb_status s = SUB_TOPIC_LEN" "\<not> sb_finished s" "sb_dlen s = 0" "length (sb_buff s) = 2"
    "sb_topic s = []" "sb_nread s = of_nat N"
    "sb_body_len s = of_nat (N + length (concat (map subscribe_entry ts)))"
    "N + length (concat (map subscribe_entry ts)) < 268435456" "ts \<noteq> []"
    "list_all (\<lambda>tq. fst tq \<noteq> [] \<and> length (fst tq) < 65536) ts"
  shows "\<exists>p. subscribe_loop s (concat (map subscribe_entry ts) @ r) = (p, Rest r) \<and> sb_finished p \<and>
     sb_topics p = sb_topics s @ map fst ts \<and> sb_qoses p = sb_qoses s @ map snd ts \<and>
     sb_pkt_id p = sb_pkt_id s"
  using assms
proof (induction ts arbitrary: s N)
  case (Cons tq ts)
  obtain t q where tq: "tq = (t, q)" by fastforce
  let ?B = "N + length (concat (map subscribe_entry (tq # ts)))"
  have step: "subscribe_loop s (concat (map subscribe_entry (tq # ts)) @ r) =
     (let s1 = s\<lparr>sb_buff := short_bytes (of_nat (length t)), sb_dlen := 0, sb_nread := of_nat (N + length t + 3),
                 sb_topics := sb_topics s @ [t], sb_qoses := sb_qoses s @ [q]\<rparr>
      in if N + length t + 3 = ?B
         then (s1\<lparr>sb_status := SUB_TOPIC_QOS, sb_finished := True\<rparr>, Rest (concat (map subscribe_entry ts) @ r))
         else subscribe_loop s1 (concat (map subscribe_entry ts) @ r))"
    using subscribe_loop_entry [OF Cons.prems(1-7) _ Cons.prems(8), of t q "concat (map subscribe_entry ts) @ r"]
      Cons.prems(10) tq by simp
  show ?case
  proof (cases "ts = []")
    case True
    with step tq show ?thesis by (simp add: Let_def)
  next
    case False
    let ?s1 = "s\<lparr>sb_buff := short_bytes (of_nat (length t)), sb_dlen := 0, sb_nread := of_nat (N + length t + 3),
        sb_topics := sb_topics s @ [t], sb_qoses := sb_qoses s @ [q]\<rparr>"
    have "N + length t + 3 \<noteq> ?B"
      using False tq by (cases ts) simp_all
    with step have "subscribe_loop s (concat (map subscribe_entry (tq # ts)) @ r) =
        subscribe_loop ?s1 (concat (map subscribe_entry ts) @ r)"
      by (simp only: Let_def if_False)
    moreover have "\<exists>p. subscribe_loop ?s1 (concat (map subscribe_entry ts) @ r) = (p, Rest r) \<and> sb_finished p \<and>
       sb_topics p = sb_topics ?s1 @ map fst ts \<and> sb_qoses p = sb_qoses ?s1 @ map snd ts \<and>
       sb_pkt_id p = sb_pkt_id ?s1"
      by (rule Cons.IH [where N = "N + length t + 3"])
         (use Cons.prems False tq in \<open>simp_all add: add.assoc del: of_nat_add\<close>)
    ultimately show ?thesis using tq by simp
  qed
qed simp

lemma subscribe_loop_body:
  assumes "topics_ok ts" "hdlen h = of_nat (length (subscribe_body i ts))"
  shows "\<exists>p. subscribe_loop (mqtt_subscribe_of h) (subscribe_body i ts @ r) = (p, Rest r) \<and>
     sb_finished p \<and> sb_pkt_id p = i \<and> sb_topics p = map fst ts \<and> sb_qoses p = map snd ts"
proof -
  let ?s = "mqtt_subscribe_of h"
  let ?c = "concat (map subscribe_entry ts)"
  let ?s1 = "?s\<lparr>sb_buff := short_bytes i, sb_nread := of_nat 2, sb_pkt_id := i, sb_dlen := 0,
      sb_status := SUB_TOPIC_LEN\<rparr>"
  have n: "2 + length ?c < 268435456" and ts: "ts \<noteq> []"
    using assms(1) by (simp_all add: topics_ok_def subscribe_body_def)
  have ok: "list_all (\<lambda>tq. fst tq \<noteq> [] \<and> length (fst tq) < 65536) ts"
    using assms(1) by (auto simp: topics_ok_def list_all_iff)
  have h: "hdlen h = of_nat (2 + length ?c)" by (simp add: assms(2) subscribe_body_def)
  have "0 < length ?c" using ts by (cases ts) simp_all
  moreover have "unat (of_nat (2 + length ?c) :: u32) = 2 + length ?c"
    by (rule unat_of_nat_u32) (use n in simp)
  ultimately have "\<not> hdlen h \<le> 2" by (simp add: h word_le_nat_alt)
  then have "subscribe_handle ?s (subscribe_body i ts @ r) = (?s1, Rest (?c @ r))"
    by (simp add: subscribe_phase_hdr mqtt_subscribe_of_def subscribe_body_def fill_phase_all
        subscribe_hdr_done_def Let_def)
  moreover have "subscribe_body i ts @ r \<noteq> []" by (simp add: subscribe_body_def)
  ultimately have "subscribe_loop ?s (subscribe_body i ts @ r) = subscribe_loop ?s1 (?c @ r)"
    using subscribe.loop_step [of "subscribe_body i ts @ r" ?s] by (simp add: mqtt_subscribe_of_def)
  moreover have "\<exists>p. subscribe_loop ?s1 (?c @ r) = (p, Rest r) \<and> sb_finished p \<and>
     sb_topics p = sb_topics ?s1 @ map fst ts \<and> sb_qoses p = sb_qoses ?s1 @ map snd ts \<and>
     sb_pkt_id p = sb_pkt_id ?s1"
    by (rule subscribe_loop_topics [OF _ _ _ _ _ _ _ n ts ok])
       (use h in \<open>simp_all add: mqtt_subscribe_of_def del: of_nat_add of_nat_numeral\<close>)
  ultimately show ?thesis by (auto simp add: mqtt_subscribe_of_def)
qed

subsection \<open>Properties of the subscribe request\<close>

text \<open>
  C14: a subscribe request built from a packet id and a list of topics is written as fixed
  header (flags 0x2) and body; parsing that body, cut anywhere, yields the same packet id,
  topics and qualities of service in order, and hands back what follows.
\<close>

theorem subscribe_roundtrip:
  assumes "topics_ok ts" "subscribe_to_string (subscribe_build i ts) out = (s', w, ok)"
    "hdlen h = of_nat (length (subscribe_body i ts))" "concat cs = subscribe_body i ts @ r"
  shows "ok \<and> w = out @ wire MQTT_SUBSCRIBE 0x2 (subscribe_body i ts) \<and>
     (\<exists>p. feed subscribe_loop (mqtt_subscribe_of h) cs = (p, Rest r) \<and> sb_finished p \<and>
        sb_pkt_id p = i \<and> sb_topics p = map fst ts \<and> sb_qoses p = map snd ts)"
proof -
  have "subscribe_inv (mqtt_subscribe_of h)" by (simp add: subscribe_inv_def mqtt_subscribe_of_def)
  with assms subscribe_loop_body [OF assms(1,3)] show ?thesis
    by (simp add: subscribe_to_string_eq [of ts] subscribe_build_eq subscribe.feed_concat mqtt_header_new_def)
qed

theorem subscribe_roundtrip_witness:
  "\<exists>p. feed subscribe_loop (mqtt_subscribe_of (hdr_set_remaing_length 11 (mqtt_header_new MQTT_SUBSCRIBE)))
      [[0x00], [0x07, 0x00, 0x01, 0x61, 0x01, 0x00], [0x02, 0x62, 0x63, 0x02, 0x99]] = (p, Rest [0x99]) \<and>
     sb_pkt_id p = 7 \<and> sb_topics p = [[0x61], [0x62, 0x63]] \<and> sb_qoses p = [MQTT_QOS1, MQTT_QOS2]"
proof -
  let ?ts = "[([0x61], MQTT_QOS1), ([0x62, 0x63], MQTT_QOS2)]"
  have ok: "topics_ok ?ts" by (simp add: topics_ok_def subscribe_body_def)
  have b: "subscribe_body 7 ?ts = [0x00, 0x07, 0x00, 0x01, 0x61, 0x01, 0x00, 0x02, 0x62, 0x63, 0x02]"
    by (simp add: subscribe_body_def subscribe_entry_def str_bytes_def short_bytes_def mosq_msb_def
        mosq_lsb_def qos_char_def)
  obtain s' w k where "subscribe_to_string (subscribe_build 7 ?ts) [] = (s', w, k)" by (metis prod_cases3)
  from subscribe_roundtrip [OF ok this, of "hdr_set_remaing_length 11 (mqtt_header_new MQTT_SUBSCRIBE)"
      "[[0x00], [0x07, 0x00, 0x01, 0x61, 0x01, 0x00], [0x02, 0x62, 0x63, 0x02, 0x99]]" "[0x99]"]
  show ?thesis unfolding b by (simp add: hdr_set_remaing_length_def) blast
qed

text \<open>
  Serializing the same request a second time announces a body two bytes longer than the
  one it writes: the member \<open>body_len_\<close> grows with every call.
\<close>

theorem subscribe_to_string_twice:
  assumes "topics_ok ts" "length (subscribe_body i ts) < 268435454"
    "subscribe_to_string (subscribe_build i ts) out = (s1, w1, ok1)"
    "subscribe_to_string s1 out2 = (s2, w2, ok2)"
  shows "ok2 \<and> w2 = out2 @ first_byte MQTT_SUBSCRIBE 0x2 #
     vbi (length (subscribe_body i ts) + 2) @ subscribe_body i ts"
proof -
  let ?n = "length (subscribe_body i ts)"
  have s1: "s1 = (subscribe_build i ts)\<lparr>sb_body_len := of_nat ?n,
      mheader := (mqtt_header_new MQTT_SUBSCRIBE)\<lparr>hflags := 0x2, hdlen := of_nat ?n\<rparr>\<rparr>"
    using assms(1,3) by (simp add: subscribe_to_string_eq [of ts] subscribe_build_eq)
  have "sb_body_len s1 + 2 = of_nat (?n + 2)" "sb_topics s1 = map fst ts" "sb_qoses s1 = map snd ts"
    by (simp_all add: s1 subscribe_build_eq [OF assms(1)])
  from subscribe_to_string_len [OF assms(1) this(2,3,1)] assms(1,2,4) show ?thesis
    by (auto simp: s1 subscribe_build_eq mqtt_header_new_def)
qed

theorem subscribe_to_string_twice_witness:
  "\<exists>s1 w1 s2 w2 ok1. subscribe_to_string (subscribe_build 7 [([0x61], MQTT_QOS1)]) [] = (s1, w1, ok1) \<and>
     subscribe_to_string s1 [] = (s2, w2, True) \<and>
     w2 = [0x82, 0x08, 0x00, 0x07, 0x00, 0x01, 0x61, 0x01]"
proof -
  let ?ts = "[([0x61], MQTT_QOS1)]"
  have ok: "topics_ok ?ts" by (simp add: topics_ok_def subscribe_body_def)
  have b: "subscribe_body 7 ?ts = [0x00, 0x07, 0x00, 0x01, 0x61, 0x01]"
    by (simp add: subscribe_body_def subscribe_entry_def str_bytes_def short_bytes_def mosq_msb_def
        mosq_lsb_def qos_char_def)
  obtain s1 w1 k1 where 1: "subscribe_to_string (subscribe_build 7 ?ts) [] = (s1, w1, k1)" by (metis prod_cases3)
  obtain s2 w2 k2 where 2: "subscribe_to_string s1 [] = (s2, w2, k2)" by (metis prod_cases3)
  from subscribe_to_string_twice [OF ok _ 1 2] 1 2 show ?thesis
    by (simp add: b first_byte_def vbi.simps)
qed

end
