(* ===== verification/Mqtt_Suback.thy ===== *)
theory Mqtt_Suback
  imports Mqtt_Message
begin

text \<open>
  The answer to a subscribe request (cpp/include/nio/mqtt/mqtt_suback.hpp,
  cpp/src/mqtt/mqtt_suback.cpp): a packet id and one granted quality of service per topic.
\<close>

subsection \<open>State, setters and serializer\<close>

datatype suback_status = SAK_HDR_VAR | SAK_TOPIC_QOS

record mqtt_suback = mqtt_message +
  sa_pkt_id :: u16
  sa_buff :: bytes         \<comment> \<open>\<open>char buff_[2]\<close>\<close>
  sa_dlen :: u32
  sa_status :: suback_status
  sa_qoses :: "mqtt_qos list"
  sa_body_len :: u32
  sa_nread :: u32
  sa_finished :: bool

definition mqtt_suback_new :: mqtt_suback where
  "mqtt_suback_new =
     \<lparr>mheader = mheader (mqtt_message_new MQTT_SUBACK), sa_pkt_id = 0, sa_buff = replicate 2 0,
      sa_dlen = 0, sa_status = SAK_HDR_VAR, sa_qoses = [], sa_body_len = 0, sa_nread = 0,
      sa_finished = False\<rparr>"

text \<open>The constructor of the parsing side takes only the length from the header.\<close>

definition mqtt_suback_of :: "mqtt_header \<Rightarrow> mqtt_suback" where
  "mqtt_suback_of header =
     \<lparr>mheader = mheader (mqtt_message_new MQTT_SUBACK), sa_pkt_id = 0, sa_buff = replicate 2 0,
      sa_dlen = 0, sa_status = SAK_HDR_VAR, sa_qoses = [], sa_body_len = hdlen header, sa_nread = 0,
      sa_finished = False\<rparr>"

definition suback_set_pkt_id :: "u16 \<Rightarrow> mqtt_suback \<Rightarrow> mqtt_suback" where
  "suback_set_pkt_id i s = s\<lparr>sa_pkt_id := i\<rparr>"

definition suback_add_topic_qos :: "mqtt_qos \<Rightarrow> mqtt_suback \<Rightarrow> mqtt_suback" where
  "suback_add_topic_qos q s =
     s\<lparr>sa_qoses := sa_qoses s @ [q], sa_body_len := sa_body_len s + 1\<rparr>"

definition suback_add_topic_qoses :: "mqtt_qos list \<Rightarrow> mqtt_suback \<Rightarrow> mqtt_suback" where
  "suback_add_topic_qoses qs s = fold suback_add_topic_qos qs s"

definition suback_to_string :: "mqtt_suback \<Rightarrow> bytes \<Rightarrow> mqtt_suback \<times> bytes \<times> bool" where
  "suback_to_string s out =
     (if sa_qoses s = [] then (s, out, False)
      else
        let s1 = s\<lparr>sa_body_len := sa_body_len s + 2\<rparr>
        in case build_header (hdr_set_remaing_length (sa_body_len s1) (mheader s1)) out of (h', out1, ok) \<Rightarrow>
             let s2 = s1\<lparr>mheader := h'\<rparr>
             in if \<not> ok then (s2, out1, False)
                else (s2, fold (\<lambda>q. pack_add_char (qos_char q)) (sa_qoses s2)
                            (pack_add_short (sa_pkt_id s2) out1), True))"

subsection \<open>The handlers of the streaming parser\<close>

definition suback_update_header_var :: "mqtt_suback \<Rightarrow> bytes \<Rightarrow> mqtt_suback \<times> parse_result" where
  "suback_update_header_var s data =
     (if data = [] then (s, AssertFail)
      else if sa_nread s \<ge> 2 then (s, Fail)
      else case fill_buff 2 (sa_buff s) (unat (sa_nread s)) data of (buf, i, rest) \<Rightarrow>
        let s1 = s\<lparr>sa_buff := buf, sa_nread := of_nat i\<rparr>
        in if i < 2 then (s1, if rest \<noteq> [] then AssertFail else Rest rest)
           else case unpack_short buf 2 of
                  None \<Rightarrow> (s1, Fail)
                | Some n \<Rightarrow>
                    let s2 = s1\<lparr>sa_pkt_id := n\<rparr>
                    in if sa_nread s2 \<ge> sa_body_len s2 then (s2\<lparr>sa_finished := True\<rparr>, Rest rest)
                       else (s2\<lparr>sa_dlen := 0, sa_status := SAK_TOPIC_QOS\<rparr>, Rest rest))"

definition suback_update_topic_qos :: "mqtt_suback \<Rightarrow> bytes \<Rightarrow> mqtt_suback \<times> parse_result" where
  "suback_update_topic_qos s data =
     (case data of
        [] \<Rightarrow> (s, AssertFail)
      | ch # rest \<Rightarrow>
          let s1 = s\<lparr>sa_nread := sa_nread s + 1, sa_qoses := sa_qoses s @ [qos_of_char ch]\<rparr>
          in if sa_nread s1 \<ge> sa_body_len s1 then (s1\<lparr>sa_finished := True\<rparr>, Rest rest)
             else (s1\<lparr>sa_dlen := 0, sa_status := SAK_TOPIC_QOS\<rparr>, Rest rest))"

definition suback_handle :: "mqtt_suback \<Rightarrow> bytes \<Rightarrow> mqtt_suback \<times> parse_result" where
  "suback_handle s data =
     (case sa_status s of
        SAK_HDR_VAR \<Rightarrow> suback_update_header_var s data
      | SAK_TOPIC_QOS \<Rightarrow> suback_update_topic_qos s data)"

lemmas suback_handler_defs =
  suback_handle_def suback_update_header_var_def suback_update_topic_qos_def

definition suback_hdr_done :: "mqtt_suback \<Rightarrow> bytes \<Rightarrow> nat \<Rightarrow> mqtt_suback \<times> bool" where
  "suback_hdr_done s buf i =
     (let s2 = s\<lparr>sa_buff := buf, sa_nread := of_nat i, sa_pkt_id := the (unpack_short buf 2)\<rparr>
      in (if of_nat i \<ge> sa_body_len s then s2\<lparr>sa_finished := True\<rparr>
          else s2\<lparr>sa_dlen := 0, sa_status := SAK_TOPIC_QOS\<rparr>, True))"

lemma suback_phase_hdr:
  "d \<noteq> [] \<Longrightarrow> sa_status s = SAK_HDR_VAR \<Longrightarrow> sa_nread s < 2 \<Longrightarrow>
     suback_handle s d =
       fill_phase 2 (\<lambda>buf i. s\<lparr>sa_buff := buf, sa_nread := of_nat i\<rparr>) (suback_hdr_done s)
         (sa_buff s) (unat (sa_nread s)) d"
  by (auto simp: suback_handler_defs fill_phase_def suback_hdr_done_def unpack_short_def Let_def
      split: prod.splits)

lemma suback_stuck:
  "sa_status s = SAK_HDR_VAR \<Longrightarrow> 2 \<le> sa_nread s \<Longrightarrow> d \<noteq> [] \<Longrightarrow> suback_handle s d = (s, Fail)"
  by (simp add: suback_handler_defs)

lemma suback_done_same [simp]:
  "suback_hdr_done (s\<lparr>sa_buff := b, sa_nread := n\<rparr>) = suback_hdr_done s"
  by (simp add: fun_eq_iff suback_hdr_done_def Let_def)

subsection \<open>The streaming contract\<close>

definition suback_inv :: "mqtt_suback \<Rightarrow> bool" where
  "suback_inv s \<longleftrightarrow> length (sa_buff s) = 2"

lemma suback_handle_progress:
  assumes "suback_handle s d = (s', Rest r)" "d \<noteq> []"
  shows "length r < length d"
proof (cases "sa_status s")
  case SAK_HDR_VAR
  with assms show ?thesis
    by (cases "sa_nread s < 2")
       (auto simp: suback_phase_hdr suback_stuck not_less unat_less_2 dest: fill_phase_length)
next
  case SAK_TOPIC_QOS
  with assms show ?thesis
    by (auto simp: suback_handler_defs Let_def split: list.splits if_splits)
qed

function suback_loop :: "mqtt_suback \<Rightarrow> bytes \<Rightarrow> mqtt_suback \<times> parse_result" where
  "suback_loop s data =
     (if data = [] \<or> sa_finished s then (s, Rest data)
      else case suback_handle s data of
             (s', Rest r) \<Rightarrow> suback_loop s' r
           | (s', e) \<Rightarrow> (s', e))"
  by pat_completeness auto
termination
  by (relation "measure (\<lambda>(s, d). length d)") (auto dest: suback_handle_progress [OF sym])

declare suback_loop.simps [simp del]

definition suback_update :: "mqtt_suback \<Rightarrow> bytes \<Rightarrow> mqtt_suback \<times> parse_result" where
  "suback_update s data = (if data = [] then (s, Fail) else suback_loop s data)"

lemma suback_handle_keeps:
  assumes "suback_inv s" "d \<noteq> []"
  shows "suback_inv (fst (suback_handle s d)) \<and> snd (suback_handle s d) \<noteq> AssertFail"
proof (cases "sa_status s")
  case SAK_HDR_VAR
  show ?thesis
  proof (cases "sa_nread s < 2")
    case True
    have "suback_inv (fst (suback_handle s d))"
      unfolding suback_phase_hdr [OF assms(2) SAK_HDR_VAR True]
      by (rule fill_phase_keeps)
         (use assms(1) in \<open>auto simp: suback_inv_def suback_hdr_done_def Let_def\<close>)
    with suback_phase_hdr [OF assms(2) SAK_HDR_VAR True] show ?thesis by (simp add: fill_phase_safe)
  qed (use assms SAK_HDR_VAR in \<open>simp add: suback_stuck\<close>)
next
  case SAK_TOPIC_QOS
  with assms show ?thesis
    by (auto simp: suback_handler_defs suback_inv_def Let_def split: list.splits)
qed

lemma suback_handle_suffix: "suback_handle s d = (s', Rest r) \<Longrightarrow> suffix r d"
  by (auto simp: suback_handler_defs Let_def suffix_ConsI
      split: suback_status.splits if_splits prod.splits option.splits list.splits dest: fill_buff_suffix)

lemma suback_chunk:
  assumes "\<not> sa_finished s" "a \<noteq> []" "b \<noteq> []"
  shows "chunk_ok suback_handle sa_finished s a b"
proof (cases "sa_status s")
  case SAK_HDR_VAR
  show ?thesis
  proof (cases "sa_nread s < 2")
    case True
    show ?thesis
      by (rule chunk_fill [OF suback_phase_hdr])
         (use True SAK_HDR_VAR assms in \<open>auto simp: suback_phase_hdr unat_less_2\<close>)
  qed (use SAK_HDR_VAR assms in \<open>auto intro: chunk_fail [OF suback_stuck(1)]\<close>)
next
  case SAK_TOPIC_QOS
  with assms show ?thesis
    by (auto simp: chunk_ok_def suback_handler_defs Let_def split: list.splits)
qed

interpretation suback: stream_parser suback_handle sa_finished suback_loop "\<lambda>_. 0" suback_inv
proof
  show "suback_loop s d =
      (if d = [] \<or> sa_finished s then (s, Rest d)
       else case suback_handle s d of (s', Rest r) \<Rightarrow> suback_loop s' r | (s', e) \<Rightarrow> (s', e))" for s d
    by (rule suback_loop.simps)
qed (auto simp: suback_handle_keeps suback_handle_suffix suback_chunk dest: suback_handle_progress)

subsection \<open>Wire form\<close>

definition suback_body :: "u16 \<Rightarrow> mqtt_qos list \<Rightarrow> bytes" where
  "suback_body i qs = short_bytes i @ map qos_char qs"

definition suback_build :: "u16 \<Rightarrow> mqtt_qos list \<Rightarrow> mqtt_suback" where
  "suback_build i qs = suback_add_topic_qoses qs (suback_set_pkt_id i mqtt_suback_new)"

lemma suback_build_eq:
  "suback_build i qs = mqtt_suback_new\<lparr>sa_pkt_id := i, sa_qoses := qs, sa_body_len := of_nat (length qs)\<rparr>"
proof -
  have "fold suback_add_topic_qos qs s =
      s\<lparr>sa_qoses := sa_qoses s @ qs, sa_body_len := sa_body_len s + of_nat (length qs)\<rparr>" for s
    by (induction qs arbitrary: s) (simp_all add: suback_add_topic_qos_def add.assoc)
  then show ?thesis
    by (simp add: suback_build_def suback_add_topic_qoses_def suback_set_pkt_id_def mqtt_suback_new_def)
qed

lemma fold_pack_char: "fold (\<lambda>q. pack_add_char (f q)) qs out = out @ map f qs"
  by (induction qs arbitrary: out) (simp_all add: pack_add_char_def)

lemma suback_to_string_eq:
  assumes "sa_qoses s \<noteq> []" "sa_body_len s = of_nat (length (sa_qoses s))"
    "length (suback_body (sa_pkt_id s) (sa_qoses s)) < 268435456"
  shows "\<exists>s'. suback_to_string s out =
     (s', out @ wire (htype (mheader s)) (hflags (mheader s)) (suback_body (sa_pkt_id s) (sa_qoses s)), True)"
proof -
  let ?n = "length (suback_body (sa_pkt_id s) (sa_qoses s))"
  have b: "sa_body_len s + 2 = of_nat ?n" by (simp add: assms(2) suback_body_def)
  show ?thesis
    using assms(1,3)
    by (simp add: suback_to_string_def b build_header_eq hdr_set_defs pack_add_short_eq fold_pack_char
        wire_def Let_def del: of_nat_add)
       (simp add: suback_body_def)
qed

text \<open>The parser reads a code per byte until the count is reached.\<close>

lemma suback_loop_codes:
  assumes "sa_status s = SAK_TOPIC_QOS" "\<not> sa_finished s" "sa_nread s = of_nat N"
    "sa_body_len s = of_nat (N + length w)" "N + length w < 268435456" "w \<noteq> []"
  shows "\<exists>p. suback_loop s (w @ r) = (p, Rest r) \<and> sa_finished p \<and>
     sa_qoses p = sa_qoses s @ map qos_of_char w \<and> sa_pkt_id p = sa_pkt_id s"
  using assms
proof (induction w arbitrary: s N)
  case (Cons c w)
  let ?s1 = "s\<lparr>sa_nread := of_nat (N + 1), sa_qoses := sa_qoses s @ [qos_of_char c]\<rparr>"
  have le: "(of_nat (N + length (c # w)) :: u32) \<le> of_nat (N + 1) \<longleftrightarrow> w = []"
    using Cons.prems(5) unat_of_nat_u32 [of "N + 1"] unat_of_nat_u32 [of "N + length (c # w)"]
    by (simp add: word_le_nat_alt del: of_nat_add of_nat_Suc)
  have "sa_nread s + 1 = of_nat (N + 1)" using Cons.prems(3) by simp
  then have h: "suback_handle s (c # w @ r) =
      (if w = [] then (?s1\<lparr>sa_finished := True\<rparr>, Rest (w @ r))
       else (?s1\<lparr>sa_dlen := 0, sa_status := SAK_TOPIC_QOS\<rparr>, Rest (w @ r)))"
    using Cons.prems(1,4) le
    by (simp add: suback_handle_def suback_update_topic_qos_def Let_def del: of_nat_add of_nat_Suc)
  show ?case
  proof (cases "w = []")
    case True
    with h Cons.prems(2) show ?thesis by (simp add: suback.loop_step)
  next
    case False
    let ?s2 = "?s1\<lparr>sa_dlen := 0, sa_status := SAK_TOPIC_QOS\<rparr>"
    have "\<exists>p. suback_loop ?s2 (w @ r) = (p, Rest r) \<and> sa_finished p \<and>
       sa_qoses p = sa_qoses ?s2 @ map qos_of_char w \<and> sa_pkt_id p = sa_pkt_id ?s2"
      by (rule Cons.IH [where N = "N + 1"])
         (use Cons.prems False in \<open>simp_all del: of_nat_add of_nat_Suc\<close>)
    with h False Cons.prems(2) suback.loop_step [of "c # w @ r" s] show ?thesis by simp
  qed
qed simp

lemma suback_loop_body:
  assumes "w \<noteq> []" "2 + length w < 268435456" "hdlen h = of_nat (2 + length w)"
  shows "\<exists>p. suback_loop (mqtt_suback_of h) (short_bytes i @ w @ r) = (p, Rest r) \<and> sa_finished p \<and>
     sa_pkt_id p = i \<and> sa_qoses p = map qos_of_char w"
proof -
  let ?s = "mqtt_suback_of h"
  let ?s1 = "?s\<lparr>sa_buff := short_bytes i, sa_nread := of_nat 2, sa_pkt_id := i, sa_dlen := 0,
      sa_status := SAK_TOPIC_QOS\<rparr>"
  have "unat (hdlen h) = 2 + length w"
    unfolding assms(3) by (rule unat_of_nat_u32) (use assms(2) in simp)
  with assms(1) have "\<not> hdlen h \<le> 2" by (cases w) (simp_all add: word_le_nat_alt)
  then have "suback_handle ?s (short_bytes i @ w @ r) = (?s1, Rest (w @ r))"
    by (simp add: suback_phase_hdr mqtt_suback_of_def fill_phase_all suback_hdr_done_def Let_def)
  then have "suback_loop ?s (short_bytes i @ w @ r) = suback_loop ?s1 (w @ r)"
    using suback.loop_step [of "short_bytes i @ w @ r" ?s] by (simp add: mqtt_suback_of_def)
  moreover have "\<exists>p. suback_loop ?s1 (w @ r) = (p, Rest r) \<and> sa_finished p \<and>
     sa_qoses p = sa_qoses ?s1 @ map qos_of_char w \<and> sa_pkt_id p = sa_pkt_id ?s1"
    by (rule suback_loop_codes [OF _ _ _ _ assms(2) assms(1)])
       (use assms(3) in \<open>simp_all add: mqtt_suback_of_def del: of_nat_add of_nat_numeral\<close>)
  ultimately show ?thesis by (auto simp: mqtt_suback_of_def)
qed

subsection \<open>Properties of the suback\<close>

lemma suback_inv_of: "suback_inv (mqtt_suback_of h)"
  by (simp add: suback_inv_def mqtt_suback_of_def)

text \<open>
  C15: a suback built from a packet id and a non-empty list of granted levels is written as
  fixed header and body; parsing the body, cut anywhere, gives the same id and levels.
\<close>

theorem suback_roundtrip:
  assumes "qs \<noteq> []" "length (suback_body i qs) < 268435456"
    "suback_to_string (suback_build i qs) out = (s', w, ok)"
    "hdlen h = of_nat (length (suback_body i qs))" "concat cs = suback_body i qs @ r"
  shows "ok \<and> w = out @ wire MQTT_SUBACK 0 (suback_body i qs) \<and>
     (\<exists>p. feed suback_loop (mqtt_suback_of h) cs = (p, Rest r) \<and> sa_finished p \<and>
        sa_pkt_id p = i \<and> sa_qoses p = qs)"
proof -
  have "map (qos_of_char \<circ> qos_char) qs = qs" by (simp add: map_idI)
  with suback_loop_body [of "map qos_char qs" h i r] suback_to_string_eq [of "suback_build i qs" out] assms
  show ?thesis
    by (auto simp: suback_build_eq mqtt_suback_new_def mqtt_message_new_def mqtt_header_new_def
        suback_body_def suback.feed_concat suback_inv_of)
qed

theorem suback_roundtrip_witness:
  "\<exists>p. feed suback_loop (mqtt_suback_of (hdr_set_remaing_length 4 (mqtt_header_new MQTT_SUBACK)))
      [[0x00], [0x07, 0x02], [0x00, 0x99]] = (p, Rest [0x99]) \<and> sa_finished p \<and>
     sa_pkt_id p = 7 \<and> sa_qoses p = [MQTT_QOS2, MQTT_QOS0]"
proof -
  let ?qs = "[MQTT_QOS2, MQTT_QOS0]"
  have b: "suback_body 7 ?qs = [0x00, 0x07, 0x02, 0x00]"
    by (simp add: suback_body_def short_bytes_def mosq_msb_def mosq_lsb_def qos_char_def)
  obtain s' w k where "suback_to_string (suback_build 7 ?qs) [] = (s', w, k)" by (metis prod_cases3)
  from suback_roundtrip [OF _ _ this, of "hdr_set_remaing_length 4 (mqtt_header_new MQTT_SUBACK)"
      "[[0x00], [0x07, 0x02], [0x00, 0x99]]" "[0x99]"]
  show ?thesis unfolding b by (simp add: hdr_set_remaing_length_def)
qed

text \<open>
  Whatever codes a broker answers with, the message is accepted, and a code that is not
  one of the three levels, the failure code 0x80 among them, is reported as QoS 0: a refused
  subscription cannot be told from one granted at QoS 0.
\<close>

theorem suback_failure_lost:
  assumes "w \<noteq> []" "2 + length w < 268435456" "hdlen h = of_nat (2 + length w)"
    "concat cs = short_bytes i @ w @ r"
  shows "\<exists>p. feed suback_loop (mqtt_suback_of h) cs = (p, Rest r) \<and> sa_finished p \<and> sa_pkt_id p = i \<and>
     sa_qoses p = map (\<lambda>c. if c = 1 then MQTT_QOS1 else if c = 2 then MQTT_QOS2 else MQTT_QOS0) w"
proof -
  have "qos_of_char = (\<lambda>c. if c = 1 then MQTT_QOS1 else if c = 2 then MQTT_QOS2 else MQTT_QOS0)"
  proof
    fix c :: byte
    have "c = d \<longleftrightarrow> sint c = sint d" for d by (rule word_eq_iff_signed)
    from this [of 1] this [of 2] have "sint c = 1 \<longleftrightarrow> c = 1" "sint c = 2 \<longleftrightarrow> c = 2" by simp_all
    then show "qos_of_char c = (if c = 1 then MQTT_QOS1 else if c = 2 then MQTT_QOS2 else MQTT_QOS0)"
      by (auto simp: qos_of_char_def Let_def)
  qed
  with suback_loop_body [OF assms(1-3), of i r] assms(4) show ?thesis
    by (simp add: suback.feed_concat suback_inv_of)
qed

theorem suback_failure_lost_witness:
  "\<exists>p. feed suback_loop (mqtt_suback_of (hdr_set_remaing_length 4 (mqtt_header_new MQTT_SUBACK)))
      [[0x00, 0x07], [0x80, 0x01]] = (p, Rest []) \<and> sa_finished p \<and> sa_qoses p = [MQTT_QOS0, MQTT_QOS1]"
proof -
  have b: "short_bytes 7 = [0x00, 0x07]" by (simp add: short_bytes_def mosq_msb_def mosq_lsb_def)
  from suback_failure_lost [of "[0x80, 0x01]" "hdr_set_remaing_length 4 (mqtt_header_new MQTT_SUBACK)"
      "[[0x00, 0x07], [0x80, 0x01]]" 7 "[]"]
  show ?thesis unfolding b by (simp add: hdr_set_remaing_length_def) blast
qed

end
