(* ===== verification/Mqtt_Unsubscribe.thy ===== *)
theory Mqtt_Unsubscribe
  imports Mqtt_Message
begin

text \<open>
  An unsubscribe request (cpp/include/nio/mqtt/mqtt_unsubscribe.hpp,
  cpp/src/mqtt/mqtt_unsubscribe.cpp): a packet id and a list of topics.  The parser collects a
  topic in the member \<open>topic_\<close>, which, unlike in mqtt_subscribe.cpp, is never cleared.
\<close>

subsection \<open>State, setters and serializer\<close>

datatype unsubscribe_status = UNS_HDR_VAR | UNS_TOPIC_LEN | UNS_TOPIC_VAL

record mqtt_unsubscribe = mqtt_message +
  us_pkt_id :: u16
  us_buff :: bytes         \<comment> \<open>\<open>char buff_[2]\<close>\<close>
  us_dlen :: nat           \<comment> \<open>\<open>unsigned dlen_\<close>, at most 65535\<close>
  us_status :: unsubscribe_status
  us_topics :: "bytes list"
  us_body_len :: u32
  us_nread :: u32
  us_topic :: bytes
  us_finished :: bool

definition mqtt_unsubscribe_new :: mqtt_unsubscribe where
  "mqtt_unsubscribe_new =
     \<lparr>mheader = mheader (mqtt_message_new MQTT_UNSUBSCRIBE), us_pkt_id = 0, us_buff = replicate 2 0,
      us_dlen = 0, us_status = UNS_HDR_VAR, us_topics = [], us_body_len = 0,
      us_nread = 0, us_topic = [], us_finished = False\<rparr>"

definition mqtt_unsubscribe_of :: "mqtt_header \<Rightarrow> mqtt_unsubscribe" where
  "mqtt_unsubscribe_of header =
     \<lparr>mheader = mheader (mqtt_message_of header), us_pkt_id = 0, us_buff = replicate 2 0,
      us_dlen = 0, us_status = UNS_HDR_VAR, us_topics = [],
      us_body_len = hdlen header, us_nread = 0, us_topic = [], us_finished = False\<rparr>"

definition unsubscribe_set_pkt_id :: "u16 \<Rightarrow> mqtt_unsubscribe \<Rightarrow> mqtt_unsubscribe" where
  "unsubscribe_set_pkt_id i s = (if i > 0 then s\<lparr>us_pkt_id := i\<rparr> else s)"

definition unsubscribe_add_topic :: "bytes \<Rightarrow> mqtt_unsubscribe \<Rightarrow> mqtt_unsubscribe" where
  "unsubscribe_add_topic topic s =
     s\<lparr>us_topics := us_topics s @ [c_str topic],
       us_body_len := us_body_len s + (2 + of_nat (strlen topic))\<rparr>"

text \<open>\<open>for (size_t i = 0; i < n; i++)\<close> over the topics.\<close>

definition unsubscribe_pack :: "mqtt_unsubscribe \<Rightarrow> bytes \<Rightarrow> bytes" where
  "unsubscribe_pack s out =
     foldl (\<lambda>o1 i. pack_add_string (us_topics s ! i) o1) out [0..<length (us_topics s)]"

definition unsubscribe_to_string :: "mqtt_unsubscribe \<Rightarrow> bytes \<Rightarrow> mqtt_unsubscribe \<times> bytes \<times> bool" where
  "unsubscribe_to_string s out =
     (if us_topics s = [] then (s, out, False)
      else
        let s1 = s\<lparr>us_body_len := us_body_len s + 2\<rparr>;
            h = hdr_set_remaing_length (us_body_len s1) (hdr_set_header_flags 0x02 (mheader s1))
        in case build_header h out of (h', out1, ok) \<Rightarrow>
             let s2 = s1\<lparr>mheader := h'\<rparr>
             in if \<not> ok then (s2, out1, False)
                else (s2, unsubscribe_pack s2 (pack_add_short (us_pkt_id s2) out1), True))"

subsection \<open>The handlers of the streaming parser\<close>

definition unsubscribe_update_header_var :: "mqtt_unsubscribe \<Rightarrow> bytes \<Rightarrow> mqtt_unsubscribe \<times> parse_result" where
  "unsubscribe_update_header_var s data =
     (if data = [] then (s, AssertFail)
      else if us_nread s \<ge> 2 then (s, Fail)
      else case fill_buff 2 (us_buff s) (unat (us_nread s)) data of (buf, i, rest) \<Rightarrow>
        let s1 = s\<lparr>us_buff := buf, us_nread := of_nat i\<rparr>
        in if i < 2 then (s1, if rest \<noteq> [] then AssertFail else Rest rest)
           else case unpack_short buf 2 of
                  None \<Rightarrow> (s1, Fail)
                | Some n \<Rightarrow>
                    let s2 = s1\<lparr>us_pkt_id := n\<rparr>
                    in if us_nread s2 \<ge> us_body_len s2 then (s2, Fail)
                       else (s2\<lparr>us_dlen := 0, us_status := UNS_TOPIC_LEN\<rparr>, Rest rest))"

definition unsubscribe_update_topic_len :: "mqtt_unsubscribe \<Rightarrow> bytes \<Rightarrow> mqtt_unsubscribe \<times> parse_result" where
  "unsubscribe_update_topic_len s data =
     (if data = [] then (s, AssertFail)
      else case fill_buff 2 (us_buff s) (us_dlen s) data of (buf, i, rest) \<Rightarrow>
        let s1 = s\<lparr>us_buff := buf, us_dlen := i,
                   us_nread := us_nread s + of_nat (length data - length rest)\<rparr>
        in if i < 2 then (s1, if rest \<noteq> [] then AssertFail else Rest rest)
           else case unpack_short buf 2 of
                  None \<Rightarrow> (s1, Fail)
                | Some n \<Rightarrow>
                    if n = 0 then (s1, Fail)
                    else if us_nread s1 \<ge> us_body_len s1 then (s1, Fail)
                    else (s1\<lparr>us_dlen := unat n, us_status := UNS_TOPIC_VAL\<rparr>, Rest rest))"

definition unsubscribe_update_topic_val :: "mqtt_unsubscribe \<Rightarrow> bytes \<Rightarrow> mqtt_unsubscribe \<times> parse_result" where
  "unsubscribe_update_topic_val s data =
     (if data = [] \<or> \<not> us_dlen s > 0 then (s, AssertFail)
      else case take_str (us_dlen s) (us_topic s) data of (topic, k, rest) \<Rightarrow>
        let s1 = s\<lparr>us_topic := topic, us_dlen := k\<rparr>
        in if k > 0 then (s1, if rest \<noteq> [] then AssertFail else Rest rest)
           else
             let s2 = s1\<lparr>us_nread := us_nread s1 + of_nat (length topic),
                         us_topics := us_topics s1 @ [topic]\<rparr>
             in if us_nread s2 \<ge> us_body_len s2 then (s2\<lparr>us_finished := True\<rparr>, Rest rest)
                else (s2\<lparr>us_dlen := 0, us_status := UNS_TOPIC_LEN\<rparr>, Rest rest))"

definition unsubscribe_handle :: "mqtt_unsubscribe \<Rightarrow> bytes \<Rightarrow> mqtt_unsubscribe \<times> parse_result" where
  "unsubscribe_handle s data =
     (case us_status s of
        UNS_HDR_VAR \<Rightarrow> unsubscribe_update_header_var s data
      | UNS_TOPIC_LEN \<Rightarrow> unsubscribe_update_topic_len s data
      | UNS_TOPIC_VAL \<Rightarrow> unsubscribe_update_topic_val s data)"

lemmas unsubscribe_handler_defs =
  unsubscribe_handle_def unsubscribe_update_header_var_def unsubscribe_update_topic_len_def
  unsubscribe_update_topic_val_def

subsection \<open>The handlers as phases\<close>

definition unsubscribe_hdr_done :: "mqtt_unsubscribe \<Rightarrow> bytes \<Rightarrow> nat \<Rightarrow> mqtt_unsubscribe \<times> bool" where
  "unsubscribe_hdr_done s buf i =
     (let s2 = s\<lparr>us_buff := buf, us_nread := of_nat i, us_pkt_id := the (unpack_short buf 2)\<rparr>
      in if of_nat i \<ge> us_body_len s then (s2, False)
         else (s2\<lparr>us_dlen := 0, us_status := UNS_TOPIC_LEN\<rparr>, True))"

lemma unsubscribe_phase_hdr:
  "d \<noteq> [] \<Longrightarrow> us_status s = UNS_HDR_VAR \<Longrightarrow> us_nread s < 2 \<Longrightarrow>
     unsubscribe_handle s d =
       fill_phase 2 (\<lambda>buf i. s\<lparr>us_buff := buf, us_nread := of_nat i\<rparr>) (unsubscribe_hdr_done s)
         (us_buff s) (unat (us_nread s)) d"
  by (auto simp: unsubscribe_handler_defs fill_phase_def unsubscribe_hdr_done_def unpack_short_def Let_def
      split: prod.splits)

text \<open>The counter advances with the fill of the buffer.\<close>

definition unsubscribe_len_fill :: "mqtt_unsubscribe \<Rightarrow> bytes \<Rightarrow> nat \<Rightarrow> mqtt_unsubscribe" where
  "unsubscribe_len_fill s buf i =
     s\<lparr>us_buff := buf, us_dlen := i, us_nread := us_nread s - of_nat (us_dlen s) + of_nat i\<rparr>"

definition unsubscribe_len_done :: "mqtt_unsubscribe \<Rightarrow> bytes \<Rightarrow> nat \<Rightarrow> mqtt_unsubscribe \<times> bool" where
  "unsubscribe_len_done s buf i =
     (let s1 = unsubscribe_len_fill s buf i; n = the (unpack_short buf 2)
      in if n = 0 \<or> us_nread s1 \<ge> us_body_len s1 then (s1, False)
         else (s1\<lparr>us_dlen := unat n, us_status := UNS_TOPIC_VAL\<rparr>, True))"

lemma unsubscribe_phase_len:
  assumes "d \<noteq> []" "us_status s = UNS_TOPIC_LEN"
  shows "unsubscribe_handle s d =
     fill_phase 2 (unsubscribe_len_fill s) (unsubscribe_len_done s) (us_buff s) (us_dlen s) d"
proof -
  obtain buf i r where f: "fill_buff 2 (us_buff s) (us_dlen s) d = (buf, i, r)" by (metis prod_cases3)
  from fill_buff_count [OF f] have i: "i = us_dlen s + (length d - length r)" by simp
  then have "s\<lparr>us_buff := buf, us_dlen := i, us_nread := us_nread s + of_nat (length d - length r)\<rparr> =
      unsubscribe_len_fill s buf i" by (simp add: unsubscribe_len_fill_def)
  with assms f show ?thesis
    by (auto simp: unsubscribe_handler_defs fill_phase_def unsubscribe_len_done_def unpack_short_def Let_def)
qed

definition unsubscribe_topic_done :: "mqtt_unsubscribe \<Rightarrow> bytes \<Rightarrow> mqtt_unsubscribe \<times> bool" where
  "unsubscribe_topic_done s topic =
     (let s2 = s\<lparr>us_topic := topic, us_dlen := 0, us_nread := us_nread s + of_nat (length topic),
                 us_topics := us_topics s @ [topic]\<rparr>
      in (if us_nread s2 \<ge> us_body_len s then s2\<lparr>us_finished := True\<rparr>
          else s2\<lparr>us_status := UNS_TOPIC_LEN\<rparr>, True))"

lemma unsubscribe_phase_val:
  "d \<noteq> [] \<Longrightarrow> us_status s = UNS_TOPIC_VAL \<Longrightarrow> 0 < us_dlen s \<Longrightarrow>
     unsubscribe_handle s d =
       take_phase (\<lambda>topic k. s\<lparr>us_topic := topic, us_dlen := k\<rparr>) (unsubscribe_topic_done s)
         (us_topic s) (us_dlen s) d"
  by (auto simp: unsubscribe_handler_defs take_phase_def unsubscribe_topic_done_def Let_def
      split: prod.splits)

lemma unsubscribe_stuck:
  "us_status s = UNS_HDR_VAR \<Longrightarrow> 2 \<le> us_nread s \<Longrightarrow> d \<noteq> [] \<Longrightarrow> unsubscribe_handle s d = (s, Fail)"
  by (simp add: unsubscribe_handler_defs)

lemma unsubscribe_val_stop:
  "us_status s = UNS_TOPIC_VAL \<Longrightarrow> us_dlen s = 0 \<Longrightarrow> unsubscribe_handle s d = (s, AssertFail)"
  by (simp add: unsubscribe_handler_defs)

lemma unsubscribe_done_same [simp]:
  "unsubscribe_hdr_done (s\<lparr>us_buff := b, us_nread := n\<rparr>) = unsubscribe_hdr_done s"
  "unsubscribe_len_fill (unsubscribe_len_fill s b i) = unsubscribe_len_fill s"
  "unsubscribe_len_done (unsubscribe_len_fill s b i) = unsubscribe_len_done s"
  "unsubscribe_topic_done (s\<lparr>us_topic := t, us_dlen := k\<rparr>) = unsubscribe_topic_done s"
  by (simp_all add: fun_eq_iff unsubscribe_hdr_done_def unsubscribe_len_done_def unsubscribe_len_fill_def
      unsubscribe_topic_done_def Let_def)

lemma unsubscribe_len_fill_simps [simp]:
  "us_status (unsubscribe_len_fill s b i) = us_status s"
  "us_buff (unsubscribe_len_fill s b i) = b"
  "us_dlen (unsubscribe_len_fill s b i) = i"
  "us_finished (unsubscribe_len_fill s b i) = us_finished s"
  by (simp_all add: unsubscribe_len_fill_def)

lemmas unsubscribe_phases = unsubscribe_phase_hdr unsubscribe_phase_len unsubscribe_phase_val
lemmas unsubscribe_done_defs = unsubscribe_hdr_done_def unsubscribe_len_done_def unsubscribe_topic_done_def

subsection \<open>The streaming contract\<close>

definition unsubscribe_inv :: "mqtt_unsubscribe \<Rightarrow> bool" where
  "unsubscribe_inv s \<longleftrightarrow> length (us_buff s) = 2 \<and>
     (us_status s = UNS_TOPIC_VAL \<longrightarrow> us_finished s \<or> 0 < us_dlen s)"

definition unsubscribe_rank :: "mqtt_unsubscribe \<Rightarrow> nat" where
  "unsubscribe_rank s = (if us_status s = UNS_TOPIC_LEN then 1 else 0)"

lemma unsubscribe_handle_progress:
  assumes "unsubscribe_handle s d = (s', Rest r)" "d \<noteq> []" "\<not> us_finished s"
  shows "length r < length d \<or> r = d \<and> unsubscribe_rank s' < unsubscribe_rank s \<and> \<not> us_finished s'"
proof (cases "us_status s")
  case UNS_HDR_VAR
  with assms show ?thesis
    by (cases "us_nread s < 2")
       (auto simp: unsubscribe_phase_hdr unsubscribe_stuck not_less unat_less_2 dest: fill_phase_length)
next
  case UNS_TOPIC_LEN
  show ?thesis
  proof (cases "us_dlen s < 2")
    case True
    with assms UNS_TOPIC_LEN show ?thesis
      by (auto simp: unsubscribe_phase_len dest: fill_phase_length)
  next
    case False
    with assms UNS_TOPIC_LEN show ?thesis
      by (auto simp: unsubscribe_phase_len fill_phase_def unsubscribe_len_done_def unsubscribe_rank_def Let_def
          split: if_splits)
  qed
next
  case UNS_TOPIC_VAL
  with assms show ?thesis
    by (cases "0 < us_dlen s")
       (auto simp: unsubscribe_phase_val unsubscribe_val_stop dest: take_phase_length)
qed

lemma unsubscribe_handle_consumes:
  "unsubscribe_inv s \<Longrightarrow> unsubscribe_handle s d = (s', Rest r) \<Longrightarrow> d \<noteq> [] \<Longrightarrow> \<not> us_finished s \<Longrightarrow> us_finished s' \<Longrightarrow>
     length r < length d"
  by (blast dest: unsubscribe_handle_progress)

lemma unsubscribe_handle_moves:
  "unsubscribe_handle s d = (s', Rest r) \<Longrightarrow> d \<noteq> [] \<Longrightarrow> \<not> us_finished s \<Longrightarrow>
     length r < length d \<or> r = d \<and> unsubscribe_rank s' < unsubscribe_rank s"
  by (blast dest: unsubscribe_handle_progress)

function unsubscribe_loop :: "mqtt_unsubscribe \<Rightarrow> bytes \<Rightarrow> mqtt_unsubscribe \<times> parse_result" where
  "unsubscribe_loop s data =
     (if data = [] \<or> us_finished s then (s, Rest data)
      else case unsubscribe_handle s data of
             (s', Rest r) \<Rightarrow> unsubscribe_loop s' r
           | (s', e) \<Rightarrow> (s', e))"
  by pat_completeness auto
termination
  by (relation "measures [\<lambda>(s, d). length d, \<lambda>(s, d). unsubscribe_rank s]")
     (auto dest: unsubscribe_handle_progress [OF sym])

declare unsubscribe_loop.simps [simp del]

definition unsubscribe_update :: "mqtt_unsubscribe \<Rightarrow> bytes \<Rightarrow> mqtt_unsubscribe \<times> parse_result" where
  "unsubscribe_update s data = (if data = [] then (s, Fail) else unsubscribe_loop s data)"

lemma unsubscribe_handle_inv:
  assumes "unsubscribe_inv s" "d \<noteq> []" "\<not> us_finished s"
  shows "unsubscribe_inv (fst (unsubscribe_handle s d))"
proof (cases "us_status s")
  case UNS_HDR_VAR
  show ?thesis
  proof (cases "us_nread s < 2")
    case True
    show ?thesis
      unfolding unsubscribe_phase_hdr [OF assms(2) UNS_HDR_VAR True]
      by (rule fill_phase_keeps)
         (use assms(1) UNS_HDR_VAR in \<open>auto simp: unsubscribe_inv_def unsubscribe_hdr_done_def Let_def\<close>)
  qed (use assms UNS_HDR_VAR in \<open>simp add: unsubscribe_stuck\<close>)
next
  case UNS_TOPIC_LEN
  show ?thesis
    unfolding unsubscribe_phase_len [OF assms(2) UNS_TOPIC_LEN]
    by (rule fill_phase_keeps)
       (use assms(1) UNS_TOPIC_LEN in \<open>auto simp: unsubscribe_inv_def unsubscribe_len_done_def Let_def
          word_less_nat_alt unat_gt_0\<close>)
next
  case UNS_TOPIC_VAL
  with assms(1,3) have k: "0 < us_dlen s" by (simp add: unsubscribe_inv_def)
  show ?thesis
    unfolding unsubscribe_phase_val [OF assms(2) UNS_TOPIC_VAL k]
    by (rule take_phase_keeps)
       (use assms(1) UNS_TOPIC_VAL in \<open>auto simp: unsubscribe_inv_def unsubscribe_topic_done_def Let_def\<close>)
qed

lemma unsubscribe_handle_safe:
  assumes "unsubscribe_inv s" "d \<noteq> []" "\<not> us_finished s"
  shows "snd (unsubscribe_handle s d) \<noteq> AssertFail"
proof (cases "us_status s")
  case UNS_HDR_VAR
  with assms show ?thesis
    by (cases "us_nread s < 2") (simp_all add: unsubscribe_phase_hdr unsubscribe_stuck not_less fill_phase_safe)
qed (use assms in \<open>simp_all add: unsubscribe_phases unsubscribe_inv_def fill_phase_safe take_phase_safe\<close>)

lemma unsubscribe_handle_suffix: "unsubscribe_handle s d = (s', Rest r) \<Longrightarrow> suffix r d"
  by (auto simp: unsubscribe_handler_defs Let_def take_str_eq suffix_drop suffix_ConsI
      split: unsubscribe_status.splits if_splits prod.splits option.splits list.splits dest: fill_buff_suffix)

lemma unsubscribe_chunk:
  assumes "unsubscribe_inv s" "\<not> us_finished s" "a \<noteq> []" "b \<noteq> []"
  shows "chunk_ok unsubscribe_handle us_finished s a b"
proof (cases "us_status s")
  case UNS_HDR_VAR
  show ?thesis
  proof (cases "us_nread s < 2")
    case True
    show ?thesis
      by (rule chunk_fill [OF unsubscribe_phase_hdr])
         (use True UNS_HDR_VAR assms in \<open>auto simp: unsubscribe_phase_hdr unat_less_2\<close>)
  qed (use UNS_HDR_VAR assms in \<open>auto intro: chunk_fail [OF unsubscribe_stuck(1)]\<close>)
next
  case UNS_TOPIC_LEN
  show ?thesis
    by (rule chunk_fill [OF unsubscribe_phase_len])
       (use UNS_TOPIC_LEN assms in \<open>auto simp: unsubscribe_phase_len\<close>)
next
  case UNS_TOPIC_VAL
  with assms have "0 < us_dlen s" by (simp add: unsubscribe_inv_def)
  then show ?thesis
    by (intro chunk_take [OF unsubscribe_phase_val])
       (use UNS_TOPIC_VAL assms in \<open>auto simp: unsubscribe_phase_val\<close>)
qed

interpretation unsubscribe: stream_parser unsubscribe_handle us_finished unsubscribe_loop
  unsubscribe_rank unsubscribe_inv
proof
  show "unsubscribe_loop s d =
      (if d = [] \<or> us_finished s then (s, Rest d)
       else case unsubscribe_handle s d of (s', Rest r) \<Rightarrow> unsubscribe_loop s' r | (s', e) \<Rightarrow> (s', e))" for s d
    by (rule unsubscribe_loop.simps)
qed (rule unsubscribe_handle_inv unsubscribe_handle_safe unsubscribe_handle_suffix
      unsubscribe_handle_moves unsubscribe_handle_consumes unsubscribe_chunk; assumption)+

subsection \<open>Wire form\<close>

definition unsubscribe_body :: "u16 \<Rightarrow> bytes list \<Rightarrow> bytes" where
  "unsubscribe_body i ts = short_bytes i @ concat (map str_bytes ts)"

definition unsub_topics_ok :: "bytes list \<Rightarrow> bool" where
  "unsub_topics_ok ts \<longleftrightarrow> ts \<noteq> [] \<and> list_all (\<lambda>t. t \<noteq> [] \<and> 0 \<notin> set t \<and> length t < 65536) ts \<and>
     length (unsubscribe_body 0 ts) < 268435456"

lemma length_unsubscribe_body: "length (unsubscribe_body i ts) = length (unsubscribe_body j ts)"
  by (simp add: unsubscribe_body_def)

definition unsubscribe_build :: "u16 \<Rightarrow> bytes list \<Rightarrow> mqtt_unsubscribe" where
  "unsubscribe_build i ts = fold unsubscribe_add_topic ts (unsubscribe_set_pkt_id i mqtt_unsubscribe_new)"

lemma fold_unsub_topic:
  "list_all (\<lambda>t. 0 \<notin> set t) ts \<Longrightarrow>
   fold unsubscribe_add_topic ts s =
     s\<lparr>us_topics := us_topics s @ ts,
       us_body_len := us_body_len s + of_nat (length (concat (map str_bytes ts)))\<rparr>"
proof (induction ts arbitrary: s)
  case (Cons t ts)
  then show ?case by (simp add: unsubscribe_add_topic_def c_str_id strlen_def)
qed simp

lemma unsubscribe_pack_eq:
  assumes "us_topics s = ts" "list_all (\<lambda>t. length t < 65536) ts"
  shows "unsubscribe_pack s out = out @ concat (map str_bytes ts)"
proof -
  have "foldl (\<lambda>o1 i. pack_add_string (us_topics s ! i) o1) out [0..<n] =
      out @ concat (map str_bytes (take n ts))" if "n \<le> length ts" for n
    using that
  proof (induction n)
    case (Suc n)
    then show ?case
      using assms by (simp add: take_Suc_conv_app_nth pack_add_string_eq list_all_length)
  qed simp
  from this [of "length ts"] assms(1) show ?thesis by (simp add: unsubscribe_pack_def)
qed

lemma unsubscribe_to_string_eq:
  assumes "unsub_topics_ok ts" "us_topics s = ts"
    "us_body_len s = of_nat (length (concat (map str_bytes ts)))"
  shows "\<exists>s'. unsubscribe_to_string s out =
     (s', out @ wire (htype (mheader s)) 0x2 (unsubscribe_body (us_pkt_id s) ts), True)"
proof -
  let ?n = "length (unsubscribe_body (us_pkt_id s) ts)"
  have n: "?n < 268435456"
    using assms(1) length_unsubscribe_body [of "us_pkt_id s" ts 0] by (simp add: unsub_topics_ok_def)
  have b: "us_body_len s + 2 = of_nat ?n" by (simp add: assms(3) unsubscribe_body_def)
  have "list_all (\<lambda>t. length t < 65536) ts" "us_topics s \<noteq> []"
    using assms(1,2) by (auto simp: unsub_topics_ok_def list_all_iff)
  then show ?thesis
    using n assms(2)
    by (simp add: unsubscribe_to_string_def b build_header_eq hdr_set_defs pack_add_short_eq
        unsubscribe_pack_eq [where ts = ts] wire_def Let_def del: of_nat_add)
       (simp add: unsubscribe_body_def)
qed

lemma unsubscribe_build_eq:
  assumes "unsub_topics_ok ts"
  shows "us_topics (unsubscribe_build i ts) = ts"
    "us_body_len (unsubscribe_build i ts) = of_nat (length (concat (map str_bytes ts)))"
    "us_pkt_id (unsubscribe_build i ts) = i"
    "mheader (unsubscribe_build i ts) = mqtt_header_new MQTT_UNSUBSCRIBE"
proof -
  have "list_all (\<lambda>t. 0 \<notin> set t) ts" using assms by (auto simp: unsub_topics_ok_def list_all_iff)
  note e = fold_unsub_topic [OF this]
  have "(0 :: u16) < i \<or> i = 0" by (cases "i = 0") (simp_all add: word_gt_0)
  then show "us_topics (unsubscribe_build i ts) = ts"
    "us_body_len (unsubscribe_build i ts) = of_nat (length (concat (map str_bytes ts)))"
    "us_pkt_id (unsubscribe_build i ts) = i"
    "mheader (unsubscribe_build i ts) = mqtt_header_new MQTT_UNSUBSCRIBE"
    by (auto simp: unsubscribe_build_def e unsubscribe_set_pkt_id_def mqtt_unsubscribe_new_def mqtt_message_new_def)
qed

text \<open>
  The parser on one topic: what it stores and counts is the topic appended to \<open>us_topic s\<close>, the
  topics read before it.
\<close>

lemma unsubscribe_loop_topic:
  assumes "us_status s = UNS_TOPIC_LEN" "\<not> us_finished s" "us_dlen s = 0" "length (us_buff s) = 2"
    "us_nread s = of_nat N" "us_body_len s = of_nat B" "N + 2 < B" "B < 268435456"
    "a = us_topic s @ t" "M = N + 2 + length a" "M < 4294967296" "t \<noteq> []" "length t < 65536"
    "as = us_topics s @ [a]"
  shows "unsubscribe_loop s (str_bytes t @ d) =
     (let s1 = s\<lparr>us_buff := short_bytes (of_nat (length t)), us_dlen := 0,
                 us_nread := of_nat M, us_topic := a, us_topics := as\<rparr>
      in if B \<le> M then (s1\<lparr>us_status := UNS_TOPIC_VAL, us_finished := True\<rparr>, Rest d)
         else unsubscribe_loop s1 d)"
proof -
  let ?n = "of_nat (length t) :: u16"
  define s1 where "s1 = s\<lparr>us_buff := short_bytes ?n, us_dlen := length t, us_nread := of_nat (N + 2),
     us_status := UNS_TOPIC_VAL\<rparr>"
  define s2 where "s2 = s1\<lparr>us_topic := a, us_dlen := 0, us_nread := of_nat M, us_topics := as\<rparr>"
  have un: "unat ?n = length t" using assms(13) by simp
  then have n0: "?n \<noteq> 0" using assms(12) by force
  have le: "(of_nat B :: u32) \<le> of_nat k \<longleftrightarrow> B \<le> k" if "k < 4294967296" for k
    using assms(8) that by (simp add: word_le_nat_alt)
  have "\<not> (of_nat B :: u32) \<le> of_nat (N + 2)"
    by (subst le) (use assms(7,8) in auto)
  then have "unsubscribe_len_done s (short_bytes ?n) 2 = (s1, True)"
    using assms(3,5,6) n0 un
    by (simp add: unsubscribe_len_done_def unsubscribe_len_fill_def s1_def Let_def add.commute)
  then have h1: "unsubscribe_handle s (str_bytes t @ d) = (s1, Rest (t @ d))"
    using assms(1,3,4) by (simp add: unsubscribe_phase_len fill_phase_all str_bytes_def)
  have s2: "s1\<lparr>us_topic := a, us_dlen := 0, us_nread := us_nread s1 + of_nat (length a),
      us_topics := us_topics s1 @ [a]\<rparr> = s2"
    using assms(10,14) by (simp add: s2_def s1_def)
  have b2: "us_status s1 = UNS_TOPIC_VAL" "us_body_len s1 = of_nat B" "us_dlen s1 = length t"
      "us_topic s1 = us_topic s" "t @ d \<noteq> []"
    using assms(6,12) by (simp_all add: s1_def)
  have cmp: "(of_nat B :: u32) \<le> us_nread s2 \<longleftrightarrow> B \<le> M"
    using le [OF assms(11)] by (simp add: s2_def)
  have "unsubscribe_topic_done s1 a =
      (if B \<le> M then s2\<lparr>us_finished := True\<rparr> else s2\<lparr>us_status := UNS_TOPIC_LEN\<rparr>, True)"
    unfolding unsubscribe_topic_done_def Let_def s2 b2(2) cmp ..
  then have h2: "unsubscribe_handle s1 (t @ d) =
      (if B \<le> M then s2\<lparr>us_finished := True\<rparr> else s2\<lparr>us_status := UNS_TOPIC_LEN\<rparr>, Rest d)"
    using b2 assms(9,12) by (simp add: unsubscribe_phase_val take_phase_all)
  have "\<not> us_finished s1" "str_bytes t @ d \<noteq> []" using assms(2) by (simp_all add: s1_def str_bytes_def)
  with h1 h2 b2(5) assms(2) have "unsubscribe_loop s (str_bytes t @ d) =
      (if B \<le> M then (s2\<lparr>us_finished := True\<rparr>, Rest d)
       else unsubscribe_loop (s2\<lparr>us_status := UNS_TOPIC_LEN\<rparr>) d)"
    by (simp add: unsubscribe.loop_step [of _ s] unsubscribe.loop_step [of _ s1])
  moreover have "s2\<lparr>us_finished := True\<rparr> = s\<lparr>us_buff := short_bytes ?n, us_dlen := 0,
      us_nread := of_nat M, us_topic := a, us_topics := as, us_status := UNS_TOPIC_VAL, us_finished := True\<rparr>"
    by (simp add: s2_def s1_def)
  moreover have "s2\<lparr>us_status := UNS_TOPIC_LEN\<rparr> = s\<lparr>us_buff := short_bytes ?n, us_dlen := 0,
      us_nread := of_nat M, us_topic := a, us_topics := as\<rparr>"
    using assms(1) by (simp add: s2_def s1_def)
  ultimately show ?thesis by (simp only: Let_def)
qed

text \<open>The state after the packet id.\<close>

definition unsubscribe_started :: "mqtt_header \<Rightarrow> u16 \<Rightarrow> mqtt_unsubscribe" where
  "unsubscribe_started h i =
     (mqtt_unsubscribe_of h)\<lparr>us_buff := short_bytes i, us_nread := of_nat 2, us_pkt_id := i,
        us_dlen := 0, us_status := UNS_TOPIC_LEN\<rparr>"

lemma unsubscribe_started_simps [simp]:
  "us_status (unsubscribe_started h i) = UNS_TOPIC_LEN" "\<not> us_finished (unsubscribe_started h i)"
  "us_dlen (unsubscribe_started h i) = 0" "length (us_buff (unsubscribe_started h i)) = 2"
  "us_nread (unsubscribe_started h i) = of_nat 2" "us_body_len (unsubscribe_started h i) = hdlen h"
  "us_topic (unsubscribe_started h i) = []" "us_topics (unsubscribe_started h i) = []"
  "us_pkt_id (unsubscribe_started h i) = i"
  by (simp_all add: unsubscribe_started_def mqtt_unsubscribe_of_def)

lemma unsubscribe_loop_start:
  assumes "2 < unat (hdlen h)"
  shows "unsubscribe_loop (mqtt_unsubscribe_of h) (short_bytes i @ d) =
     unsubscribe_loop (unsubscribe_started h i) d"
proof -
  from assms have "\<not> hdlen h \<le> 2" by (simp add: word_le_nat_alt)
  then have "unsubscribe_handle (mqtt_unsubscribe_of h) (short_bytes i @ d) = (unsubscribe_started h i, Rest d)"
    by (simp add: unsubscribe_phase_hdr mqtt_unsubscribe_of_def fill_phase_all
        unsubscribe_hdr_done_def unsubscribe_started_def Let_def)
  then show ?thesis
    using unsubscribe.loop_step [of "short_bytes i @ d" "mqtt_unsubscribe_of h"]
    by (simp add: mqtt_unsubscribe_of_def)
qed

text \<open>One topic, and two of them.\<close>

lemma unsubscribe_loop_one:
  assumes "unsub_topics_ok [t]" "hdlen h = of_nat (length (unsubscribe_body i [t]))"
  shows "\<exists>p. unsubscribe_loop (mqtt_unsubscribe_of h) (unsubscribe_body i [t] @ r) = (p, Rest r) \<and>
     us_finished p \<and> us_pkt_id p = i \<and> us_topics p = [t]"
proof -
  have ok: "t \<noteq> []" "length t < 65536" using assms(1) by (simp_all add: unsub_topics_ok_def)
  have h: "hdlen h = of_nat (length t + 4)" by (simp add: assms(2) unsubscribe_body_def)
  have un: "unat (of_nat (length t + 4) :: u32) = length t + 4"
    by (rule unat_of_nat_u32) (use ok in simp)
  have "unsubscribe_loop (mqtt_unsubscribe_of h) (unsubscribe_body i [t] @ r) =
      unsubscribe_loop (unsubscribe_started h i) (str_bytes t @ r)"
    using unsubscribe_loop_start [of h i "str_bytes t @ r"] h un by (simp add: unsubscribe_body_def)
  with unsubscribe_loop_topic [of "unsubscribe_started h i" 2 "length t + 4" t t "length t + 4" "[t]" r] h ok
  show ?thesis
    by (simp add: Let_def del: of_nat_add)
qed

lemma unsubscribe_loop_two:
  assumes "t1 \<noteq> []" "length t1 < 65536" "t2 \<noteq> []" "length t2 < 65536"
    "hdlen h = of_nat B" "B < 268435456" "length t1 + 4 + 2 < B"
  shows "\<exists>p. unsubscribe_loop (mqtt_unsubscribe_of h) (short_bytes i @ str_bytes t1 @ str_bytes t2 @ d) =
       (if B \<le> 6 + 2 * length t1 + length t2
        then (p\<lparr>us_status := UNS_TOPIC_VAL, us_finished := True\<rparr>, Rest d)
        else unsubscribe_loop p d) \<and>
     us_topics p = [t1, t1 @ t2] \<and> us_pkt_id p = i"
proof -
  have un: "unat (of_nat B :: u32) = B" using assms(6) by simp
  let ?s1 = "(unsubscribe_started h i)\<lparr>us_buff := short_bytes (of_nat (length t1)), us_dlen := 0,
      us_nread := of_nat (4 + length t1), us_topic := t1, us_topics := [t1]\<rparr>"
  let ?s2 = "?s1\<lparr>us_buff := short_bytes (of_nat (length t2)), us_dlen := 0,
      us_nread := of_nat (6 + 2 * length t1 + length t2), us_topic := t1 @ t2, us_topics := [t1, t1 @ t2]\<rparr>"
  have "unsubscribe_loop (mqtt_unsubscribe_of h) (short_bytes i @ str_bytes t1 @ str_bytes t2 @ d) =
      unsubscribe_loop (unsubscribe_started h i) (str_bytes t1 @ str_bytes t2 @ d)"
    using unsubscribe_loop_start [of h i "str_bytes t1 @ str_bytes t2 @ d"] assms(5,7) un by simp
  also have "\<dots> = unsubscribe_loop ?s1 (str_bytes t2 @ d)"
    using unsubscribe_loop_topic [of "unsubscribe_started h i" 2 B t1 t1 "4 + length t1" "[t1]" "str_bytes t2 @ d"] assms
    by (simp add: Let_def del: of_nat_add)
  also have "\<dots> = (if B \<le> 6 + 2 * length t1 + length t2
        then (?s2\<lparr>us_status := UNS_TOPIC_VAL, us_finished := True\<rparr>, Rest d)
        else unsubscribe_loop ?s2 d)"
  proof -
    have "us_body_len ?s1 = of_nat B" using assms(5) by simp
    moreover have "4 + length t1 + 2 < B" using assms(7) by simp
    moreover have "6 + 2 * length t1 + length t2 < 4294967296" using assms(2,4) by simp
    ultimately show ?thesis
      using unsubscribe_loop_topic [of ?s1 "4 + length t1" B "t1 @ t2" t2 "6 + 2 * length t1 + length t2"
          "[t1, t1 @ t2]" d] assms(3,4,6)
      by (simp add: Let_def del: of_nat_add)
  qed
  finally show ?thesis by (intro exI [of _ ?s2]) simp
qed

subsection \<open>Properties of the unsubscribe request\<close>

lemma unsub_ok_zero: "unsub_topics_ok ts \<Longrightarrow> length (unsubscribe_body i ts) < 268435456"
  using length_unsubscribe_body [of i ts 0] by (simp add: unsub_topics_ok_def)

lemma unsubscribe_inv_of: "unsubscribe_inv (mqtt_unsubscribe_of h)"
  by (simp add: unsubscribe_inv_def mqtt_unsubscribe_of_def)

text \<open>
  Of two topics the parser gets the second wrong: it reports the second appended to the
  first.  The message still ends where it should.
\<close>

theorem unsubscribe_two_topics:
  assumes "unsub_topics_ok [t1, t2]" "hdlen h = of_nat (length (unsubscribe_body i [t1, t2]))"
    "concat cs = unsubscribe_body i [t1, t2] @ r"
  shows "\<exists>p. feed unsubscribe_loop (mqtt_unsubscribe_of h) cs = (p, Rest r) \<and> us_finished p \<and>
     us_pkt_id p = i \<and> us_topics p = [t1, t1 @ t2]"
proof -
  have ok: "t1 \<noteq> []" "length t1 < 65536" "t2 \<noteq> []" "length t2 < 65536"
    using assms(1) by (simp_all add: unsub_topics_ok_def)
  have n: "length (unsubscribe_body i [t1, t2]) = length t1 + length t2 + 6"
    by (simp add: unsubscribe_body_def)
  have "length t1 + 4 + 2 < length t1 + length t2 + 6" using ok(3) by simp
  from unsubscribe_loop_two [OF ok assms(2) unsub_ok_zero [OF assms(1)], of i r] this ok(3) assms(3)
  show ?thesis
    by (auto simp: n unsubscribe.feed_concat unsubscribe_inv_of unsubscribe_body_def)
qed

theorem unsubscribe_two_topics_witness:
  "\<exists>p. feed unsubscribe_loop (mqtt_unsubscribe_of (hdr_set_remaing_length 8 (mqtt_header_new MQTT_UNSUBSCRIBE)))
      [[0x00, 0x07, 0x00, 0x01, 0x61, 0x00], [0x01, 0x62]] = (p, Rest []) \<and>
     us_finished p \<and> us_topics p = [[0x61], [0x61, 0x62]]"
proof -
  have ok: "unsub_topics_ok [[0x61], [0x62]]" by (simp add: unsub_topics_ok_def unsubscribe_body_def)
  have b: "unsubscribe_body 7 [[0x61], [0x62]] = [0x00, 0x07, 0x00, 0x01, 0x61, 0x00, 0x01, 0x62]"
    by (simp add: unsubscribe_body_def str_bytes_def short_bytes_def mosq_msb_def mosq_lsb_def)
  from unsubscribe_two_topics [OF ok, of "hdr_set_remaing_length 8 (mqtt_header_new MQTT_UNSUBSCRIBE)" 7
      "[[0x00, 0x07, 0x00, 0x01, 0x61, 0x00], [0x01, 0x62]]" "[]"]
  show ?thesis unfolding b by (simp add: hdr_set_remaing_length_def) blast
qed

text \<open>
  C16: an unsubscribe request with any number of topics is written as fixed header (flags 0x2) and a body with the packet id
  and every topic in order.  With one topic the body, cut anywhere, is read back with the same packet id and topic.  With two,
  the packet id and the first topic are read back, but the second topic is reported appended to the first.
\<close>

theorem unsubscribe_roundtrip:
  assumes "unsub_topics_ok ts" "unsubscribe_to_string (unsubscribe_build i ts) out = (s', w, ok)"
    "hdlen h = of_nat (length (unsubscribe_body i ts))"
  shows "ok \<and> w = out @ wire MQTT_UNSUBSCRIBE 0x2 (unsubscribe_body i ts) \<and>
     (length ts \<le> 2 \<and> concat cs = unsubscribe_body i ts @ r \<longrightarrow>
       (\<exists>p. feed unsubscribe_loop (mqtt_unsubscribe_of h) cs = (p, Rest r) \<and> us_finished p \<and> us_pkt_id p = i \<and>
          us_topics p = (if length ts = 1 then ts else [hd ts, concat ts])))"
proof -
  have w: "ok \<and> w = out @ wire MQTT_UNSUBSCRIBE 0x2 (unsubscribe_body i ts)"
    using unsubscribe_to_string_eq [OF assms(1), of "unsubscribe_build i ts" out] assms(2)
    by (simp add: unsubscribe_build_eq [OF assms(1)] mqtt_header_new_def)
  have "\<exists>p. feed unsubscribe_loop (mqtt_unsubscribe_of h) cs = (p, Rest r) \<and> us_finished p \<and> us_pkt_id p = i \<and>
      us_topics p = (if length ts = 1 then ts else [hd ts, concat ts])"
    if c: "length ts \<le> 2" "concat cs = unsubscribe_body i ts @ r"
  proof -
    have "ts \<noteq> []" using assms(1) by (simp add: unsub_topics_ok_def)
    with c(1) consider t where "ts = [t]" | t1 t2 where "ts = [t1, t2]"
      by (cases ts; cases "tl ts") auto
    then show ?thesis
    proof cases
      case (1 t)
      with unsubscribe_loop_one [of t h i r] assms(1,3) c(2) show ?thesis
        by (simp add: unsubscribe.feed_concat unsubscribe_inv_of)
    next
      case (2 t1 t2)
      with unsubscribe_two_topics [of t1 t2 h i cs r] assms(1,3) c(2) show ?thesis by simp
    qed
  qed
  with w show ?thesis by blast
qed

theorem unsubscribe_roundtrip_witness:
  "\<exists>w s'. unsubscribe_to_string (unsubscribe_build 7 [[0x61, 0x62], [0x63]]) [] = (s', w, True) \<and>
     w = [0xa2, 0x09, 0x00, 0x07, 0x00, 0x02, 0x61, 0x62, 0x00, 0x01, 0x63] \<and>
     (\<exists>p. feed unsubscribe_loop (mqtt_unsubscribe_of (hdr_set_remaing_length 9 (mqtt_header_new MQTT_UNSUBSCRIBE)))
        [[0x00, 0x07], [0x00, 0x02, 0x61], [0x62, 0x00, 0x01, 0x63, 0x99]] = (p, Rest [0x99]) \<and>
        us_pkt_id p = 7 \<and> us_topics p = [[0x61, 0x62], [0x61, 0x62, 0x63]])"
proof -
  let ?ts = "[[0x61, 0x62], [0x63]] :: bytes list"
  have ok: "unsub_topics_ok ?ts" by (simp add: unsub_topics_ok_def unsubscribe_body_def)
  have b: "unsubscribe_body 7 ?ts = [0x00, 0x07, 0x00, 0x02, 0x61, 0x62, 0x00, 0x01, 0x63]"
    by (simp add: unsubscribe_body_def str_bytes_def short_bytes_def mosq_msb_def mosq_lsb_def)
  obtain s' w k where u: "unsubscribe_to_string (unsubscribe_build 7 ?ts) [] = (s', w, k)" by (metis prod_cases3)
  have "wire MQTT_UNSUBSCRIBE 0x2 [0x00, 0x07, 0x00, 0x02, 0x61, 0x62, 0x00, 0x01, 0x63] =
      [0xa2, 0x09, 0x00, 0x07, 0x00, 0x02, 0x61, 0x62, 0x00, 0x01, 0x63]"
    by (simp add: wire_def first_byte_def vbi.simps)
  with unsubscribe_roundtrip [OF ok u, of "hdr_set_remaing_length 9 (mqtt_header_new MQTT_UNSUBSCRIBE)"
      "[[0x00, 0x07], [0x00, 0x02, 0x61], [0x62, 0x00, 0x01, 0x63, 0x99]]" "[0x99]"] u
  show ?thesis unfolding b by (simp add: hdr_set_remaing_length_def) blast
qed

text \<open>
  With three topics, when the first is at least two bytes longer than the third, the
  parser counts the first topic twice, finishes after the second topic and leaves the bytes of
  the third to be taken for the next message.
\<close>

theorem unsubscribe_three_topics:
  assumes "unsub_topics_ok [t1, t2, t3]" "hdlen h = of_nat (length (unsubscribe_body i [t1, t2, t3]))"
    "length t3 + 2 \<le> length t1" "concat cs = unsubscribe_body i [t1, t2, t3] @ r"
  shows "\<exists>p. feed unsubscribe_loop (mqtt_unsubscribe_of h) cs = (p, Rest (str_bytes t3 @ r)) \<and>
     us_finished p \<and> us_topics p = [t1, t1 @ t2]"
proof -
  have ok: "t1 \<noteq> []" "length t1 < 65536" "t2 \<noteq> []" "length t2 < 65536"
    using assms(1) by (simp_all add: unsub_topics_ok_def)
  have n: "length (unsubscribe_body i [t1, t2, t3]) = length t1 + length t2 + length t3 + 8"
    by (simp add: unsubscribe_body_def)
  from unsubscribe_loop_two [OF ok assms(2) unsub_ok_zero [OF assms(1)], of i "str_bytes t3 @ r"] assms(3,4)
  show ?thesis
    by (auto simp: n unsubscribe.feed_concat unsubscribe_inv_of unsubscribe_body_def)
qed

theorem unsubscribe_three_topics_witness:
  "\<exists>p. feed unsubscribe_loop (mqtt_unsubscribe_of (hdr_set_remaing_length 13 (mqtt_header_new MQTT_UNSUBSCRIBE)))
      [[0x00, 0x07, 0x00, 0x03, 0x61, 0x61, 0x61, 0x00, 0x01, 0x62, 0x00, 0x01, 0x63]] =
        (p, Rest [0x00, 0x01, 0x63]) \<and> us_finished p"
proof -
  let ?ts = "[[0x61, 0x61, 0x61], [0x62], [0x63]] :: bytes list"
  have ok: "unsub_topics_ok ?ts" by (simp add: unsub_topics_ok_def unsubscribe_body_def)
  have b: "unsubscribe_body 7 ?ts = [0x00, 0x07, 0x00, 0x03, 0x61, 0x61, 0x61, 0x00, 0x01, 0x62, 0x00, 0x01, 0x63]"
      "str_bytes [0x63] = [0x00, 0x01, 0x63]"
    by (simp_all add: unsubscribe_body_def str_bytes_def short_bytes_def mosq_msb_def mosq_lsb_def)
  from unsubscribe_three_topics [OF ok, of "hdr_set_remaing_length 13 (mqtt_header_new MQTT_UNSUBSCRIBE)" 7
      "[[0x00, 0x07, 0x00, 0x03, 0x61, 0x61, 0x61, 0x00, 0x01, 0x62, 0x00, 0x01, 0x63]]" "[]"]
  show ?thesis unfolding b by (simp add: hdr_set_remaing_length_def) blast
qed

end
