(* ===== verification/Mqtt_Ping.thy ===== *)
theory Mqtt_Ping
  imports Mqtt_Message
begin

text \<open>
  The messages without a body (cpp/src/mqtt/mqtt_pingreq.cpp, mqtt_pingresp.cpp,
  mqtt_disconnect.cpp and their headers): they add no field to the base class, are finished
  as soon as they exist and consume nothing.
\<close>

definition mqtt_pingreq_new :: mqtt_message where
  "mqtt_pingreq_new = mqtt_message_new MQTT_PINGREQ"
definition mqtt_pingresp_new :: mqtt_message where
  "mqtt_pingresp_new = mqtt_message_new MQTT_PINGRESP"
definition mqtt_disconnect_new :: mqtt_message where
  "mqtt_disconnect_new = mqtt_message_new MQTT_DISCONNECT"

definition mqtt_pingreq_of :: "mqtt_header \<Rightarrow> mqtt_message" where
  "mqtt_pingreq_of header = mqtt_message_of header"
definition mqtt_pingresp_of :: "mqtt_header \<Rightarrow> mqtt_message" where
  "mqtt_pingresp_of header = mqtt_message_of header"
definition mqtt_disconnect_of :: "mqtt_header \<Rightarrow> mqtt_message" where
  "mqtt_disconnect_of header = mqtt_message_of header"

text \<open>The three classes have the same methods.\<close>

definition pingreq_to_string :: "mqtt_message \<Rightarrow> bytes \<Rightarrow> mqtt_message \<times> bytes \<times> bool" where
  "pingreq_to_string s out =
     (case build_header (hdr_set_remaing_length 0 (mheader s)) out of (h, out1, ok) \<Rightarrow>
        (s\<lparr>mheader := h\<rparr>, out1, ok))"

definition pingresp_to_string :: "mqtt_message \<Rightarrow> bytes \<Rightarrow> mqtt_message \<times> bytes \<times> bool" where
  "pingresp_to_string s out =
     (case build_header (hdr_set_remaing_length 0 (mheader s)) out of (h, out1, ok) \<Rightarrow>
        (s\<lparr>mheader := h\<rparr>, out1, ok))"

definition disconnect_to_string :: "mqtt_message \<Rightarrow> bytes \<Rightarrow> mqtt_message \<times> bytes \<times> bool" where
  "disconnect_to_string s out =
     (case build_header (hdr_set_remaing_length 0 (mheader s)) out of (h, out1, ok) \<Rightarrow>
        (s\<lparr>mheader := h\<rparr>, out1, ok))"

definition pingreq_update :: "mqtt_message \<Rightarrow> bytes \<Rightarrow> mqtt_message \<times> parse_result" where
  "pingreq_update s data = (s, Rest data)"
definition pingresp_update :: "mqtt_message \<Rightarrow> bytes \<Rightarrow> mqtt_message \<times> parse_result" where
  "pingresp_update s data = (s, Rest data)"
definition disconnect_update :: "mqtt_message \<Rightarrow> bytes \<Rightarrow> mqtt_message \<times> parse_result" where
  "disconnect_update s data = (s, Rest data)"

definition pingreq_finished :: "mqtt_message \<Rightarrow> bool" where "pingreq_finished s = True"
definition pingresp_finished :: "mqtt_message \<Rightarrow> bool" where "pingresp_finished s = True"
definition disconnect_finished :: "mqtt_message \<Rightarrow> bool" where "disconnect_finished s = True"

lemmas ping_to_string_defs =
  pingreq_to_string_def pingresp_to_string_def disconnect_to_string_def
lemmas ping_update_defs = pingreq_update_def pingresp_update_def disconnect_update_def
lemmas ping_finished_defs = pingreq_finished_def pingresp_finished_def disconnect_finished_def

lemma ping_to_string_eq:
  assumes "f \<in> {pingreq_to_string, pingresp_to_string, disconnect_to_string}"
  shows "f s out = (s\<lparr>mheader := hdr_set_remaing_length 0 (mheader s)\<rparr>,
     out @ [first_byte (htype (mheader s)) (hflags (mheader s)), 0], True)"
  using assms
  by (auto simp: ping_to_string_defs build_header_eq hdr_set_remaing_length_def vbi.simps)

interpretation pingreq: resumable pingreq_update pingreq_finished "\<lambda>_. True"
  by unfold_locales (simp_all add: ping_update_defs ping_finished_defs)

interpretation pingresp: resumable pingresp_update pingresp_finished "\<lambda>_. True"
  by unfold_locales (simp_all add: ping_update_defs ping_finished_defs)

interpretation disconnect: resumable disconnect_update disconnect_finished "\<lambda>_. True"
  by unfold_locales (simp_all add: ping_update_defs ping_finished_defs)

end
