(* ===== verification/Mqtt_Factory.thy ===== *)
theory Mqtt_Factory
  imports Mqtt_Connect Mqtt_Connack Mqtt_Publish Mqtt_Ack Mqtt_Subscribe Mqtt_Suback
    Mqtt_Unsubscribe Mqtt_Ping
begin

text \<open>
  The messages as a whole: the objects behind a \<open>mqtt_message *\<close>, the factory
  \<open>mqtt_message::create_message\<close> and the dispatch of the virtual methods
  (cpp/src/mqtt/mqtt_message.cpp, cpp/include/nio/mqtt/mqtt_message.hpp).
\<close>

subsection \<open>Objects and dispatch\<close>

datatype message =
    M_connect mqtt_connect | M_connack mqtt_connack | M_publish mqtt_publish
  | M_puback mqtt_ack | M_pubrec mqtt_ack | M_pubrel mqtt_ack | M_pubcomp mqtt_ack
  | M_subscribe mqtt_subscribe | M_suback mqtt_suback | M_unsubscribe mqtt_unsubscribe
  | M_unsuback mqtt_ack | M_pingreq mqtt_message | M_pingresp mqtt_message
  | M_disconnect mqtt_message

text \<open>\<open>pad\<close> is the padding byte of a new \<open>mqtt_connect\<close> object.\<close>

definition create_message :: "byte \<Rightarrow> mqtt_header \<Rightarrow> message option" where
  "create_message pad header =
     (case htype header of
        MQTT_CONNECT \<Rightarrow> Some (M_connect (mqtt_connect_of pad header))
      | MQTT_CONNACK \<Rightarrow> Some (M_connack (mqtt_connack_of header))
      | MQTT_PUBLISH \<Rightarrow> Some (M_publish (mqtt_publish_of header))
      | MQTT_PUBACK \<Rightarrow> Some (M_puback (mqtt_puback_of header))
      | MQTT_PUBREC \<Rightarrow> Some (M_pubrec (mqtt_pubrec_of header))
      | MQTT_PUBREL \<Rightarrow> Some (M_pubrel (mqtt_pubrel_of header))
      | MQTT_PUBCOMP \<Rightarrow> Some (M_pubcomp (mqtt_pubcomp_of header))
      | MQTT_SUBSCRIBE \<Rightarrow> Some (M_subscribe (mqtt_subscribe_of header))
      | MQTT_SUBACK \<Rightarrow> Some (M_suback (mqtt_suback_of header))
      | MQTT_UNSUBSCRIBE \<Rightarrow> Some (M_unsubscribe (mqtt_unsubscribe_of header))
      | MQTT_UNSUBACK \<Rightarrow> Some (M_unsuback (mqtt_unsuback_of header))
      | MQTT_PINGREQ \<Rightarrow> Some (M_pingreq (mqtt_pingreq_of header))
      | MQTT_PINGRESP \<Rightarrow> Some (M_pingresp (mqtt_pingresp_of header))
      | MQTT_DISCONNECT \<Rightarrow> Some (M_disconnect (mqtt_disconnect_of header))
      | _ \<Rightarrow> None)"

definition message_update :: "message \<Rightarrow> bytes \<Rightarrow> message \<times> parse_result" where
  "message_update m data =
     (case m of
        M_connect s \<Rightarrow> apfst M_connect (connect_update s data)
      | M_connack s \<Rightarrow> apfst M_connack (connack_update s data)
      | M_publish s \<Rightarrow> apfst M_publish (publish_update s data)
      | M_puback s \<Rightarrow> apfst M_puback (ack_update s data)
      | M_pubrec s \<Rightarrow> apfst M_pubrec (ack_update s data)
      | M_pubrel s \<Rightarrow> apfst M_pubrel (ack_update s data)
      | M_pubcomp s \<Rightarrow> apfst M_pubcomp (ack_update s data)
      | M_subscribe s \<Rightarrow> apfst M_subscribe (subscribe_update s data)
      | M_suback s \<Rightarrow> apfst M_suback (suback_update s data)
      | M_unsubscribe s \<Rightarrow> apfst M_unsubscribe (unsubscribe_update s data)
      | M_unsuback s \<Rightarrow> apfst M_unsuback (ack_update s data)
      | M_pingreq s \<Rightarrow> apfst M_pingreq (pingreq_update s data)
      | M_pingresp s \<Rightarrow> apfst M_pingresp (pingresp_update s data)
      | M_disconnect s \<Rightarrow> apfst M_disconnect (disconnect_update s data))"

definition message_finished :: "message \<Rightarrow> bool" where
  "message_finished m =
     (case m of
        M_connect s \<Rightarrow> cn_finished s | M_connack s \<Rightarrow> ca_finished s | M_publish s \<Rightarrow> pb_finished s
      | M_puback s \<Rightarrow> ak_finished s | M_pubrec s \<Rightarrow> ak_finished s | M_pubrel s \<Rightarrow> ak_finished s
      | M_pubcomp s \<Rightarrow> ak_finished s | M_subscribe s \<Rightarrow> sb_finished s | M_suback s \<Rightarrow> sa_finished s
      | M_unsubscribe s \<Rightarrow> us_finished s | M_unsuback s \<Rightarrow> ak_finished s
      | M_pingreq s \<Rightarrow> pingreq_finished s | M_pingresp s \<Rightarrow> pingresp_finished s
      | M_disconnect s \<Rightarrow> disconnect_finished s)"

definition message_to_string :: "bytes \<Rightarrow> message \<Rightarrow> bytes \<Rightarrow> message \<times> bytes \<times> bool" where
  "message_to_string mem m out =
     (case m of
        M_connect s \<Rightarrow> apfst M_connect (connect_to_string s out)
      | M_connack s \<Rightarrow> apfst M_connack (connack_to_string s out)
      | M_publish s \<Rightarrow> apfst M_publish (publish_to_string mem s out)
      | M_puback s \<Rightarrow> apfst M_puback (ack_to_string s out)
      | M_pubrec s \<Rightarrow> apfst M_pubrec (ack_to_string s out)
      | M_pubrel s \<Rightarrow> apfst M_pubrel (ack_to_string s out)
      | M_pubcomp s \<Rightarrow> apfst M_pubcomp (ack_to_string s out)
      | M_subscribe s \<Rightarrow> apfst M_subscribe (subscribe_to_string s out)
      | M_suback s \<Rightarrow> apfst M_suback (suback_to_string s out)
      | M_unsubscribe s \<Rightarrow> apfst M_unsubscribe (unsubscribe_to_string s out)
      | M_unsuback s \<Rightarrow> apfst M_unsuback (ack_to_string s out)
      | M_pingreq s \<Rightarrow> apfst M_pingreq (pingreq_to_string s out)
      | M_pingresp s \<Rightarrow> apfst M_pingresp (pingresp_to_string s out)
      | M_disconnect s \<Rightarrow> apfst M_disconnect (disconnect_to_string s out))"

subsection \<open>The streaming contract of the dispatch\<close>

text \<open>The caller does not call \<open>update\<close> without data.\<close>

definition message_parse :: "message \<Rightarrow> bytes \<Rightarrow> message \<times> parse_result" where
  "message_parse m data = (if data \<noteq> [] then message_update m data else (m, Rest data))"

definition message_inv :: "message \<Rightarrow> bool" where
  "message_inv m =
     (case m of
        M_connect s \<Rightarrow> connect_inv s | M_connack s \<Rightarrow> connack_inv s | M_publish s \<Rightarrow> publish_inv s
      | M_puback s \<Rightarrow> ack_inv s | M_pubrec s \<Rightarrow> ack_inv s | M_pubrel s \<Rightarrow> ack_inv s
      | M_pubcomp s \<Rightarrow> ack_inv s | M_subscribe s \<Rightarrow> subscribe_inv s | M_suback s \<Rightarrow> suback_inv s
      | M_unsubscribe s \<Rightarrow> unsubscribe_inv s | M_unsuback s \<Rightarrow> ack_inv s
      | M_pingreq s \<Rightarrow> True | M_pingresp s \<Rightarrow> True | M_disconnect s \<Rightarrow> True)"

lemmas update_defs =
  connect_update_def connack_update_def publish_update_def ack_update_def subscribe_update_def
  suback_update_def unsubscribe_update_def

lemma message_parse_simps:
  "message_parse (M_connect s1) d = apfst M_connect (connect_loop s1 d)"
  "message_parse (M_connack s2) d = apfst M_connack (connack_loop s2 d)"
  "message_parse (M_publish s3) d = apfst M_publish (publish_loop s3 d)"
  "message_parse (M_puback s4) d = apfst M_puback (ack_loop s4 d)"
  "message_parse (M_pubrec s4) d = apfst M_pubrec (ack_loop s4 d)"
  "message_parse (M_pubrel s4) d = apfst M_pubrel (ack_loop s4 d)"
  "message_parse (M_pubcomp s4) d = apfst M_pubcomp (ack_loop s4 d)"
  "message_parse (M_subscribe s5) d = apfst M_subscribe (subscribe_loop s5 d)"
  "message_parse (M_suback s6) d = apfst M_suback (suback_loop s6 d)"
  "message_parse (M_unsubscribe s7) d = apfst M_unsubscribe (unsubscribe_loop s7 d)"
  "message_parse (M_unsuback s4) d = apfst M_unsuback (ack_loop s4 d)"
  "message_parse (M_pingreq s8) d = apfst M_pingreq (pingreq_update s8 d)"
  "message_parse (M_pingresp s8) d = apfst M_pingresp (pingresp_update s8 d)"
  "message_parse (M_disconnect s8) d = apfst M_disconnect (disconnect_update s8 d)"
  by (simp_all add: message_parse_def message_update_def update_defs ping_update_defs)

lemmas parsers_fin = connect.upd_fin connack.upd_fin publish.upd_fin ack.upd_fin subscribe.upd_fin suback.upd_fin unsubscribe.upd_fin pingreq.upd_fin pingresp.upd_fin disconnect.upd_fin
lemmas parsers_nil = connect.upd_nil connack.upd_nil publish.upd_nil ack.upd_nil subscribe.upd_nil suback.upd_nil unsubscribe.upd_nil pingreq.upd_nil pingresp.upd_nil disconnect.upd_nil
lemmas parsers_inv = connect.upd_inv connack.upd_inv publish.upd_inv ack.upd_inv subscribe.upd_inv suback.upd_inv unsubscribe.upd_inv pingreq.upd_inv pingresp.upd_inv disconnect.upd_inv
lemmas parsers_safe = connect.upd_safe connack.upd_safe publish.upd_safe ack.upd_safe subscribe.upd_safe suback.upd_safe unsubscribe.upd_safe pingreq.upd_safe pingresp.upd_safe disconnect.upd_safe
lemmas parsers_suffix = connect.upd_suffix connack.upd_suffix publish.upd_suffix ack.upd_suffix subscribe.upd_suffix suback.upd_suffix unsubscribe.upd_suffix pingreq.upd_suffix pingresp.upd_suffix disconnect.upd_suffix
lemmas parsers_left = connect.upd_left connack.upd_left publish.upd_left ack.upd_left subscribe.upd_left suback.upd_left unsubscribe.upd_left pingreq.upd_left pingresp.upd_left disconnect.upd_left
lemmas parsers_consumes = connect.upd_consumes connack.upd_consumes publish.upd_consumes ack.upd_consumes subscribe.upd_consumes suback.upd_consumes unsubscribe.upd_consumes pingreq.upd_consumes pingresp.upd_consumes disconnect.upd_consumes
lemmas parsers_resume = connect.upd_resume connack.upd_resume publish.upd_resume ack.upd_resume subscribe.upd_resume suback.upd_resume unsubscribe.upd_resume

lemma lift_resume:
  assumes "\<And>s' d. f (C s') d = apfst C (upd s' d)"
  shows "apfst C (case u of (s', Rest r) \<Rightarrow> upd s' (r @ b) | (s', e) \<Rightarrow> (s', e)) =
     (case apfst C u of (m, Rest r) \<Rightarrow> f m (r @ b) | (m, e) \<Rightarrow> (m, e))"
  by (simp add: assms split: prod.splits parse_result.splits)

lemma message_parse_resume:
  assumes "message_inv m"
  shows "message_parse m (a @ b) =
      (case message_parse m a of (m', Rest r) \<Rightarrow> message_parse m' (r @ b) | (m', e) \<Rightarrow> (m', e))"
proof (cases "\<exists>s. m \<in> {M_pingreq s, M_pingresp s, M_disconnect s}")
  case True
  then show ?thesis by (auto simp: message_parse_simps ping_update_defs)
next
  case False
  with assms show ?thesis
    by (cases m)
       (simp_all only: message_parse_simps message_inv_def message.case parsers_resume,
        (rule lift_resume, rule message_parse_simps | simp)+)
qed

interpretation msg: resumable message_parse message_finished message_inv
proof
  fix m d
  show "message_finished m \<Longrightarrow> message_parse m d = (m, Rest d)"
    by (cases m) (simp_all add: message_parse_simps message_finished_def parsers_fin)
  show "message_parse m [] = (m, Rest [])"
    by (simp add: message_parse_def)
  show "message_inv m \<Longrightarrow> message_inv (fst (message_parse m d))"
    by (cases m) (simp_all add: message_parse_simps message_inv_def parsers_inv)
  show "message_inv m \<Longrightarrow> snd (message_parse m d) \<noteq> AssertFail"
    by (cases m) (simp_all add: message_parse_simps message_inv_def parsers_safe)
next
  fix m d m' r
  assume p: "message_parse m d = (m', Rest r)"
  then show "suffix r d"
    by (cases m) (auto simp: message_parse_simps apfst_def map_prod_def split: prod.splits
        dest: parsers_suffix)
  show "r \<noteq> [] \<Longrightarrow> message_finished m'"
    using p by (cases m) (auto simp: message_parse_simps message_finished_def apfst_def map_prod_def
        split: prod.splits dest: parsers_left)
  show "length r < length d" if "message_inv m" "\<not> message_finished m" "message_finished m'"
    using p that by (cases m) (auto simp: message_parse_simps message_finished_def message_inv_def
        ping_finished_defs apfst_def map_prod_def split: prod.splits dest: parsers_consumes)
qed (rule message_parse_resume)

subsection \<open>The factory\<close>

text \<open>Every type but the two reserved ones has a class; a new object is well-formed.\<close>

lemma create_message_Some:
  "(\<exists>m. create_message pad h = Some m) \<longleftrightarrow> MQTT_RESERVED_MIN < htype h \<and> htype h < MQTT_RESERVED_MAX"
  by (cases "htype h") (simp_all add: create_message_def less_mqtt_type_def)

lemmas message_of_defs =
  mqtt_connect_of_def mqtt_connack_of_def mqtt_publish_of_def mqtt_puback_of_def mqtt_pubrec_of_def
  mqtt_pubrel_of_def mqtt_pubcomp_of_def mqtt_unsuback_of_def mqtt_ack_of_def mqtt_subscribe_of_def
  mqtt_suback_of_def mqtt_unsubscribe_of_def

lemma create_message_inv: "create_message pad h = Some m \<Longrightarrow> message_inv m"
  by (cases "htype h")
     (auto simp: create_message_def message_inv_def message_of_defs connect_inv_def connack_inv_def
       publish_inv_def ack_inv_def subscribe_inv_def suback_inv_def unsubscribe_inv_def len_next_def Let_def)

subsection \<open>Messages that arrive as they are sent\<close>

definition message_type :: "message \<Rightarrow> mqtt_type" where
  "message_type m =
     (case m of
        M_connect s \<Rightarrow> MQTT_CONNECT | M_connack s \<Rightarrow> MQTT_CONNACK | M_publish s \<Rightarrow> MQTT_PUBLISH
      | M_puback s \<Rightarrow> MQTT_PUBACK | M_pubrec s \<Rightarrow> MQTT_PUBREC | M_pubrel s \<Rightarrow> MQTT_PUBREL
      | M_pubcomp s \<Rightarrow> MQTT_PUBCOMP | M_subscribe s \<Rightarrow> MQTT_SUBSCRIBE | M_suback s \<Rightarrow> MQTT_SUBACK
      | M_unsubscribe s \<Rightarrow> MQTT_UNSUBSCRIBE | M_unsuback s \<Rightarrow> MQTT_UNSUBACK
      | M_pingreq s \<Rightarrow> MQTT_PINGREQ | M_pingresp s \<Rightarrow> MQTT_PINGRESP | M_disconnect s \<Rightarrow> MQTT_DISCONNECT)"

definition message_header :: "message \<Rightarrow> mqtt_header" where
  "message_header m =
     (case m of
        M_connect s \<Rightarrow> mheader s | M_connack s \<Rightarrow> mheader s | M_publish s \<Rightarrow> mheader s
      | M_puback s \<Rightarrow> mheader s | M_pubrec s \<Rightarrow> mheader s | M_pubrel s \<Rightarrow> mheader s
      | M_pubcomp s \<Rightarrow> mheader s | M_subscribe s \<Rightarrow> mheader s | M_suback s \<Rightarrow> mheader s
      | M_unsubscribe s \<Rightarrow> mheader s | M_unsuback s \<Rightarrow> mheader s
      | M_pingreq s \<Rightarrow> mheader s | M_pingresp s \<Rightarrow> mheader s | M_disconnect s \<Rightarrow> mheader s)"

text \<open>
  What a message must be like for its wire form to be read back: the conditions of the round
  trips of the classes.  Excluded are, beside messages too long for their length fields, the
  ones the classes get wrong: a QoS 0 message without payload, and an unsubscribe request with
  more than one topic.
\<close>

definition sendable :: "message \<Rightarrow> bool" where
  "sendable m \<longleftrightarrow> htype (message_header m) = message_type m \<and>
     (case m of
        M_connect s \<Rightarrow> connect_ok s \<and> flags_ok s
      | M_publish s \<Rightarrow> publish_ok s \<and> (hdr_get_qos (mheader s) = MQTT_QOS0 \<longrightarrow> pb_payload s \<noteq> [])
      | M_subscribe s \<Rightarrow> length (sb_topics s) = length (sb_qoses s) \<and> topics_ok (zip (sb_topics s) (sb_qoses s)) \<and>
          sb_body_len s = of_nat (length (concat (map subscribe_entry (zip (sb_topics s) (sb_qoses s)))))
      | M_suback s \<Rightarrow> sa_qoses s \<noteq> [] \<and> sa_body_len s = of_nat (length (sa_qoses s)) \<and>
          length (suback_body (sa_pkt_id s) (sa_qoses s)) < 268435456
      | M_unsubscribe s \<Rightarrow> length (us_topics s) = 1 \<and> unsub_topics_ok (us_topics s) \<and>
          us_body_len s = of_nat (length (concat (map str_bytes (us_topics s))))
      | _ \<Rightarrow> True)"

text \<open>
  What arrives as \<open>p\<close> when \<open>m\<close> is sent: a message of the same class, each member that the wire has a place for being the one
  sent, but for what the classes lose.  Of a connect request the keep-alive arrives as its low byte followed by the byte
  \<open>pad\<close> behind the parser's buffer, the level of the will as QoS 0, and a will without a topic or without a message as none.
  Of a connack, the session member is false whatever the flags say.  Of a publish at QoS 0 the duplicate flag is dropped by
  the sender, and there is no packet id.
\<close>

definition arrives :: "byte \<Rightarrow> message \<Rightarrow> message \<Rightarrow> bool" where
  "arrives pad m p =
     (case (m, p) of
        (M_connect s, M_connect q) \<Rightarrow> cn_conn_flags q = connect_flags s \<and> cn_cid q = cn_cid s \<and>
          cn_username q = cn_username s \<and> cn_passwd q = cn_passwd s \<and>
          cn_will_topic q = will_of s (cn_will_topic s) \<and> cn_will_msg q = will_of s (cn_will_msg s) \<and>
          cn_keep_alive q = push_bit 8 (ucast (mosq_lsb (cn_keep_alive s))) OR ucast pad \<and> cn_will_qos q = MQTT_QOS0
      | (M_connack s, M_connack q) \<Rightarrow> ca_conn_flags q = ca_conn_flags s \<and> ca_connack_code q = ca_connack_code s \<and>
          \<not> ca_session q
      | (M_publish s, M_publish q) \<Rightarrow> pb_topic q = pb_topic s \<and> pb_payload q = pb_payload s \<and>
          pb_payload_len q = pb_payload_len s \<and> hdr_get_qos (mheader q) = hdr_get_qos (mheader s) \<and>
          hdr_is_remain (mheader q) = hdr_is_remain (mheader s) \<and>
          (if hdr_get_qos (mheader s) = MQTT_QOS0 then \<not> hdr_is_dup (mheader q)
           else pb_pkt_id q = pb_pkt_id s \<and> hdr_is_dup (mheader q) = hdr_is_dup (mheader s))
      | (M_puback s, M_puback q) \<Rightarrow> ak_pkt_id q = ak_pkt_id s
      | (M_pubrec s, M_pubrec q) \<Rightarrow> ak_pkt_id q = ak_pkt_id s
      | (M_pubrel s, M_pubrel q) \<Rightarrow> ak_pkt_id q = ak_pkt_id s
      | (M_pubcomp s, M_pubcomp q) \<Rightarrow> ak_pkt_id q = ak_pkt_id s
      | (M_unsuback s, M_unsuback q) \<Rightarrow> ak_pkt_id q = ak_pkt_id s
      | (M_subscribe s, M_subscribe q) \<Rightarrow> sb_pkt_id q = sb_pkt_id s \<and> sb_topics q = sb_topics s \<and>
          sb_qoses q = sb_qoses s
      | (M_suback s, M_suback q) \<Rightarrow> sa_pkt_id q = sa_pkt_id s \<and> sa_qoses q = sa_qoses s
      | (M_unsubscribe s, M_unsubscribe q) \<Rightarrow> us_pkt_id q = us_pkt_id s \<and> us_topics q = us_topics s
      | (M_pingreq s, M_pingreq q) \<Rightarrow> True
      | (M_pingresp s, M_pingresp q) \<Rightarrow> True
      | (M_disconnect s, M_disconnect q) \<Rightarrow> True
      | _ \<Rightarrow> False)"

text \<open>A header, as the header parser leaves it, for a body; and the body read into a new object.\<close>

definition header_for :: "mqtt_type \<Rightarrow> nibble \<Rightarrow> bytes \<Rightarrow> mqtt_header \<Rightarrow> bool" where
  "header_for t f body h \<longleftrightarrow> htype h = t \<and> hflags h = f \<and> hdlen h = of_nat (length body)"

definition reads_as :: "byte \<Rightarrow> message \<Rightarrow> nibble \<Rightarrow> bytes \<Rightarrow> bool" where
  "reads_as pad m f body \<longleftrightarrow> length body < 268435456 \<and>
     (\<forall>h r. header_for (message_type m) f body h \<longrightarrow>
       (\<exists>m0 p. create_message pad h = Some m0 \<and> message_parse m0 (body @ r) = (p, Rest r) \<and>
          message_finished p \<and> arrives pad m p))"

lemma reads_asI:
  assumes "length body < 268435456"
    "\<And>h. htype h = message_type m \<Longrightarrow> create_message pad h = Some (C (mk h))"
    "\<And>s d. message_parse (C s) d = apfst C (loop s d)" "\<And>s. message_finished (C s) = fin s"
    "\<And>h r. header_for (message_type m) f body h \<Longrightarrow>
       \<exists>p. loop (mk h) (body @ r) = (p, Rest r) \<and> fin p \<and> arrives pad m (C p)"
  shows "reads_as pad m f body"
  unfolding reads_as_def
proof (intro conjI allI impI)
  fix h r assume h: "header_for (message_type m) f body h"
  from assms(5) [OF h] obtain p where "loop (mk h) (body @ r) = (p, Rest r)" "fin p" "arrives pad m (C p)"
    by blast
  with h assms(2-4) show "\<exists>m0 p. create_message pad h = Some m0 \<and> message_parse m0 (body @ r) = (p, Rest r) \<and>
      message_finished p \<and> arrives pad m p"
    by (auto simp: header_for_def)
qed (rule assms(1))

lemma ack_reads:
  assumes "ack_inv s0" "\<not> ak_finished s0" "ak_hlen s0 = 0"
  shows "\<exists>p. ack_loop s0 (short_bytes i @ r) = (p, Rest r) \<and> ak_finished p \<and> ak_pkt_id p = i"
  by (simp add: ack_loop_body [OF assms])

lemma ack_sends:
  "\<exists>s'. ack_to_string s out =
     (s', out @ wire (htype (mheader s)) (hflags (mheader s)) (short_bytes (ak_pkt_id s)), True)"
  by (simp add: ack_to_string_eq hdr_set_remaing_length_def wire_def Let_def)

lemma acks_send:
  assumes "sendable m" "m \<in> {M_puback s, M_pubrec s, M_pubrel s, M_pubcomp s, M_unsuback s}"
  shows "\<exists>m' f body. message_to_string mem m out = (m', out @ wire (message_type m) f body, True) \<and>
     reads_as pad m f body"
proof -
  let ?f = "hflags (mheader s)" and ?body = "short_bytes (ak_pkt_id s)"
  have st: "ack_inv (mqtt_ack_of h)" "\<not> ak_finished (mqtt_ack_of h)" "ak_hlen (mqtt_ack_of h) = 0"
      "ack_inv (mqtt_pubrel_of h)" "\<not> ak_finished (mqtt_pubrel_of h)" "ak_hlen (mqtt_pubrel_of h) = 0" for h
    by (simp_all add: ack_inv_def mqtt_ack_of_def mqtt_pubrel_of_def Let_def)
  have "reads_as pad m ?f ?body"
    using assms(2) ack_reads [OF st(1-3)] ack_reads [OF st(4-6)]
    by (auto simp: reads_as_def header_for_def create_message_def message_type_def message_parse_simps
        message_finished_def arrives_def mqtt_puback_of_def mqtt_pubrec_of_def mqtt_pubcomp_of_def
        mqtt_unsuback_of_def apfst_def map_prod_def ack_loop_body st)
  moreover have "\<exists>m'. message_to_string mem m out = (m', out @ wire (message_type m) ?f ?body, True)"
    using assms ack_sends [of s out]
    by (auto simp: sendable_def message_header_def message_type_def message_to_string_def)
  ultimately show ?thesis by blast
qed

lemma pings_send:
  assumes "sendable m" "m \<in> {M_pingreq s, M_pingresp s, M_disconnect s}"
  shows "\<exists>m' f body. message_to_string mem m out = (m', out @ wire (message_type m) f body, True) \<and>
     reads_as pad m f body"
proof -
  have "reads_as pad m (hflags (mheader s)) []"
    using assms(2)
    by (auto simp: reads_as_def header_for_def create_message_def message_type_def message_parse_simps
        message_finished_def arrives_def ping_update_defs ping_finished_defs)
  moreover have "\<exists>m'. message_to_string mem m out = (m', out @ wire (message_type m) (hflags (mheader s)) [], True)"
    using assms
    by (auto simp: sendable_def message_header_def message_type_def message_to_string_def wire_def
        ping_to_string_eq vbi.simps)
  ultimately show ?thesis by blast
qed

lemma connect_sends:
  assumes "sendable (M_connect s)"
  shows "\<exists>m' f body. message_to_string mem (M_connect s) out =
       (m', out @ wire MQTT_CONNECT f body, True) \<and> reads_as pad (M_connect s) f body"
proof -
  from assms have ok: "connect_ok s" "flags_ok s" and t: "htype (mheader s) = MQTT_CONNECT"
    by (simp_all add: sendable_def message_header_def message_type_def)
  from connect_to_string_eq [OF ok(1), of out] t
  have "\<exists>m'. message_to_string mem (M_connect s) out =
      (m', out @ wire MQTT_CONNECT (hflags (mheader s)) (connect_wire_body s), True)"
    by (auto simp: message_to_string_def)
  moreover have "reads_as pad (M_connect s) (hflags (mheader s)) (connect_wire_body s)"
  proof (rule reads_asI [where mk = "mqtt_connect_of pad" and C = M_connect])
    show "\<exists>p. connect_loop (mqtt_connect_of pad h) (connect_wire_body s @ r) = (p, Rest r) \<and> cn_finished p \<and>
        arrives pad (M_connect s) (M_connect p)" for h r
      using connect_parse [OF ok, of "[connect_wire_body s @ r]" r pad h,
          unfolded connect.feed_concat [OF connect_inv_of]]
      by (auto simp: arrives_def connect_view_def)
  qed (simp_all add: connect_body_bound [OF ok(1)] create_message_def message_type_def message_parse_simps
      message_finished_def)
  ultimately show ?thesis by blast
qed

lemma connack_sends:
  assumes "sendable (M_connack s)"
  shows "\<exists>m' f body. message_to_string mem (M_connack s) out =
       (m', out @ wire MQTT_CONNACK f body, True) \<and> reads_as pad (M_connack s) f body"
proof -
  let ?body = "[ca_conn_flags s, ca_connack_code s]"
  have "\<exists>m'. message_to_string mem (M_connack s) out =
      (m', out @ wire MQTT_CONNACK (hflags (mheader s)) ?body, True)"
    using assms by (simp add: sendable_def message_header_def message_type_def message_to_string_def
        connack_to_string_eq hdr_set_remaing_length_def wire_def numeral_2_eq_2 Let_def)
  moreover have "connack_inv (mqtt_connack_of h)" "\<not> ca_finished (mqtt_connack_of h)"
      "ca_dlen (mqtt_connack_of h) = 0" "\<not> ca_session (mqtt_connack_of h)" for h
    by (simp_all add: connack_inv_def mqtt_connack_of_def)
  then have "reads_as pad (M_connack s) (hflags (mheader s)) ?body"
    by (simp add: reads_as_def header_for_def create_message_def message_type_def message_parse_simps
        message_finished_def arrives_def connack_loop_body)
  ultimately show ?thesis by blast
qed

lemma publish_sends:
  assumes "sendable (M_publish s)"
  shows "\<exists>m' f body. message_to_string mem (M_publish s) out =
       (m', out @ wire MQTT_PUBLISH f body, True) \<and> reads_as pad (M_publish s) f body"
proof -
  let ?q = "hdr_get_qos (mheader s)"
  let ?body = "publish_body ?q (pb_topic s) (pb_pkt_id s) (pb_payload s)"
  from assms have ok: "publish_ok s" "?q = MQTT_QOS0 \<longrightarrow> pb_payload s \<noteq> []" and t: "htype (mheader s) = MQTT_PUBLISH"
    by (simp_all add: sendable_def message_header_def message_type_def)
  from publish_to_string_eq [OF ok(1), of mem out] t obtain h0 where
    w: "publish_to_string mem s out = (s\<lparr>mheader := h0\<rparr>, out @ wire MQTT_PUBLISH (hflags h0) ?body, True)"
    and q: "hdr_get_qos h0 = ?q" "hdr_is_dup h0 = (hdr_is_dup (mheader s) \<and> ?q \<noteq> MQTT_QOS0)" "hdr_is_remain h0 = hdr_is_remain (mheader s)" by auto
  have "reads_as pad (M_publish s) (hflags h0) ?body"
  proof (rule reads_asI [where mk = mqtt_publish_of and C = M_publish])
    fix h r assume "header_for (message_type (M_publish s)) (hflags h0) ?body h"
    with q have h: "hdlen h = of_nat (length ?body)" "hdr_get_qos h = ?q" and
        f: "hdr_is_dup h = (hdr_is_dup (mheader s) \<and> ?q \<noteq> MQTT_QOS0)" "hdr_is_remain h = hdr_is_remain (mheader s)"
      by (simp_all add: header_for_def hdr_get_qos_def hdr_is_dup_def hdr_is_remain_def)
    have "hdr_get_qos (mqtt_header_copy h) = hdr_get_qos h" "hdr_is_dup (mqtt_header_copy h) = hdr_is_dup h"
        "hdr_is_remain (mqtt_header_copy h) = hdr_is_remain h"
      by (simp_all add: hdr_get_qos_def hdr_is_dup_def hdr_is_remain_def mqtt_header_copy_def)
    moreover have "pb_payload_len s = of_nat (length (pb_payload s))"
      using ok(1) by (intro word_eq_of_unat) (simp add: publish_ok_def)
    moreover note publish_loop_body [OF _ _ ok(2) _ h, of r] ok(1) h(2) f
    ultimately
    show "\<exists>p. publish_loop (mqtt_publish_of h) (?body @ r) = (p, Rest r) \<and> pb_finished p \<and>
        arrives pad (M_publish s) (M_publish p)"
      by (fastforce simp: publish_ok_def arrives_def)
  qed (use ok(1) in \<open>simp_all add: publish_ok_def create_message_def message_type_def message_parse_simps
      message_finished_def\<close>)
  with w show ?thesis by (auto simp: message_to_string_def)
qed

lemma subscribe_sends:
  assumes "sendable (M_subscribe s)"
  shows "\<exists>m' f body. message_to_string mem (M_subscribe s) out =
       (m', out @ wire MQTT_SUBSCRIBE f body, True) \<and> reads_as pad (M_subscribe s) f body"
proof -
  let ?ts = "zip (sb_topics s) (sb_qoses s)"
  let ?body = "subscribe_body (sb_pkt_id s) ?ts"
  from assms have ok: "topics_ok ?ts" and l: "length (sb_topics s) = length (sb_qoses s)"
    and b: "sb_body_len s = of_nat (length (concat (map subscribe_entry ?ts)))"
    and t: "htype (mheader s) = MQTT_SUBSCRIBE"
    by (simp_all add: sendable_def message_header_def message_type_def)
  have m: "map fst ?ts = sb_topics s" "map snd ?ts = sb_qoses s" using l by simp_all
  have "reads_as pad (M_subscribe s) 0x2 ?body"
  proof (rule reads_asI [where mk = mqtt_subscribe_of and C = M_subscribe])
    fix h r assume "header_for (message_type (M_subscribe s)) 0x2 ?body h"
    then have "hdlen h = of_nat (length ?body)" by (simp add: header_for_def)
    from subscribe_loop_body [OF ok this, of r] m
    show "\<exists>p. subscribe_loop (mqtt_subscribe_of h) (?body @ r) = (p, Rest r) \<and> sb_finished p \<and>
        arrives pad (M_subscribe s) (M_subscribe p)"
      by (auto simp: arrives_def)
  qed (use ok length_subscribe_body [of "sb_pkt_id s" ?ts 0] in \<open>simp_all add: topics_ok_def create_message_def
      message_type_def message_parse_simps message_finished_def\<close>)
  with subscribe_to_string_eq [OF ok m(1) [symmetric] m(2) [symmetric] b, of out] t
  show ?thesis by (auto simp: message_to_string_def)
qed

lemma suback_sends:
  assumes "sendable (M_suback s)"
  shows "\<exists>m' f body. message_to_string mem (M_suback s) out =
       (m', out @ wire MQTT_SUBACK f body, True) \<and> reads_as pad (M_suback s) f body"
proof -
  let ?body = "suback_body (sa_pkt_id s) (sa_qoses s)"
  from assms have ok: "sa_qoses s \<noteq> []" "sa_body_len s = of_nat (length (sa_qoses s))" "length ?body < 268435456"
    and t: "htype (mheader s) = MQTT_SUBACK"
    by (simp_all add: sendable_def message_header_def message_type_def)
  have "map (qos_of_char \<circ> qos_char) qs = qs" for qs by (simp add: map_idI)
  then have "reads_as pad (M_suback s) (hflags (mheader s)) ?body"
    using ok suback_loop_body [of "map qos_char (sa_qoses s)"]
    by (intro reads_asI [where mk = mqtt_suback_of and C = M_suback and loop = suback_loop and fin = sa_finished])
       (auto simp: suback_body_def header_for_def create_message_def message_type_def message_parse_simps
         message_finished_def arrives_def)
  moreover from suback_to_string_eq [OF ok, of out] t
  have "\<exists>m'. message_to_string mem (M_suback s) out = (m', out @ wire MQTT_SUBACK (hflags (mheader s)) ?body, True)"
    by (auto simp: message_to_string_def)
  ultimately show ?thesis by blast
qed

lemma unsubscribe_sends:
  assumes "sendable (M_unsubscribe s)"
  shows "\<exists>m' f body. message_to_string mem (M_unsubscribe s) out =
       (m', out @ wire MQTT_UNSUBSCRIBE f body, True) \<and> reads_as pad (M_unsubscribe s) f body"
proof -
  let ?body = "unsubscribe_body (us_pkt_id s) (us_topics s)"
  from assms have ok: "unsub_topics_ok (us_topics s)"
    and b: "us_body_len s = of_nat (length (concat (map str_bytes (us_topics s))))"
    and t: "htype (mheader s) = MQTT_UNSUBSCRIBE" and l: "length (us_topics s) = 1"
    by (simp_all add: sendable_def message_header_def message_type_def)
  from l obtain tp where tp: "us_topics s = [tp]" by (auto simp: length_Suc_conv)
  have "reads_as pad (M_unsubscribe s) 0x2 ?body"
  proof (rule reads_asI [where mk = mqtt_unsubscribe_of and C = M_unsubscribe])
    fix h r assume "header_for (message_type (M_unsubscribe s)) 0x2 ?body h"
    then have "hdlen h = of_nat (length ?body)" by (simp add: header_for_def)
    with unsubscribe_loop_one [of tp h "us_pkt_id s" r] ok tp
    show "\<exists>p. unsubscribe_loop (mqtt_unsubscribe_of h) (?body @ r) = (p, Rest r) \<and> us_finished p \<and>
        arrives pad (M_unsubscribe s) (M_unsubscribe p)"
      by (auto simp: arrives_def)
  qed (use unsub_ok_zero [OF ok] in \<open>simp_all add: create_message_def
      message_type_def message_parse_simps message_finished_def\<close>)
  moreover from unsubscribe_to_string_eq [OF ok refl b, of out] t
  have "\<exists>m'. message_to_string mem (M_unsubscribe s) out = (m', out @ wire MQTT_UNSUBSCRIBE 0x2 ?body, True)"
    by (auto simp: message_to_string_def)
  ultimately show ?thesis by blast
qed

text \<open>Any sendable message.\<close>

lemma sendable_sends:
  assumes "sendable m"
  shows "\<exists>m' f body. message_to_string mem m out = (m', out @ wire (message_type m) f body, True) \<and>
     reads_as pad m f body"
proof (cases m)
  case (M_connect s)
  with connect_sends [of s mem out pad] assms show ?thesis by (simp add: message_type_def)
next
  case (M_connack s)
  with connack_sends [of s mem out pad] assms show ?thesis by (simp add: message_type_def)
next
  case (M_publish s)
  with publish_sends [of s mem out pad] assms show ?thesis by (simp add: message_type_def)
next
  case (M_subscribe s)
  with subscribe_sends [of s mem out pad] assms show ?thesis by (simp add: message_type_def)
next
  case (M_suback s)
  with suback_sends [of s mem out pad] assms show ?thesis by (simp add: message_type_def)
next
  case (M_unsubscribe s)
  with unsubscribe_sends [of s mem out pad] assms show ?thesis by (simp add: message_type_def)
qed (use acks_send [OF assms, of _ mem out pad] pings_send [OF assms, of _ mem out pad] in auto)

lemma message_type_valid: "MQTT_RESERVED_MIN < message_type m" "message_type m < MQTT_RESERVED_MAX"
  by (cases m; simp add: message_type_def less_mqtt_type_def)+

end
