(* ===== verification/Mqtt_Client.thy ===== *)
theory Mqtt_Client
  imports Mqtt_Factory
begin

text \<open>
  The client (cpp/include/nio/mqtt/mqtt_client.hpp, cpp/src/mqtt/mqtt_client.cpp): it parses
  what its connection reads, header and message in turn, and gives every finished message to
  the user's handler.
\<close>

subsection \<open>State and operations\<close>

record mqtt_client =
  cl_header :: mqtt_header              \<comment> \<open>\<open>*header_\<close>\<close>
  cl_message :: "message option"        \<comment> \<open>\<open>*message_\<close>, \<open>None\<close> for the null pointer\<close>

definition mqtt_client_new :: mqtt_client where
  "mqtt_client_new = \<lparr>cl_header = mqtt_header_new MQTT_RESERVED_MIN, cl_message = None\<rparr>"

text \<open>
  The second half of \<open>handle_data\<close>, behind a finished header: the message is fed and, once it
  is finished, given to the handler and replaced.  \<open>handler\<close> is \<open>message_handler_\<close>, \<open>None\<close>
  when it is not set; the second component of the result lists the messages it is called with.
  A result \<open>Rest r\<close> is the number of bytes left to process, \<open>Fail\<close> is \<open>-1\<close>.
\<close>

definition handle_body ::
  "(message \<Rightarrow> bool) option \<Rightarrow> mqtt_client \<Rightarrow> message \<Rightarrow> bytes \<Rightarrow> mqtt_client \<times> message list \<times> parse_result" where
  "handle_body handler c m data =
     (case message_parse m data of
        (m', Fail) \<Rightarrow> (c\<lparr>cl_message := Some m'\<rparr>, [], Fail)
      | (m', AssertFail) \<Rightarrow> (c\<lparr>cl_message := Some m'\<rparr>, [], AssertFail)
      | (m', Rest left) \<Rightarrow>
          if message_finished m' then
            let c2 = c\<lparr>cl_header := hdr_reset (cl_header c), cl_message := None\<rparr>
            in case handler of
                 None \<Rightarrow> (c2, [], Rest left)
               | Some f \<Rightarrow> (c2, [m'], if \<not> f m' then Fail else Rest left)
          else (c\<lparr>cl_message := Some m'\<rparr>, [], Rest left))"

definition handle_data ::
  "byte \<Rightarrow> (message \<Rightarrow> bool) option \<Rightarrow> mqtt_client \<Rightarrow> bytes \<Rightarrow> mqtt_client \<times> message list \<times> parse_result" where
  "handle_data pad handler c data =
     (case (if \<not> hfinished (cl_header c) then hdr_update (cl_header c) data else (cl_header c, Rest data)) of
        (h, Fail) \<Rightarrow> (c\<lparr>cl_header := h\<rparr>, [], Fail)
      | (h, AssertFail) \<Rightarrow> (c\<lparr>cl_header := h\<rparr>, [], AssertFail)
      | (h, Rest left) \<Rightarrow>
          let c1 = c\<lparr>cl_header := h\<rparr>
          in if \<not> hfinished h then (c1, [], if left \<noteq> [] then AssertFail else Rest [])
             else case cl_message c1 of
                    Some m \<Rightarrow> handle_body handler c1 m left
                  | None \<Rightarrow>
                      (case create_message pad h of
                         None \<Rightarrow> (c1, [], Fail)
                       | Some m \<Rightarrow> handle_body handler c1 m left))"

lemma hdr_update_shorter:
  "hdr_update h d = (h', Rest r) \<Longrightarrow> \<not> hfinished h \<Longrightarrow> hfinished h' \<Longrightarrow> length r < length d"
proof -
  assume a: "hdr_update h d = (h', Rest r)" "\<not> hfinished h" "hfinished h'"
  then have d: "d \<noteq> []" "hdr_loop h d = (h', Rest r)" by (auto simp: hdr_update_def split: if_splits)
  from d(2,1) a(2) obtain h1 r1 where "hdr_handle h d = (h1, Rest r1)" "hdr_loop h1 r1 = (h', Rest r)"
    by (rule hdr.loop_stepE)
  then have "length r1 < length d" "length r \<le> length r1"
    using d(1) by (auto dest: hdr_handle_length hdr.upd_length)
  then show ?thesis by simp
qed

text \<open>With bytes left over, some were consumed or the header has been reset.\<close>

lemma handle_data_moves:
  assumes "handle_data pad handler c d = (c', ms, Rest r)" "r \<noteq> []"
  shows "length r < length d \<or> length r \<le> length d \<and> hfinished (cl_header c) \<and> \<not> hfinished (cl_header c')"
proof -
  obtain h left m m' where
    h: "(if \<not> hfinished (cl_header c) then hdr_update (cl_header c) d else (cl_header c, Rest d)) = (h, Rest left)"
    and fin: "hfinished h" and p: "message_parse m left = (m', Rest r)"
    and c': "message_finished m' \<Longrightarrow> cl_header c' = hdr_reset h"
    using assms
    by (auto simp: handle_data_def handle_body_def Let_def
        split: prod.splits parse_result.splits if_splits option.splits)
  have "message_finished m'" using p assms(2) by (rule msg.upd_left)
  with c' have "\<not> hfinished (cl_header c')" by (simp add: hdr_reset_def)
  moreover have "length r \<le> length left" using p by (rule msg.upd_length)
  moreover have "hfinished (cl_header c) \<and> left = d \<or> length left < length d"
    using h fin by (auto split: if_splits dest: hdr_update_shorter)
  ultimately show ?thesis by auto
qed

text \<open>
  The loop of the read callback: \<open>handle_data\<close> again on what is left.  The last component is
  \<open>Rest []\<close> when the callback returns, \<open>Fail\<close> when it closes the connection.
\<close>

function client_loop ::
  "byte \<Rightarrow> (message \<Rightarrow> bool) option \<Rightarrow> mqtt_client \<Rightarrow> bytes \<Rightarrow> mqtt_client \<times> message list \<times> parse_result" where
  "client_loop pad handler c data =
     (case handle_data pad handler c data of
        (c1, ms, Rest left) \<Rightarrow>
          if left \<noteq> [] then
            (case client_loop pad handler c1 left of (c2, ms', x) \<Rightarrow> (c2, ms @ ms', x))
          else (c1, ms, Rest [])
      | (c1, ms, e) \<Rightarrow> (c1, ms, e))"
  by pat_completeness auto
termination
  by (relation "measures [\<lambda>(pad, handler, c, d). length d,
        \<lambda>(pad, handler, c, d). if hfinished (cl_header c) then 1 else 0]")
     (auto dest!: handle_data_moves [OF sym])

declare client_loop.simps [simp del]

text \<open>
  The callback that \<open>read_await\<close> registers.  An event is the expiry of the timer or the
  result of \<open>conn_.read\<close>: the bytes read, at most 1024, or none when it returned 0 or an
  error.  The flag of the result says whether \<open>conn_.close_await\<close> is called.  \<open>timeout\<close> is
  \<open>timeout_handler_\<close> applied to the client, \<open>None\<close> when not set.
\<close>

datatype read_event = Expired | Got bytes

definition on_read ::
  "byte \<Rightarrow> (message \<Rightarrow> bool) option \<Rightarrow> bool option \<Rightarrow> mqtt_client \<Rightarrow> read_event \<Rightarrow>
     (mqtt_client \<times> message list \<times> bool) option" where
  "on_read pad handler timeout c ev =
     (case ev of
        Expired \<Rightarrow> Some (c, [], timeout = None \<or> timeout = Some False)
      | Got data \<Rightarrow>
          if data = [] then Some (c, [], True)
          else case client_loop pad handler c data of
                 (c', ms, Rest _) \<Rightarrow> Some (c', ms, False)
               | (c', ms, Fail) \<Rightarrow> Some (c', ms, True)
               | (c', ms, AssertFail) \<Rightarrow> None)"

text \<open>\<open>send_await\<close>: the bytes given to \<open>conn_.write\<close>, or \<open>None\<close> when it returns false.\<close>

definition send_await :: "bytes \<Rightarrow> message \<Rightarrow> message \<times> bytes option" where
  "send_await mem m =
     (case message_to_string mem m [] of (m', out, ok) \<Rightarrow>
        if \<not> ok \<or> out = [] then (m', None) else (m', Some out))"

subsection \<open>Invariant\<close>

text \<open>A header that the parser finishes has a type for which there is a class.\<close>

definition type_valid :: "mqtt_header \<Rightarrow> bool" where
  "type_valid h \<longleftrightarrow> (hstatus h = STAT_HDR_LEN \<longrightarrow> MQTT_RESERVED_MIN < htype h \<and> htype h < MQTT_RESERVED_MAX)
     \<and> (hfinished h \<longrightarrow> hstatus h = STAT_HDR_LEN)"

lemma type_valid_handle:
  "type_valid h \<Longrightarrow> hdr_handle h d = (h', x) \<Longrightarrow> type_valid h'"
  by (auto simp: type_valid_def hdr_handle_def update_header_type_def update_header_len_def Let_def
      less_mqtt_type_def type_code_of_type not_le split: hdr_status.splits list.splits if_splits prod.splits)

lemma type_valid_loop: "type_valid h \<Longrightarrow> type_valid (fst (hdr_loop h d))"
proof (induction h d rule: hdr_loop.induct)
  case (1 h d)
  then show ?case
    by (subst hdr_loop.simps)
       (auto split: prod.splits parse_result.splits dest: type_valid_handle)
qed

text \<open>There is a message only behind a finished header, and it is not finished.\<close>

definition client_inv :: "mqtt_client \<Rightarrow> bool" where
  "client_inv c \<longleftrightarrow> hdr_inv (cl_header c) \<and> type_valid (cl_header c) \<and>
     (case cl_message c of
        None \<Rightarrow> \<not> hfinished (cl_header c)
      | Some m \<Rightarrow> hfinished (cl_header c) \<and> message_inv m \<and> \<not> message_finished m)"

lemma client_inv_new: "client_inv mqtt_client_new"
  by (simp add: client_inv_def mqtt_client_new_def hdr_inv_def mqtt_header_new_def type_valid_def)

lemma type_valid_reset: "type_valid (hdr_reset h)"
  by (simp add: type_valid_def hdr_reset_def)

lemma hdr_inv_reset [simp]: "hdr_inv (hdr_reset h) = hdr_inv h"
  by (simp add: hdr_inv_def hdr_reset_def)

text \<open>The second half of \<open>handle_data\<close>.\<close>

lemma body_inv:
  assumes "message_inv m" "hfinished (cl_header c)" "hdr_inv (cl_header c)" "type_valid (cl_header c)"
    "handle_body handler c m d = (c', ms, x)"
  shows "x \<noteq> AssertFail" "x \<noteq> Fail \<Longrightarrow> client_inv c'"
proof -
  obtain m' y where p: "message_parse m d = (m', y)" by fastforce
  with msg.upd_inv [OF assms(1), of d] msg.upd_safe [OF assms(1), of d] have "message_inv m'" "y \<noteq> AssertFail"
    by simp_all
  with p assms show "x \<noteq> AssertFail" "x \<noteq> Fail \<Longrightarrow> client_inv c'"
    by (auto simp: handle_body_def client_inv_def type_valid_reset hdr_reset_def hdr_inv_def type_valid_def Let_def
        split: parse_result.splits if_splits option.splits)
qed

lemma body_resume:
  assumes "message_inv m"
  shows "handle_body handler c m (a @ b) =
     (case handle_body handler c m a of
        (c1, ms, Rest left) \<Rightarrow>
          (case cl_message c1 of
             None \<Rightarrow> (c1, ms, Rest (left @ b))
           | Some m1 \<Rightarrow> handle_body handler c1 m1 b)
      | (c1, ms, e) \<Rightarrow> (c1, ms, e))"
proof -
  obtain m' y where p: "message_parse m a = (m', y)" by fastforce
  note ab = msg.upd_resume [OF assms, of a b, unfolded p]
  show ?thesis
  proof (cases y)
    case (Rest r)
    show ?thesis
    proof (cases "message_finished m'")
      case True
      with Rest p ab show ?thesis
        by (auto simp: handle_body_def msg.upd_fin Let_def split: option.splits)
    next
      case False
      with Rest p have "r = []" using msg.upd_left by blast
      with False Rest p ab show ?thesis
        by (auto simp: handle_body_def Let_def split: option.splits prod.splits parse_result.splits)
    qed
  qed (use p ab in \<open>simp_all add: handle_body_def\<close>)
qed

text \<open>All of it.\<close>

lemma hdr_loop_update: "d \<noteq> [] \<Longrightarrow> hdr_update h d = hdr_loop h d"
  by (simp add: hdr_update_def)

lemma handle_data_inv:
  assumes "client_inv c" "d \<noteq> []" "handle_data pad handler c d = (c', ms, x)"
  shows "x \<noteq> AssertFail" "x \<noteq> Fail \<Longrightarrow> client_inv c'"
proof -
  let ?h = "cl_header c"
  have i: "hdr_inv ?h" "type_valid ?h" using assms(1) by (simp_all add: client_inv_def)
  have "x \<noteq> AssertFail \<and> (x \<noteq> Fail \<longrightarrow> client_inv c')"
  proof (cases "hfinished ?h")
    case True
    with assms(1) obtain m where "cl_message c = Some m" "message_inv m"
      by (auto simp: client_inv_def split: option.splits)
    with True body_inv [of m c handler d c' ms x] i assms(3) show ?thesis
      by (simp add: handle_data_def)
  next
    case False
    with assms(1) have n: "cl_message c = None" by (auto simp: client_inv_def split: option.splits)
    obtain h y where h: "hdr_loop ?h d = (h, y)" by fastforce
    with hdr.upd_inv [OF i(1), of d] type_valid_loop [OF i(2), of d] hdr.upd_safe [OF i(1), of d]
    have ih: "hdr_inv h" "type_valid h" "y \<noteq> AssertFail" by simp_all
    show ?thesis
    proof (cases "\<exists>r. y = Rest r \<and> hfinished h")
      case True
      then obtain r where y: "y = Rest r" "hfinished h" by blast
      with ih(2) obtain m where m: "create_message pad h = Some m"
        using create_message_Some [of pad h] by (auto simp: type_valid_def)
      have "handle_body handler (c\<lparr>cl_header := h\<rparr>) m r = (c', ms, x)"
        using assms(2,3) False n h y m by (simp add: handle_data_def hdr_loop_update)
      with body_inv [OF create_message_inv [OF m], of "c\<lparr>cl_header := h\<rparr>" handler r c' ms x] y(2) ih
      show ?thesis by simp
    next
      case nf: False
      have "r = []" if "y = Rest r" for r
        using that nf h hdr.upd_left by blast
      with nf ih assms(2,3) False n h show ?thesis
        by (cases y) (auto simp: handle_data_def hdr_loop_update client_inv_def Let_def split: if_splits)
    qed
  qed
  then show "x \<noteq> AssertFail" "x \<noteq> Fail \<Longrightarrow> client_inv c'" by blast+
qed

text \<open>Cutting the input of one call in two.\<close>

definition same_when_cut ::
  "byte \<Rightarrow> (message \<Rightarrow> bool) option \<Rightarrow> mqtt_client \<Rightarrow> bytes \<Rightarrow> bytes \<Rightarrow> bool" where
  "same_when_cut pad handler c a b \<longleftrightarrow>
     (case handle_data pad handler c a of
        (c1, ms, Rest left) \<Rightarrow>
          handle_data pad handler c (a @ b) = (c1, ms, Rest (left @ b)) \<or>
          left = [] \<and> ms = [] \<and> handle_data pad handler c (a @ b) = handle_data pad handler c1 b
      | (c1, ms, e) \<Rightarrow> handle_data pad handler c (a @ b) = (c1, ms, e))"

lemma body_cut:
  assumes "message_inv m" "hfinished (cl_header c)"
    "handle_data pad handler c' a = handle_body handler c m d"
    "handle_data pad handler c' (a @ b) = handle_body handler c m (d @ b)"
  shows "same_when_cut pad handler c' a b"
proof -
  obtain c1 ms x where h: "handle_body handler c m d = (c1, ms, x)" by (metis prod_cases3)
  have "left = [] \<and> ms = [] \<and> hfinished (cl_header c1)" if "x = Rest left" "cl_message c1 = Some m1" for left m1
    using that h assms(2) msg.upd_left
    by (auto simp: handle_body_def Let_def split: prod.splits parse_result.splits if_splits option.splits)
  with h assms(3,4) body_resume [OF assms(1), of handler c d b] show ?thesis
    by (cases x) (auto simp: same_when_cut_def handle_data_def split: option.splits)
qed

lemma handle_data_resume:
  assumes "client_inv c" "a \<noteq> []" "b \<noteq> []"
  shows "same_when_cut pad handler c a b"
proof -
  let ?h = "cl_header c"
  have i: "hdr_inv ?h" "type_valid ?h" using assms(1) by (simp_all add: client_inv_def)
  show ?thesis
  proof (cases "hfinished ?h")
    case True
    with assms(1) obtain m where m: "cl_message c = Some m" "message_inv m"
      by (auto simp: client_inv_def split: option.splits)
    show ?thesis
      by (rule body_cut [OF m(2) True]) (use True m in \<open>simp_all add: handle_data_def\<close>)
  next
    case False
    with assms(1) have n: "cl_message c = None" by (auto simp: client_inv_def split: option.splits)
    obtain h y where h: "hdr_loop ?h a = (h, y)" by fastforce
    with type_valid_loop [OF i(2), of a] have tv: "type_valid h" by simp
    note ab = hdr.upd_resume [OF i(1), of a b, unfolded h]
    show ?thesis
    proof (cases y)
      case (Rest r)
      show ?thesis
      proof (cases "hfinished h")
        case True
        with tv obtain m where m: "create_message pad h = Some m"
          using create_message_Some [of pad h] by (auto simp: type_valid_def)
        show ?thesis
          by (rule body_cut [OF create_message_inv [OF m], of "c\<lparr>cl_header := h\<rparr>" _ _ _ _ r])
             (use True False n m Rest h ab assms(2) in
               \<open>simp_all add: handle_data_def hdr_loop_update hdr.upd_fin\<close>)
      next
        case nf: False
        with Rest h have "r = []" using hdr.upd_left by blast
        with nf False n Rest h ab assms(2,3) show ?thesis
          by (simp add: same_when_cut_def handle_data_def hdr_loop_update Let_def)
      qed
    qed (use False h ab assms(2) in \<open>simp_all add: same_when_cut_def handle_data_def hdr_loop_update\<close>)
  qed
qed

text \<open>The loop of the callback.\<close>

lemma client_loop_inv:
  assumes "client_inv c" "d \<noteq> []"
  shows "case client_loop pad handler c d of (c', ms, x) \<Rightarrow>
     x \<noteq> AssertFail \<and> (x = Rest [] \<and> client_inv c' \<or> x = Fail)"
  using assms
proof (induction pad handler c d rule: client_loop.induct)
  case (1 pad handler c d)
  obtain c1 ms x where h: "handle_data pad handler c d = (c1, ms, x)" by (metis prod_cases3)
  from handle_data_inv [OF "1.prems" h] have x: "x \<noteq> AssertFail" "x \<noteq> Fail \<Longrightarrow> client_inv c1" by blast+
  show ?case
  proof (cases "\<exists>r. x = Rest r \<and> r \<noteq> []")
    case True
    then obtain r where r: "x = Rest r" "r \<noteq> []" by blast
    obtain c2 ms2 y where l: "client_loop pad handler c1 r = (c2, ms2, y)" by (metis prod_cases3)
    from "1.IH" [OF h [symmetric] refl r(1) r(2)] x(2) r l h show ?thesis
      by (simp add: client_loop.simps [of pad handler c])
  next
    case False
    with h x show ?thesis
      by (cases x) (simp_all add: client_loop.simps [of pad handler c])
  qed
qed

lemma client_loop_resume:
  assumes "client_inv c" "a \<noteq> []" "b \<noteq> []"
  shows "client_loop pad handler c (a @ b) =
     (case client_loop pad handler c a of
        (c1, ms, Rest r) \<Rightarrow> (case client_loop pad handler c1 b of (c2, ms', x) \<Rightarrow> (c2, ms @ ms', x))
      | (c1, ms, e) \<Rightarrow> (c1, ms, e))"
  using assms
proof (induction pad handler c a rule: client_loop.induct)
  case (1 pad handler c a)
  obtain c1 ms x where h: "handle_data pad handler c a = (c1, ms, x)" by (metis prod_cases3)
  from handle_data_inv [OF "1.prems"(1,2) h] have x: "x \<noteq> Fail \<Longrightarrow> client_inv c1" by blast
  note cut = handle_data_resume [OF "1.prems", of pad handler, unfolded same_when_cut_def h]
  show ?case
  proof (cases x)
    case (Rest left)
    show ?thesis
    proof (cases "left = []")
      case True
      with Rest cut h "1.prems"(3) show ?thesis
        by (auto simp: client_loop.simps [of pad handler c] client_loop.simps [of pad handler c1 b]
            split: prod.splits parse_result.splits)
    next
      case False
      have "handle_data pad handler c (a @ b) = (c1, ms, Rest (left @ b))"
        using cut Rest False by simp
      with "1.IH" [OF h [symmetric] refl Rest False] x Rest False h "1.prems"(3) show ?thesis
        by (auto simp: client_loop.simps [of pad handler c] split: prod.splits parse_result.splits)
    qed
  qed (use cut h in \<open>simp_all add: client_loop.simps [of pad handler c]\<close>)
qed

text \<open>The successive reads of a connection.\<close>

fun client_reads ::
  "byte \<Rightarrow> (message \<Rightarrow> bool) option \<Rightarrow> mqtt_client \<Rightarrow> bytes list \<Rightarrow> mqtt_client \<times> message list \<times> parse_result" where
  "client_reads pad handler c [] = (c, [], Rest [])"
| "client_reads pad handler c (d # ds) =
     (case client_loop pad handler c d of
        (c1, ms, Rest r) \<Rightarrow> (case client_reads pad handler c1 ds of (c2, ms', x) \<Rightarrow> (c2, ms @ ms', x))
      | (c1, ms, e) \<Rightarrow> (c1, ms, e))"

lemma client_reads_concat:
  "client_inv c \<Longrightarrow> list_all (\<lambda>d. d \<noteq> []) ds \<Longrightarrow> ds \<noteq> [] \<Longrightarrow>
     client_reads pad handler c ds = client_loop pad handler c (concat ds)"
proof (induction ds arbitrary: c)
  case (Cons d ds)
  obtain c1 ms x where l: "client_loop pad handler c d = (c1, ms, x)" by (metis prod_cases3)
  have d: "d \<noteq> []" using Cons.prems(2) by simp
  from client_loop_inv [OF Cons.prems(1) d, of pad handler] l
  have x: "x = Rest [] \<and> client_inv c1 \<or> x = Fail" by simp
  show ?case
  proof (cases "ds = []")
    case True
    with l x show ?thesis by auto
  next
    case False
    then have "concat ds \<noteq> []" using Cons.prems(2) by (cases ds) auto
    with client_loop_resume [OF Cons.prems(1) d this, of pad handler] l x Cons.IH [of c1] Cons.prems(2) False
    show ?thesis by auto
  qed
qed simp

subsection \<open>From sender to handler\<close>

definition client_fresh :: "mqtt_client \<Rightarrow> bool" where
  "client_fresh c \<longleftrightarrow> hstatus (cl_header c) = STAT_HDR_TYPE \<and> \<not> hfinished (cl_header c) \<and>
     length (hbuf (cl_header c)) = 4 \<and> cl_message c = None"

lemma client_fresh_new: "client_fresh mqtt_client_new"
  by (simp add: client_fresh_def mqtt_client_new_def mqtt_header_new_def)

lemma wire_nonempty [simp]: "wire t f body \<noteq> []"
  by (simp add: wire_def)

lemma handle_data_wire:
  assumes "client_fresh c" "reads_as pad m fl body" "\<forall>p. f p"
  shows "\<exists>c1 p. handle_data pad (Some f) c (wire (message_type m) fl body @ r) = (c1, [p], Rest r) \<and>
     client_fresh c1 \<and> arrives pad m p"
proof -
  let ?h = "(cl_header c)\<lparr>htype := message_type m, hflags := fl, hstatus := STAT_HDR_LEN,
      hlen := length (vbi (length body)),
      hbuf := vbi (length body) @ drop (length (vbi (length body))) (hbuf (cl_header c)),
      hdlen := of_nat (length body), hfinished := True\<rparr>"
  have n: "length body < 268435456" using assms(2) by (simp add: reads_as_def)
  have c: "hstatus (cl_header c) = STAT_HDR_TYPE" "\<not> hfinished (cl_header c)"
    "length (hbuf (cl_header c)) = 4" "cl_message c = None"
    using assms(1) by (simp_all add: client_fresh_def)
  have "length (vbi (length body)) \<le> 4" by (rule length_vbi) (use n in simp_all)
  then have hb: "length (hbuf ?h) = 4" using c(3) by simp
  have hl: "hdr_update (cl_header c) (wire (message_type m) fl body @ r) = (?h, Rest (body @ r))"
    using hdr_loop_wire [OF c(1-3) message_type_valid [of m] n, of fl "body @ r"]
    by (simp add: hdr_update_def wire_def)
  have "header_for (message_type m) fl body ?h" by (simp add: header_for_def)
  then obtain m0 p where p: "create_message pad ?h = Some m0" "message_parse m0 (body @ r) = (p, Rest r)"
      "message_finished p" "arrives pad m p"
    using assms(2) unfolding reads_as_def by blast
  let ?c1 = "c\<lparr>cl_header := hdr_reset ?h, cl_message := None\<rparr>"
  have "handle_data pad (Some f) c (wire (message_type m) fl body @ r) =
      handle_body (Some f) (c\<lparr>cl_header := ?h\<rparr>) m0 (body @ r)"
    unfolding handle_data_def hl using c(2,4) p(1) by simp
  also have "\<dots> = (?c1, [p], Rest r)"
    using p(2,3) assms(3) by (simp add: handle_body_def Let_def)
  finally show ?thesis
    using p(4) hb by (auto simp: client_fresh_def hdr_reset_def)
qed

lemma client_loop_wires:
  assumes "client_fresh c" "list_all sendable ms" "ms \<noteq> []" "\<forall>p. f p"
    "map (\<lambda>m. snd (send_await mem m)) ms = map Some outs"
  shows "\<exists>c1 ps. client_loop pad (Some f) c (concat outs) = (c1, ps, Rest []) \<and> list_all2 (arrives pad) ms ps"
  using assms
proof (induction ms arbitrary: c outs)
  case (Cons m ms)
  from Cons.prems(5) obtain w outs' where o: "outs = w # outs'" "snd (send_await mem m) = Some w"
      "map (\<lambda>m. snd (send_await mem m)) ms = map Some outs'"
    by (cases outs) auto
  from Cons.prems(2) have "sendable m" by simp
  from sendable_sends [OF this, of mem "[]" pad] o(2) obtain fl body where
    w: "w = wire (message_type m) fl body" and r: "reads_as pad m fl body"
    by (auto simp: send_await_def)
  from handle_data_wire [OF Cons.prems(1) r Cons.prems(4), of "concat outs'"] obtain c1 p where
    h: "handle_data pad (Some f) c (w @ concat outs') = (c1, [p], Rest (concat outs'))"
      "client_fresh c1" "arrives pad m p"
    unfolding w by blast
  show ?case
  proof (cases "ms = []")
    case True
    with o h show ?thesis by (simp add: client_loop.simps [of pad _ c])
  next
    case False
    then obtain m1 ms1 where "ms = m1 # ms1" by (cases ms) auto
    with Cons.prems(2) o(3) have ne: "concat outs' \<noteq> []"
      by (cases outs') (auto simp: send_await_def split: prod.splits if_splits)
    from Cons.IH [OF h(2) _ False Cons.prems(4) o(3)] Cons.prems(2) obtain c2 ps where
      "client_loop pad (Some f) c1 (concat outs') = (c2, ps, Rest [])" "list_all2 (arrives pad) ms ps" by auto
    with h o(1) ne show ?thesis by (simp add: client_loop.simps [of pad _ c])
  qed
qed simp

text \<open>The bytes of several messages, cut into reads.\<close>

lemma wires_delivered:
  assumes "list_all sendable ms" "\<forall>p. f p" "map (\<lambda>m. snd (send_await mem m)) ms = map Some outs"
    "concat ds = concat outs" "list_all (\<lambda>d. d \<noteq> []) ds"
  shows "\<exists>c ps. client_reads pad (Some f) mqtt_client_new ds = (c, ps, Rest []) \<and> list_all2 (arrives pad) ms ps"
proof (cases "ms = []")
  case True
  with assms(3-5) have "ds = []" by (cases ds) auto
  with True show ?thesis by simp
next
  case False
  from client_loop_wires [OF client_fresh_new assms(1) False assms(2,3), of pad] obtain c ps where
    l: "client_loop pad (Some f) mqtt_client_new (concat outs) = (c, ps, Rest [])" "list_all2 (arrives pad) ms ps"
    by blast
  have "outs \<noteq> []" using False assms(3) by auto
  moreover have "hd outs \<noteq> []"
    using assms(3) False by (cases outs; cases ms) (auto simp: send_await_def split: prod.splits if_splits)
  ultimately have "ds \<noteq> []" using assms(4) by (cases outs) auto
  with client_reads_concat [OF client_inv_new assms(5)] assms(4) l show ?thesis by auto
qed

subsection \<open>Properties of the client\<close>

text \<open>
  C9: whatever bytes arrive in whatever reads, the client never fails an assertion: after each
  sequence of reads it has used up the bytes and is in a consistent state, or it closes the
  connection.
\<close>

theorem client_never_aborts:
  assumes "list_all (\<lambda>d. d \<noteq> []) ds" "client_reads pad handler mqtt_client_new ds = (c, ms, x)"
  shows "x = Rest [] \<and> client_inv c \<or> x = Fail"
proof (cases "ds = []")
  case True
  with assms(2) client_inv_new show ?thesis by auto
next
  case False
  with assms(1) have "concat ds \<noteq> []" by (cases ds) auto
  from client_loop_inv [OF client_inv_new this, of pad handler]
    client_reads_concat [OF client_inv_new assms(1) False, of pad handler] assms(2)
  show ?thesis by auto
qed

theorem client_never_aborts_witness:
  "\<exists>c ms x. client_reads 0 None mqtt_client_new [[0xff], [0x12]] = (c, ms, x) \<and>
     (x = Rest [] \<and> client_inv c \<or> x = Fail)"
proof -
  obtain c ms x where "client_reads 0 None mqtt_client_new [[0xff], [0x12]] = (c, ms, x)"
    by (metis prod_cases3)
  with client_never_aborts [OF _ this] show ?thesis by auto
qed

text \<open>
  C8: what the client delivers, the state it is left in and whether it closes the connection
  do not depend on how the stream is cut into reads.
\<close>

theorem client_cut_independent:
  assumes "list_all (\<lambda>d. d \<noteq> []) ds" "list_all (\<lambda>d. d \<noteq> []) ds'" "concat ds = concat ds'"
  shows "client_reads pad handler mqtt_client_new ds = client_reads pad handler mqtt_client_new ds'"
proof (cases "ds = [] \<or> ds' = []")
  case True
  with assms have "ds = [] \<and> ds' = []" by (cases ds; cases ds') auto
  then show ?thesis by simp
next
  case False
  with assms client_reads_concat [OF client_inv_new] show ?thesis by simp
qed

theorem client_cut_independent_witness:
  "client_reads 0 None mqtt_client_new [[0xc0], [0x00, 0xd0], [0x00]] =
   client_reads 0 None mqtt_client_new [[0xc0, 0x00], [0xd0, 0x00]]"
  by (rule client_cut_independent) simp_all

text \<open>
  C1: any sequence of sendable messages (\<open>sendable\<close>: messages short enough for their length fields, no message without payload at QoS 0 and no
  unsubscribe request of more than one topic) is serialized by \<open>send_await\<close> without error, and when the concatenation of their bytes
  reaches a new client, in reads of any size, whose handler never answers false, the handler gets one message for each
  of them, in order, and the connection stays open.  Each message is what \<open>arrives\<close> says: the one that was sent, but for the
  keep-alive and the will level of a connect request, a will without a topic or a message, the session member of a connack, and the duplicate flag and packet id at QoS 0.
\<close>

theorem client_delivers:
  assumes "list_all sendable ms" "\<forall>p. f p"
  shows "\<exists>outs. map (\<lambda>m. snd (send_await mem m)) ms = map Some outs \<and>
     (\<forall>ds. concat ds = concat outs \<longrightarrow> list_all (\<lambda>d. d \<noteq> []) ds \<longrightarrow>
        (\<exists>c ps. client_reads pad (Some f) mqtt_client_new ds = (c, ps, Rest []) \<and> list_all2 (arrives pad) ms ps))"
proof -
  have "\<exists>w. snd (send_await mem m) = Some w" if "m \<in> set ms" for m
    using that assms(1) sendable_sends [of m mem "[]" pad]
    by (auto simp: send_await_def list_all_iff)
  then have "\<exists>outs. map (\<lambda>m. snd (send_await mem m)) ms = map Some outs"
    by (intro exI [of _ "map (\<lambda>m. the (snd (send_await mem m))) ms"]) auto
  then obtain outs where o: "map (\<lambda>m. snd (send_await mem m)) ms = map Some outs" by blast
  with wires_delivered [OF assms o] show ?thesis by blast
qed

theorem client_delivers_witness:
  "\<exists>c ps. client_reads 0 (Some (\<lambda>_. True)) mqtt_client_new [[0xc0], [0x00, 0x40, 0x02, 0x00], [0x07]] =
     (c, ps, Rest []) \<and>
     list_all2 (arrives 0) [M_pingreq mqtt_pingreq_new, M_puback (ack_set_pkt_id 7 mqtt_puback_new)] ps"
proof -
  let ?ms = "[M_pingreq mqtt_pingreq_new, M_puback (ack_set_pkt_id 7 mqtt_puback_new)]"
  have s: "list_all sendable ?ms"
    by (simp add: sendable_def message_header_def message_type_def mqtt_pingreq_new_def mqtt_message_new_def
        mqtt_header_new_def ack_set_pkt_id_def mqtt_puback_new_def mqtt_ack_new_def)
  have o: "map (\<lambda>m. snd (send_await [] m)) ?ms = map Some [[0xc0, 0x00], [0x40, 0x02, 0x00, 0x07]]"
    by (simp add: send_await_def message_to_string_def ping_to_string_eq ack_to_string_eq first_byte_def
        vbi.simps short_bytes_def mosq_msb_def mosq_lsb_def hdr_set_remaing_length_def Let_def
        mqtt_pingreq_new_def mqtt_message_new_def mqtt_header_new_def ack_set_pkt_id_def mqtt_puback_new_def
        mqtt_ack_new_def)
  from client_delivers [OF s, of "\<lambda>_. True" "[]" 0] obtain outs where
    "map (\<lambda>m. snd (send_await [] m)) ?ms = map Some outs"
    and d: "\<And>ds. concat ds = concat outs \<Longrightarrow> list_all (\<lambda>d. d \<noteq> []) ds \<Longrightarrow>
      \<exists>c ps. client_reads 0 (Some (\<lambda>_. True)) mqtt_client_new ds = (c, ps, Rest []) \<and> list_all2 (arrives 0) ?ms ps"
    by blast
  with o have "outs = [[0xc0, 0x00], [0x40, 0x02, 0x00, 0x07]]" by (metis inj_map_eq_map inj_Some)
  with d [of "[[0xc0], [0x00, 0x40, 0x02, 0x00], [0x07]]"] show ?thesis by simp
qed

text \<open>
  The announced length of an acknowledgement is not used: after the header of a puback
  that announces any length, the client takes the next two bytes as packet id, delivers the
  puback and goes on behind them.  With length 0 it swallows the start of the next message.
\<close>

theorem client_ack_length_ignored:
  assumes "n < 268435456" "\<forall>p. f p"
  shows "\<exists>c p. handle_data pad (Some f) mqtt_client_new
       (first_byte MQTT_PUBACK fl # vbi n @ short_bytes i @ r) = (c, [M_puback p], Rest r) \<and>
     ak_pkt_id p = i \<and> hdlen (mheader p) = of_nat n"
proof -
  let ?new = "mqtt_header_new MQTT_RESERVED_MIN"
  let ?h = "?new\<lparr>htype := MQTT_PUBACK, hflags := fl, hstatus := STAT_HDR_LEN, hlen := length (vbi n),
      hbuf := vbi n @ drop (length (vbi n)) (hbuf ?new), hdlen := of_nat n, hfinished := True\<rparr>"
  have "hdr_update ?new (first_byte MQTT_PUBACK fl # vbi n @ short_bytes i @ r) = (?h, Rest (short_bytes i @ r))"
  proof -
    have "hdr_loop ?new (first_byte MQTT_PUBACK fl # vbi n @ short_bytes i @ r) = (?h, Rest (short_bytes i @ r))"
      by (rule hdr_loop_wire)
         (use assms(1) in \<open>simp_all add: mqtt_header_new_def less_mqtt_type_def\<close>)
    then show ?thesis by (simp only: hdr_update_def list.simps if_False)
  qed
  moreover have "create_message pad ?h = Some (M_puback (mqtt_puback_of ?h))"
    by (simp add: create_message_def)
  moreover have "\<exists>p. message_parse (M_puback (mqtt_puback_of ?h)) (short_bytes i @ r) = (M_puback p, Rest r) \<and>
      ak_finished p \<and> ak_pkt_id p = i \<and> hdlen (mheader p) = of_nat n"
    using ack_loop_body [of "mqtt_puback_of ?h" i r]
    by (simp add: message_parse_simps mqtt_puback_of_def mqtt_ack_of_def ack_inv_def mqtt_message_of_def
        mqtt_header_copy_def)
  ultimately show ?thesis
    using assms(2)
    by (auto simp: handle_data_def handle_body_def mqtt_client_new_def message_finished_def mqtt_header_new_def Let_def)
qed

theorem client_ack_length_ignored_witness:
  "\<exists>c p. handle_data 0 (Some (\<lambda>_. True)) mqtt_client_new [0x40, 0x00, 0xc0, 0x00] = (c, [M_puback p], Rest []) \<and>
     ak_pkt_id p = 0xc000"
proof -
  have "first_byte MQTT_PUBACK 0 # vbi 0 @ short_bytes 0xc000 @ [] = [0x40, 0x00, 0xc0, 0x00]"
    by (simp add: first_byte_def vbi.simps short_bytes_def mosq_msb_def mosq_lsb_def)
  with client_ack_length_ignored [of 0 "\<lambda>_. True" 0 0 "0xc000" "[]"] show ?thesis by auto
qed

end
