(* ===== verification/Nio_Timer.thy ===== *)
theory Nio_Timer
  imports Prelude "HOL-Library.Signed_Division"
begin

text \<open>
  The timers of the event loop (cpp/src/nio_event.cpp, cpp/include/nio/nio_event.hpp,
  cpp/include/nio/event_timer.hpp, cpp/src/event_timer.cpp) and the timeout they leave for the
  poller (\<open>nio_event_wait2\<close> in c/src/nio_event.c).

  Stamps are nanoseconds in a \<open>long long\<close>, an \<open>int\<close> here; the code never reaches the end of
  its range.  Timers are named by their address, of type \<open>'t\<close>.
\<close>

subsection \<open>State and operations\<close>

text \<open>
  \<open>std::multimap<long long, event_timer *>\<close>: the pairs in the order of iteration.  A pair is
  inserted behind the pairs with the same key.
\<close>

record 't timer_queue =
  tq_counter :: u32                     \<comment> \<open>\<open>counter_\<close>\<close>
  tq_timers :: "(int \<times> 't) list"       \<comment> \<open>\<open>timers_\<close>\<close>
  tq_expire :: "'t \<Rightarrow> int"             \<comment> \<open>the member \<open>stamp_\<close> of every timer\<close>

definition timer_queue_new :: "'t timer_queue" where
  "timer_queue_new = \<lparr>tq_counter = 0, tq_timers = [], tq_expire = (\<lambda>_. 0)\<rparr>"

definition MS2NS :: int where "MS2NS = 1000000"

fun mm_insert :: "int \<Rightarrow> 't \<Rightarrow> (int \<times> 't) list \<Rightarrow> (int \<times> 't) list" where
  "mm_insert k t [] = [(k, t)]"
| "mm_insert k t (x # xs) = (if k < fst x then (k, t) # x # xs else x # mm_insert k t xs)"

definition set_expire :: "'t \<Rightarrow> int \<Rightarrow> 't timer_queue \<Rightarrow> 't timer_queue" where
  "set_expire tm when q = q\<lparr>tq_expire := (tq_expire q)(tm := when)\<rparr>"

definition get_expire :: "'t \<Rightarrow> 't timer_queue \<Rightarrow> int" where
  "get_expire tm q = tq_expire q tm"

definition add_timer :: "int \<Rightarrow> 't \<Rightarrow> int \<Rightarrow> 't timer_queue \<Rightarrow> 't timer_queue" where
  "add_timer stamp tm ms q =
     (let when = stamp + ms * MS2NS + int (unat (tq_counter q mod 1000000));
          q1 = set_expire tm when (q\<lparr>tq_counter := tq_counter q + 1\<rparr>)
      in q1\<lparr>tq_timers := mm_insert when tm (tq_timers q1)\<rparr>)"

text \<open>The first pair of the range with the timer's key that has the timer is erased.\<close>

definition del_timer :: "'t \<Rightarrow> 't timer_queue \<Rightarrow> 't timer_queue" where
  "del_timer tm q = q\<lparr>tq_timers := remove1 (get_expire tm q, tm) (tq_timers q)\<rparr>"

definition reset_timer :: "int \<Rightarrow> 't \<Rightarrow> int \<Rightarrow> 't timer_queue \<Rightarrow> 't timer_queue" where
  "reset_timer stamp tm ms q = add_timer stamp tm ms (del_timer tm q)"

text \<open>
  The first half of \<open>trigger_timers\<close>: the expired timers leave the queue; the second half
  calls \<open>on_timer\<close> on them in this order.
\<close>

definition expire_timers :: "int \<Rightarrow> 't timer_queue \<Rightarrow> 't timer_queue \<times> 't list" where
  "expire_timers stamp q =
     (q\<lparr>tq_timers := dropWhile (\<lambda>x. \<not> fst x > stamp) (tq_timers q)\<rparr>,
      map snd (takeWhile (\<lambda>x. \<not> fst x > stamp) (tq_timers q)))"

text \<open>
  The timeout of \<open>wait\<close>.  The cast to \<open>int\<close> binds tighter than the division: the difference
  in nanoseconds is cut to 32 bits first.
\<close>

definition wait_timeout :: "int \<Rightarrow> int \<Rightarrow> 't timer_queue \<Rightarrow> int" where
  "wait_timeout stamp ms q =
     (case tq_timers q of
        [] \<Rightarrow> ms
      | x # _ \<Rightarrow>
          let delay = sint (word_of_int (fst x - stamp) :: 32 word) sdiv MS2NS
          in if delay > 0 \<and> delay < ms then delay else ms)"

text \<open>The timeout that \<open>nio_event_wait2\<close> gives to the poller; \<open>evt\<close> is \<open>ev->timeout\<close>.\<close>

definition wait2_timeout :: "int \<Rightarrow> int \<Rightarrow> int" where
  "wait2_timeout evt timeout =
     (let t = (if evt < 0 then (if timeout < 0 then 100 else timeout)
               else if timeout < 0 then evt
               else if timeout > evt then evt
               else timeout)
      in if t > 1000 \<or> t < 0 then 100 else t)"

subsection \<open>Invariant and abstraction\<close>

text \<open>
  The keys ascend, no timer is queued twice, and each is queued under the stamp it remembers.
\<close>

definition tq_inv :: "'t timer_queue \<Rightarrow> bool" where
  "tq_inv q \<longleftrightarrow> sorted (map fst (tq_timers q)) \<and> distinct (map snd (tq_timers q)) \<and>
     list_all (\<lambda>x. fst x = tq_expire q (snd x)) (tq_timers q)"

text \<open>What the queue stands for: the armed timers with their expiry.\<close>

definition armed :: "'t timer_queue \<Rightarrow> 't \<Rightarrow> int option" where
  "armed q = map_of (map (\<lambda>x. (snd x, fst x)) (tq_timers q))"

definition expiry :: "int \<Rightarrow> int \<Rightarrow> 't timer_queue \<Rightarrow> int" where
  "expiry stamp ms q = stamp + ms * MS2NS + int (unat (tq_counter q mod 1000000))"

lemma set_mm_insert [simp]: "set (mm_insert k t xs) = insert (k, t) (set xs)"
  by (induction xs) auto

lemma sorted_mm_insert: "sorted (map fst xs) \<Longrightarrow> sorted (map fst (mm_insert k t xs))"
  by (induction xs) (auto intro: order_trans less_imp_le)

lemma distinct_mm_insert:
  "distinct (map snd (mm_insert k t xs)) \<longleftrightarrow> t \<notin> snd ` set xs \<and> distinct (map snd xs)"
  by (induction xs) auto

lemma count_mm_insert: "count_list (map snd (mm_insert k t xs)) u = count_list (map snd xs) u + of_bool (t = u)"
  by (induction xs) auto

lemma distinct_count: "distinct xs \<Longrightarrow> count_list xs x \<le> 1"
  by (induction xs) auto

lemma list_all_mm_insert: "list_all P (mm_insert k t xs) \<longleftrightarrow> P (k, t) \<and> list_all P xs"
  by (induction xs) auto

lemma map_of_mm_insert:
  "t \<notin> snd ` set xs \<Longrightarrow> map_of (map (\<lambda>x. (snd x, fst x)) (mm_insert k t xs)) =
     (map_of (map (\<lambda>x. (snd x, fst x)) xs))(t \<mapsto> k)"
  by (induction xs) (auto simp: fun_upd_twist)

lemma armed_None: "armed q t = None \<longleftrightarrow> t \<notin> snd ` set (tq_timers q)"
  by (simp add: armed_def map_of_eq_None_iff image_image)

lemma armed_Some: "tq_inv q \<Longrightarrow> armed q t = Some k \<longleftrightarrow> (k, t) \<in> set (tq_timers q)"
  by (force simp: armed_def tq_inv_def image_iff comp_def intro!: map_of_is_SomeI dest!: map_of_SomeD)

lemma armed_expire: "tq_inv q \<Longrightarrow> armed q t = Some k \<Longrightarrow> tq_expire q t = k"
  by (auto simp: armed_Some tq_inv_def list_all_iff)

lemma tq_inv_new [simp]: "tq_inv timer_queue_new"
  by (simp add: tq_inv_def timer_queue_new_def)

lemma armed_new [simp]: "armed timer_queue_new = Map.empty"
  by (simp add: armed_def timer_queue_new_def)

lemma add_timer_eq:
  "add_timer stamp tm ms q =
     q\<lparr>tq_counter := tq_counter q + 1, tq_expire := (tq_expire q)(tm := expiry stamp ms q),
       tq_timers := mm_insert (expiry stamp ms q) tm (tq_timers q)\<rparr>"
  by (simp add: add_timer_def Let_def set_expire_def expiry_def)

lemma add_timer_inv:
  assumes "tq_inv q" "armed q tm = None"
  shows "tq_inv (add_timer stamp tm ms q)"
  using assms
  by (auto simp: tq_inv_def armed_None add_timer_eq sorted_mm_insert distinct_mm_insert
      list_all_mm_insert list_all_iff image_iff)

lemma add_timer_armed:
  "armed q tm = None \<Longrightarrow> armed (add_timer stamp tm ms q) = (armed q)(tm \<mapsto> expiry stamp ms q)"
  unfolding armed_None by (simp add: armed_def add_timer_eq map_of_mm_insert)

lemma sorted_remove1_fst: "sorted (map fst xs) \<Longrightarrow> sorted (map fst (remove1 x xs))"
  by (induction xs) (auto dest: set_remove1_subset [THEN subsetD])

lemma distinct_remove1_snd: "distinct (map snd xs) \<Longrightarrow> distinct (map snd (remove1 x xs))"
  by (induction xs) (auto dest: set_remove1_subset [THEN subsetD])

lemma del_timer_inv: "tq_inv q \<Longrightarrow> tq_inv (del_timer tm q)"
  by (auto simp: tq_inv_def del_timer_def sorted_remove1_fst distinct_remove1_snd list_all_iff
      dest: set_remove1_subset [THEN subsetD])

lemma del_timer_armed:
  assumes "tq_inv q"
  shows "armed (del_timer tm q) = (armed q)(tm := None)"
proof
  fix t
  have d: "distinct (tq_timers q)" using assms by (auto simp: tq_inv_def distinct_map)
  have "armed (del_timer tm q) t = Some k \<longleftrightarrow> ((armed q)(tm := None)) t = Some k" for k
    using assms d
    by (auto simp: armed_Some del_timer_inv) (auto simp: del_timer_def get_expire_def tq_inv_def list_all_iff)
  then show "armed (del_timer tm q) t = ((armed q)(tm := None)) t" by (metis option.exhaust)
qed

lemma del_timer_counter [simp]: "tq_counter (del_timer tm q) = tq_counter q"
  by (simp add: del_timer_def)

lemma expiry_cong: "tq_counter q = tq_counter q' \<Longrightarrow> expiry stamp ms q = expiry stamp ms q'"
  by (simp add: expiry_def)


text \<open>Expiry: the due timers are a prefix of the queue.\<close>

lemma takeWhile_sorted: "sorted (map fst xs) \<Longrightarrow> takeWhile (\<lambda>x. \<not> fst x > s) xs = filter (\<lambda>x. fst x \<le> (s :: int)) xs"
proof (induction xs)
  case (Cons x xs)
  show ?case
  proof (cases "fst x \<le> s")
    case False
    then have "filter (\<lambda>x. fst x \<le> s) xs = []" using Cons.prems by (fastforce simp: filter_empty_conv)
    with False show ?thesis by simp
  qed (use Cons in auto)
qed simp

lemma dropWhile_sorted: "sorted (map fst xs) \<Longrightarrow> dropWhile (\<lambda>x. \<not> fst x > s) xs = filter (\<lambda>x. s < fst x) (xs :: (int \<times> 't) list)"
proof (induction xs)
  case (Cons x xs)
  show ?case
  proof (cases "fst x \<le> s")
    case False
    then have "filter (\<lambda>x. s < fst x) xs = xs" using Cons.prems by (fastforce simp: filter_id_conv)
    with False show ?thesis by simp
  qed (use Cons in auto)
qed simp

lemma expire_timers_eq:
  "tq_inv q \<Longrightarrow> expire_timers s q =
     (q\<lparr>tq_timers := filter (\<lambda>x. s < fst x) (tq_timers q)\<rparr>, map snd (filter (\<lambda>x. fst x \<le> s) (tq_timers q)))"
  by (simp add: expire_timers_def tq_inv_def takeWhile_sorted dropWhile_sorted)

lemma expire_inv: "tq_inv q \<Longrightarrow> tq_inv (fst (expire_timers s q))"
  by (auto simp: expire_timers_eq) (auto simp: tq_inv_def sorted_filter distinct_map_filter list_all_iff)

lemma expire_armed:
  assumes "tq_inv q"
  shows "armed (fst (expire_timers s q)) t = (case armed q t of Some k \<Rightarrow> if k \<le> s then None else Some k | None \<Rightarrow> None)"
proof -
  have "armed (fst (expire_timers s q)) t = Some k \<longleftrightarrow> s < k \<and> armed q t = Some k" for k
    unfolding armed_Some [OF assms] armed_Some [OF expire_inv [OF assms]]
    using assms by (auto simp: expire_timers_eq)
  moreover define x y where "x = armed (fst (expire_timers s q)) t" and "y = armed q t"
  ultimately have "x = Some k \<longleftrightarrow> s < k \<and> y = Some k" for k by simp
  from this [of "the x"] this [of "the y"] have "x = (case y of Some k \<Rightarrow> if k \<le> s then None else Some k | None \<Rightarrow> None)"
    by (cases x; cases y) auto
  then show ?thesis by (simp add: x_def y_def)
qed

lemma expire_due: "tq_inv q \<Longrightarrow> t \<in> set (snd (expire_timers s q)) \<longleftrightarrow> (\<exists>k. k \<le> s \<and> armed q t = Some k)"
  by (force simp: expire_timers_eq armed_Some)

lemma expire_distinct: "tq_inv q \<Longrightarrow> distinct (snd (expire_timers s q))"
  by (simp add: expire_timers_eq) (simp add: tq_inv_def distinct_map_filter)

lemma expire_sorted: "tq_inv q \<Longrightarrow> sorted (map (\<lambda>t. tq_expire q t) (snd (expire_timers s q)))"
proof -
  assume i: "tq_inv q"
  then have "map (tq_expire q) (map snd xs) = map fst xs" if "set xs \<subseteq> set (tq_timers q)" for xs
    using that by (force simp: tq_inv_def list_all_iff)
  then have "map (tq_expire q) (snd (expire_timers s q)) = map fst (filter (\<lambda>x. fst x \<le> s) (tq_timers q))"
    using i by (simp add: expire_timers_eq del: map_map)
  then show ?thesis using i by (simp only:) (simp add: tq_inv_def sorted_filter)
qed

subsection \<open>The contract of a timer queue\<close>

text \<open>
  Calls to a timer queue: a timer is reset to expire \<open>ms\<close> after the stamp, deleted, or the
  queue is triggered.  \<open>replay\<close> carries them out and collects the timers fired.
\<close>

datatype 't timer_call = Reset int 't int | Del 't | Trigger int

fun replay ::
  "(int \<Rightarrow> 't \<Rightarrow> int \<Rightarrow> 'q \<Rightarrow> 'q) \<Rightarrow> ('t \<Rightarrow> 'q \<Rightarrow> 'q) \<Rightarrow> (int \<Rightarrow> 'q \<Rightarrow> 'q \<times> 't list) \<Rightarrow>
     't timer_call list \<Rightarrow> 'q \<Rightarrow> 'q \<times> 't list" where
  "replay reset del expire [] q = (q, [])"
| "replay reset del expire (Reset s t ms # cs) q = replay reset del expire cs (reset s t ms q)"
| "replay reset del expire (Del t # cs) q = replay reset del expire cs (del t q)"
| "replay reset del expire (Trigger s # cs) q =
     (case expire s q of (q1, ts) \<Rightarrow> case replay reset del expire cs q1 of (q2, us) \<Rightarrow> (q2, ts @ us))"

primrec touches :: "'t \<Rightarrow> 't timer_call \<Rightarrow> bool" where
  "touches t (Reset s u ms) = (u = t)"
| "touches t (Del u) = (u = t)"
| "touches t (Trigger s) = False"

fun trigger_stamps :: "'t timer_call list \<Rightarrow> int list" where
  "trigger_stamps [] = []"
| "trigger_stamps (Trigger s # cs) = s # trigger_stamps cs"
| "trigger_stamps (_ # cs) = trigger_stamps cs"

lemma count_distinct: "distinct xs \<Longrightarrow> x \<in> set xs \<Longrightarrow> count_list xs x = 1"
  by (induction xs) (auto simp: count_notin)

locale deadlines =
  fixes inv :: "'q \<Rightarrow> bool"
    and due :: "'q \<Rightarrow> 't \<Rightarrow> int option"
    and reset :: "int \<Rightarrow> 't \<Rightarrow> int \<Rightarrow> 'q \<Rightarrow> 'q"
    and del :: "'t \<Rightarrow> 'q \<Rightarrow> 'q"
    and expire :: "int \<Rightarrow> 'q \<Rightarrow> 'q \<times> 't list"
  assumes inv_reset: "inv q \<Longrightarrow> inv (reset s t ms q)"
    and due_reset: "inv q \<Longrightarrow> \<exists>k. s + ms * MS2NS \<le> k \<and> k < s + (ms + 1) * MS2NS \<and>
                      due (reset s t ms q) = (due q)(t \<mapsto> k)"
    and inv_del: "inv q \<Longrightarrow> inv (del t q)"
    and due_del: "inv q \<Longrightarrow> due (del t q) = (due q)(t := None)"
    and inv_expire: "inv q \<Longrightarrow> inv (fst (expire s q))"
    and due_expire: "inv q \<Longrightarrow> due (fst (expire s q)) t =
                       (case due q t of Some k \<Rightarrow> if k \<le> s then None else Some k | None \<Rightarrow> None)"
    and expired: "inv q \<Longrightarrow> t \<in> set (snd (expire s q)) \<longleftrightarrow> (\<exists>k. k \<le> s \<and> due q t = Some k)"
    and expired_once: "inv q \<Longrightarrow> distinct (snd (expire s q))"
begin

lemma replay_inv: "inv q \<Longrightarrow> inv (fst (replay reset del expire cs q))"
proof (induction cs arbitrary: q)
  case (Cons c cs)
  then show ?case
    using inv_expire [OF Cons.prems]
    by (cases c) (auto simp: inv_reset inv_del split: prod.splits, metis fst_conv)
qed simp

lemma replay_unarmed:
  assumes "inv q" "due q t = None" "list_all (\<lambda>c. \<not> touches t c) cs"
  shows "due (fst (replay reset del expire cs q)) t = None \<and> t \<notin> set (snd (replay reset del expire cs q))"
  using assms
proof (induction cs arbitrary: q)
  case (Cons c cs)
  show ?case
  proof (cases c)
    case (Reset s u ms)
    obtain e where "due (reset s u ms q) = (due q)(u \<mapsto> e)" using due_reset [OF Cons.prems(1)] by blast
    then have "due (reset s u ms q) t = due q t" using Reset Cons.prems(3) by auto
    with Reset Cons.prems Cons.IH [OF inv_reset [OF Cons.prems(1)], of s u ms] show ?thesis by simp
  next
    case (Del u)
    then have "due (del u q) t = due q t" using Cons.prems by (auto simp: due_del)
    with Del Cons.prems Cons.IH [OF inv_del [OF Cons.prems(1)], of u] show ?thesis by simp
  next
    case (Trigger s)
    obtain q1 ts where e: "expire s q = (q1, ts)" by fastforce
    then have "inv q1" "due q1 t = None" "t \<notin> set ts"
      using inv_expire [OF Cons.prems(1), of s] due_expire [OF Cons.prems(1), of s t]
        expired [OF Cons.prems(1), of t s] Cons.prems(2) by auto
    with Cons.IH [of q1] Cons.prems(3) Trigger e show ?thesis by (auto split: prod.splits)
  qed
qed simp

lemma replay_armed:
  assumes "inv q" "due q t = Some k" "list_all (\<lambda>c. \<not> touches t c) cs"
  shows "(if \<exists>s \<in> set (trigger_stamps cs). k \<le> s
          then due (fst (replay reset del expire cs q)) t = None \<and>
               count_list (snd (replay reset del expire cs q)) t = 1
          else due (fst (replay reset del expire cs q)) t = Some k \<and>
               t \<notin> set (snd (replay reset del expire cs q)))"
  using assms
proof (induction cs arbitrary: q)
  case (Cons c cs)
  show ?case
  proof (cases c)
    case (Reset s u ms)
    obtain e where "due (reset s u ms q) = (due q)(u \<mapsto> e)" using due_reset [OF Cons.prems(1)] by blast
    then have "due (reset s u ms q) t = due q t" using Reset Cons.prems(3) by auto
    with Reset Cons.prems Cons.IH [OF inv_reset [OF Cons.prems(1)], of s u ms] show ?thesis by simp
  next
    case (Del u)
    then have "due (del u q) t = due q t" using Cons.prems by (auto simp: due_del)
    with Del Cons.prems Cons.IH [OF inv_del [OF Cons.prems(1)], of u] show ?thesis by simp
  next
    case (Trigger s)
    obtain q1 ts where e: "expire s q = (q1, ts)" by fastforce
    have i: "inv q1" using inv_expire [OF Cons.prems(1), of s] e by simp
    have d: "due q1 t = (if k \<le> s then None else Some k)" "t \<in> set ts \<longleftrightarrow> k \<le> s" "distinct ts"
      using due_expire [OF Cons.prems(1), of s t] expired [OF Cons.prems(1), of t s]
        expired_once [OF Cons.prems(1), of s] Cons.prems(2) e by auto
    obtain q2 us where r: "replay reset del expire cs q1 = (q2, us)" by fastforce
    show ?thesis
    proof (cases "k \<le> s")
      case True
      with d(1) Cons.prems(3) have "due q2 t = None \<and> t \<notin> set us"
        using replay_unarmed [OF i, of t cs] r by simp
      with True Trigger e r d show ?thesis by (simp add: count_distinct count_notin)
    next
      case False
      with Cons.IH [OF i] d Cons.prems(3) Trigger e r show ?thesis by (auto simp: count_notin split: if_splits)
    qed
  qed
qed simp

end


text \<open>The timers of the event loop keep the contract.\<close>

lemma reset_armed:
  "tq_inv q \<Longrightarrow> armed (reset_timer s t ms q) = (armed q)(t \<mapsto> expiry s ms q)"
  by (simp add: reset_timer_def add_timer_armed del_timer_armed expiry_def)

lemma expiry_bounds: "s + ms * MS2NS \<le> expiry s ms q \<and> expiry s ms q < s + (ms + 1) * MS2NS"
proof -
  have "tq_counter q mod 1000000 < 1000000" by (rule word_mod_less_divisor) simp
  then have "uint (tq_counter q mod 1000000) < 1000000" by (simp add: word_less_def)
  then show ?thesis by (simp add: expiry_def MS2NS_def algebra_simps)
qed

interpretation tmr: deadlines tq_inv armed reset_timer del_timer expire_timers
proof
  fix q :: "'a timer_queue" and s ms t
  assume i: "tq_inv q"
  show "tq_inv (reset_timer s t ms q)"
    unfolding reset_timer_def using i by (intro add_timer_inv del_timer_inv) (simp_all add: del_timer_armed)
  show "\<exists>k. s + ms * MS2NS \<le> k \<and> k < s + (ms + 1) * MS2NS \<and> armed (reset_timer s t ms q) = (armed q)(t \<mapsto> k)"
    using expiry_bounds [of s ms q] reset_armed [OF i, of s t ms] by auto
  show "tq_inv (del_timer t q)" using i by (rule del_timer_inv)
  show "armed (del_timer t q) = (armed q)(t := None)" using i by (rule del_timer_armed)
  show "tq_inv (fst (expire_timers s q))" using i by (rule expire_inv)
  show "armed (fst (expire_timers s q)) t =
      (case armed q t of Some k \<Rightarrow> if k \<le> s then None else Some k | None \<Rightarrow> None)"
    using i by (rule expire_armed)
  show "t \<in> set (snd (expire_timers s q)) \<longleftrightarrow> (\<exists>k. k \<le> s \<and> armed q t = Some k)"
    using i by (rule expire_due)
  show "distinct (snd (expire_timers s q))" using i by (rule expire_distinct)
qed

text \<open>The timeout: small differences survive the cast and the division.\<close>

lemma sint_small: "- (2 ^ 31) \<le> d \<Longrightarrow> d < 2 ^ 31 \<Longrightarrow> sint (word_of_int d :: 32 word) = d"
  by (subst sint_sbintrunc') (simp add: signed_take_bit_int_eq_self)

lemma sdiv_delay: "MS2NS \<le> d \<Longrightarrow> d < 2 ^ 31 \<Longrightarrow> sint (word_of_int d :: 32 word) sdiv MS2NS = d div MS2NS"
  by (simp add: sint_small MS2NS_def signed_divide_int_def)

lemma sdiv_zero: "0 \<le> d \<Longrightarrow> d < MS2NS \<Longrightarrow> sint (word_of_int d :: 32 word) sdiv MS2NS = 0"
  by (simp add: sint_small MS2NS_def signed_divide_int_def)

lemma wait2_bounds: "0 \<le> wait2_timeout evt t \<and> wait2_timeout evt t \<le> 1000"
  by (simp add: wait2_timeout_def Let_def)

subsection \<open>Properties\<close>

text \<open>
  C34: a timer that is reset and then left alone, whatever happens to the other timers, is fired
  exactly once, at the first trigger whose stamp has reached its expiry, and is disarmed by
  that; until then it stays armed.  Its expiry lies less than a millisecond behind the time
  asked for.
\<close>

theorem timer_fires_once:
  assumes "tq_inv q" "list_all (\<lambda>c. \<not> touches t c) cs"
    "replay reset_timer del_timer expire_timers cs (reset_timer s t ms q) = (q', fired)"
  shows "\<exists>k. s + ms * MS2NS \<le> k \<and> k < s + (ms + 1) * MS2NS \<and> tq_inv q' \<and>
     (if \<exists>u \<in> set (trigger_stamps cs). k \<le> u
      then armed q' t = None \<and> count_list fired t = 1
      else armed q' t = Some k \<and> t \<notin> set fired)"
proof -
  let ?q = "reset_timer s t ms q"
  have "armed ?q t = Some (expiry s ms q)" using assms(1) by (simp add: reset_armed)
  from tmr.replay_armed [OF tmr.inv_reset [OF assms(1)] this assms(2)]
    tmr.replay_inv [OF tmr.inv_reset [OF assms(1)], of cs s t ms] expiry_bounds [of s ms q] assms(3)
  show ?thesis by (intro exI [of _ "expiry s ms q"]) (simp split: if_splits)
qed

theorem timer_fires_once_witness:
  "\<exists>q' fired. replay reset_timer del_timer expire_timers [Reset 0 (8 :: nat) 1, Trigger 2500000]
       (reset_timer 0 7 2 timer_queue_new) = (q', fired) \<and>
     (\<exists>k. 0 + 2 * MS2NS \<le> k \<and> k < 0 + (2 + 1) * MS2NS \<and> tq_inv q' \<and>
       (if \<exists>u \<in> set (trigger_stamps [Reset 0 (8 :: nat) 1, Trigger 2500000]). k \<le> u
        then armed q' 7 = None \<and> count_list fired 7 = 1
        else armed q' 7 = Some k \<and> 7 \<notin> set fired))"
proof -
  have "list_all (\<lambda>c. \<not> touches 7 c) [Reset 0 (8 :: nat) 1, Trigger 2500000]" by simp
  from timer_fires_once [OF tq_inv_new this surjective_pairing]
  show ?thesis by (rule pair_witness)
qed

text \<open>
  A trigger fires exactly the timers whose expiry has come, each once and in the order of
  their expiry, and keeps the others armed.
\<close>

theorem trigger_fires_due:
  assumes "tq_inv q" "expire_timers s q = (q', ts)"
  shows "distinct ts \<and> set ts = {t. \<exists>k. armed q t = Some k \<and> k \<le> s} \<and>
     sorted (map (\<lambda>t. the (armed q t)) ts) \<and> tq_inv q' \<and>
     (\<forall>t. armed q' t = (if t \<in> set ts then None else armed q t))"
proof -
  have s: "set ts = {t. \<exists>k. armed q t = Some k \<and> k \<le> s}"
    using expire_due [OF assms(1), of _ s] assms(2) by auto
  have "the (armed q t) = tq_expire q t" if "t \<in> set ts" for t
    using that s armed_expire [OF assms(1), of t] by auto
  then have "map (\<lambda>t. the (armed q t)) ts = map (tq_expire q) ts" by simp
  then have "sorted (map (\<lambda>t. the (armed q t)) ts)"
    using expire_sorted [OF assms(1), of s] assms(2) by (simp only: snd_conv)
  moreover have "armed q' t = (if t \<in> set ts then None else armed q t)" for t
    using expire_armed [OF assms(1), of s t] assms(2) s by (auto split: option.splits)
  ultimately show ?thesis
    using s expire_distinct [OF assms(1), of s] expire_inv [OF assms(1), of s] assms(2) by simp
qed

theorem trigger_fires_due_witness:
  "\<exists>q' ts. expire_timers 5 (reset_timer 0 (7 :: nat) 0 timer_queue_new) = (q', ts) \<and> distinct ts \<and>
     set ts = {t. \<exists>k. armed (reset_timer 0 (7 :: nat) 0 timer_queue_new) t = Some k \<and> k \<le> 5} \<and>
     sorted (map (\<lambda>t. the (armed (reset_timer 0 (7 :: nat) 0 timer_queue_new) t)) ts) \<and> tq_inv q' \<and>
     (\<forall>t. armed q' t = (if t \<in> set ts then None else armed (reset_timer 0 (7 :: nat) 0 timer_queue_new) t))"
  by (rule pair_witness) (rule trigger_fires_due [OF tmr.inv_reset [OF tq_inv_new] surjective_pairing])

text \<open>A timer that is due within a millisecond, or overdue, does not shorten the wait.\<close>

lemma sdiv_due:
  assumes "- (2 ^ 31) \<le> d" "d < MS2NS"
  shows "sint (word_of_int d :: 32 word) sdiv MS2NS \<le> 0"
proof -
  have "signed_take_bit 31 d = d" using assms by (intro signed_take_bit_int_eq_self) (simp_all add: MS2NS_def)
  then have "sint (word_of_int d :: 32 word) = d" by (simp add: sint_sbintrunc')
  moreover have "d sdiv MS2NS \<le> 0"
    using assms(2) by (cases "d < 0") (simp_all add: signed_divide_int_def MS2NS_def sgn_if)
  ultimately show ?thesis by simp
qed

text \<open>
  C35: the poller is always asked to wait between 0 and 1000 milliseconds.  For a first timer whose expiry is less than 2^31
  nanoseconds (about 2.1 seconds) away, and a timeout of the caller that is not negative: when the expiry is at least a millisecond
  away, the wait ends before the timer is due; when it is nearer, or at most 2^31 nanoseconds past, the timer does not
  shorten the wait, which is the caller's.
\<close>

theorem wait_before_timer:
  "0 \<le> wait2_timeout evt (wait_timeout stamp ms q) \<and> wait2_timeout evt (wait_timeout stamp ms q) \<le> 1000 \<and>
   (tq_timers q = (k, t) # xs \<and> - (2 ^ 31) \<le> k - stamp \<and> k - stamp < 2 ^ 31 \<and> 0 \<le> ms \<longrightarrow>
     (if MS2NS \<le> k - stamp then stamp + wait2_timeout evt (wait_timeout stamp ms q) * MS2NS \<le> k
      else wait_timeout stamp ms q = ms))"
proof -
  have "stamp + wait2_timeout evt (wait_timeout stamp ms q) * MS2NS \<le> k"
    if a: "tq_timers q = (k, t) # xs" "MS2NS \<le> k - stamp" "k - stamp < 2 ^ 31" "0 \<le> ms"
  proof -
    let ?d = "(k - stamp) div MS2NS"
    have d: "sint (word_of_int (k - stamp) :: 32 word) sdiv MS2NS = ?d" "1 \<le> ?d" "?d * MS2NS \<le> k - stamp"
      using sdiv_delay [OF a(2,3)] a(2) by (auto simp: MS2NS_def)
    have w: "0 \<le> wait_timeout stamp ms q" "wait_timeout stamp ms q \<le> ?d"
      using a(1,4) d(1,2) by (auto simp: wait_timeout_def Let_def)
    let ?t = "wait2_timeout evt (wait_timeout stamp ms q)"
    have "?t \<le> wait_timeout stamp ms q" using w(1) by (auto simp: wait2_timeout_def Let_def)
    with w(2) have "?t * MS2NS \<le> ?d * MS2NS" by (simp add: MS2NS_def)
    with d(3) show ?thesis by simp
  qed
  moreover have "wait_timeout stamp ms q = ms"
    if a: "tq_timers q = (k, t) # xs" "- (2 ^ 31) \<le> k - stamp" "k - stamp < MS2NS"
    using a(1) sdiv_due [OF a(2,3)] by (simp add: wait_timeout_def Let_def)
  ultimately show ?thesis using wait2_bounds [of evt] by (simp add: not_le)
qed

theorem wait_before_timer_witness:
  "wait2_timeout (- 1) (wait_timeout 0 500 (reset_timer 0 (7 :: nat) 2 timer_queue_new)) = 2 \<and>
   0 + wait2_timeout (- 1) (wait_timeout 0 500 (reset_timer 0 (7 :: nat) 2 timer_queue_new)) * MS2NS \<le> 2000000 \<and>
   wait_timeout 1999999 500 (reset_timer 0 (7 :: nat) 2 timer_queue_new) = 500"
proof -
  let ?q = "reset_timer 0 (7 :: nat) 2 timer_queue_new"
  have q: "tq_timers ?q = (2000000, 7) # []"
    by (simp add: timer_queue_new_def reset_timer_def add_timer_eq del_timer_def expiry_def MS2NS_def)
  have "wait2_timeout (- 1) (wait_timeout 0 500 ?q) = 2"
    using q by (simp add: wait_timeout_def wait2_timeout_def signed_divide_int_def MS2NS_def)
  with wait_before_timer [of "- 1" 0 500 ?q 2000000 7 "[]"] wait_before_timer [of "- 1" 1999999 500 ?q 2000000 7 "[]"] q
  show ?thesis by (simp add: MS2NS_def)
qed

text \<open>
  A timer that is not the first one since the loop was created carries some nanoseconds
  more than the milliseconds asked for.  When the loop wakes up at the millisecond asked for,
  the timer does not fire, and the next wait takes the caller's whole timeout: the timer is
  late by that timeout.
\<close>

theorem timer_late_by_timeout:
  assumes "tq_counter q mod 1000000 \<noteq> 0" "tq_timers q = []" "now = stamp + n * MS2NS" "1 \<le> ms" "ms \<le> 1000"
  shows "snd (expire_timers now (add_timer stamp t n q)) = [] \<and>
     wait_timeout now ms (add_timer stamp t n q) = ms \<and> wait2_timeout (- 1) ms = ms \<and>
     the (armed (add_timer stamp t n q) t) < now + ms * MS2NS"
proof -
  define c where "c = int (unat (tq_counter q mod 1000000))"
  have e: "expiry stamp n q = now + c" using assms(3) by (simp add: expiry_def c_def)
  have c: "0 < c" "c < MS2NS"
    using assms(1) expiry_bounds [of stamp n q] e assms(3) unat_gt_0 [of "tq_counter q mod 1000000"]
    by (auto simp: c_def algebra_simps simp del: of_nat_unat)
  have "sint (word_of_int c :: 32 word) sdiv MS2NS = 0" using c by (simp add: sdiv_zero)
  moreover have "tq_timers (add_timer stamp t n q) = [(now + c, t)]"
    using assms(2) e by (simp add: add_timer_eq)
  moreover have "c < ms * MS2NS" using c assms(4) by (simp add: MS2NS_def)
  ultimately show ?thesis
    using c(1) assms(4,5) by (simp add: expire_timers_def wait_timeout_def wait2_timeout_def armed_def)
qed

theorem timer_late_by_timeout_witness:
  "snd (expire_timers (0 + 5 * MS2NS) (add_timer 0 (7 :: nat) 5 (timer_queue_new\<lparr>tq_counter := 3\<rparr>))) = [] \<and>
   wait_timeout (0 + 5 * MS2NS) 1000 (add_timer 0 (7 :: nat) 5 (timer_queue_new\<lparr>tq_counter := 3\<rparr>)) = 1000"
  using timer_late_by_timeout [of "timer_queue_new\<lparr>tq_counter := 3\<rparr>" "0 + 5 * MS2NS" 0 5 1000 "7 :: nat"]
  by (simp add: timer_queue_new_def)

end
