(* ===== verification/Nio_Array.thy ===== *)
theory Nio_Array
  imports Prelude
begin

text \<open>
  The dynamic array of pointers (c/src/common/nio_array.c, nio_array.h) and its iterator
  (iterator.h).  The C comments call positions outside \<open>0 .. count - 1\<close> errors; the results \<open>-1\<close>
  are kept.  Every allocation is taken to succeed (the code does not check for failure).
\<close>

subsection \<open>State\<close>

text \<open>
  \<open>items\<close> is the list of the \<open>capacity\<close> cells, \<open>None\<close> being the null pointer.  The calls of
  \<open>free_fn\<close> are listed in the results; the flag \<open>fr\<close> says that it is given.
\<close>

record 'a nio_array =
  ar_capacity :: int
  ar_count :: int
  ar_items :: "'a option list"

definition item :: "'a nio_array \<Rightarrow> int \<Rightarrow> 'a option" where
  "item a i = ar_items a ! nat i"

definition put :: "int \<Rightarrow> 'a option \<Rightarrow> 'a nio_array \<Rightarrow> 'a nio_array" where
  "put i x a = a\<lparr>ar_items := (ar_items a)[nat i := x]\<rparr>"

text \<open>\<open>if (free_fn != NULL && p != NULL) free_fn(p)\<close>\<close>

definition freed :: "bool \<Rightarrow> 'a option \<Rightarrow> 'a list" where
  "freed fr p = (case p of Some x \<Rightarrow> if fr then [x] else [] | None \<Rightarrow> [])"

subsection \<open>Operations\<close>

definition nio_array_grow :: "int \<Rightarrow> 'a nio_array \<Rightarrow> 'a nio_array" where
  "nio_array_grow min_capacity a =
     (if ar_capacity a \<ge> min_capacity then a
      else let delta = (min_capacity + (16 - 1)) div 16 * 16
           in if delta \<le> 0 then a
              else let cap = ar_capacity a + delta
                   in a\<lparr>ar_capacity := cap,
                        ar_items := take (nat (ar_count a)) (ar_items a) @ replicate (nat (cap - ar_count a)) None\<rparr>)"

definition nio_array_pre_append :: "int \<Rightarrow> 'a nio_array \<Rightarrow> 'a nio_array option" where
  "nio_array_pre_append app_count a =
     (if app_count \<le> 0 then None
      else Some (if ar_count a + app_count > ar_capacity a then nio_array_grow (ar_count a + app_count) a else a))"

definition nio_array_create :: "int \<Rightarrow> 'a nio_array option" where
  "nio_array_create init_size =
     nio_array_pre_append (if init_size \<le> 0 then 100 else init_size)
       \<lparr>ar_capacity = 0, ar_count = 0, ar_items = []\<rparr>"

definition nio_array_clean :: "bool \<Rightarrow> 'a nio_array \<Rightarrow> 'a nio_array \<times> 'a list" where
  "nio_array_clean fr a =
     (case fold (\<lambda>idx (b, fs). (put (int idx) None b, fs @ freed fr (item b (int idx)))) [0..<nat (ar_count a)] (a, [])
      of (b, fs) \<Rightarrow> (b\<lparr>ar_count := 0\<rparr>, fs))"

definition nio_array_append :: "'a option \<Rightarrow> 'a nio_array \<Rightarrow> 'a nio_array \<times> int" where
  "nio_array_append obj a =
     (let b = (if ar_count a \<ge> ar_capacity a then nio_array_grow (ar_count a + 16) a else a);
          c = (put (ar_count b) obj b)\<lparr>ar_count := ar_count b + 1\<rparr>
      in (c, ar_count c - 1))"

definition nio_array_pred_insert :: "int \<Rightarrow> 'a option \<Rightarrow> 'a nio_array \<Rightarrow> 'a nio_array \<times> int" where
  "nio_array_pred_insert position obj a =
     (if position < 0 \<or> position \<ge> ar_count a then (a, - 1)
      else let b = (if ar_count a \<ge> ar_capacity a then nio_array_grow (ar_count a + 1) a else a);
               c = fold (\<lambda>idx d. put (int idx) (item d (int idx - 1)) d)
                     (rev [Suc (nat position)..<Suc (nat (ar_count b))]) b
           in ((put position obj c)\<lparr>ar_count := ar_count c + 1\<rparr>, position))"

definition nio_array_succ_insert :: "int \<Rightarrow> 'a option \<Rightarrow> 'a nio_array \<Rightarrow> 'a nio_array \<times> int" where
  "nio_array_succ_insert position obj a =
     (if position < 0 \<or> position \<ge> ar_count a then (a, - 1)
      else let b = (if ar_count a \<ge> ar_capacity a then nio_array_grow (ar_count a + 1) a else a);
               position_succ = position + 1;
               c = fold (\<lambda>idx d. put (int idx) (item d (int idx - 1)) d)
                     (rev [Suc (nat position_succ)..<Suc (nat (ar_count b))]) b
           in ((put position_succ obj c)\<lparr>ar_count := ar_count c + 1\<rparr>, position_succ))"

definition nio_array_prepend :: "'a option \<Rightarrow> 'a nio_array \<Rightarrow> 'a nio_array \<times> int" where
  "nio_array_prepend obj a = nio_array_pred_insert 0 obj a"

definition nio_array_delete_idx :: "bool \<Rightarrow> int \<Rightarrow> 'a nio_array \<Rightarrow> 'a nio_array \<times> 'a list \<times> int" where
  "nio_array_delete_idx fr position a =
     (if position < 0 \<or> position \<ge> ar_count a then (a, [], - 1)
      else let fs = freed fr (item a position);
               b = put position None a;
               c = fold (\<lambda>idx d. put (int idx) (item d (int idx + 1)) d) [nat position..<nat (ar_count b - 1)] b
           in (c\<lparr>ar_count := ar_count c - 1\<rparr>, fs, 0))"

definition nio_array_delete :: "bool \<Rightarrow> int \<Rightarrow> 'a nio_array \<Rightarrow> 'a nio_array \<times> 'a list \<times> int" where
  "nio_array_delete fr idx a =
     (if idx < 0 \<or> idx \<ge> ar_count a then (a, [], - 1)
      else let fs = freed fr (item a idx);
               b = a\<lparr>ar_count := ar_count a - 1\<rparr>
           in (if ar_count b > 0 then put idx (item b (ar_count b)) b else b, fs, 0))"

text \<open>The first index that holds the object, or \<open>-1\<close>.\<close>

fun find_obj :: "'a option \<Rightarrow> 'a nio_array \<Rightarrow> nat list \<Rightarrow> int" where
  "find_obj obj a [] = - 1"
| "find_obj obj a (i # is) = (if item a (int i) = obj then int i else find_obj obj a is)"

definition nio_array_delete_obj :: "bool \<Rightarrow> 'a option \<Rightarrow> 'a nio_array \<Rightarrow> 'a nio_array \<times> 'a list \<times> int" where
  "nio_array_delete_obj fr obj a =
     (let position = find_obj obj a [0..<nat (ar_count a)];
          fs = freed fr obj
      in if position = - 1 then (a, fs, - 1)
         else let b = put position None a
              in case nio_array_delete_idx False position b of
                   (c, _, ret) \<Rightarrow> (c, fs, if ret < 0 then - 1 else ret))"

definition nio_array_delete_range :: "bool \<Rightarrow> int \<Rightarrow> int \<Rightarrow> 'a nio_array \<Rightarrow> 'a nio_array \<times> 'a list \<times> int" where
  "nio_array_delete_range fr ibegin iend a =
     (if ibegin < 0 \<or> iend < 0 \<or> ar_count a \<le> 0 then (a, [], - 1)
      else if ibegin > iend then (a, [], - 1)
      else let imax = ar_count a - 1;
               iend = (if iend > imax then imax else iend);
               (b, fs) = (if fr then
                            fold (\<lambda>i (d, fs). (put (int i) None d, fs @ freed fr (item d (int i))))
                              [nat ibegin..<nat (iend + 1)] (a, [])
                          else (a, []));
               c = b\<lparr>ar_count := ar_count b - (iend - ibegin + 1)\<rparr>;
               d = fold (\<lambda>k d. put (ibegin + int k) (item d (iend + 1 + int k)) d) [0..<nat (imax - iend)] c
           in (d, fs, 0))"

definition nio_array_mv_idx :: "bool \<Rightarrow> int \<Rightarrow> int \<Rightarrow> 'a nio_array \<Rightarrow> 'a nio_array \<times> 'a list \<times> int" where
  "nio_array_mv_idx fr ito ifrom a =
     (if ito < 0 \<or> ifrom < 0 \<or> ar_count a < 0 then (a, [], - 1)
      else if ar_count a = 0 \<or> ito \<ge> ifrom \<or> ifrom \<ge> ar_count a then (a, [], 0)
      else let i_max = ar_count a - 1;
               (b, fs) = (if fr then
                            fold (\<lambda>i (d, fs). (put (int i) None d, fs @ freed fr (item d (int i))))
                              [nat ito..<nat ifrom] (a, [])
                          else (a, []));
               c = fold (\<lambda>k d. put (ito + int k) (item d (ifrom + int k)) d) [0..<nat (i_max - ifrom + 1)] b;
               e = c\<lparr>ar_count := ar_count c - (ifrom - ito)\<rparr>
           in (e, fs, if ar_count e < 0 then - 1 else 0))"

definition nio_array_index :: "int \<Rightarrow> 'a nio_array \<Rightarrow> 'a option" where
  "nio_array_index idx a = (if idx < 0 \<or> idx > ar_count a - 1 then None else item a idx)"

definition nio_array_size :: "'a nio_array \<Rightarrow> int" where
  "nio_array_size a = ar_count a"

definition nio_array_push_back :: "'a option \<Rightarrow> 'a nio_array \<Rightarrow> 'a nio_array" where
  "nio_array_push_back obj a = fst (nio_array_append obj a)"

definition nio_array_push_front :: "'a option \<Rightarrow> 'a nio_array \<Rightarrow> 'a nio_array" where
  "nio_array_push_front obj a = fst (nio_array_prepend obj a)"

definition nio_array_pop_back :: "'a nio_array \<Rightarrow> 'a nio_array \<times> 'a option" where
  "nio_array_pop_back a =
     (if ar_count a \<le> 0 then (a, None)
      else let b = a\<lparr>ar_count := ar_count a - 1\<rparr> in (b, item b (ar_count b)))"

definition nio_array_pop_front :: "'a nio_array \<Rightarrow> 'a nio_array \<times> 'a option" where
  "nio_array_pop_front a =
     (if ar_count a \<le> 0 then (a, None)
      else let obj = item a 0;
               b = a\<lparr>ar_count := ar_count a - 1\<rparr>;
               c = fold (\<lambda>i d. put (int i) (item d (int i + 1)) d) [0..<nat (ar_count b)] b
           in (c, obj))"

subsection \<open>The iterator\<close>

text \<open>The members \<open>i\<close> and \<open>ptr\<close> of \<open>ITER\<close>; \<open>data\<close> is always the same as \<open>ptr\<close>.\<close>

record 'p iter =
  it_i :: int
  it_ptr :: "'p option"

definition nio_array_iter_head :: "'a nio_array \<Rightarrow> 'a iter" where
  "nio_array_iter_head a = \<lparr>it_i = 0, it_ptr = (if ar_count a \<le> 0 then None else item a 0)\<rparr>"

definition nio_array_iter_next :: "'a nio_array \<Rightarrow> 'a iter \<Rightarrow> 'a iter" where
  "nio_array_iter_next a it =
     (let i = it_i it + 1 in it\<lparr>it_i := i, it_ptr := (if i \<ge> ar_count a then None else item a i)\<rparr>)"

definition nio_array_iter_tail :: "'a nio_array \<Rightarrow> 'a iter" where
  "nio_array_iter_tail a =
     (let i = ar_count a - 1 in \<lparr>it_i = i, it_ptr = (if i < 0 then None else item a i)\<rparr>)"

definition nio_array_iter_prev :: "'a nio_array \<Rightarrow> 'a iter \<Rightarrow> 'a iter" where
  "nio_array_iter_prev a it =
     (let i = it_i it - 1 in it\<lparr>it_i := i, it_ptr := (if i < 0 then None else item a i)\<rparr>)"

text \<open>
  \<open>FOREACH\<close> and \<open>FOREACH_REVERSE\<close>: the objects the body sees.  A loop without a body that
  changes the container; \<open>None\<close> would be a loop that never ends.
\<close>

partial_function (option) foreach_loop :: "('p iter \<Rightarrow> 'p iter) \<Rightarrow> 'p iter \<Rightarrow> 'p list option" where
  "foreach_loop nxt it =
     (case it_ptr it of
        None \<Rightarrow> Some []
      | Some p \<Rightarrow> Option.bind (foreach_loop nxt (nxt it)) (\<lambda>ps. Some (p # ps)))"

declare foreach_loop.simps [code]

definition array_foreach :: "'a nio_array \<Rightarrow> 'a list option" where
  "array_foreach a = foreach_loop (nio_array_iter_next a) (nio_array_iter_head a)"

definition array_foreach_reverse :: "'a nio_array \<Rightarrow> 'a list option" where
  "array_foreach_reverse a = foreach_loop (nio_array_iter_prev a) (nio_array_iter_tail a)"

subsection \<open>The copying loops\<close>

lemma freed_False [simp]: "freed False p = []"
  by (simp add: freed_def split: option.split)

lemma concat_Nil [simp]: "concat (map (\<lambda>x. []) xs) = []"
  by (induction xs) auto

lemma fold_items:
  "(\<And>i d. i \<in> set L \<Longrightarrow> f i d = d\<lparr>ar_items := g i (ar_items d)\<rparr>) \<Longrightarrow>
     fold f L a = a\<lparr>ar_items := fold g L (ar_items a)\<rparr>"
  by (induction L arbitrary: a) auto

lemma copy_down:
  assumes "b \<le> e" "e + m \<le> length xs"
  shows "fold (\<lambda>k ys. ys[b + k := ys ! (e + k)]) [0..<m] xs = take b xs @ take m (drop e xs) @ drop (b + m) xs"
  using assms(2)
proof (induction m)
  case (Suc m)
  let ?ys = "take b xs @ take m (drop e xs) @ drop (b + m) xs"
  have "?ys ! (e + m) = xs ! (e + m)" using Suc.prems assms(1) by (auto simp: nth_append add.commute)
  with Suc have "fold (\<lambda>k ys. ys[b + k := ys ! (e + k)]) [0..<Suc m] xs = ?ys[b + m := xs ! (e + m)]" by simp
  also have "\<dots> = take b xs @ take (Suc m) (drop e xs) @ drop (b + Suc m) xs"
    using Suc.prems assms(1)
    by (simp add: list_update_append take_Suc_conv_app_nth drop_update_swap Cons_nth_drop_Suc [symmetric, of "b + m"])
  finally show ?case .
qed simp

lemma copy_left:
  assumes "p \<le> n" "n < length xs"
  shows "fold (\<lambda>i ys. ys[i := ys ! Suc i]) [p..<n] xs = take p xs @ take (n - p) (drop (Suc p) xs) @ drop n xs"
proof -
  have "fold (\<lambda>i ys. ys[i := ys ! Suc i]) (map (\<lambda>k. k + p) [0..<n - p]) xs =
      fold (\<lambda>k ys. ys[p + k := ys ! (Suc p + k)]) [0..<n - p] xs"
    by (simp add: fold_map comp_def add.commute)
  with assms copy_down [of p "Suc p" "n - p" xs] show ?thesis by (simp add: map_add_upt)
qed

lemma copy_right:
  assumes "p \<le> n" "n < length xs"
  shows "fold (\<lambda>i ys. ys[i := ys ! (i - 1)]) (rev [Suc p..<Suc n]) xs =
     take (Suc p) xs @ take (n - p) (drop p xs) @ drop (Suc n) xs"
  using assms
proof (induction n arbitrary: xs)
  case (Suc n)
  show ?case
  proof (cases "p \<le> n")
    case True
    let ?ys = "xs[Suc n := xs ! n]"
    have "fold (\<lambda>i ys. ys[i := ys ! (i - 1)]) (rev [Suc p..<Suc (Suc n)]) xs =
        take (Suc p) ?ys @ take (n - p) (drop p ?ys) @ drop (Suc n) ?ys"
      using Suc True by simp
    also have "\<dots> = take (Suc p) xs @ take (Suc n - p) (drop p xs) @ drop (Suc (Suc n)) xs"
      using Suc.prems True by (simp add: Suc_diff_le take_Suc_conv_app_nth drop_update_swap
          Cons_nth_drop_Suc [symmetric, of "Suc n"] take_update_cancel)
    finally show ?thesis .
  next
    case False
    with Suc.prems have "p = Suc n" by simp
    with Suc.prems show ?thesis by (simp add: id_take_nth_drop [of "Suc n"])
  qed
qed (simp add: take_Suc_conv_app_nth Cons_nth_drop_Suc)

subsection \<open>Contents\<close>

text \<open>What the array stands for, and the invariant under which it does.\<close>

definition contents :: "'a nio_array \<Rightarrow> 'a option list" where
  "contents a = take (nat (ar_count a)) (ar_items a)"

definition array_inv :: "'a nio_array \<Rightarrow> bool" where
  "array_inv a \<longleftrightarrow> 0 \<le> ar_count a \<and> ar_count a \<le> ar_capacity a \<and> int (length (ar_items a)) = ar_capacity a"

lemma length_contents: "array_inv a \<Longrightarrow> length (contents a) = nat (ar_count a)"
  by (auto simp: array_inv_def contents_def)

lemma item_contents: "array_inv a \<Longrightarrow> 0 \<le> i \<Longrightarrow> i < ar_count a \<Longrightarrow> item a i = contents a ! nat i"
  by (simp add: item_def contents_def array_inv_def nat_less_iff)

lemma put_fields [simp]:
  "ar_count (put i x a) = ar_count a" "ar_capacity (put i x a) = ar_capacity a"
  "ar_items (put i x a) = (ar_items a)[nat i := x]"
  by (simp_all add: put_def)

text \<open>Growing makes room and keeps the contents.\<close>

lemma grow_room:
  assumes "array_inv a" "ar_count a \<ge> ar_capacity a" "0 < n"
  shows "array_inv (nio_array_grow (ar_count a + n) a) \<and>
     ar_count (nio_array_grow (ar_count a + n) a) = ar_count a \<and>
     ar_count a < ar_capacity (nio_array_grow (ar_count a + n) a) \<and>
     contents (nio_array_grow (ar_count a + n) a) = contents a"
proof -
  let ?m = "ar_count a + n"
  let ?d = "(?m + 15) div 16 * 16"
  have "?m \<le> ?d" by simp
  with assms show ?thesis
    by (auto simp: nio_array_grow_def Let_def array_inv_def contents_def)
qed

definition roomy :: "int \<Rightarrow> 'a nio_array \<Rightarrow> 'a nio_array" where
  "roomy n a = (if ar_count a \<ge> ar_capacity a then nio_array_grow (ar_count a + n) a else a)"

lemma roomy:
  assumes "array_inv a" "0 < n"
  shows "array_inv (roomy n a)" "ar_count (roomy n a) = ar_count a"
    "ar_count a < ar_capacity (roomy n a)" "contents (roomy n a) = contents a"
  using assms grow_room [of a n] by (auto simp: roomy_def)

text \<open>Each operation on the contents.\<close>

lemma append_contents:
  assumes "array_inv a"
  shows "array_inv (fst (nio_array_append obj a)) \<and>
     contents (fst (nio_array_append obj a)) = contents a @ [obj] \<and>
     snd (nio_array_append obj a) = int (length (contents a))"
proof -
  define b where "b = roomy 16 a"
  have e: "nio_array_append obj a = ((put (ar_count b) obj b)\<lparr>ar_count := ar_count b + 1\<rparr>, ar_count b)"
    by (simp add: nio_array_append_def Let_def b_def roomy_def)
  have b: "array_inv b" "ar_count b = ar_count a" "ar_count a < ar_capacity b" "contents b = contents a"
    using roomy [OF assms, of 16] by (simp_all add: b_def)
  have n: "nat (ar_count a) < length (ar_items b)" "nat (ar_count a + 1) = Suc (nat (ar_count a))"
    using b assms by (auto simp: array_inv_def)
  show ?thesis
    using b n assms length_contents [OF assms]
    by (auto simp: e array_inv_def contents_def take_Suc_conv_app_nth)
qed

lemma take_insert: "length xs = p \<Longrightarrow> length ys = k \<Longrightarrow> take (p + Suc k) (xs @ x # ys @ zs) = xs @ x # ys"
  by simp

definition insert_at :: "int \<Rightarrow> 'a option \<Rightarrow> 'a nio_array \<Rightarrow> 'a nio_array" where
  "insert_at p obj a =
     (let b = roomy 1 a;
          c = fold (\<lambda>idx d. put (int idx) (item d (int idx - 1)) d) (rev [Suc (nat p)..<Suc (nat (ar_count b))]) b
      in (put p obj c)\<lparr>ar_count := ar_count c + 1\<rparr>)"

lemma pred_insert_eq:
  "nio_array_pred_insert p obj a = (if p < 0 \<or> p \<ge> ar_count a then (a, - 1) else (insert_at p obj a, p))"
  by (simp add: nio_array_pred_insert_def insert_at_def Let_def roomy_def)

lemma succ_insert_eq:
  "nio_array_succ_insert p obj a = (if p < 0 \<or> p \<ge> ar_count a then (a, - 1) else (insert_at (p + 1) obj a, p + 1))"
  by (simp add: nio_array_succ_insert_def insert_at_def Let_def roomy_def)

lemma insert_contents:
  assumes "array_inv a" "0 \<le> p" "p \<le> ar_count a" "0 < ar_count a"
  shows "array_inv (insert_at p obj a) \<and>
     contents (insert_at p obj a) = take (nat p) (contents a) @ obj # drop (nat p) (contents a)"
proof -
  define b where "b = roomy 1 a"
  define c where "c = fold (\<lambda>idx d. put (int idx) (item d (int idx - 1)) d) (rev [Suc (nat p)..<Suc (nat (ar_count b))]) b"
  define e where "e = insert_at p obj a"
  have e_def2: "e = (put p obj c)\<lparr>ar_count := ar_count c + 1\<rparr>"
    by (simp add: e_def insert_at_def b_def c_def Let_def)
  have b: "array_inv b" "ar_count b = ar_count a" "ar_count a < ar_capacity b" "contents b = contents a"
    using roomy [OF assms(1), of 1] by (simp_all add: b_def)
  let ?n = "nat (ar_count a)" and ?p = "nat p"
  have pn: "?p \<le> ?n" "?n < length (ar_items b)"
    using assms(2,3) b by (auto simp: array_inv_def)
  have "c = b\<lparr>ar_items := fold (\<lambda>i ys. ys[i := ys ! (i - 1)]) (rev [Suc ?p..<Suc ?n]) (ar_items b)\<rparr>"
    unfolding c_def b(2)
    by (rule fold_items) (auto simp: put_def item_def nat_diff_distrib)
  then have c: "c = b\<lparr>ar_items := take (Suc ?p) (ar_items b) @ take (?n - ?p) (drop ?p (ar_items b)) @ drop (Suc ?n) (ar_items b)\<rparr>"
    using copy_right [OF pn] by simp
  have i: "ar_items e = take ?p (ar_items b) @ obj # take (?n - ?p) (drop ?p (ar_items b)) @ drop (Suc ?n) (ar_items b)"
    using pn by (simp add: e_def2 c list_update_append take_Suc_conv_app_nth)
  have e: "ar_count e = ar_count a + 1" "ar_capacity e = ar_capacity b" using b(2) by (simp_all add: e_def2 c)
  have "length (ar_items e) = length (ar_items b)" using pn by (simp add: i)
  with e b assms(1) have "array_inv e" by (simp add: array_inv_def)
  moreover have "nat (ar_count e) = ?p + Suc (?n - ?p)" using assms(4) pn(1) e(1) by simp
  then have "contents e = take ?p (ar_items b) @ obj # take (?n - ?p) (drop ?p (ar_items b))"
    unfolding contents_def i using pn by (simp only: take_insert length_take length_drop min_absorb2 less_imp_le diff_le_mono)
  moreover have "contents a = take ?n (ar_items b)" using b by (simp add: contents_def)
  ultimately show ?thesis using pn by (simp add: drop_take min_absorb1 e_def)
qed

lemma pred_insert_contents:
  assumes "array_inv a"
  shows "array_inv (fst (nio_array_pred_insert p obj a)) \<and>
     (if 0 \<le> p \<and> p < int (length (contents a))
      then contents (fst (nio_array_pred_insert p obj a)) = take (nat p) (contents a) @ obj # drop (nat p) (contents a) \<and>
           snd (nio_array_pred_insert p obj a) = p
      else nio_array_pred_insert p obj a = (a, - 1))"
proof (cases "0 \<le> p \<and> p < ar_count a")
  case True
  with insert_contents [OF assms, of p obj] length_contents [OF assms] show ?thesis by (simp add: pred_insert_eq)
next
  case False
  with assms length_contents [OF assms] show ?thesis by (auto simp: pred_insert_eq array_inv_def)
qed

lemma succ_insert_contents:
  assumes "array_inv a"
  shows "array_inv (fst (nio_array_succ_insert p obj a)) \<and>
     (if 0 \<le> p \<and> p < int (length (contents a))
      then contents (fst (nio_array_succ_insert p obj a)) =
             take (nat p + 1) (contents a) @ obj # drop (nat p + 1) (contents a) \<and>
           snd (nio_array_succ_insert p obj a) = p + 1
      else nio_array_succ_insert p obj a = (a, - 1))"
proof (cases "0 \<le> p \<and> p < ar_count a")
  case True
  then have "nat (p + 1) = nat p + 1" by (simp add: nat_add_distrib)
  with True insert_contents [OF assms, of "p + 1" obj] length_contents [OF assms] show ?thesis
    by (simp add: succ_insert_eq)
next
  case False
  with assms length_contents [OF assms] show ?thesis by (auto simp: succ_insert_eq array_inv_def)
qed

text \<open>Removing: the cells from \<open>e\<close> on are copied down to \<open>b\<close>.\<close>

lemma copy_cells:
  assumes "0 \<le> b" "0 \<le> e"
  shows "fold (\<lambda>k d. put (b + int k) (item d (e + int k)) d) [0..<m] a =
     a\<lparr>ar_items := fold (\<lambda>k ys. ys[nat b + k := ys ! (nat e + k)]) [0..<m] (ar_items a)\<rparr>"
  using assms by (intro fold_items) (simp add: put_def item_def nat_add_distrib)

definition drop_cells :: "nat \<Rightarrow> nat \<Rightarrow> nat \<Rightarrow> 'a option list \<Rightarrow> 'a option list" where
  "drop_cells b e n xs = take b xs @ take (n - e) (drop e xs) @ drop (b + (n - e)) xs"

lemma drop_cells_contents:
  assumes "b \<le> e" "e \<le> n" "n \<le> length xs" "take b ys = take b xs" "drop e ys = drop e xs" "length ys = length xs"
  shows "length (drop_cells b e n ys) = length xs \<and>
     take (n - (e - b)) (drop_cells b e n ys) = take b (take n xs) @ drop e (take n xs)"
proof -
  have "n - (e - b) = b + (n - e)" using assms(1,2) by simp
  then have "take (n - (e - b)) (drop_cells b e n ys) = take b ys @ take (n - e) (drop e ys)"
    unfolding drop_cells_def using assms by (simp only: take_append length_take) (simp add: min_absorb2)
  moreover have "length (drop_cells b e n ys) = length ys" using assms by (simp add: drop_cells_def)
  ultimately show ?thesis using assms by (simp add: drop_take min_absorb1)
qed

lemma clear_cells:
  "e \<le> length (ar_items a) \<Longrightarrow> b \<le> e \<Longrightarrow>
     fold (\<lambda>i (d, fs). (put (int i) None d, fs @ freed fr (item d (int i)))) [b..<e] (a, fs0) =
     (a\<lparr>ar_items := take b (ar_items a) @ replicate (e - b) None @ drop e (ar_items a)\<rparr>,
      fs0 @ concat (map (freed fr) (take (e - b) (drop b (ar_items a)))))"
proof (induction e)
  case (Suc e)
  show ?case
  proof (cases "b = Suc e")
    case False
    with Suc.prems have be: "b \<le> e" "e < length (ar_items a)" by auto
    let ?xs = "take b (ar_items a) @ replicate (e - b) None @ drop e (ar_items a)"
    have "?xs[e := None] = take b (ar_items a) @ replicate (Suc e - b) None @ drop (Suc e) (ar_items a)"
      using be by (simp add: list_update_append Suc_diff_le replicate_append_same Cons_nth_drop_Suc [symmetric, of e])
    moreover have "?xs ! e = ar_items a ! e" using be by (simp add: nth_append)
    moreover have "take (Suc e - b) (drop b (ar_items a)) = take (e - b) (drop b (ar_items a)) @ [ar_items a ! e]"
      using be by (simp add: Suc_diff_le take_Suc_conv_app_nth)
    ultimately show ?thesis using Suc be by (simp add: put_def item_def)
  qed (use Suc.prems in simp)
qed simp

lemma range_contents:
  assumes "array_inv a" "0 \<le> b" "b \<le> e" "e \<le> ar_count a"
    and "(c, fs) = (if fr then fold (\<lambda>i (d, fs). (put (int i) None d, fs @ freed fr (item d (int i))))
                                [nat b..<nat e] (a, []) else (a, []))"
    and "d = fold (\<lambda>k d. put (b + int k) (item d (e + int k)) d) [0..<nat (ar_count a - e)] (c\<lparr>ar_count := n\<rparr>)"
    and "n = ar_count a - (e - b)"
  shows "array_inv d \<and> ar_count d = n \<and>
     contents d = take (nat b) (contents a) @ drop (nat e) (contents a) \<and>
     fs = concat (map (freed fr) (take (nat (e - b)) (drop (nat b) (contents a)))) \<and> ar_count c = ar_count a"
proof -
  let ?I = "ar_items a" and ?n = "nat (ar_count a)" and ?b = "nat b" and ?e = "nat e"
  have len: "?b \<le> ?e" "?e \<le> ?n" "?n \<le> length ?I" using assms(1-4) by (auto simp: array_inv_def)
  define J where "J = (if fr then take ?b ?I @ replicate (?e - ?b) None @ drop ?e ?I else ?I)"
  have cfs: "c = a\<lparr>ar_items := J\<rparr>" "fs = concat (map (freed fr) (take (?e - ?b) (drop ?b ?I)))"
    using assms(5) clear_cells [of ?e a ?b True "[]"] len by (cases fr; simp add: J_def)+
  have J: "take ?b J = take ?b ?I" "drop ?e J = drop ?e ?I" "length J = length ?I"
    using len by (simp_all add: J_def)
  have "nat (ar_count a - e) = ?n - ?e" using assms(2,3,4) by (simp add: nat_diff_distrib)
  moreover have "?e + (?n - ?e) \<le> length J" using len J(3) by simp
  ultimately have d: "d = a\<lparr>ar_items := drop_cells ?b ?e ?n J, ar_count := n\<rparr>"
    using assms(2,3) copy_cells [of b e "?n - ?e" "c\<lparr>ar_count := n\<rparr>"] copy_down [OF len(1), of "?n - ?e" J]
    by (simp add: assms(6) cfs(1) drop_cells_def)
  have "nat n = ?n - (?e - ?b)" using assms(2,3,4,7) by (simp add: nat_diff_distrib)
  with drop_cells_contents [OF len J] have "contents d = take ?b (contents a) @ drop ?e (contents a)"
    "length (ar_items d) = length ?I"
    by (simp_all add: d contents_def)
  moreover have "take (?e - ?b) (drop ?b ?I) = take (?e - ?b) (drop ?b (contents a))"
    using len by (simp add: contents_def drop_take min_absorb1 diff_le_mono)
  moreover have "nat (e - b) = ?e - ?b" using assms(2,3) by (simp add: nat_diff_distrib)
  ultimately show ?thesis using assms(1-4,7) cfs by (simp add: d array_inv_def)
qed

lemma shift_down:
  assumes "array_inv a" "0 \<le> p" "p < ar_count a" "length J = length (ar_items a)"
    "take (nat p) J = take (nat p) (ar_items a)" "drop (Suc (nat p)) J = drop (Suc (nat p)) (ar_items a)"
    and "m = nat (ar_count a - 1)"
    and "c = fold (\<lambda>i d. put (int i) (item d (int i + 1)) d) [nat p..<m] (a\<lparr>ar_items := J, ar_count := k\<rparr>)"
  shows "\<exists>D. c = a\<lparr>ar_items := D, ar_count := k\<rparr> \<and> length D = length (ar_items a) \<and>
     take m D = take (nat p) (contents a) @ drop (Suc (nat p)) (contents a)"
proof -
  let ?n = "nat (ar_count a)" and ?p = "nat p"
  have len: "?p < ?n" "?n \<le> length (ar_items a)" "m = ?n - 1"
    using assms(1-3,7) by (auto simp: array_inv_def)
  have c1: "c = a\<lparr>ar_items := fold (\<lambda>i ys. ys[i := ys ! Suc i]) [?p..<m] J, ar_count := k\<rparr>"
    unfolding assms(8) by (subst fold_items [where g = "\<lambda>i ys. ys[i := ys ! Suc i]"])
      (simp_all add: put_def item_def nat_add_distrib)
  have "?p \<le> m" "m < length J" using len assms(4) by linarith+
  moreover have "?p + (?n - Suc ?p) = m" "m - ?p = ?n - Suc ?p" using len by linarith+
  ultimately have "fold (\<lambda>i ys. ys[i := ys ! Suc i]) [?p..<m] J = drop_cells ?p (Suc ?p) ?n J"
    by (simp only: copy_left drop_cells_def)
  with c1 have c: "c = a\<lparr>ar_items := drop_cells ?p (Suc ?p) ?n J, ar_count := k\<rparr>" by simp
  from drop_cells_contents [of ?p "Suc ?p" ?n "ar_items a" J] len assms(4-6)
  show ?thesis unfolding c contents_def by (intro exI [of _ "drop_cells ?p (Suc ?p) ?n J"]) simp
qed

lemma delete_idx_contents:
  assumes "array_inv a" "nio_array_delete_idx fr p a = (b, fs, ret)"
  shows "array_inv b \<and>
     (if 0 \<le> p \<and> p < int (length (contents a))
      then contents b = take (nat p) (contents a) @ drop (Suc (nat p)) (contents a) \<and>
           fs = freed fr (contents a ! nat p) \<and> ret = 0
      else b = a \<and> fs = [] \<and> ret = - 1)"
proof (cases "0 \<le> p \<and> p < ar_count a")
  case True
  let ?c = "fold (\<lambda>i d. put (int i) (item d (int i + 1)) d) [nat p..<nat (ar_count a - 1)]
      (a\<lparr>ar_items := (ar_items a)[nat p := None], ar_count := ar_count a\<rparr>)"
  have "b = ?c\<lparr>ar_count := ar_count ?c - 1\<rparr>" "fs = freed fr (item a p)" "ret = 0"
    using assms(2) True by (simp_all add: nio_array_delete_idx_def Let_def put_def split: if_splits)
  moreover have "p < ar_count a" "0 \<le> p" using True by auto
  moreover obtain D where "?c = a\<lparr>ar_items := D, ar_count := ar_count a\<rparr>" "length D = length (ar_items a)"
    "take (nat (ar_count a - 1)) D = take (nat p) (contents a) @ drop (Suc (nat p)) (contents a)"
    using shift_down [OF assms(1) \<open>0 \<le> p\<close> \<open>p < ar_count a\<close>, of "(ar_items a)[nat p := None]" _ ?c "ar_count a"]
    by auto
  ultimately show ?thesis
    using assms(1) length_contents [OF assms(1)] item_contents [OF assms(1)]
    by (simp add: array_inv_def contents_def)
next
  case False
  with assms length_contents [OF assms(1)] show ?thesis
    by (auto simp: nio_array_delete_idx_def array_inv_def)
qed

lemma pop_front_contents:
  assumes "array_inv a" "nio_array_pop_front a = (b, p)"
  shows "array_inv b \<and> contents b = tl (contents a) \<and> p = (case contents a of [] \<Rightarrow> None | x # _ \<Rightarrow> x)"
proof (cases "0 < ar_count a")
  case True
  let ?c = "fold (\<lambda>i d. put (int i) (item d (int i + 1)) d) [nat 0..<nat (ar_count a - 1)]
      (a\<lparr>ar_items := ar_items a, ar_count := ar_count a - 1\<rparr>)"
  have b: "b = ?c" "p = item a 0"
    using assms(2) True by (simp_all add: nio_array_pop_front_def Let_def)
  from shift_down [OF assms(1) _ True, of "ar_items a" _ ?c "ar_count a - 1"]
  obtain D where "?c = a\<lparr>ar_items := D, ar_count := ar_count a - 1\<rparr>" "length D = length (ar_items a)"
    "take (nat (ar_count a - 1)) D = drop 1 (contents a)" by auto
  then have "array_inv b \<and> contents b = tl (contents a)"
    using assms(1) True by (simp add: b(1) array_inv_def contents_def drop_Suc)
  moreover have "contents a \<noteq> []" using True length_contents [OF assms(1)] by auto
  ultimately show ?thesis
    using b(2) True item_contents [OF assms(1), of 0] by (simp split: list.split)
next
  case False
  with assms length_contents [OF assms(1)] show ?thesis
    by (auto simp: nio_array_pop_front_def contents_def)
qed

lemma pop_back_contents:
  assumes "array_inv a" "nio_array_pop_back a = (b, p)"
  shows "array_inv b \<and> contents b = butlast (contents a) \<and>
     p = (if contents a = [] then None else last (contents a))"
proof (cases "0 < ar_count a")
  case True
  then have b: "b = a\<lparr>ar_count := ar_count a - 1\<rparr>" "p = item a (ar_count a - 1)"
    using assms(2) by (auto simp: nio_array_pop_back_def Let_def item_def)
  have l: "contents a \<noteq> []" using True length_contents [OF assms(1)] by auto
  moreover have "contents b = butlast (contents a)"
    using True assms(1) butlast_take [of "nat (ar_count a)" "ar_items a"]
    by (auto simp: b contents_def array_inv_def nat_diff_distrib)
  moreover have "p = last (contents a)"
    using l b item_contents [OF assms(1), of "ar_count a - 1"] True length_contents [OF assms(1)]
    by (simp add: last_conv_nth nat_diff_distrib)
  ultimately show ?thesis using assms(1) True b by (simp add: array_inv_def)
next
  case False
  with assms length_contents [OF assms(1)] show ?thesis
    by (auto simp: nio_array_pop_back_def contents_def)
qed

lemma delete_contents:
  assumes "array_inv a" "nio_array_delete fr p a = (b, fs, ret)"
  shows "array_inv b \<and>
     (if 0 \<le> p \<and> p < int (length (contents a))
      then contents b = butlast ((contents a)[nat p := last (contents a)]) \<and>
           fs = freed fr (contents a ! nat p) \<and> ret = 0
      else b = a \<and> fs = [] \<and> ret = - 1)"
proof (cases "0 \<le> p \<and> p < ar_count a")
  case True
  let ?n = "nat (ar_count a)"
  have n: "0 < ?n" "?n \<le> length (ar_items a)" "nat p < ?n" "contents a \<noteq> []"
    using True assms(1) length_contents [OF assms(1)] by (auto simp: array_inv_def)
  have l: "last (contents a) = ar_items a ! (?n - 1)"
    using n by (simp add: last_conv_nth length_contents [OF assms(1)]) (simp add: contents_def)
  have e: "butlast ((contents a)[nat p := last (contents a)]) = take (?n - 1) ((ar_items a)[nat p := last (contents a)])"
    using n by (simp add: contents_def butlast_take take_update_swap [symmetric])
  have b: "b = (if ar_count a - 1 > 0 then put p (item a (ar_count a - 1)) else id) (a\<lparr>ar_count := ar_count a - 1\<rparr>)"
    "fs = freed fr (item a p)" "ret = 0"
    using True assms(2) by (auto simp: nio_array_delete_def Let_def item_def)
  have "item a (ar_count a - 1) = last (contents a)" using n by (simp add: l item_def nat_diff_distrib)
  then have "contents b = take (?n - 1) ((ar_items a)[nat p := last (contents a)])"
    using n by (simp add: b(1) contents_def nat_diff_distrib)
  moreover have "array_inv b" using n assms(1) by (simp add: b(1) array_inv_def)
  moreover have "item a p = contents a ! nat p" using True item_contents [OF assms(1), of p] by simp
  ultimately show ?thesis using e b(2,3) True length_contents [OF assms(1)] by simp
next
  case False
  with assms length_contents [OF assms(1)] show ?thesis
    by (auto simp: nio_array_delete_def array_inv_def)
qed

lemma find_obj_find:
  "find_obj obj a is = (case find (\<lambda>i. item a (int i) = obj) is of None \<Rightarrow> - 1 | Some i \<Rightarrow> int i)"
  by (induction "is") auto

lemma find_obj_contents:
  assumes "array_inv a"
  shows "(obj \<in> set (contents a) \<longrightarrow> (\<exists>i. find_obj obj a [0..<nat (ar_count a)] = int i \<and> i < length (contents a) \<and>
       contents a ! i = obj \<and> obj \<notin> set (take i (contents a)))) \<and>
     (obj \<notin> set (contents a) \<longrightarrow> find_obj obj a [0..<nat (ar_count a)] = - 1)"
proof -
  let ?n = "nat (ar_count a)"
  have i: "item a (int i) = contents a ! i" if "i < ?n" for i
    using that item_contents [OF assms, of "int i"] by simp
  show ?thesis
  proof (cases "find (\<lambda>i. item a (int i) = obj) [0..<?n]")
    case None
    then have "obj \<notin> set (contents a)"
      using i length_contents [OF assms] by (auto simp: find_None_iff in_set_conv_nth)
    with None show ?thesis by (simp add: find_obj_find)
  next
    case (Some j)
    then have j: "j < ?n" "item a (int j) = obj" "\<forall>k<j. item a (int k) \<noteq> obj"
      by (auto simp: find_Some_iff)
    then have "contents a ! j = obj" "obj \<notin> set (take j (contents a))"
      using i length_contents [OF assms] by (auto simp: in_set_conv_nth)
    moreover have "obj \<in> set (contents a)"
      using j(1) calculation(1) length_contents [OF assms] by (metis nth_mem)
    ultimately show ?thesis using j Some length_contents [OF assms] by (auto simp: find_obj_find)
  qed
qed

lemma remove1_nth:
  "i < length xs \<Longrightarrow> xs ! i = x \<Longrightarrow> x \<notin> set (take i xs) \<Longrightarrow> remove1 x xs = take i xs @ drop (Suc i) xs"
proof (induction xs arbitrary: i)
  case (Cons y ys)
  then show ?case by (cases i) auto
qed simp

lemma delete_obj_contents:
  assumes "array_inv a" "nio_array_delete_obj fr obj a = (b, fs, ret)"
  shows "array_inv b \<and> contents b = remove1 obj (contents a) \<and> fs = freed fr obj \<and>
     ret = (if obj \<in> set (contents a) then 0 else - 1)"
proof (cases "obj \<in> set (contents a)")
  case True
  then obtain i where i: "find_obj obj a [0..<nat (ar_count a)] = int i" "i < length (contents a)"
      "contents a ! i = obj" "obj \<notin> set (take i (contents a))"
    using find_obj_contents [OF assms(1)] by blast
  let ?a = "put (int i) None a"
  have a: "array_inv ?a" "contents ?a = (contents a)[i := None]"
    using assms(1) by (simp_all add: array_inv_def contents_def take_update_swap)
  obtain c gs rt where d: "nio_array_delete_idx False (int i) ?a = (c, gs, rt)" by (metis prod_cases3)
  from delete_idx_contents [OF a(1) d] i(2) a(2)
  have "array_inv c" "contents c = take i (contents a) @ drop (Suc i) (contents a)" "rt = 0" by simp_all
  with assms(2) i d True remove1_nth [OF i(2,3,4)] show ?thesis by (auto simp: nio_array_delete_obj_def Let_def)
next
  case False
  with assms find_obj_contents [OF assms(1), of obj] show ?thesis
    by (auto simp: nio_array_delete_obj_def Let_def remove1_idem)
qed

lemma clean_contents:
  assumes "array_inv a" "nio_array_clean fr a = (b, fs)"
  shows "array_inv b \<and> contents b = [] \<and> fs = concat (map (freed fr) (contents a))"
  using assms clear_cells [of "nat (ar_count a)" a 0 fr "[]"]
  by (auto simp: nio_array_clean_def array_inv_def contents_def)

lemma delete_range_contents:
  assumes "array_inv a" "nio_array_delete_range fr ib ie a = (b, fs, ret)"
    "0 \<le> ib \<and> ib \<le> ie \<and> contents a \<noteq> [] \<Longrightarrow> ib < int (length (contents a))"
  shows "array_inv b \<and>
     (if 0 \<le> ib \<and> ib \<le> ie \<and> contents a \<noteq> []
      then contents b = take (nat ib) (contents a) @ drop (nat ie + 1) (contents a) \<and>
           fs = concat (map (freed fr) (take (nat (ie + 1 - ib)) (drop (nat ib) (contents a)))) \<and> ret = 0
      else b = a \<and> fs = [] \<and> ret = - 1)"
proof (cases "0 \<le> ib \<and> ib \<le> ie \<and> contents a \<noteq> []")
  case True
  define i where "i = (if ie > ar_count a - 1 then ar_count a - 1 else ie)"
  have l: "int (length (contents a)) = ar_count a" using length_contents [OF assms(1)] assms(1) by (simp add: array_inv_def)
  have n: "0 < ar_count a" using True l by (metis length_greater_0_conv of_nat_0_less_iff)
  have h: "0 \<le> ib" "ib \<le> i + 1" "i + 1 \<le> ar_count a" using True assms(3) l by (auto simp: i_def)
  obtain c gs where cg: "(c, gs) = (if fr then fold (\<lambda>i (d, fs). (put (int i) None d, fs @ freed fr (item d (int i))))
                                [nat ib..<nat (i + 1)] (a, []) else (a, []))"
    by (rule that [OF prod.collapse])
  define d where "d = fold (\<lambda>k d. put (ib + int k) (item d (i + 1 + int k)) d) [0..<nat (ar_count a - (i + 1))]
      (c\<lparr>ar_count := ar_count a - (i + 1 - ib)\<rparr>)"
  from range_contents [OF assms(1) h cg d_def refl]
  have r: "array_inv d" "contents d = take (nat ib) (contents a) @ drop (nat (i + 1)) (contents a)"
    "gs = concat (map (freed fr) (take (nat (i + 1 - ib)) (drop (nat ib) (contents a))))" "ar_count c = ar_count a" by auto
  have "\<not> (ib < 0 \<or> ie < 0 \<or> ar_count a \<le> 0)" "\<not> ib > ie" using True n by auto
  then have "nio_array_delete_range fr ib ie a =
      (fold (\<lambda>k d. put (ib + int k) (item d (i + 1 + int k)) d) [0..<nat (ar_count a - 1 - i)]
        (c\<lparr>ar_count := ar_count c - (i - ib + 1)\<rparr>), gs, 0)"
    unfolding nio_array_delete_range_def Let_def i_def [symmetric] cg [symmetric] prod.case
    by (simp only: if_False)
  moreover have "ar_count a - 1 - i = ar_count a - (i + 1)" "ar_count c - (i - ib + 1) = ar_count a - (i + 1 - ib)"
    using r(4) by simp_all
  ultimately have "(b, fs, ret) = (d, gs, 0)" using assms(2) by (simp only: d_def)
  moreover have "drop (nat (i + 1)) (contents a) = drop (nat ie + 1) (contents a)"
    "take (nat (i + 1 - ib)) (drop (nat ib) (contents a)) = take (nat (ie + 1 - ib)) (drop (nat ib) (contents a))"
    using l True n h by (auto simp: i_def nat_add_distrib)
  ultimately show ?thesis using True r by simp
next
  case False
  moreover have "contents a = [] \<longleftrightarrow> ar_count a \<le> 0"
    using length_contents [OF assms(1)] assms(1) by (auto simp: array_inv_def contents_def)
  ultimately have "nio_array_delete_range fr ib ie a = (a, [], - 1)"
    by (auto simp: nio_array_delete_range_def)
  with False assms show ?thesis by simp
qed

lemma mv_idx_contents:
  assumes "array_inv a" "nio_array_mv_idx fr ito ifrom a = (b, fs, ret)"
  shows "array_inv b \<and>
     (if 0 \<le> ito \<and> ito < ifrom \<and> ifrom < int (length (contents a))
      then contents b = take (nat ito) (contents a) @ drop (nat ifrom) (contents a) \<and>
           fs = concat (map (freed fr) (take (nat (ifrom - ito)) (drop (nat ito) (contents a)))) \<and> ret = 0
      else b = a \<and> fs = [] \<and> ret = (if ito < 0 \<or> ifrom < 0 then - 1 else 0))"
proof (cases "0 \<le> ito \<and> ito < ifrom \<and> ifrom < ar_count a")
  case True
  obtain c gs where cg: "(c, gs) = (if fr then fold (\<lambda>i (d, fs). (put (int i) None d, fs @ freed fr (item d (int i))))
                                [nat ito..<nat ifrom] (a, []) else (a, []))"
    by (rule that [OF prod.collapse])
  let ?n = "ar_count a - (ifrom - ito)"
  define d where "d = fold (\<lambda>k d. put (ito + int k) (item d (ifrom + int k)) d) [0..<nat (ar_count a - ifrom)] (c\<lparr>ar_count := ?n\<rparr>)"
  from range_contents [OF assms(1) _ _ _ cg d_def refl] True
  have r: "array_inv d" "contents d = take (nat ito) (contents a) @ drop (nat ifrom) (contents a)"
    "gs = concat (map (freed fr) (take (nat (ifrom - ito)) (drop (nat ito) (contents a))))"
    "ar_count c = ar_count a" "ar_count d = ?n" by auto
  have "\<not> (ito < 0 \<or> ifrom < 0 \<or> ar_count a < 0)" "\<not> (ar_count a = 0 \<or> ito \<ge> ifrom \<or> ifrom \<ge> ar_count a)"
    using True by auto
  moreover have "ar_count a - 1 - ifrom + 1 = ar_count a - ifrom" by simp
  moreover define e where "e = fold (\<lambda>k d. put (ito + int k) (item d (ifrom + int k)) d) [0..<nat (ar_count a - ifrom)] c"
  moreover have e: "e = d\<lparr>ar_count := ar_count a\<rparr>"
    using True r(4) by (simp add: e_def d_def copy_cells)
  ultimately have "nio_array_mv_idx fr ito ifrom a =
      (e\<lparr>ar_count := ar_count e - (ifrom - ito)\<rparr>, gs,
       if ar_count (e\<lparr>ar_count := ar_count e - (ifrom - ito)\<rparr>) < 0 then - 1 else 0)"
    unfolding nio_array_mv_idx_def Let_def cg [symmetric] prod.case
    by (simp only: if_False)
  then have "(b, fs, ret) = (d, gs, 0)"
    using assms(2) True r(5) by (simp add: e)
  with r True length_contents [OF assms(1)] show ?thesis by simp
next
  case False
  with assms length_contents [OF assms(1)] show ?thesis
    by (auto simp: nio_array_mv_idx_def array_inv_def)
qed

subsection \<open>Refinement of lists\<close>

text \<open>The calls, their results, and the same calls on a list.\<close>

datatype 'a array_call =
  Append "'a option" | Prepend "'a option" | Pred_Insert int "'a option" | Succ_Insert int "'a option"
| Delete_Idx bool int | Delete bool int | Delete_Obj bool "'a option" | Delete_Range bool int int
| Mv_Idx bool int int | Pop_Back | Pop_Front | Clean bool | Index int | Size

datatype 'a array_result = Ret int "'a list" | Obj "'a option"

fun do_array :: "'a array_call \<Rightarrow> 'a nio_array \<Rightarrow> 'a nio_array \<times> 'a array_result" where
  "do_array (Append x) a = (case nio_array_append x a of (b, i) \<Rightarrow> (b, Ret i []))"
| "do_array (Prepend x) a = (case nio_array_prepend x a of (b, i) \<Rightarrow> (b, Ret i []))"
| "do_array (Pred_Insert p x) a = (case nio_array_pred_insert p x a of (b, i) \<Rightarrow> (b, Ret i []))"
| "do_array (Succ_Insert p x) a = (case nio_array_succ_insert p x a of (b, i) \<Rightarrow> (b, Ret i []))"
| "do_array (Delete_Idx fr p) a = (case nio_array_delete_idx fr p a of (b, fs, i) \<Rightarrow> (b, Ret i fs))"
| "do_array (Delete fr p) a = (case nio_array_delete fr p a of (b, fs, i) \<Rightarrow> (b, Ret i fs))"
| "do_array (Delete_Obj fr x) a = (case nio_array_delete_obj fr x a of (b, fs, i) \<Rightarrow> (b, Ret i fs))"
| "do_array (Delete_Range fr p q) a = (case nio_array_delete_range fr p q a of (b, fs, i) \<Rightarrow> (b, Ret i fs))"
| "do_array (Mv_Idx fr p q) a = (case nio_array_mv_idx fr p q a of (b, fs, i) \<Rightarrow> (b, Ret i fs))"
| "do_array Pop_Back a = (case nio_array_pop_back a of (b, x) \<Rightarrow> (b, Obj x))"
| "do_array Pop_Front a = (case nio_array_pop_front a of (b, x) \<Rightarrow> (b, Obj x))"
| "do_array (Clean fr) a = (case nio_array_clean fr a of (b, fs) \<Rightarrow> (b, Ret 0 fs))"
| "do_array (Index p) a = (a, Obj (nio_array_index p a))"
| "do_array Size a = (a, Ret (nio_array_size a) [])"

definition in_range :: "int \<Rightarrow> 'b list \<Rightarrow> bool" where
  "in_range p xs \<longleftrightarrow> 0 \<le> p \<and> p < int (length xs)"

definition freed_all :: "bool \<Rightarrow> 'a option list \<Rightarrow> 'a list" where
  "freed_all fr xs = concat (map (freed fr) xs)"

text \<open>
  The list, as nio_array.h documents the calls: 0 or a position for success, -1 for failure.  What it leaves open is as in nio_array.c: a range is cut off
  at the last object, a move that changes nothing succeeds, and an object to be deleted is freed also when it is not in the array.
\<close>

fun do_list :: "'a array_call \<Rightarrow> 'a option list \<Rightarrow> 'a option list \<times> 'a array_result" where
  "do_list (Append x) xs = (xs @ [x], Ret (int (length xs)) [])"
| "do_list (Prepend x) xs = (x # xs, Ret 0 [])"
| "do_list (Pred_Insert p x) xs =
     (if in_range p xs then (take (nat p) xs @ x # drop (nat p) xs, Ret 0 []) else (xs, Ret (- 1) []))"
| "do_list (Succ_Insert p x) xs =
     (if in_range p xs then (take (nat p + 1) xs @ x # drop (nat p + 1) xs, Ret 0 []) else (xs, Ret (- 1) []))"
| "do_list (Delete_Idx fr p) xs =
     (if in_range p xs then (take (nat p) xs @ drop (Suc (nat p)) xs, Ret 0 (freed fr (xs ! nat p))) else (xs, Ret (- 1) []))"
| "do_list (Delete fr p) xs =
     (if in_range p xs then (butlast (xs[nat p := last xs]), Ret 0 (freed fr (xs ! nat p))) else (xs, Ret (- 1) []))"
| "do_list (Delete_Obj fr x) xs = (remove1 x xs, Ret (if x \<in> set xs then 0 else - 1) (freed fr x))"
| "do_list (Delete_Range fr p q) xs =
     (if 0 \<le> p \<and> p \<le> q \<and> xs \<noteq> []
      then (take (nat p) xs @ drop (nat q + 1) xs, Ret 0 (freed_all fr (take (nat (q + 1 - p)) (drop (nat p) xs))))
      else (xs, Ret (- 1) []))"
| "do_list (Mv_Idx fr p q) xs =
     (if 0 \<le> p \<and> p < q \<and> q < int (length xs)
      then (take (nat p) xs @ drop (nat q) xs, Ret 0 (freed_all fr (take (nat (q - p)) (drop (nat p) xs))))
      else (xs, Ret (if p < 0 \<or> q < 0 then - 1 else 0) []))"
| "do_list Pop_Back xs = (butlast xs, Obj (if xs = [] then None else last xs))"
| "do_list Pop_Front xs = (tl xs, Obj (case xs of [] \<Rightarrow> None | x # _ \<Rightarrow> x))"
| "do_list (Clean fr) xs = ([], Ret 0 (freed_all fr xs))"
| "do_list (Index p) xs = (xs, Obj (if in_range p xs then xs ! nat p else None))"
| "do_list Size xs = (xs, Ret (int (length xs)) [])"

text \<open>
  Where the code is not what the header documents.  A range to be deleted must begin inside the array, and an object can be put
  in front only of another (\<open>delete_range_grows\<close> and \<open>push_front_empty\<close> below tell what happens otherwise).  The two insertions return
  the position of the new object where 0 is documented.
\<close>

fun call_ok :: "'a array_call \<Rightarrow> 'a option list \<Rightarrow> bool" where
  "call_ok (Delete_Range fr p q) xs = (xs = [] \<or> p < int (length xs))"
| "call_ok (Prepend x) xs = (xs \<noteq> [])"
| "call_ok _ xs = True"

fun documented :: "'a array_call \<Rightarrow> 'a array_result \<Rightarrow> 'a array_result" where
  "documented (Pred_Insert p x) (Ret i fs) = Ret (if i = p \<and> 0 \<le> i then 0 else i) fs"
| "documented (Succ_Insert p x) (Ret i fs) = Ret (if i = p + 1 \<and> 0 < i then 0 else i) fs"
| "documented c r = r"

lemma run_calls_results:
  "run_calls (\<lambda>c s. case f c s of (s, r) \<Rightarrow> (s, d c r)) cs s = (case run_calls f cs s of (s, rs) \<Rightarrow> (s, map2 d cs rs))"
  by (induction cs arbitrary: s) (auto split: prod.splits)

lemma do_array_refines:
  assumes "array_inv a" "call_ok c (contents a)"
  shows "array_inv (fst (do_array c a)) \<and>
     do_list c (contents a) = (contents (fst (do_array c a)), documented c (snd (do_array c a)))"
proof (cases c)
  case (Append x)
  with append_contents [OF assms(1), of x] show ?thesis by (auto split: prod.splits)
next
  case (Prepend x)
  with pred_insert_contents [OF assms(1), of 0 x] assms(2) show ?thesis
    by (auto simp: nio_array_prepend_def split: prod.splits if_splits)
next
  case (Pred_Insert p x)
  with pred_insert_contents [OF assms(1), of p x] show ?thesis
    by (auto simp: in_range_def split: prod.splits if_splits)
next
  case (Succ_Insert p x)
  with succ_insert_contents [OF assms(1), of p x] show ?thesis
    by (auto simp: in_range_def split: prod.splits if_splits)
next
  case (Delete_Idx fr p)
  with delete_idx_contents [OF assms(1), of fr p] show ?thesis
    by (cases "nio_array_delete_idx fr p a") (auto simp: in_range_def split: if_splits)
next
  case (Delete fr p)
  with delete_contents [OF assms(1), of fr p] show ?thesis
    by (cases "nio_array_delete fr p a") (auto simp: in_range_def split: if_splits)
next
  case (Delete_Obj fr x)
  with delete_obj_contents [OF assms(1), of fr x] show ?thesis
    by (cases "nio_array_delete_obj fr x a") auto
next
  case (Delete_Range fr p q)
  with delete_range_contents [OF assms(1), of fr p q] assms(2) show ?thesis
    by (cases "nio_array_delete_range fr p q a") (auto simp: freed_all_def split: if_splits)
next
  case (Mv_Idx fr p q)
  with mv_idx_contents [OF assms(1), of fr p q] show ?thesis
    by (cases "nio_array_mv_idx fr p q a") (simp add: freed_all_def split: if_splits)
next
  case Pop_Back
  with pop_back_contents [OF assms(1)] show ?thesis by (cases "nio_array_pop_back a") auto
next
  case Pop_Front
  with pop_front_contents [OF assms(1)] show ?thesis by (cases "nio_array_pop_front a") auto
next
  case (Clean fr)
  with clean_contents [OF assms(1), of fr] show ?thesis
    by (cases "nio_array_clean fr a") (auto simp: freed_all_def)
next
  case (Index p)
  with assms(1) length_contents [OF assms(1)] item_contents [OF assms(1), of p] show ?thesis
    by (auto simp: nio_array_index_def in_range_def array_inv_def)
next
  case Size
  with assms(1) length_contents [OF assms(1)] show ?thesis by (simp add: nio_array_size_def array_inv_def)
qed

text \<open>
  A new array is empty: \<open>nio_array_create\<close> always succeeds.
\<close>

lemma create_contents: "\<exists>a. nio_array_create n = Some a \<and> array_inv a \<and> contents a = []"
proof -
  define k where "k = (if n \<le> 0 then 100 else n)"
  have "0 < k" by (simp add: k_def)
  moreover have "k \<le> (k + 15) div 16 * 16" by simp
  ultimately show ?thesis
    by (simp add: nio_array_create_def k_def [symmetric] nio_array_pre_append_def nio_array_grow_def Let_def
        array_inv_def contents_def)
qed

text \<open>The iterations see the objects up to the first null pointer.\<close>

definition objects :: "'a option list \<Rightarrow> 'a list" where
  "objects xs = map the (takeWhile (\<lambda>x. x \<noteq> None) xs)"

lemma objects_simps [simp]:
  "objects [] = []" "objects (None # xs) = []" "objects (Some x # xs) = x # objects xs"
  by (simp_all add: objects_def)

lemma foreach_from:
  "array_inv a \<Longrightarrow> 0 \<le> i \<Longrightarrow>
     foreach_loop (nio_array_iter_next a) \<lparr>it_i = i, it_ptr = (if i \<ge> ar_count a then None else item a i)\<rparr> =
     Some (objects (drop (nat i) (contents a)))"
proof (induction "nat (ar_count a - i)" arbitrary: i)
  case 0
  then show ?case using length_contents [OF 0(2)] by (subst foreach_loop.simps) simp
next
  case (Suc n)
  then have i: "i < ar_count a" "n = nat (ar_count a - (i + 1))" "nat (i + 1) = Suc (nat i)" by auto
  then have "nat i < length (contents a)" using length_contents [OF Suc(3)] Suc(4) by simp
  then have "drop (nat i) (contents a) = item a i # drop (Suc (nat i)) (contents a)"
    using i(1) Suc(3,4) by (simp add: Cons_nth_drop_Suc item_contents)
  with Suc(1) [OF i(2) Suc(3)] Suc(4) i(1,3) show ?case
    by (subst foreach_loop.simps) (auto simp: nio_array_iter_next_def Let_def split: option.split)
qed

lemma foreach_back:
  "array_inv a \<Longrightarrow> i < ar_count a \<Longrightarrow>
     foreach_loop (nio_array_iter_prev a) \<lparr>it_i = i, it_ptr = (if i < 0 then None else item a i)\<rparr> =
     Some (objects (rev (take (nat (i + 1)) (contents a))))"
proof (induction "nat (i + 1)" arbitrary: i)
  case 0
  then show ?case by (subst foreach_loop.simps) simp
next
  case (Suc n)
  then have i: "0 \<le> i" "n = nat (i - 1 + 1)" "nat (i + 1) = Suc (nat i)" "i - 1 < ar_count a" by auto
  then have "nat i < length (contents a)" using length_contents [OF Suc(3)] Suc(4) by simp
  then have "rev (take (nat (i + 1)) (contents a)) = item a i # rev (take (nat i) (contents a))"
    using i Suc(3,4) by (simp add: take_Suc_conv_app_nth item_contents)
  with Suc(1) [OF i(2) Suc(3) i(4)] Suc(4) i(1) show ?case
    by (subst foreach_loop.simps) (auto simp: nio_array_iter_prev_def Let_def split: option.split)
qed

subsection \<open>Properties\<close>

text \<open>
  C39: any sequence of calls on an array in which every range to be deleted begins inside the array, and objects are prepended
  only to an array that is not empty, is the same sequence of calls on the list it stands for, with the results, error
  results and freed objects that the header documents, but that the two insertions return the position of the new object
  instead of 0.  A created array stands for the empty list.
\<close>

theorem array_refines_list:
  assumes "array_inv a" "calls_ok call_ok do_list cs (contents a)" "run_calls do_array cs a = (b, rs)"
  shows "array_inv b \<and> run_calls do_list cs (contents a) = (contents b, map2 documented cs rs) \<and>
     (\<exists>a0. nio_array_create n = Some a0 \<and> array_inv a0 \<and> contents a0 = [])"
proof -
  let ?do = "\<lambda>c s. case do_array c s of (s, r) \<Rightarrow> (s, documented c r)"
  have "(array_inv (fst (?do c s)) \<and> contents (fst (?do c s)) = fst (do_list c t)) \<and>
      snd (?do c s) = snd (do_list c t)" if "array_inv s \<and> contents s = t" "call_ok c t" for c s t
    using do_array_refines [of s c] that by (cases "do_array c s") auto
  from run_calls_refines [where R = "\<lambda>s t. array_inv s \<and> contents s = t" and f = ?do and g = do_list
        and ok = call_ok, OF this, of a "contents a" cs] assms
  have "array_inv b \<and> run_calls do_list cs (contents a) = (contents b, map2 documented cs rs)"
    unfolding run_calls_results by (cases "run_calls do_list cs (contents a)") auto
  then show ?thesis using create_contents by blast
qed

theorem array_refines_list_witness:
  "\<exists>b rs. run_calls do_array [Append (Some (1 :: nat)), Prepend (Some 2), Succ_Insert 0 (Some 3), Delete_Range True 0 0] (the (nio_array_create 4)) = (b, rs) \<and>
     array_inv b \<and> contents b = [Some 3, Some 1] \<and> length rs = 4 \<and> documented (Succ_Insert 0 (Some 3)) (rs ! 2) = Ret 0 [] \<and> rs ! 3 = Ret 0 [2]"
proof -
  let ?cs = "[Append (Some (1 :: nat)), Prepend (Some 2), Succ_Insert 0 (Some 3), Delete_Range True 0 0]"
  obtain a :: "nat nio_array" where a: "nio_array_create 4 = Some a" "array_inv a" "contents a = []"
    using create_contents [of 4] by blast
  obtain b rs where b: "run_calls do_array ?cs a = (b, rs)" by fastforce
  have ok: "calls_ok call_ok do_list ?cs (contents a)" by (simp add: a(3) in_range_def)
  have l: "run_calls do_list ?cs [] = ([Some 3, Some 1], [Ret 0 [], Ret 0 [], Ret 0 [], Ret 0 [2]])"
    by (simp add: in_range_def freed_all_def freed_def)
  from array_refines_list [OF a(2) ok b, of 4, unfolded a(3) l] have r: "array_inv b"
    "[Some 3, Some 1] = contents b" "[Ret 0 [], Ret 0 [], Ret 0 [], Ret 0 [2]] = map2 documented ?cs rs"
    by blast+
  have "length rs = 4" using b by (auto split: prod.splits)
  then obtain r0 r1 r2 r3 where "rs = [r0, r1, r2, r3]" by (auto simp: numeral_eq_Suc length_Suc_conv)
  with a(1) b r show ?thesis by (intro exI [of _ b] exI [of _ rs]) auto
qed

text \<open>
  \<open>push_front\<close> on an empty array does nothing: the object is lost without notice, for
  \<open>nio_array_pred_insert\<close> wants an object to insert before.
\<close>

theorem push_front_empty:
  assumes "array_inv a"
  shows "contents (nio_array_push_front x a) = (if contents a = [] then [] else x # contents a)"
proof (cases "contents a = []")
  case True
  then have "ar_count a = 0" using length_contents [OF assms] assms by (simp add: array_inv_def)
  with True show ?thesis
    using assms by (simp add: nio_array_push_front_def nio_array_prepend_def nio_array_pred_insert_def array_inv_def)
next
  case False
  with do_array_refines [OF assms, of "Prepend x"] show ?thesis
    by (auto simp: nio_array_push_front_def split: prod.splits if_splits)
qed

theorem push_front_empty_witness:
  "contents (nio_array_push_front (Some CHR ''a'') (\<lparr>ar_capacity = 0, ar_count = 0, ar_items = []\<rparr>)) = []"
  using push_front_empty [of "\<lparr>ar_capacity = 0, ar_count = 0, ar_items = []\<rparr>" "Some CHR ''a''"]
  by (simp add: array_inv_def contents_def)

text \<open>
  Deleting a range that begins behind the last object, but inside the allocated cells, makes the array longer instead of failing: the stale cells behind the last object
  become objects again.
\<close>

theorem delete_range_grows:
  assumes "array_inv a" "0 < ar_count a" "ar_count a < b" "b \<le> ar_capacity a" "b \<le> e"
    "nio_array_delete_range False b e a = (a', fs, ret)"
  shows "ret = 0 \<and> ar_count a' = b \<and> contents a' = take (nat b) (ar_items a) \<and> fs = []"
  using assms by (auto simp: nio_array_delete_range_def Let_def contents_def)

theorem delete_range_grows_witness:
  "contents (fst (nio_array_delete_range False 3 4
      \<lparr>ar_capacity = 4, ar_count = 1, ar_items = [Some CHR ''a'', Some CHR ''x'', None, None]\<rparr>)) =
     [Some CHR ''a'', Some CHR ''x'', None]"
proof -
  let ?a = "\<lparr>ar_capacity = 4, ar_count = 1, ar_items = [Some CHR ''a'', Some CHR ''x'', None, None]\<rparr>"
  obtain b fs ret where r: "nio_array_delete_range False 3 4 ?a = (b, fs, ret)" by (rule prod_cases3)
  from delete_range_grows [OF _ _ _ _ _ r] show ?thesis by (simp add: r array_inv_def numeral_3_eq_3)
qed

text \<open>
  C40: \<open>FOREACH\<close> ends and sees the objects in order, \<open>FOREACH_REVERSE\<close> sees them in reverse
  order; both stop at the first null pointer they meet, for the iterator takes it for the end.
\<close>

theorem array_foreach_sees:
  assumes "array_inv a"
  shows "array_foreach a = Some (objects (contents a)) \<and>
     array_foreach_reverse a = Some (objects (rev (contents a)))"
proof -
  have "nio_array_iter_head a = \<lparr>it_i = 0, it_ptr = (if 0 \<ge> ar_count a then None else item a 0)\<rparr>"
    by (simp add: nio_array_iter_head_def)
  moreover have "nio_array_iter_tail a =
      \<lparr>it_i = ar_count a - 1, it_ptr = (if ar_count a - 1 < 0 then None else item a (ar_count a - 1))\<rparr>"
    by (simp add: nio_array_iter_tail_def Let_def)
  ultimately show ?thesis
    using foreach_from [OF assms, of 0] foreach_back [OF assms, of "ar_count a - 1"] length_contents [OF assms]
    by (simp add: array_foreach_def array_foreach_reverse_def)
qed

theorem array_foreach_sees_witness:
  "array_foreach \<lparr>ar_capacity = 4, ar_count = 3, ar_items = [Some CHR ''a'', Some CHR ''b'', None, None]\<rparr> = Some [CHR ''a'', CHR ''b''] \<and>
   array_foreach_reverse \<lparr>ar_capacity = 4, ar_count = 3, ar_items = [Some CHR ''a'', Some CHR ''b'', None, None]\<rparr> = Some []"
  using array_foreach_sees [of "\<lparr>ar_capacity = 4, ar_count = 3, ar_items = [Some CHR ''a'', Some CHR ''b'', None, None]\<rparr>"]
  by (simp add: array_inv_def contents_def numeral_3_eq_3)

end
