(* ===== verification/Nio_Htable.thy ===== *)
theory Nio_Htable
  imports Nio_Array "HOL-Library.Multiset"
begin

text \<open>
  The hash table with string keys (c/src/common/nio_htable.c, nio_htable.h): an array of chains
  of entries that are doubly linked through \<open>next\<close> and \<open>prev\<close>, and grows when it is full.
  Addresses are natural numbers, 0 the null pointer.  Whether an allocation succeeds is an
  argument of the operations that allocate.
\<close>

subsection \<open>Memory\<close>

record 'v info =
  i_key :: bytes
  i_value :: "'v option"
  i_hash :: u32
  i_next :: nat
  i_prev :: nat

text \<open>
  \<open>NIO_HTABLE\<close> with the memory of the entries; \<open>ht_fresh\<close> is the address that the next
  allocation of an entry returns.  \<open>ht_data = []\<close> is the null pointer.
\<close>

record 'v htable =
  ht_size :: nat
  ht_init_size :: int
  ht_used :: nat
  ht_data :: "nat list"
  ht_status :: int
  ht_info :: "nat \<Rightarrow> 'v info"
  ht_fresh :: nat

definition NIO_HTABLE_STAT_OK :: int where "NIO_HTABLE_STAT_OK = 0"
definition NIO_HTABLE_STAT_INVAL :: int where "NIO_HTABLE_STAT_INVAL = 1"
definition NIO_HTABLE_STAT_DUPLEX_KEY :: int where "NIO_HTABLE_STAT_DUPLEX_KEY = 2"

definition upd_info :: "nat \<Rightarrow> ('v info \<Rightarrow> 'v info) \<Rightarrow> 'v htable \<Rightarrow> 'v htable" where
  "upd_info p f t = t\<lparr>ht_info := (ht_info t)(p := f (ht_info t p))\<rparr>"

subsection \<open>Hashing, linking, growing\<close>

text \<open>\<open>unsigned long\<close> has 64 bits; the result is cut to 32.\<close>

definition def_hash_step :: "64 word \<Rightarrow> byte \<Rightarrow> 64 word" where
  "def_hash_step h c =
     (let h = push_bit 4 h + ucast c;
          g = h AND 0xf0000000
      in if g \<noteq> 0 then (h XOR drop_bit 24 g) XOR g else h)"

definition def_hash_fn :: "bytes \<Rightarrow> u32" where
  "def_hash_fn s = ucast (foldl def_hash_step 0 s)"

definition bucket :: "u32 \<Rightarrow> 'v htable \<Rightarrow> nat" where
  "bucket h t = unat h mod ht_size t"

definition nio_htable_link :: "nat \<Rightarrow> nat \<Rightarrow> 'v htable \<Rightarrow> 'v htable" where
  "nio_htable_link e n t =
     (let h = ht_data t ! n;
          t = upd_info e (\<lambda>x. x\<lparr>i_prev := 0\<rparr>) t;
          t = upd_info e (\<lambda>x. x\<lparr>i_next := h\<rparr>) t;
          t = (if h \<noteq> 0 then upd_info h (\<lambda>x. x\<lparr>i_prev := e\<rparr>) t else t)
      in t\<lparr>ht_data := (ht_data t)[n := e], ht_used := ht_used t + 1\<rparr>)"

text \<open>A failed allocation leaves the null pointer in \<open>data\<close>.\<close>

definition htable_size :: "bool \<Rightarrow> nat \<Rightarrow> 'v htable \<Rightarrow> 'v htable \<times> bool" where
  "htable_size mem n t =
     (let n = n OR 1
      in if \<not> mem then (t\<lparr>ht_data := []\<rparr>, False)
         else (t\<lparr>ht_data := replicate n 0, ht_size := n, ht_used := 0\<rparr>, True))"

partial_function (option) grow_chain :: "nat \<Rightarrow> 'v htable \<Rightarrow> 'v htable option" where
  "grow_chain p t =
     (if p = 0 then Some t
      else grow_chain (i_next (ht_info t p)) (nio_htable_link p (bucket (def_hash_fn (i_key (ht_info t p))) t) t))"

declare grow_chain.simps [code]

fun grow_chains :: "nat list \<Rightarrow> 'v htable \<Rightarrow> 'v htable option" where
  "grow_chains [] t = Some t"
| "grow_chains (p # ps) t = Option.bind (grow_chain p t) (grow_chains ps)"

definition nio_htable_grow :: "bool \<Rightarrow> 'v htable \<Rightarrow> ('v htable \<times> bool) option" where
  "nio_htable_grow mem t =
     (case htable_size mem (2 * ht_size t) t of
        (t1, False) \<Rightarrow> Some (t1, False)
      | (t1, True) \<Rightarrow> map_option (\<lambda>t2. (t2, True)) (grow_chains (take (ht_size t) (ht_data t)) t1))"

definition nio_htable_create :: "int \<Rightarrow> 'v htable" where
  "nio_htable_create n =
     fst (htable_size True (if n < 13 then 13 else nat n)
       \<lparr>ht_size = 0, ht_init_size = n, ht_used = 0, ht_data = [], ht_status = 0,
         ht_info = (\<lambda>_. \<lparr>i_key = [], i_value = None, i_hash = 0, i_next = 0, i_prev = 0\<rparr>), ht_fresh = 1\<rparr>)"

subsection \<open>Operations\<close>

text \<open>The loop over a chain: the first entry with the key, 0 at the end.\<close>

partial_function (option) find_chain :: "bytes \<Rightarrow> (nat \<Rightarrow> 'v info) \<Rightarrow> nat \<Rightarrow> nat option" where
  "find_chain key m p =
     (if p = 0 then Some 0
      else if key = i_key (m p) then Some p
      else find_chain key m (i_next (m p)))"

declare find_chain.simps [code]

definition nio_htable_locate :: "bytes \<Rightarrow> 'v htable \<Rightarrow> nat option" where
  "nio_htable_locate key t = find_chain key (ht_info t) (ht_data t ! bucket (def_hash_fn key) t)"

definition nio_htable_find :: "bytes \<Rightarrow> 'v htable \<Rightarrow> 'v option option" where
  "nio_htable_find key t =
     map_option (\<lambda>p. if p \<noteq> 0 then i_value (ht_info t p) else None) (nio_htable_locate key t)"

text \<open>
  \<open>nio_htable_enter\<close>: the outcomes of the three allocations (of the larger array when the
  table grows, of the entry, of the copy of the key), then key and value.  The result is the
  address of the entry, 0 for the null pointer; the outer \<open>None\<close> a loop that does not end.
\<close>

definition nio_htable_enter ::
  "bool \<times> bool \<times> bool \<Rightarrow> bytes \<Rightarrow> 'v option \<Rightarrow> 'v htable \<Rightarrow> ('v htable \<times> nat) option" where
  "nio_htable_enter mem key value t0 =
     (let t = t0\<lparr>ht_status := NIO_HTABLE_STAT_OK\<rparr>;
          hash = def_hash_fn key
      in Option.bind (if ht_used t \<ge> ht_size t then nio_htable_grow (fst mem) t else Some (t, True))
        (\<lambda>(t, ok). if \<not> ok then Some (t, 0) else
           Option.bind (find_chain key (ht_info t) (ht_data t ! bucket hash t))
             (\<lambda>p. if p \<noteq> 0 then Some (t\<lparr>ht_status := NIO_HTABLE_STAT_DUPLEX_KEY\<rparr>, p)
                  else if \<not> fst (snd mem) \<or> \<not> snd (snd mem) then Some (t, 0)
                  else let e = ht_fresh t;
                           t = upd_info e (\<lambda>x. x\<lparr>i_key := key, i_hash := hash, i_value := value\<rparr>)
                                 (t\<lparr>ht_fresh := ht_fresh t + 1\<rparr>)
                       in Some (nio_htable_link e (bucket hash t) t, e))))"

definition nio_htable_delete_entry :: "bool \<Rightarrow> nat \<Rightarrow> 'v htable \<Rightarrow> 'v htable \<times> 'v list" where
  "nio_htable_delete_entry fr p t =
     (let n = bucket (i_hash (ht_info t p)) t;
          next = i_next (ht_info t p);
          t = (if next \<noteq> 0 then upd_info next (\<lambda>x. x\<lparr>i_prev := i_prev (ht_info t p)\<rparr>) t else t);
          prev = i_prev (ht_info t p);
          t = (if prev \<noteq> 0 then upd_info prev (\<lambda>x. x\<lparr>i_next := i_next (ht_info t p)\<rparr>) t
               else t\<lparr>ht_data := (ht_data t)[n := i_next (ht_info t p)]\<rparr>)
      in (t\<lparr>ht_used := ht_used t - 1\<rparr>, freed fr (i_value (ht_info t p))))"

definition nio_htable_delete :: "bool \<Rightarrow> bytes \<Rightarrow> 'v htable \<Rightarrow> ('v htable \<times> 'v list \<times> int) option" where
  "nio_htable_delete fr key t =
     map_option (\<lambda>p. if p = 0 then (t, [], - 1)
                     else case nio_htable_delete_entry fr p t of (t', fs) \<Rightarrow> (t', fs, 0))
       (nio_htable_locate key t)"

text \<open>The entries of a chain, and of all chains in the order of the table.\<close>

partial_function (option) chain_nodes :: "(nat \<Rightarrow> 'v info) \<Rightarrow> nat \<Rightarrow> nat list option" where
  "chain_nodes m p =
     (if p = 0 then Some [] else Option.bind (chain_nodes m (i_next (m p))) (\<lambda>ps. Some (p # ps)))"

declare chain_nodes.simps [code]

fun all_nodes :: "(nat \<Rightarrow> 'v info) \<Rightarrow> nat list \<Rightarrow> nat list option" where
  "all_nodes m [] = Some []"
| "all_nodes m (p # ps) =
     Option.bind (chain_nodes m p) (\<lambda>xs. Option.bind (all_nodes m ps) (\<lambda>ys. Some (xs @ ys)))"

text \<open>\<open>nio_htable_list\<close>, less its null terminator; \<open>nio_htable_walk\<close> calls \<open>action\<close> on the same.\<close>

definition nio_htable_list :: "'v htable \<Rightarrow> nat list option" where
  "nio_htable_list t = all_nodes (ht_info t) (take (ht_size t) (ht_data t))"

definition nio_htable_walk :: "(nat \<Rightarrow> 's \<Rightarrow> 's) \<Rightarrow> 'v htable \<Rightarrow> 's \<Rightarrow> 's option" where
  "nio_htable_walk action t s = map_option (\<lambda>ps. fold action ps s) (all_nodes (ht_info t) (take (ht_size t) (ht_data t)))"

text \<open>\<open>nio_htable_free\<close>: the values freed.  \<open>nio_htable_reset\<close> goes on with a table of the initial size.\<close>

definition nio_htable_free :: "bool \<Rightarrow> 'v htable \<Rightarrow> 'v list option" where
  "nio_htable_free fr t =
     map_option (\<lambda>ps. concat (map (\<lambda>p. freed fr (i_value (ht_info t p))) ps))
       (all_nodes (ht_info t) (take (ht_size t) (ht_data t)))"

definition nio_htable_reset :: "bool \<Rightarrow> bool \<Rightarrow> 'v htable \<Rightarrow> ('v htable \<times> 'v list \<times> int) option" where
  "nio_htable_reset mem fr t =
     map_option (\<lambda>fs. case htable_size mem (if ht_init_size t < 13 then 13 else nat (ht_init_size t)) t of
                        (t', ok) \<Rightarrow> (t', fs, if ok then 0 else - 1))
       (nio_htable_free fr t)"

definition nio_htable_size :: "'v htable option \<Rightarrow> int" where
  "nio_htable_size t = (case t of None \<Rightarrow> 0 | Some t \<Rightarrow> int (ht_size t))"

definition nio_htable_used :: "'v htable option \<Rightarrow> int" where
  "nio_htable_used t = (case t of None \<Rightarrow> 0 | Some t \<Rightarrow> int (ht_used t))"

definition nio_htable_errno :: "'v htable option \<Rightarrow> int" where
  "nio_htable_errno t = (case t of None \<Rightarrow> NIO_HTABLE_STAT_INVAL | Some t \<Rightarrow> ht_status t)"

definition nio_htable_set_errno :: "int \<Rightarrow> 'v htable option \<Rightarrow> 'v htable option" where
  "nio_htable_set_errno error t = map_option (\<lambda>t. t\<lparr>ht_status := error\<rparr>) t"

subsection \<open>The iterator\<close>

text \<open>
  The scans for the next chain that is not empty, upwards and downwards from \<open>i\<close>.  They leave
  \<open>ptr\<close> as it was when there is none.  \<open>ptr = 0\<close> ends an iteration.
\<close>

record hiter =
  hi_i :: int
  hi_size :: int
  hi_ptr :: nat

function scan_up :: "'v htable \<Rightarrow> hiter \<Rightarrow> hiter" where
  "scan_up t it =
     (if hi_i it < hi_size it then
        (if ht_data t ! nat (hi_i it) \<noteq> 0 then it\<lparr>hi_ptr := ht_data t ! nat (hi_i it)\<rparr>
         else scan_up t (it\<lparr>hi_i := hi_i it + 1\<rparr>))
      else it)"
  by pat_completeness auto
termination by (relation "measure (\<lambda>(t, it). nat (hi_size it - hi_i it))") auto

function scan_down :: "'v htable \<Rightarrow> hiter \<Rightarrow> hiter" where
  "scan_down t it =
     (if hi_i it \<ge> 0 then
        (if ht_data t ! nat (hi_i it) \<noteq> 0 then it\<lparr>hi_ptr := ht_data t ! nat (hi_i it)\<rparr>
         else scan_down t (it\<lparr>hi_i := hi_i it - 1\<rparr>))
      else it)"
  by pat_completeness auto
termination by (relation "measure (\<lambda>(t, it). nat (hi_i it + 1))") auto

declare scan_up.simps [simp del] scan_down.simps [simp del]

definition nio_htable_iter_head :: "'v htable \<Rightarrow> hiter" where
  "nio_htable_iter_head t = scan_up t \<lparr>hi_i = 0, hi_size = int (ht_size t), hi_ptr = 0\<rparr>"

definition nio_htable_iter_tail :: "'v htable \<Rightarrow> hiter" where
  "nio_htable_iter_tail t = scan_down t \<lparr>hi_i = int (ht_size t) - 1, hi_size = int (ht_size t), hi_ptr = 0\<rparr>"

text \<open>The first step of \<open>iter_next\<close> and \<open>iter_prev\<close> is the same: on in the chain.\<close>

definition iter_in_chain :: "'v htable \<Rightarrow> hiter \<Rightarrow> hiter" where
  "iter_in_chain t it = (if hi_ptr it \<noteq> 0 then it\<lparr>hi_ptr := i_next (ht_info t (hi_ptr it))\<rparr> else it)"

definition nio_htable_iter_next :: "'v htable \<Rightarrow> hiter \<Rightarrow> hiter" where
  "nio_htable_iter_next t it =
     (let it = iter_in_chain t it
      in if hi_ptr it \<noteq> 0 then it else scan_up t (it\<lparr>hi_i := hi_i it + 1\<rparr>))"

definition nio_htable_iter_prev :: "'v htable \<Rightarrow> hiter \<Rightarrow> hiter" where
  "nio_htable_iter_prev t it =
     (let it = iter_in_chain t it
      in if hi_ptr it \<noteq> 0 then it else scan_down t (it\<lparr>hi_i := hi_i it - 1\<rparr>))"

partial_function (option) htable_loop :: "(hiter \<Rightarrow> hiter) \<Rightarrow> hiter \<Rightarrow> nat list option" where
  "htable_loop nxt it =
     (if hi_ptr it = 0 then Some []
      else Option.bind (htable_loop nxt (nxt it)) (\<lambda>ps. Some (hi_ptr it # ps)))"

declare htable_loop.simps [code]

definition htable_foreach :: "'v htable \<Rightarrow> nat list option" where
  "htable_foreach t = htable_loop (nio_htable_iter_next t) (nio_htable_iter_head t)"

definition htable_foreach_reverse :: "'v htable \<Rightarrow> nat list option" where
  "htable_foreach_reverse t = htable_loop (nio_htable_iter_prev t) (nio_htable_iter_tail t)"

subsection \<open>Chains\<close>

text \<open>The entries on a chain that starts at \<open>p\<close>, the first one's \<open>prev\<close> being \<open>q\<close>.\<close>

fun chain :: "(nat \<Rightarrow> 'v info) \<Rightarrow> nat \<Rightarrow> nat \<Rightarrow> nat list \<Rightarrow> bool" where
  "chain m q p [] = (p = 0)"
| "chain m q p (x # xs) = (p = x \<and> x \<noteq> 0 \<and> i_prev (m x) = q \<and> chain m x (i_next (m x)) xs)"

lemma chain_cong:
  "(\<And>x. x \<in> set xs \<Longrightarrow> i_next (m' x) = i_next (m x) \<and> i_prev (m' x) = i_prev (m x)) \<Longrightarrow>
     chain m' q p xs = chain m q p xs"
  by (induction xs arbitrary: p q) auto

lemma chain_head: "chain m q p xs \<Longrightarrow> p = (case xs of [] \<Rightarrow> 0 | x # _ \<Rightarrow> x)"
  by (cases xs) auto

lemma chain_nodes_0 [simp]: "chain_nodes m 0 = Some []"
  by (subst chain_nodes.simps) simp

lemma chain_nodes_Cons: "p \<noteq> 0 \<Longrightarrow> chain_nodes m p = Option.bind (chain_nodes m (i_next (m p))) (\<lambda>ps. Some (p # ps))"
  by (subst chain_nodes.simps) simp

lemma chain_nodes_eq: "chain m q p xs \<Longrightarrow> chain_nodes m p = Some xs"
  by (induction xs arbitrary: p q) (auto simp: chain_nodes_Cons)

lemma chain_nonzero: "chain m q p xs \<Longrightarrow> 0 \<notin> set xs"
  by (induction xs arbitrary: p q) auto

lemma find_chain_0 [simp]: "find_chain key m 0 = Some 0"
  by (subst find_chain.simps) simp

lemma find_chain_Cons:
  "p \<noteq> 0 \<Longrightarrow> find_chain key m p = (if key = i_key (m p) then Some p else find_chain key m (i_next (m p)))"
  by (subst find_chain.simps) simp

lemma find_chain_eq:
  "chain m q p xs \<Longrightarrow>
     find_chain key m p = Some (case find (\<lambda>x. i_key (m x) = key) xs of None \<Rightarrow> 0 | Some x \<Rightarrow> x)"
  by (induction xs arbitrary: p q) (auto simp: find_chain_Cons)

lemma chain_reprev:
  assumes "chain m q p xs" "distinct xs" "p \<noteq> 0"
    "\<And>x. x \<in> set xs \<Longrightarrow> i_next (m' x) = i_next (m x)"
    "\<And>x. x \<in> set xs \<Longrightarrow> i_prev (m' x) = (if x = p then q' else i_prev (m x))"
  shows "chain m' q' p xs"
proof (cases xs)
  case (Cons x ys)
  then have "chain m' x (i_next (m x)) ys = chain m x (i_next (m x)) ys"
    using assms by (intro chain_cong) auto
  with Cons assms show ?thesis by simp
qed (use assms in simp)

text \<open>A part of a chain, that ends at an entry \<open>q'\<close> whose \<open>next\<close> is \<open>p'\<close>.\<close>

fun seg :: "(nat \<Rightarrow> 'v info) \<Rightarrow> nat \<Rightarrow> nat \<Rightarrow> nat list \<Rightarrow> nat \<Rightarrow> nat \<Rightarrow> bool" where
  "seg m q p [] q' p' = (q = q' \<and> p = p')"
| "seg m q p (x # xs) q' p' = (p = x \<and> x \<noteq> 0 \<and> i_prev (m x) = q \<and> seg m x (i_next (m x)) xs q' p')"

lemma chain_append: "chain m q p (xs @ ys) \<longleftrightarrow> (\<exists>a b. seg m q p xs a b \<and> chain m a b ys)"
  by (induction xs arbitrary: q p) auto

lemma seg_snoc: "seg m q p (xs @ [x]) a b \<longleftrightarrow>
    seg m q p xs (i_prev (m x)) x \<and> x \<noteq> 0 \<and> a = x \<and> b = i_next (m x)"
  by (induction xs arbitrary: q p) auto

lemma seg_cong:
  "(\<And>x. x \<in> set xs \<Longrightarrow> i_next (m' x) = i_next (m x) \<and> i_prev (m' x) = i_prev (m x)) \<Longrightarrow>
     seg m' q p xs q' p' = seg m q p xs q' p'"
  by (induction xs arbitrary: p q) auto

lemma seg_nonzero: "seg m q p xs a b \<Longrightarrow> 0 \<notin> set xs"
  by (induction xs arbitrary: p q) auto

lemma seg_last: "seg m q p xs a b \<Longrightarrow> a = last (q # xs)"
  by (induction xs arbitrary: p q) auto

text \<open>Taking an entry out: its neighbours are joined.\<close>

lemma chain_remove:
  assumes "chain m q p (us @ e # vs)" "distinct (us @ e # vs)"
    "\<And>x. x \<in> set (us @ vs) \<Longrightarrow> i_prev (m' x) = (if x = i_next (m e) then i_prev (m e) else i_prev (m x))"
    "\<And>x. x \<in> set (us @ vs) \<Longrightarrow> i_next (m' x) = (if x = i_prev (m e) \<and> us \<noteq> [] then i_next (m e) else i_next (m x))"
  shows "chain m' q (if us = [] then i_next (m e) else p) (us @ vs)"
proof -
  obtain a where us: "seg m q p us a e" and e: "i_prev (m e) = a" and vs: "chain m e (i_next (m e)) vs"
    using assms(1) by (auto simp: chain_append)
  have a: "a = last (q # us)" using us by (rule seg_last)
  have z: "0 \<notin> set us" "0 \<notin> set vs" using us vs by (auto dest: seg_nonzero chain_nonzero)
  have vs': "chain m' a (i_next (m e)) vs"
  proof (cases vs)
    case (Cons y ys)
    have y: "i_next (m e) = y" "y \<noteq> 0" "y \<notin> set ys" "y \<noteq> e" "e \<notin> set ys" "chain m y (i_next (m y)) ys"
      using vs assms(2) Cons by auto
    have w: "x \<noteq> a \<or> us = []" if "x \<in> set vs" for x
      using that assms(2) a by (cases "us = []") (auto dest: last_in_set [of us])
    have "chain m' y (i_next (m y)) ys = chain m y (i_next (m y)) ys"
    proof (rule chain_cong)
      fix x assume x: "x \<in> set ys"
      then have "x \<noteq> e" "x \<noteq> y" using y(3,5) by auto
      with w [of x] x Cons show "i_next (m' x) = i_next (m x) \<and> i_prev (m' x) = i_prev (m x)"
        using assms(3) [of x] assms(4) [of x] y(1) e by auto
    qed
    moreover have "i_next (m' y) = i_next (m y)" using assms(4) [of y] w [of y] Cons e by auto
    ultimately show ?thesis using y Cons assms(3) [of y] e by simp
  qed (use vs in simp)
  show ?thesis
  proof (cases us rule: rev_cases)
    case Nil
    with us vs' show ?thesis by simp
  next
    case (snoc us0 w)
    then have w: "seg m q p us0 (i_prev (m w)) w" "w \<noteq> 0" "a = w" "i_next (m w) = e"
      using us by (simp_all add: seg_snoc)
    have next_vs: "i_next (m e) \<notin> set us" using chain_head [OF vs] assms(2) z(1) by (auto split: list.splits)
    have "seg m' q p us0 (i_prev (m w)) w = seg m q p us0 (i_prev (m w)) w"
    proof (rule seg_cong)
      fix x assume x: "x \<in> set us0"
      then have "x \<in> set us" "x \<noteq> w" "x \<noteq> i_next (m e)" using assms(2) snoc next_vs by auto
      then show "i_next (m' x) = i_next (m x) \<and> i_prev (m' x) = i_prev (m x)"
        using assms(3) [of x] assms(4) [of x] e w(3) by simp
    qed
    moreover have "w \<noteq> e" "w \<noteq> i_next (m e)" using assms(2) snoc next_vs by auto
    moreover have "i_prev (m' w) = i_prev (m w)" "i_next (m' w) = i_next (m e)"
      using assms(3,4) [of w] calculation(2,3) e w(3) snoc by simp_all
    ultimately have "seg m' q p us a (i_next (m e))"
      using w snoc by (simp add: seg_snoc)
    with vs' snoc show ?thesis unfolding chain_append by auto
  qed
qed

subsection \<open>Invariant and abstraction\<close>

text \<open>
  \<open>xss\<close> lists the entries of each chain.  Every entry hangs on the chain of its hash, carries
  the hash of its key, no two have the same key, and \<open>used\<close> counts them.
\<close>

definition ht_rep :: "'v htable \<Rightarrow> nat list list \<Rightarrow> bool" where
  "ht_rep t xss \<longleftrightarrow> ht_size t = length xss \<and> 0 < length xss \<and> length (ht_data t) = length xss \<and>
     (\<forall>n < length xss. chain (ht_info t) 0 (ht_data t ! n) (xss ! n) \<and>
        (\<forall>x \<in> set (xss ! n). x < ht_fresh t \<and> i_hash (ht_info t x) = def_hash_fn (i_key (ht_info t x)) \<and>
           bucket (i_hash (ht_info t x)) t = n)) \<and>
     distinct (map (\<lambda>x. i_key (ht_info t x)) (concat xss)) \<and> ht_used t = length (concat xss) \<and> 0 < ht_fresh t"

definition ht_map :: "'v htable \<Rightarrow> nat list list \<Rightarrow> bytes \<rightharpoonup> 'v option" where
  "ht_map t xss = map_of (map (\<lambda>x. (i_key (ht_info t x), i_value (ht_info t x))) (concat xss))"

lemma concat_split:
  "n < length xss \<Longrightarrow> concat (xss[n := ys]) = concat (take n xss) @ ys @ concat (drop (Suc n) xss)"
  by (simp add: upd_conv_take_nth_drop)

lemma concat_split_id:
  "n < length xss \<Longrightarrow> concat xss = concat (take n xss) @ xss ! n @ concat (drop (Suc n) xss)"
  by (metis concat_split list_update_id)

lemma ht_map_iff:
  assumes "ht_rep t xss"
  shows "ht_map t xss k = Some v \<longleftrightarrow> (\<exists>x \<in> set (concat xss). i_key (ht_info t x) = k \<and> i_value (ht_info t x) = v)"
proof -
  have "distinct (map fst (map (\<lambda>x. (i_key (ht_info t x), i_value (ht_info t x))) (concat xss)))"
    using assms by (simp add: ht_rep_def comp_def)
  then show ?thesis unfolding ht_map_def by (subst map_of_eq_Some_iff) auto
qed

lemma ht_map_None: "ht_map t xss k = None \<longleftrightarrow> k \<notin> (\<lambda>x. i_key (ht_info t x)) ` set (concat xss)"
  by (simp add: ht_map_def map_of_eq_None_iff image_image)

lemma bucket_less: "ht_rep t xss \<Longrightarrow> bucket h t < length xss"
  by (simp add: bucket_def ht_rep_def)

text \<open>Looking for a key finds its entry.\<close>

lemma find_entry:
  assumes "ht_rep t xss" "n = bucket (def_hash_fn key) t"
  shows "\<exists>p. find_chain key (ht_info t) (ht_data t ! n) = Some p \<and>
     (case ht_map t xss key of None \<Rightarrow> p = 0
      | Some v \<Rightarrow> p \<noteq> 0 \<and> p \<in> set (xss ! n) \<and> i_key (ht_info t p) = key \<and> i_value (ht_info t p) = v)"
proof -
  have n: "n < length xss" using bucket_less [OF assms(1)] assms(2) by simp
  have c: "chain (ht_info t) 0 (ht_data t ! n) (xss ! n)" using assms(1) n by (simp add: ht_rep_def)
  note f = find_chain_eq [OF c, of key]
  show ?thesis
  proof (cases "find (\<lambda>x. i_key (ht_info t x) = key) (xss ! n)")
    case None
    have "key \<notin> (\<lambda>x. i_key (ht_info t x)) ` set (concat xss)"
    proof
      assume "key \<in> (\<lambda>x. i_key (ht_info t x)) ` set (concat xss)"
      then obtain x j where x: "j < length xss" "x \<in> set (xss ! j)" "i_key (ht_info t x) = key"
        by (auto simp: in_set_conv_nth) (metis in_set_conv_nth)
      from assms(1) x(1,2) have "i_hash (ht_info t x) = def_hash_fn (i_key (ht_info t x)) \<and>
          bucket (i_hash (ht_info t x)) t = j" unfolding ht_rep_def by blast
      with x None assms(2) show False by (auto simp: find_None_iff)
    qed
    then have "ht_map t xss key = None" by (simp only: ht_map_None not_False_eq_True)
    with None f show ?thesis by simp
  next
    case (Some x)
    then have x: "x \<in> set (xss ! n)" "i_key (ht_info t x) = key" by (auto simp: find_Some_iff)
    then have "x \<in> set (concat xss)" using n by auto
    with x(2) have "ht_map t xss key = Some (i_value (ht_info t x))" using ht_map_iff [OF assms(1)] by blast
    moreover have "x \<noteq> 0" using chain_nonzero [OF c] x(1) by metis
    ultimately show ?thesis using Some f x by simp
  qed
qed

text \<open>Two tables with the same entries stand for the same map.\<close>

lemma map_eqI: "(\<And>k v. m k = Some v \<longleftrightarrow> m' k = Some v) \<Longrightarrow> m = m'"
  by (rule ext) (metis not_None_eq)

lemma map_of_rev: "distinct (map fst xs) \<Longrightarrow> map_of (rev xs) = map_of xs"
  by (rule map_eqI) (simp add: map_of_eq_Some_iff rev_map [symmetric])

lemma ht_rep_chain: "ht_rep t xss \<Longrightarrow> n < length xss \<Longrightarrow> chain (ht_info t) 0 (ht_data t ! n) (xss ! n)"
  by (simp add: ht_rep_def)

lemma ht_rep_entry:
  assumes "ht_rep t xss" "n < length xss" "x \<in> set (xss ! n)"
  shows "x < ht_fresh t" "i_hash (ht_info t x) = def_hash_fn (i_key (ht_info t x))"
    "bucket (i_hash (ht_info t x)) t = n" "x \<noteq> 0"
proof -
  from assms show "x < ht_fresh t" "bucket (i_hash (ht_info t x)) t = n"
    "i_hash (ht_info t x) = def_hash_fn (i_key (ht_info t x))" unfolding ht_rep_def by blast+
  show "x \<noteq> 0" using chain_nonzero [OF ht_rep_chain [OF assms(1,2)]] assms(3) by metis
qed

lemma ht_rep_disjoint:
  "ht_rep t xss \<Longrightarrow> n < length xss \<Longrightarrow> j < length xss \<Longrightarrow> x \<in> set (xss ! n) \<Longrightarrow> x \<in> set (xss ! j) \<Longrightarrow> n = j"
  using ht_rep_entry(3) by blast

lemma ht_rep_distinct: "ht_rep t xss \<Longrightarrow> distinct (concat xss)"
  by (simp add: ht_rep_def distinct_map)

lemma ht_rep_distinct_chain: "ht_rep t xss \<Longrightarrow> n < length xss \<Longrightarrow> distinct (xss ! n)"
  using ht_rep_distinct [of t xss] by (simp add: concat_split_id [of n xss])

lemma ht_repI:
  assumes "ht_size t = length xss" "0 < length xss" "length (ht_data t) = length xss"
    "\<And>n. n < length xss \<Longrightarrow> chain (ht_info t) 0 (ht_data t ! n) (xss ! n)"
    "\<And>n x. n < length xss \<Longrightarrow> x \<in> set (xss ! n) \<Longrightarrow> x < ht_fresh t \<and>
       i_hash (ht_info t x) = def_hash_fn (i_key (ht_info t x)) \<and> bucket (i_hash (ht_info t x)) t = n"
    "distinct (map (\<lambda>x. i_key (ht_info t x)) (concat xss))" "ht_used t = length (concat xss)" "0 < ht_fresh t"
  shows "ht_rep t xss"
  unfolding ht_rep_def using assms by blast

subsection \<open>Linking\<close>

lemma link_fields [simp]:
  "i_key (ht_info (nio_htable_link e n t) x) = i_key (ht_info t x)"
  "i_value (ht_info (nio_htable_link e n t) x) = i_value (ht_info t x)"
  "i_hash (ht_info (nio_htable_link e n t) x) = i_hash (ht_info t x)"
  "ht_size (nio_htable_link e n t) = ht_size t"
  "ht_used (nio_htable_link e n t) = ht_used t + 1"
  "ht_data (nio_htable_link e n t) = (ht_data t)[n := e]"
  "ht_fresh (nio_htable_link e n t) = ht_fresh t"
  "ht_init_size (nio_htable_link e n t) = ht_init_size t"
  "ht_status (nio_htable_link e n t) = ht_status t"
  "bucket h (nio_htable_link e n t) = bucket h t"
  by (simp_all add: nio_htable_link_def upd_info_def Let_def bucket_def)

lemma link_next: "i_next (ht_info (nio_htable_link e n t) x) = (if x = e then ht_data t ! n else i_next (ht_info t x))"
  by (simp add: nio_htable_link_def upd_info_def Let_def)

lemma link_prev:
  "i_prev (ht_info (nio_htable_link e n t) x) =
     (if x = ht_data t ! n \<and> x \<noteq> 0 then e else if x = e then 0 else i_prev (ht_info t x))"
  by (simp add: nio_htable_link_def upd_info_def Let_def)

lemma link_chain:
  assumes "chain (ht_info t) 0 (ht_data t ! n) xs" "distinct xs" "e \<notin> set xs" "e \<noteq> 0"
  shows "chain (ht_info (nio_htable_link e n t)) 0 e (e # xs)"
proof (cases xs)
  case Nil
  with assms show ?thesis by (simp add: link_next link_prev)
next
  case (Cons y ys)
  with assms have y: "ht_data t ! n = y" "y \<noteq> 0" by auto
  have "chain (ht_info (nio_htable_link e n t)) e (ht_data t ! n) xs"
    using assms(3) y Cons by (intro chain_reprev [OF assms(1,2)]) (auto simp: link_next link_prev)
  with assms y Cons show ?thesis by (simp add: link_next link_prev)
qed

lemma link_rep:
  assumes rep: "ht_rep t xss" and e: "e \<noteq> 0" "e < ht_fresh t"
    and h: "i_hash (ht_info t e) = def_hash_fn (i_key (ht_info t e))" "n = bucket (i_hash (ht_info t e)) t"
    and new: "ht_map t xss (i_key (ht_info t e)) = None"
  shows "ht_rep (nio_htable_link e n t) (xss[n := e # xss ! n])"
    "ht_map (nio_htable_link e n t) (xss[n := e # xss ! n]) =
       (ht_map t xss)(i_key (ht_info t e) \<mapsto> i_value (ht_info t e))"
proof -
  let ?t = "nio_htable_link e n t" and ?xss = "xss[n := e # xss ! n]"
  have n: "n < length xss" using bucket_less [OF rep] h(2) by simp
  have new': "i_key (ht_info t e) \<notin> (\<lambda>x. i_key (ht_info t x)) ` set (concat xss)"
    using new by (simp only: ht_map_None not_False_eq_True)
  then have ne: "e \<notin> set (concat xss)" by blast
  have mem: "x \<in> set (concat xss)" if "j < length xss" "x \<in> set (xss ! j)" for x j
    using that by auto
  have chains: "chain (ht_info ?t) 0 (ht_data ?t ! j) (?xss ! j)" if j: "j < length xss" for j
  proof (cases "j = n")
    case True
    have "chain (ht_info ?t) 0 e (e # xss ! n)"
      using ne mem [OF n] by (intro link_chain ht_rep_chain [OF rep n] ht_rep_distinct_chain [OF rep n] e(1)) auto
    with True n rep show ?thesis by (simp add: ht_rep_def)
  next
    case False
    have "x \<noteq> e \<and> x \<noteq> ht_data t ! n" if x: "x \<in> set (xss ! j)" for x
    proof -
      have "ht_data t ! n = 0 \<or> ht_data t ! n \<in> set (xss ! n)"
        using chain_head [OF ht_rep_chain [OF rep n]] by (cases "xss ! n") auto
      with ht_rep_disjoint [OF rep n j] ht_rep_entry(4) [OF rep j x] False x ne mem [OF j x] show ?thesis
        by metis
    qed
    then have "chain (ht_info ?t) 0 (ht_data t ! j) (xss ! j) = chain (ht_info t) 0 (ht_data t ! j) (xss ! j)"
      by (intro chain_cong) (auto simp: link_next link_prev)
    with ht_rep_chain [OF rep j] False show ?thesis by simp
  qed
  have entries: "x < ht_fresh t \<and> i_hash (ht_info t x) = def_hash_fn (i_key (ht_info t x)) \<and>
      bucket (def_hash_fn (i_key (ht_info t x))) t = j" if "j < length xss" "x \<in> set (?xss ! j)" for x j
    using that e(2) h ht_rep_entry [OF rep that(1), of x] by (cases "j = n") auto
  have "distinct (map (\<lambda>x. i_key (ht_info t x)) (concat ?xss))"
    using rep new' unfolding ht_rep_def concat_split [OF n] concat_split_id [OF n] by auto
  moreover have "length (concat ?xss) = ht_used t + 1"
    using rep unfolding ht_rep_def concat_split [OF n] concat_split_id [OF n] by simp
  ultimately show rep': "ht_rep ?t ?xss"
    by (intro ht_repI) (use rep chains entries in \<open>simp_all add: ht_rep_def\<close>)
  have set': "set (concat ?xss) = insert e (set (concat xss))"
    unfolding concat_split [OF n] concat_split_id [OF n] by auto
  show "ht_map ?t ?xss = (ht_map t xss)(i_key (ht_info t e) \<mapsto> i_value (ht_info t e))"
  proof (rule map_eqI)
    have "i_key (ht_info t x) \<noteq> i_key (ht_info t e)" if "x \<in> set (concat xss)" for x
      using new' that by (metis image_eqI)
    then show "ht_map ?t ?xss k = Some v \<longleftrightarrow>
        ((ht_map t xss)(i_key (ht_info t e) \<mapsto> i_value (ht_info t e))) k = Some v" for k v
      by (auto simp: ht_map_iff [OF rep'] ht_map_iff [OF rep] set' simp del: set_concat)
  qed
qed

subsection \<open>Growing\<close>

text \<open>The part of a chain that the loops read going forward, and an entry waiting to be linked.\<close>

fun next_chain :: "(nat \<Rightarrow> 'v info) \<Rightarrow> nat \<Rightarrow> nat list \<Rightarrow> bool" where
  "next_chain m p [] = (p = 0)"
| "next_chain m p (x # xs) = (p = x \<and> x \<noteq> 0 \<and> next_chain m (i_next (m x)) xs)"

lemma next_chain_cong:
  "(\<And>x. x \<in> set xs \<Longrightarrow> i_next (m' x) = i_next (m x)) \<Longrightarrow> next_chain m' p xs = next_chain m p xs"
  by (induction xs arbitrary: p) auto

lemma chain_next: "chain m q p xs \<Longrightarrow> next_chain m p xs"
  by (induction xs arbitrary: p q) auto

definition pairs_of :: "(nat \<Rightarrow> 'v info) \<Rightarrow> nat list \<Rightarrow> (bytes \<times> 'v option) list" where
  "pairs_of m xs = map (\<lambda>x. (i_key (m x), i_value (m x))) xs"

lemma pairs_of_simps [simp]:
  "pairs_of m [] = []" "pairs_of m (x # xs) = (i_key (m x), i_value (m x)) # pairs_of m xs"
  "pairs_of m (xs @ ys) = pairs_of m xs @ pairs_of m ys"
  by (simp_all add: pairs_of_def)

lemma ht_map_pairs: "ht_map t xss = map_of (pairs_of (ht_info t) (concat xss))"
  by (simp add: ht_map_def pairs_of_def)

text \<open>\<open>t'\<close> has the entries of \<open>t\<close>, linked in another way; \<open>xs\<close> are the ones it may have relinked.\<close>

definition relinked :: "nat list \<Rightarrow> 'v htable \<Rightarrow> 'v htable \<Rightarrow> bool" where
  "relinked xs t t' \<longleftrightarrow> (\<forall>x. i_key (ht_info t' x) = i_key (ht_info t x) \<and> i_value (ht_info t' x) = i_value (ht_info t x) \<and>
     i_hash (ht_info t' x) = i_hash (ht_info t x) \<and> (x \<notin> set xs \<longrightarrow> i_next (ht_info t' x) = i_next (ht_info t x))) \<and>
     ht_size t' = ht_size t \<and> ht_fresh t' = ht_fresh t \<and> ht_status t' = ht_status t \<and> ht_init_size t' = ht_init_size t"

lemma relinked_refl [simp]: "relinked xs t t"
  by (simp add: relinked_def)

lemma relinked_trans: "relinked xs t t1 \<Longrightarrow> relinked ys t1 t2 \<Longrightarrow> relinked (xs @ ys) t t2"
  by (simp add: relinked_def)

lemma relinked_link: "relinked [e] t (nio_htable_link e n t)"
  by (simp add: relinked_def link_next)

lemma relinked_pairs: "relinked xs t t' \<Longrightarrow> pairs_of (ht_info t') ys = pairs_of (ht_info t) ys"
  by (simp add: relinked_def pairs_of_def)

definition waiting :: "'v htable \<Rightarrow> nat list list \<Rightarrow> nat list \<Rightarrow> bool" where
  "waiting t xss xs \<longleftrightarrow> (\<forall>x \<in> set xs. x \<noteq> 0 \<and> x < ht_fresh t \<and> i_hash (ht_info t x) = def_hash_fn (i_key (ht_info t x)) \<and>
     ht_map t xss (i_key (ht_info t x)) = None) \<and> distinct (map (\<lambda>x. i_key (ht_info t x)) xs)"

lemma waiting_after:
  assumes "waiting t xss (xs @ ys)" "relinked xs t t'"
    "ht_map t' xss' = ht_map t xss ++ map_of (rev (pairs_of (ht_info t) xs))"
  shows "waiting t' xss' ys"
proof -
  have f: "\<And>x. i_key (ht_info t' x) = i_key (ht_info t x) \<and> i_hash (ht_info t' x) = i_hash (ht_info t x)"
    "ht_fresh t' = ht_fresh t" using assms(2) by (simp_all add: relinked_def)
  have "map_of (rev (pairs_of (ht_info t) xs)) (i_key (ht_info t y)) = None" if "y \<in> set ys" for y
    using assms(1) that by (auto simp: waiting_def map_of_eq_None_iff pairs_of_def image_image)
  with assms(1,3) f show ?thesis by (auto simp: waiting_def map_add_None)
qed

lemma grow_chain_Cons:
  "p \<noteq> 0 \<Longrightarrow> grow_chain p t = grow_chain (i_next (ht_info t p))
     (nio_htable_link p (bucket (def_hash_fn (i_key (ht_info t p))) t) t)"
  by (subst grow_chain.simps) simp

lemma grow_chain_0 [simp]: "grow_chain 0 t = Some t"
  by (subst grow_chain.simps) simp

lemma grow_chain_rep:
  "ht_rep t xss \<Longrightarrow> next_chain (ht_info t) p xs \<Longrightarrow> waiting t xss xs \<Longrightarrow>
     \<exists>t' xss'. grow_chain p t = Some t' \<and> ht_rep t' xss' \<and> relinked xs t t' \<and>
       ht_map t' xss' = ht_map t xss ++ map_of (rev (pairs_of (ht_info t) xs))"
proof (induction xs arbitrary: t xss p)
  case (Cons x xs)
  let ?n = "bucket (i_hash (ht_info t x)) t"
  let ?t = "nio_htable_link x ?n t" and ?xss = "xss[?n := x # xss ! ?n]"
  from Cons.prems(2,3) have x: "p = x" "x \<noteq> 0" "x < ht_fresh t" "i_hash (ht_info t x) = def_hash_fn (i_key (ht_info t x))"
    "ht_map t xss (i_key (ht_info t x)) = None" "x \<notin> set xs" by (auto simp: waiting_def)
  have rep: "ht_rep ?t ?xss" and m: "ht_map ?t ?xss = (ht_map t xss)(i_key (ht_info t x) \<mapsto> i_value (ht_info t x))"
    by (rule link_rep [OF Cons.prems(1) x(2,3,4) refl x(5)])+
  have w: "waiting ?t ?xss xs"
    by (rule waiting_after [of t xss "[x]"]) (use Cons.prems(3) in \<open>simp_all add: m relinked_link\<close>)
  have "next_chain (ht_info ?t) (i_next (ht_info t x)) xs"
    using Cons.prems(2) x(6) by (subst next_chain_cong [where m = "ht_info t"]) (auto simp: link_next)
  from Cons.IH [OF rep this w] obtain t' xss' where t': "grow_chain (i_next (ht_info t x)) ?t = Some t'"
    "ht_rep t' xss'" "relinked xs ?t t'" "ht_map t' xss' = ht_map ?t ?xss ++ map_of (rev (pairs_of (ht_info ?t) xs))"
    by blast
  have "grow_chain p t = Some t'" using t'(1) x(1,2,4) by (simp add: grow_chain_Cons)
  moreover have "relinked (x # xs) t t'" using relinked_trans [OF relinked_link t'(3)] by simp
  moreover have "ht_map t' xss' = ht_map t xss ++ map_of (rev (pairs_of (ht_info t) (x # xs)))"
    using t'(4) by (simp add: m relinked_pairs [OF relinked_link])
  ultimately show ?case using t'(2) by blast
qed (simp, blast)

lemma grow_chains_rep:
  "ht_rep t xss \<Longrightarrow> list_all2 (next_chain (ht_info t)) ps yss \<Longrightarrow> waiting t xss (concat yss) \<Longrightarrow>
     \<exists>t' xss'. grow_chains ps t = Some t' \<and> ht_rep t' xss' \<and> relinked (concat yss) t t' \<and>
       ht_map t' xss' = ht_map t xss ++ map_of (rev (pairs_of (ht_info t) (concat yss)))"
proof (induction yss arbitrary: t xss ps)
  case (Cons ys yss)
  from Cons.prems(2) obtain p ps' where p: "ps = p # ps'" "next_chain (ht_info t) p ys"
    "list_all2 (next_chain (ht_info t)) ps' yss" by (auto simp: list_all2_Cons2)
  have w1: "waiting t xss ys" using Cons.prems(3) by (auto simp: waiting_def)
  from grow_chain_rep [OF Cons.prems(1) p(2) w1] obtain t1 xss1 where t1: "grow_chain p t = Some t1" "ht_rep t1 xss1"
    "relinked ys t t1" "ht_map t1 xss1 = ht_map t xss ++ map_of (rev (pairs_of (ht_info t) ys))" by blast
  have w2: "waiting t1 xss1 (concat yss)"
    using Cons.prems(3) by (intro waiting_after [OF _ t1(3,4)]) simp
  have "set ys \<inter> set (concat yss) = {}" using Cons.prems(3) by (auto simp: waiting_def)
  then have "list_all2 (next_chain (ht_info t1)) ps' yss"
    using t1(3) by (intro list.rel_mono_strong [OF p(3)]) (subst next_chain_cong [where m = "ht_info t"]; auto simp: relinked_def)
  from Cons.IH [OF t1(2) this w2] obtain t' xss' where t': "grow_chains ps' t1 = Some t'" "ht_rep t' xss'"
    "relinked (concat yss) t1 t'" "ht_map t' xss' = ht_map t1 xss1 ++ map_of (rev (pairs_of (ht_info t1) (concat yss)))"
    by blast
  have "relinked (concat (ys # yss)) t t'" using relinked_trans [OF t1(3) t'(3)] by simp
  moreover have "ht_map t' xss' = ht_map t xss ++ map_of (rev (pairs_of (ht_info t) (concat (ys # yss))))"
    using t'(4) t1(4) by (simp add: relinked_pairs [OF t1(3)])
  ultimately show ?case using p(1) t1(1) t'(1,2) by simp blast
qed (simp, blast)

lemma empty_rep:
  assumes "0 < n" "0 < ht_fresh t"
  shows "ht_rep (t\<lparr>ht_data := replicate n 0, ht_size := n, ht_used := 0\<rparr>) (replicate n [])"
    "ht_map (t\<lparr>ht_data := replicate n 0, ht_size := n, ht_used := 0\<rparr>) (replicate n []) = Map.empty"
proof -
  have "concat (replicate n []) = ([] :: nat list)" by simp
  then show "ht_map (t\<lparr>ht_data := replicate n 0, ht_size := n, ht_used := 0\<rparr>) (replicate n []) = Map.empty"
    "ht_rep (t\<lparr>ht_data := replicate n 0, ht_size := n, ht_used := 0\<rparr>) (replicate n [])"
    using assms by (simp_all add: ht_map_def ht_rep_def)
qed

text \<open>Growing a table keeps its map.\<close>

lemma grow_rep:
  assumes rep: "ht_rep t xss"
  shows "\<exists>t' xss'. nio_htable_grow True t = Some (t', True) \<and> ht_rep t' xss' \<and> ht_map t' xss' = ht_map t xss \<and>
    ht_status t' = ht_status t \<and> ht_init_size t' = ht_init_size t"
proof -
  let ?n = "2 * ht_size t OR 1"
  let ?t = "t\<lparr>ht_data := replicate ?n 0, ht_size := ?n, ht_used := 0\<rparr>"
  have n: "0 < ?n" by (simp add: or_Suc_0_eq)
  have fresh: "0 < ht_fresh t" and len: "length (ht_data t) = length xss" "ht_size t = length xss"
    using rep by (simp_all add: ht_rep_def)
  note e = empty_rep [OF n fresh]
  have chains: "list_all2 (next_chain (ht_info ?t)) (ht_data t) xss"
    using len chain_next [OF ht_rep_chain [OF rep]] by (simp add: list_all2_conv_all_nth)
  have entry: "x \<noteq> 0 \<and> x < ht_fresh t \<and> i_hash (ht_info t x) = def_hash_fn (i_key (ht_info t x))"
    if "x \<in> set (concat xss)" for x
  proof -
    from that obtain n where "n < length xss" "x \<in> set (xss ! n)" by (metis concat_eq_concat_iff in_set_conv_nth set_concat UN_E)
    with ht_rep_entry [OF rep] show ?thesis by blast
  qed
  have keys: "distinct (map (\<lambda>x. i_key (ht_info t x)) (concat xss))" using rep by (simp add: ht_rep_def)
  have "waiting ?t (replicate ?n []) (concat xss)"
    unfolding waiting_def e(2) using entry keys by (simp del: set_concat)
  from grow_chains_rep [OF e(1) chains this] obtain t' xss' where t': "grow_chains (ht_data t) ?t = Some t'"
    "ht_rep t' xss'" "relinked (concat xss) ?t t'" "ht_map t' xss' = map_of (rev (pairs_of (ht_info t) (concat xss)))"
    unfolding e(2) by auto
  have "map_of (rev (pairs_of (ht_info t) (concat xss))) = ht_map t xss"
    unfolding ht_map_pairs using keys by (intro map_of_rev) (simp add: pairs_of_def comp_def)
  moreover have "nio_htable_grow True t = Some (t', True)"
    using t'(1) len by (simp add: nio_htable_grow_def htable_size_def Let_def)
  ultimately show ?thesis using t' by (auto simp: relinked_def)
qed

subsection \<open>Deleting\<close>

lemma delete_fields [simp]:
  "i_key (ht_info (fst (nio_htable_delete_entry fr p t)) x) = i_key (ht_info t x)"
  "i_value (ht_info (fst (nio_htable_delete_entry fr p t)) x) = i_value (ht_info t x)"
  "i_hash (ht_info (fst (nio_htable_delete_entry fr p t)) x) = i_hash (ht_info t x)"
  "ht_size (fst (nio_htable_delete_entry fr p t)) = ht_size t"
  "ht_used (fst (nio_htable_delete_entry fr p t)) = ht_used t - 1"
  "ht_fresh (fst (nio_htable_delete_entry fr p t)) = ht_fresh t"
  "ht_init_size (fst (nio_htable_delete_entry fr p t)) = ht_init_size t"
  "ht_status (fst (nio_htable_delete_entry fr p t)) = ht_status t"
  "length (ht_data (fst (nio_htable_delete_entry fr p t))) = length (ht_data t)"
  "bucket h (fst (nio_htable_delete_entry fr p t)) = bucket h t"
  "snd (nio_htable_delete_entry fr p t) = freed fr (i_value (ht_info t p))"
  by (simp_all add: nio_htable_delete_entry_def upd_info_def Let_def bucket_def)

lemma delete_links:
  assumes "i_next (ht_info t p) \<noteq> p" "i_prev (ht_info t p) \<noteq> p"
  shows "i_prev (ht_info (fst (nio_htable_delete_entry fr p t)) x) =
      (if x = i_next (ht_info t p) \<and> x \<noteq> 0 then i_prev (ht_info t p) else i_prev (ht_info t x))"
    "i_next (ht_info (fst (nio_htable_delete_entry fr p t)) x) =
      (if x = i_prev (ht_info t p) \<and> x \<noteq> 0 then i_next (ht_info t p) else i_next (ht_info t x))"
    "ht_data (fst (nio_htable_delete_entry fr p t)) =
      (if i_prev (ht_info t p) = 0 then (ht_data t)[bucket (i_hash (ht_info t p)) t := i_next (ht_info t p)] else ht_data t)"
  using assms by (simp_all add: nio_htable_delete_entry_def upd_info_def Let_def bucket_def)

lemma chain_neighbours:
  assumes "chain m 0 p (us @ e # vs)"
  shows "i_prev (m e) = (if us = [] then 0 else last us)" "i_next (m e) = (case vs of [] \<Rightarrow> 0 | v # _ \<Rightarrow> v)"
proof -
  obtain a where "seg m 0 p us a e" "i_prev (m e) = a" "chain m e (i_next (m e)) vs"
    using assms by (auto simp: chain_append)
  then show "i_prev (m e) = (if us = [] then 0 else last us)" "i_next (m e) = (case vs of [] \<Rightarrow> 0 | v # _ \<Rightarrow> v)"
    using seg_last chain_head by fastforce+
qed

lemma delete_rep:
  assumes rep: "ht_rep t xss" and n: "n < length xss" and p: "xss ! n = us @ p # vs"
  shows "ht_rep (fst (nio_htable_delete_entry fr p t)) (xss[n := us @ vs])"
    "ht_map (fst (nio_htable_delete_entry fr p t)) (xss[n := us @ vs]) = (ht_map t xss)(i_key (ht_info t p) := None)"
proof -
  let ?t = "fst (nio_htable_delete_entry fr p t)" and ?xss = "xss[n := us @ vs]" and ?m = "ht_info t"
  have c: "chain ?m 0 (ht_data t ! n) (us @ p # vs)" using ht_rep_chain [OF rep n] p by simp
  have d: "distinct (us @ p # vs)" using ht_rep_distinct_chain [OF rep n] p by simp
  have z: "0 \<notin> set (us @ p # vs)" using chain_nonzero [OF c] .
  note nb = chain_neighbours [OF c]
  have nx: "i_next (?m p) = 0 \<or> i_next (?m p) \<in> set vs" using nb(2) by (cases vs) auto
  have pv: "i_prev (?m p) = 0 \<and> us = [] \<or> i_prev (?m p) \<in> set us" using nb(1) last_in_set [of us] by auto
  have ne: "i_next (?m p) \<noteq> p" "i_prev (?m p) \<noteq> p" using nx pv d z by auto
  note l = delete_links [OF ne, of fr]
  have bp: "bucket (i_hash (?m p)) t = n" using ht_rep_entry(3) [OF rep n] p by simp
  have chains: "chain (ht_info ?t) 0 (ht_data ?t ! j) (?xss ! j)" if j: "j < length xss" for j
  proof (cases "j = n")
    case True
    have "chain (ht_info ?t) 0 (if us = [] then i_next (?m p) else ht_data t ! n) (us @ vs)"
    proof (rule chain_remove [OF c d])
      fix x assume "x \<in> set (us @ vs)"
      then have "x \<noteq> 0" using z by (intro notI) simp
      then show "i_prev (ht_info ?t x) = (if x = i_next (?m p) then i_prev (?m p) else i_prev (?m x))"
        "i_next (ht_info ?t x) = (if x = i_prev (?m p) \<and> us \<noteq> [] then i_next (?m p) else i_next (?m x))"
        using pv by (auto simp: l)
    qed
    moreover have "i_prev (?m p) = 0 \<longleftrightarrow> us = []" using pv z by auto
    moreover have "length (ht_data t) = length xss" using rep by (simp add: ht_rep_def)
    ultimately show ?thesis using True n bp l(3) by (cases "us = []") simp_all
  next
    case False
    have "x \<noteq> i_next (?m p) \<and> x \<noteq> i_prev (?m p)" if x: "x \<in> set (xss ! j)" for x
    proof -
      have "x \<notin> set (xss ! n)" using ht_rep_disjoint [OF rep n j] False x by auto
      with nx pv p ht_rep_entry(4) [OF rep j x] show ?thesis by auto
    qed
    then have "chain (ht_info ?t) 0 (ht_data t ! j) (xss ! j) = chain ?m 0 (ht_data t ! j) (xss ! j)"
      by (intro chain_cong) (simp add: l)
    with ht_rep_chain [OF rep j] False bp show ?thesis by (simp add: l(3))
  qed
  have entries: "x < ht_fresh t \<and> i_hash (?m x) = def_hash_fn (i_key (?m x)) \<and>
      bucket (def_hash_fn (i_key (?m x))) t = j" if "j < length xss" "x \<in> set (?xss ! j)" for x j
    using that p ht_rep_entry [OF rep that(1), of x] by (cases "j = n") auto
  have kd: "distinct (map (\<lambda>x. i_key (?m x)) (concat xss))" "ht_used t = length (concat xss)"
    using rep by (simp_all add: ht_rep_def)
  have keys: "distinct (map (\<lambda>x. i_key (?m x)) (concat ?xss))" "length (concat ?xss) = ht_used t - 1"
    "i_key (?m p) \<notin> (\<lambda>x. i_key (?m x)) ` set (concat ?xss)" "set (concat xss) = insert p (set (concat ?xss))"
    using kd unfolding concat_split [OF n] concat_split_id [OF n] p by auto
  show rep': "ht_rep ?t ?xss"
    by (intro ht_repI) (use rep chains entries keys in \<open>simp_all add: ht_rep_def\<close>)
  show "ht_map ?t ?xss = (ht_map t xss)(i_key (?m p) := None)"
  proof (rule map_eqI)
    have "i_key (?m x) \<noteq> i_key (?m p)" if "x \<in> set (concat ?xss)" for x
      using keys(3) that by (metis image_eqI)
    then show "ht_map ?t ?xss k = Some v \<longleftrightarrow> ((ht_map t xss)(i_key (?m p) := None)) k = Some v" for k v
      by (auto simp: ht_map_iff [OF rep'] ht_map_iff [OF rep] keys(4) simp del: set_concat)
  qed
qed

subsection \<open>The table as a map\<close>

text \<open>The calls of the interface; an allocating call carries the outcomes of its allocations.\<close>

datatype 'v table_call =
  Enter "bool \<times> bool \<times> bool" bytes "'v option"
  | Find bytes
  | Remove bool bytes
  | Reset bool bool
  | Used

datatype 'v table_result = Entered bool int | Found "'v option" | Removed int "'v list" | Code int | Stuck

text \<open>\<open>Stuck\<close> is a call that does not return.\<close>

definition do_table :: "'v table_call \<Rightarrow> 'v htable option \<Rightarrow> 'v htable option \<times> 'v table_result" where
  "do_table c s =
     (case s of None \<Rightarrow> (None, Stuck)
      | Some t \<Rightarrow>
         (case c of
            Enter mem k v \<Rightarrow>
              (case nio_htable_enter mem k v t of None \<Rightarrow> (None, Stuck)
               | Some (t', e) \<Rightarrow> (Some t', Entered (e \<noteq> 0) (nio_htable_errno (Some t'))))
          | Find k \<Rightarrow> (case nio_htable_find k t of None \<Rightarrow> (None, Stuck) | Some v \<Rightarrow> (Some t, Found v))
          | Remove fr k \<Rightarrow>
              (case nio_htable_delete fr k t of None \<Rightarrow> (None, Stuck) | Some (t', fs, r) \<Rightarrow> (Some t', Removed r fs))
          | Reset mem fr \<Rightarrow>
              (case nio_htable_reset mem fr t of None \<Rightarrow> (None, Stuck) | Some (t', _, r) \<Rightarrow> (Some t', Code r))
          | Used \<Rightarrow> (Some t, Code (nio_htable_used (Some t)))))"

text \<open>
  The map that the interface promises.  A key that is entered again keeps its first value.
  The array for a larger or a reset table is never out of memory here.
\<close>

fun do_map :: "'v table_call \<Rightarrow> (bytes \<rightharpoonup> 'v option) \<Rightarrow> (bytes \<rightharpoonup> 'v option) \<times> 'v table_result" where
  "do_map (Enter (_, m1, m2) k v) m =
     (if k \<in> dom m then (m, Entered True NIO_HTABLE_STAT_DUPLEX_KEY)
      else if m1 \<and> m2 then (m(k \<mapsto> v), Entered True NIO_HTABLE_STAT_OK)
      else (m, Entered False NIO_HTABLE_STAT_OK))"
| "do_map (Find k) m = (m, Found (Option.bind (m k) id))"
| "do_map (Remove fr k) m =
     (case m k of None \<Rightarrow> (m, Removed (- 1) []) | Some v \<Rightarrow> (m(k := None), Removed 0 (freed fr v)))"
| "do_map (Reset _ _) m = (Map.empty, Code 0)"
| "do_map Used m = (m, Code (int (card (dom m))))"

fun array_allocated :: "'v table_call \<Rightarrow> (bytes \<rightharpoonup> 'v option) \<Rightarrow> bool" where
  "array_allocated (Enter mem k v) m = fst mem"
| "array_allocated (Reset mem fr) m = mem"
| "array_allocated _ m = True"

definition table_is :: "'v htable option \<Rightarrow> (bytes \<rightharpoonup> 'v option) \<Rightarrow> bool" where
  "table_is s m \<longleftrightarrow> (\<exists>t xss. s = Some t \<and> ht_rep t xss \<and> ht_map t xss = m)"

lemma ht_rep_frame:
  assumes "ht_rep t xss" "ht_size t' = ht_size t" "ht_data t' = ht_data t" "ht_used t' = ht_used t"
    "ht_fresh t \<le> ht_fresh t'" "\<And>x. x < ht_fresh t \<Longrightarrow> ht_info t' x = ht_info t x"
  shows "ht_rep t' xss" "ht_map t' xss = ht_map t xss"
proof -
  have b: "bucket h t' = bucket h t" for h using assms(2) by (simp add: bucket_def)
  have i: "ht_info t' x = ht_info t x" if "n < length xss" "x \<in> set (xss ! n)" for n x
    using ht_rep_entry(1) [OF assms(1) that] assms(6) by simp
  then have i': "ht_info t' x = ht_info t x" if "x \<in> set (concat xss)" for x
    using that by (metis UN_E in_set_conv_nth set_concat)
  have k: "map (\<lambda>x. i_key (ht_info t' x)) (concat xss) = map (\<lambda>x. i_key (ht_info t x)) (concat xss)"
    by (rule map_cong [OF refl]) (simp only: i')
  show "ht_map t' xss = ht_map t xss" unfolding ht_map_def
    by (rule arg_cong [where f = map_of], rule map_cong [OF refl]) (simp only: i')
  show "ht_rep t' xss"
  proof (rule ht_repI)
    fix n assume n: "n < length xss"
    have "chain (ht_info t') 0 (ht_data t ! n) (xss ! n) = chain (ht_info t) 0 (ht_data t ! n) (xss ! n)"
      using i [OF n] by (intro chain_cong) simp
    with ht_rep_chain [OF assms(1) n] assms(3) show "chain (ht_info t') 0 (ht_data t' ! n) (xss ! n)" by simp
  next
    fix n x assume n: "n < length xss" "x \<in> set (xss ! n)"
    with ht_rep_entry [OF assms(1) n] assms(5) show "x < ht_fresh t' \<and>
       i_hash (ht_info t' x) = def_hash_fn (i_key (ht_info t' x)) \<and> bucket (i_hash (ht_info t' x)) t' = n"
      by (simp add: i [OF n] b)
  qed (use assms in \<open>simp_all add: ht_rep_def k\<close>)
qed

text \<open>Entering a key, once the table is large enough.\<close>

lemma enter_rep:
  assumes rep: "ht_rep t xss" and mem: "fst mem"
  shows "\<exists>t' e. nio_htable_enter mem key v t = Some (t', e) \<and>
    table_is (Some t') (fst (do_map (Enter mem key v) (ht_map t xss))) \<and>
    Entered (e \<noteq> 0) (nio_htable_errno (Some t')) = snd (do_map (Enter mem key v) (ht_map t xss))"
proof -
  let ?t0 = "t\<lparr>ht_status := NIO_HTABLE_STAT_OK\<rparr>" and ?h = "def_hash_fn key"
  have rep0: "ht_rep ?t0 xss" and map0: "ht_map ?t0 xss = ht_map t xss"
    using ht_rep_frame [OF rep, of ?t0] by simp_all
  obtain t1 xss1 where g: "(if ht_used ?t0 \<ge> ht_size ?t0 then nio_htable_grow (fst mem) ?t0 else Some (?t0, True)) = Some (t1, True)"
    and rep1: "ht_rep t1 xss1" and map1: "ht_map t1 xss1 = ht_map t xss" and st: "ht_status t1 = NIO_HTABLE_STAT_OK"
    using grow_rep [OF rep0] rep0 map0 mem by (cases "ht_used ?t0 \<ge> ht_size ?t0") auto
  obtain p where p: "find_chain key (ht_info t1) (ht_data t1 ! bucket ?h t1) = Some p"
    "case ht_map t xss key of None \<Rightarrow> p = 0 | Some v \<Rightarrow> p \<noteq> 0"
    using find_entry [OF rep1 refl, of key] by (auto simp: map1 split: option.splits)
  show ?thesis
  proof (cases "ht_map t xss key")
    case (Some w)
    let ?t' = "t1\<lparr>ht_status := NIO_HTABLE_STAT_DUPLEX_KEY\<rparr>"
    have "table_is (Some ?t') (ht_map t xss)"
      using ht_rep_frame [OF rep1, of ?t'] map1 by (auto simp: table_is_def)
    moreover have "nio_htable_enter mem key v t = Some (?t', p)"
      using g p Some by (simp add: nio_htable_enter_def Let_def)
    ultimately show ?thesis using Some p by (cases mem) (auto simp: nio_htable_errno_def)
  next
    case None
    show ?thesis
    proof (cases "fst (snd mem) \<and> snd (snd mem)")
      case False
      have "nio_htable_enter mem key v t = Some (t1, 0)"
        using g p None False by (simp add: nio_htable_enter_def Let_def)
      with rep1 map1 st None False show ?thesis by (cases mem) (auto simp: nio_htable_errno_def table_is_def)
    next
      case True
      let ?e = "ht_fresh t1"
      let ?t2 = "upd_info ?e (\<lambda>x. x\<lparr>i_key := key, i_hash := ?h, i_value := v\<rparr>) (t1\<lparr>ht_fresh := ht_fresh t1 + 1\<rparr>)"
      have f: "i_key (ht_info ?t2 ?e) = key" "i_value (ht_info ?t2 ?e) = v" "i_hash (ht_info ?t2 ?e) = ?h"
        "bucket ?h ?t2 = bucket ?h t1" "?e \<noteq> 0" "?e < ht_fresh ?t2" "ht_status ?t2 = ht_status t1"
        using rep1 by (simp_all add: upd_info_def bucket_def ht_rep_def)
      have rep2: "ht_rep ?t2 xss1" and map2: "ht_map ?t2 xss1 = ht_map t xss"
        using ht_rep_frame [OF rep1, of ?t2] map1 by (simp_all add: upd_info_def)
      have "table_is (Some (nio_htable_link ?e (bucket ?h t1) ?t2)) ((ht_map t xss)(key \<mapsto> v))"
        using link_rep [OF rep2 f(5,6), of "bucket ?h t1"] f None map2 by (auto simp: table_is_def)
      moreover have "nio_htable_enter mem key v t = Some (nio_htable_link ?e (bucket ?h t1) ?t2, ?e)"
        using g p None True f(4) by (simp add: nio_htable_enter_def Let_def)
      ultimately show ?thesis using None True st f(5,7) by (cases mem) (auto simp: nio_htable_errno_def)
    qed
  qed
qed

lemma all_nodes_eq: "list_all2 (chain m 0) ps xss \<Longrightarrow> all_nodes m ps = Some (concat xss)"
  by (induction ps xss rule: list_all2_induct) (auto dest: chain_nodes_eq)

lemma all_nodes_rep: "ht_rep t xss \<Longrightarrow> all_nodes (ht_info t) (take (ht_size t) (ht_data t)) = Some (concat xss)"
  by (rule all_nodes_eq) (simp add: ht_rep_def list_all2_conv_all_nth)

lemma find_rep:
  assumes "ht_rep t xss"
  shows "nio_htable_find key t = Some (Option.bind (ht_map t xss key) id)"
  using find_entry [OF assms refl, of key]
  by (auto simp: nio_htable_find_def nio_htable_locate_def split: option.splits)

lemma remove_rep:
  assumes rep: "ht_rep t xss"
  shows "\<exists>t' fs r. nio_htable_delete fr key t = Some (t', fs, r) \<and>
    table_is (Some t') (fst (do_map (Remove fr key) (ht_map t xss))) \<and>
    Removed r fs = snd (do_map (Remove fr key) (ht_map t xss))"
proof -
  let ?n = "bucket (def_hash_fn key) t"
  obtain p where p: "find_chain key (ht_info t) (ht_data t ! ?n) = Some p"
    "case ht_map t xss key of None \<Rightarrow> p = 0
     | Some v \<Rightarrow> p \<noteq> 0 \<and> p \<in> set (xss ! ?n) \<and> i_key (ht_info t p) = key \<and> i_value (ht_info t p) = v"
    using find_entry [OF rep refl, of key] by blast
  show ?thesis
  proof (cases "ht_map t xss key")
    case None
    with p rep show ?thesis by (auto simp: nio_htable_delete_def nio_htable_locate_def table_is_def)
  next
    case (Some v)
    with p(2) have q: "p \<noteq> 0" "p \<in> set (xss ! ?n)" "i_key (ht_info t p) = key" "i_value (ht_info t p) = v" by simp_all
    then obtain us vs where "xss ! ?n = us @ p # vs" by (meson split_list)
    from delete_rep [OF rep bucket_less [OF rep] this] q(3)
    have "table_is (Some (fst (nio_htable_delete_entry fr p t))) ((ht_map t xss)(key := None))"
      by (auto simp: table_is_def)
    with p(1) q Some show ?thesis
      by (simp add: nio_htable_delete_def nio_htable_locate_def split_beta)
  qed
qed

lemma reset_rep:
  assumes "ht_rep t xss"
  shows "\<exists>t' fs. nio_htable_reset True fr t = Some (t', fs, 0) \<and> table_is (Some t') Map.empty"
proof -
  let ?n = "(if ht_init_size t < 13 then 13 else nat (ht_init_size t)) OR 1"
  have "0 < ?n" "0 < ht_fresh t" using assms by (simp_all add: or_Suc_0_eq ht_rep_def)
  from empty_rep [OF this] all_nodes_rep [OF assms] show ?thesis
    by (auto simp: nio_htable_reset_def nio_htable_free_def htable_size_def Let_def table_is_def simp del: set_concat)
qed

lemma used_rep:
  assumes "ht_rep t xss"
  shows "ht_used t = card (dom (ht_map t xss))"
proof -
  have "dom (ht_map t xss) = (\<lambda>x. i_key (ht_info t x)) ` set (concat xss)"
    by (simp add: ht_map_def dom_map_of_conv_image_fst image_image)
  with assms show ?thesis using distinct_card [of "map (\<lambda>x. i_key (ht_info t x)) (concat xss)"]
    by (simp add: ht_rep_def del: set_concat)
qed

lemma do_table_refines:
  assumes "table_is s m" "array_allocated c m"
  shows "table_is (fst (do_table c s)) (fst (do_map c m)) \<and> snd (do_table c s) = snd (do_map c m)"
proof -
  obtain t xss where t: "s = Some t" "ht_rep t xss" "ht_map t xss = m" using assms(1) by (auto simp: table_is_def)
  show ?thesis
  proof (cases c)
    case (Enter mem k v)
    with enter_rep [OF t(2), of mem k v] assms(2) t show ?thesis by (auto simp: do_table_def)
  next
    case (Find k)
    with find_rep [OF t(2), of k] assms(1) t show ?thesis by (simp add: do_table_def)
  next
    case (Remove fr k)
    with remove_rep [OF t(2), of fr k] t show ?thesis by (auto simp: do_table_def)
  next
    case (Reset mem fr)
    with reset_rep [OF t(2), of fr] assms(2) t show ?thesis by (auto simp: do_table_def)
  next
    case Used
    with used_rep [OF t(2)] assms(1) t show ?thesis by (simp add: do_table_def nio_htable_used_def)
  qed
qed

lemma create_rep: "table_is (Some (nio_htable_create n)) Map.empty"
proof -
  have "0 < (if n < 13 then 13 else nat n) OR 1" by (simp add: or_Suc_0_eq)
  from empty_rep [OF this, of "\<lparr>ht_size = 0, ht_init_size = n, ht_used = 0, ht_data = [], ht_status = 0,
         ht_info = (\<lambda>_. \<lparr>i_key = [], i_value = None, i_hash = 0, i_next = 0, i_prev = 0\<rparr>), ht_fresh = 1\<rparr>"]
  show ?thesis by (auto simp: table_is_def nio_htable_create_def htable_size_def Let_def)
qed

text \<open>C36: every sequence of \<open>enter\<close>, \<open>find\<close>, \<open>delete\<close>, \<open>reset\<close> and \<open>used\<close> on a new table, of
  any requested size, returns what a map from keys to values returns, as long as the arrays of the
  table can be allocated: growing and the order of the chains do not show, every call returns, a key
  that is there keeps its value when it is entered again, and a value that is deleted is freed once.\<close>

theorem htable_refines_map:
  assumes "calls_ok array_allocated do_map cs Map.empty"
  shows "snd (run_calls do_table cs (Some (nio_htable_create n))) = snd (run_calls do_map cs Map.empty)"
  using run_calls_refines [of table_is array_allocated do_table do_map, OF do_table_refines create_rep assms] by blast

lemma htable_refines_map_witness:
  "\<exists>rs. snd (run_calls do_table
       [Enter (True, True, True) [1] (Some (7 :: nat)), Enter (True, True, True) [1] (Some 8), Find [1],
        Remove True [1], Find [1], Used] (Some (nio_htable_create 0))) = rs \<and>
     rs = [Entered True 0, Entered True 2, Found (Some 7), Removed 0 [7], Found None, Code 0]"
proof (intro exI conjI)
  let ?cs = "[Enter (True, True, True) [1] (Some (7 :: nat)), Enter (True, True, True) [1] (Some 8), Find [1],
        Remove True [1], Find [1], Used]"
  show "snd (run_calls do_table ?cs (Some (nio_htable_create 0))) = snd (run_calls do_map ?cs Map.empty)"
    by (rule htable_refines_map) simp
  show "snd (run_calls do_map ?cs Map.empty) =
      [Entered True 0, Entered True 2, Found (Some 7), Removed 0 [7], Found None, Code 0]"
    by (simp add: NIO_HTABLE_STAT_OK_def NIO_HTABLE_STAT_DUPLEX_KEY_def freed_def)
qed

subsection \<open>Iterating\<close>

text \<open>The loop over one chain, in either direction of the table; \<open>scan\<close> finds the next chain.\<close>

lemma htable_loop_0 [simp]: "hi_ptr it = 0 \<Longrightarrow> htable_loop nxt it = Some []"
  by (subst htable_loop.simps) simp

lemma htable_loop_Cons:
  "hi_ptr it \<noteq> 0 \<Longrightarrow> htable_loop nxt it = Option.bind (htable_loop nxt (nxt it)) (\<lambda>ps. Some (hi_ptr it # ps))"
  by (subst htable_loop.simps) simp

lemma loop_chain:
  assumes nxt: "\<And>it. nxt it = (let it = iter_in_chain t it in if hi_ptr it \<noteq> 0 then it else scan it)"
    and rest: "htable_loop nxt (scan (it\<lparr>hi_ptr := 0\<rparr>)) = Some ys"
  shows "next_chain (ht_info t) p (x # xs) \<Longrightarrow> htable_loop nxt (it\<lparr>hi_ptr := p\<rparr>) = Some (x # xs @ ys)"
proof (induction xs arbitrary: p x)
  case Nil
  then have "nxt (it\<lparr>hi_ptr := p\<rparr>) = scan (it\<lparr>hi_ptr := 0\<rparr>)" by (simp add: nxt iter_in_chain_def)
  with Nil rest show ?case by (simp add: htable_loop_Cons)
next
  case (Cons y xs)
  then have "nxt (it\<lparr>hi_ptr := p\<rparr>) = it\<lparr>hi_ptr := y\<rparr>" by (simp add: nxt iter_in_chain_def)
  with Cons.IH [of y y] Cons.prems show ?case by (simp add: htable_loop_Cons)
qed

lemma ht_rep_head: "ht_rep t xss \<Longrightarrow> i < length xss \<Longrightarrow> xss ! i = [] \<longleftrightarrow> ht_data t ! i = 0"
  using ht_rep_chain [of t xss i] by (cases "xss ! i") auto

lemma iter_up:
  assumes rep: "ht_rep t xss"
  shows "htable_loop (nio_htable_iter_next t) (scan_up t \<lparr>hi_i = int i, hi_size = int (length xss), hi_ptr = 0\<rparr>) =
    Some (concat (drop i xss))"
proof (induction "length xss - i" arbitrary: i)
  case 0
  then show ?case by (simp add: scan_up.simps)
next
  case (Suc k)
  then have i: "i < length xss" by simp
  let ?it = "\<lparr>hi_i = int i, hi_size = int (length xss), hi_ptr = 0\<rparr>"
  have IH: "htable_loop (nio_htable_iter_next t) (scan_up t (?it\<lparr>hi_i := hi_i ?it + 1\<rparr>)) = Some (concat (drop (Suc i) xss))"
    using Suc(1) [of "Suc i"] Suc(2) by (simp add: add.commute)
  show ?case
  proof (cases "xss ! i")
    case Nil
    then have "scan_up t ?it = scan_up t (?it\<lparr>hi_i := hi_i ?it + 1\<rparr>)"
      using ht_rep_head [OF rep i] i by (subst scan_up.simps) simp
    with IH Nil i show ?thesis by (simp add: Cons_nth_drop_Suc [symmetric] del: hiter.update_convs)
  next
    case (Cons x xs)
    then have "scan_up t ?it = ?it\<lparr>hi_ptr := ht_data t ! i\<rparr>"
      using ht_rep_head [OF rep i] i by (subst scan_up.simps) simp
    moreover have "htable_loop (nio_htable_iter_next t) (?it\<lparr>hi_ptr := ht_data t ! i\<rparr>) =
        Some (x # xs @ concat (drop (Suc i) xss))"
      using Cons IH chain_next [OF ht_rep_chain [OF rep i], unfolded Cons]
      by (intro loop_chain [where scan = "\<lambda>it. scan_up t (it\<lparr>hi_i := hi_i it + 1\<rparr>)"])
         (auto simp add: nio_htable_iter_next_def)
    ultimately show ?thesis using Cons i by (simp add: Cons_nth_drop_Suc [symmetric])
  qed
qed

lemma iter_down:
  assumes rep: "ht_rep t xss" and "i \<le> length xss"
  shows "htable_loop (nio_htable_iter_prev t) (scan_down t \<lparr>hi_i = int i - 1, hi_size = int (length xss), hi_ptr = 0\<rparr>) =
    Some (concat (rev (take i xss)))"
  using assms(2)
proof (induction i)
  case 0
  then show ?case by (simp add: scan_down.simps)
next
  case (Suc i)
  then have i: "i < length xss" by simp
  let ?it = "\<lparr>hi_i = int i, hi_size = int (length xss), hi_ptr = 0\<rparr>"
  have IH: "htable_loop (nio_htable_iter_prev t) (scan_down t (?it\<lparr>hi_i := hi_i ?it - 1\<rparr>)) = Some (concat (rev (take i xss)))"
    using Suc by simp
  show ?case
  proof (cases "xss ! i")
    case Nil
    then have "scan_down t ?it = scan_down t (?it\<lparr>hi_i := hi_i ?it - 1\<rparr>)"
      using ht_rep_head [OF rep i] i by (subst scan_down.simps) simp
    with IH Nil i show ?thesis by (simp add: take_Suc_conv_app_nth del: hiter.update_convs)
  next
    case (Cons x xs)
    then have "scan_down t ?it = ?it\<lparr>hi_ptr := ht_data t ! i\<rparr>"
      using ht_rep_head [OF rep i] i by (subst scan_down.simps) simp
    moreover have "htable_loop (nio_htable_iter_prev t) (?it\<lparr>hi_ptr := ht_data t ! i\<rparr>) =
        Some (x # xs @ concat (rev (take i xss)))"
      using Cons IH chain_next [OF ht_rep_chain [OF rep i], unfolded Cons]
      by (intro loop_chain [where scan = "\<lambda>it. scan_down t (it\<lparr>hi_i := hi_i it - 1\<rparr>)"])
         (auto simp add: nio_htable_iter_prev_def)
    ultimately show ?thesis using Cons i by (simp add: take_Suc_conv_app_nth)
  qed
qed

lemma mset_concat_rev: "mset (concat (rev xss)) = mset (concat xss)"
  by (induction xss) (simp_all add: ac_simps)

lemma foreach_rep:
  assumes "ht_rep t xss"
  shows "htable_foreach t = Some (concat xss)" "htable_foreach_reverse t = Some (concat (rev xss))"
    "nio_htable_list t = Some (concat xss)"
proof -
  have n: "ht_size t = length xss" using assms by (simp add: ht_rep_def)
  show "htable_foreach t = Some (concat xss)" "htable_foreach_reverse t = Some (concat (rev xss))"
    using iter_up [OF assms, of 0] iter_down [OF assms, of "length xss"]
    by (simp_all add: htable_foreach_def htable_foreach_reverse_def nio_htable_iter_head_def nio_htable_iter_tail_def n)
  show "nio_htable_list t = Some (concat xss)" using all_nodes_rep [OF assms] by (simp add: nio_htable_list_def)
qed

text \<open>C37: after any calls on a new table, the loops \<open>FOREACH\<close> and \<open>FOREACH_REVERSE\<close> over it end; the
  first sees the entries in the order of \<open>nio_htable_list\<close>, the second the same entries, each once; and
  the keys and values they see are exactly those of the map.\<close>

theorem htable_foreach_complete:
  assumes "calls_ok array_allocated do_map cs Map.empty"
  shows "\<exists>t xs ys. fst (run_calls do_table cs (Some (nio_htable_create n))) = Some t \<and>
    nio_htable_list t = Some xs \<and> htable_foreach t = Some xs \<and> htable_foreach_reverse t = Some ys \<and>
    mset ys = mset xs \<and> distinct xs \<and>
    map_of (map (\<lambda>x. (i_key (ht_info t x), i_value (ht_info t x))) xs) = fst (run_calls do_map cs Map.empty)"
proof -
  have "table_is (fst (run_calls do_table cs (Some (nio_htable_create n)))) (fst (run_calls do_map cs Map.empty))"
    using run_calls_refines [of table_is array_allocated do_table do_map, OF do_table_refines create_rep assms] by blast
  then obtain t xss where t: "fst (run_calls do_table cs (Some (nio_htable_create n))) = Some t" "ht_rep t xss"
    "ht_map t xss = fst (run_calls do_map cs Map.empty)" by (auto simp: table_is_def)
  show ?thesis
    by (intro exI [of _ t] exI [of _ "concat xss"] exI [of _ "concat (rev xss)"] conjI t(1) foreach_rep [OF t(2)]
        ht_rep_distinct [OF t(2)] mset_concat_rev t(3) [unfolded ht_map_def])
qed

lemma htable_foreach_complete_witness:
  "\<exists>t xs ys. fst (run_calls do_table [Enter (True, True, True) [1] (Some (7 :: nat))] (Some (nio_htable_create 0))) = Some t \<and>
    nio_htable_list t = Some xs \<and> htable_foreach t = Some xs \<and> htable_foreach_reverse t = Some ys \<and>
    mset ys = mset xs \<and> distinct xs \<and>
    map_of (map (\<lambda>x. (i_key (ht_info t x), i_value (ht_info t x))) xs) =
      fst (run_calls do_map [Enter (True, True, True) [1] (Some (7 :: nat))] Map.empty)"
  by (rule htable_foreach_complete) simp

text \<open>When a full table cannot get a larger array, \<open>nio_htable_enter\<close> returns the null pointer and
  leaves a table that counts its chains and its entries as before but whose array is the null pointer:
  the entries are lost, and \<open>errno\<close> does not tell.\<close>

theorem enter_out_of_memory:
  assumes "ht_size t \<le> ht_used t"
  shows "\<exists>t'. nio_htable_enter (False, mem) key v t = Some (t', 0) \<and> ht_data t' = [] \<and>
    nio_htable_used (Some t') = nio_htable_used (Some t) \<and> nio_htable_size (Some t') = nio_htable_size (Some t) \<and>
    nio_htable_errno (Some t') = NIO_HTABLE_STAT_OK"
  using assms by (simp add: nio_htable_enter_def nio_htable_grow_def htable_size_def Let_def nio_htable_errno_def
    nio_htable_used_def nio_htable_size_def)

lemma enter_out_of_memory_witness:
  "\<exists>t t'. nio_htable_enter (False, True, True) [1] (Some (0 :: nat)) t = Some (t', 0) \<and> ht_data t' = [] \<and>
    nio_htable_used (Some t') = nio_htable_used (Some t) \<and> nio_htable_size (Some t') = nio_htable_size (Some t) \<and>
    nio_htable_errno (Some t') = NIO_HTABLE_STAT_OK"
proof -
  have "ht_size (nio_htable_create 0 \<lparr>ht_used := 13\<rparr>) \<le> ht_used (nio_htable_create 0 \<lparr>ht_used := 13\<rparr>)"
    by (simp add: nio_htable_create_def htable_size_def Let_def or_Suc_0_eq)
  from enter_out_of_memory [OF this] show ?thesis by blast
qed

end
