(* ===== verification/Nio_Ring.thy ===== *)
theory Nio_Ring
  imports Prelude
begin

text \<open>
  The ring (c/src/common/nio_ring.c, nio_ring.h): a doubly linked circular list through a
  head, each entry knowing the head it hangs on.  The memory of all rings is a record of one
  function per member of \<open>NIO_RING\<close>, indexed by address; 0 is the null pointer.
\<close>

subsection \<open>Memory and operations\<close>

record rings =
  r_succ :: "nat \<Rightarrow> nat"
  r_pred :: "nat \<Rightarrow> nat"
  r_parent :: "nat \<Rightarrow> nat"
  r_len :: "nat \<Rightarrow> int"

definition set_succ :: "nat \<Rightarrow> nat \<Rightarrow> rings \<Rightarrow> rings" where
  "set_succ p v h = h\<lparr>r_succ := (r_succ h)(p := v)\<rparr>"

definition set_pred :: "nat \<Rightarrow> nat \<Rightarrow> rings \<Rightarrow> rings" where
  "set_pred p v h = h\<lparr>r_pred := (r_pred h)(p := v)\<rparr>"

definition set_parent :: "nat \<Rightarrow> nat \<Rightarrow> rings \<Rightarrow> rings" where
  "set_parent p v h = h\<lparr>r_parent := (r_parent h)(p := v)\<rparr>"

definition set_len :: "nat \<Rightarrow> int \<Rightarrow> rings \<Rightarrow> rings" where
  "set_len p v h = h\<lparr>r_len := (r_len h)(p := v)\<rparr>"

lemmas ring_set_defs = set_succ_def set_pred_def set_parent_def set_len_def

definition nio_ring_init :: "nat \<Rightarrow> rings \<Rightarrow> rings" where
  "nio_ring_init ring h = set_len ring 0 (set_parent ring ring (set_pred ring ring (set_succ ring ring h)))"

definition nio_ring_size :: "nat \<Rightarrow> rings \<Rightarrow> int" where
  "nio_ring_size ring h = r_len h ring"

definition nio_ring_append :: "nat \<Rightarrow> nat \<Rightarrow> rings \<Rightarrow> rings" where
  "nio_ring_append ring entry h =
     (let h = set_succ entry (r_succ h ring) h;
          h = set_pred entry ring h;
          h = set_parent entry (r_parent h ring) h;
          h = set_pred (r_succ h ring) entry h;
          h = set_succ ring entry h
      in set_len (r_parent h ring) (r_len h (r_parent h ring) + 1) h)"

definition nio_ring_prepend :: "nat \<Rightarrow> nat \<Rightarrow> rings \<Rightarrow> rings" where
  "nio_ring_prepend ring entry h =
     (let h = set_pred entry (r_pred h ring) h;
          h = set_succ entry ring h;
          h = set_parent entry (r_parent h ring) h;
          h = set_succ (r_pred h ring) entry h;
          h = set_pred ring entry h
      in set_len (r_parent h ring) (r_len h (r_parent h ring) + 1) h)"

definition nio_ring_detach :: "nat \<Rightarrow> rings \<Rightarrow> rings" where
  "nio_ring_detach entry h =
     (if r_parent h entry \<noteq> entry then
        let succ = r_succ h entry; pred = r_pred h entry
        in if succ \<noteq> 0 \<and> pred \<noteq> 0 then
             let h = set_succ pred succ h;
                 h = set_pred succ pred h;
                 h = set_len (r_parent h entry) (r_len h (r_parent h entry) - 1) h;
                 h = set_pred entry entry h;
                 h = set_succ entry entry h;
                 h = set_parent entry entry h
             in set_len entry 0 h
           else h
      else h)"

definition nio_ring_pop_head :: "nat \<Rightarrow> rings \<Rightarrow> rings \<times> nat" where
  "nio_ring_pop_head ring h =
     (let succ = r_succ h ring in if succ = ring then (h, 0) else (nio_ring_detach succ h, succ))"

definition nio_ring_pop_tail :: "nat \<Rightarrow> rings \<Rightarrow> rings \<times> nat" where
  "nio_ring_pop_tail ring h =
     (let pred = r_pred h ring in if pred = ring then (h, 0) else (nio_ring_detach pred h, pred))"

definition nio_ring_first :: "nat \<Rightarrow> rings \<Rightarrow> nat" where
  "nio_ring_first head h = (if r_succ h head \<noteq> head then r_succ h head else 0)"

definition nio_ring_last :: "nat \<Rightarrow> rings \<Rightarrow> nat" where
  "nio_ring_last head h = (if r_pred h head \<noteq> head then r_pred h head else 0)"

text \<open>
  \<open>nio_ring_foreach\<close> and its reverse: the entries the body sees, from the given one on.  The
  loop ends when it is back at the head.
\<close>

partial_function (option) ring_walk :: "(nat \<Rightarrow> nat) \<Rightarrow> nat \<Rightarrow> nat \<Rightarrow> nat list option" where
  "ring_walk next head p =
     (if p = head then Some [] else Option.bind (ring_walk next head (next p)) (\<lambda>ps. Some (p # ps)))"

declare ring_walk.simps [code]

definition ring_foreach :: "nat \<Rightarrow> rings \<Rightarrow> nat list option" where
  "ring_foreach head h = ring_walk (r_succ h) head (r_succ h head)"

definition ring_foreach_reverse :: "nat \<Rightarrow> rings \<Rightarrow> nat list option" where
  "ring_foreach_reverse head h = ring_walk (r_pred h) head (r_pred h head)"

subsection \<open>The list a ring stands for\<close>

fun links :: "rings \<Rightarrow> nat list \<Rightarrow> bool" where
  "links h (x # y # zs) = (r_succ h x = y \<and> r_pred h y = x \<and> links h (y # zs))"
| "links h _ = True"

definition ring_list :: "rings \<Rightarrow> nat \<Rightarrow> nat list \<Rightarrow> bool" where
  "ring_list h r xs \<longleftrightarrow> distinct (r # xs) \<and> 0 \<notin> set (r # xs) \<and> links h (r # xs @ [r]) \<and>
     r_parent h r = r \<and> (\<forall>x \<in> set xs. r_parent h x = r) \<and> r_len h r = int (length xs)"

lemma links_append: "links h (xs @ y # zs) \<longleftrightarrow> links h (xs @ [y]) \<and> links h (y # zs)"
proof (induction xs)
  case (Cons x xs)
  then show ?case by (cases xs) auto
qed simp

lemma links_cong:
  "(\<And>x. x \<in> set (butlast xs) \<Longrightarrow> r_succ h' x = r_succ h x) \<Longrightarrow>
   (\<And>x. x \<in> set (tl xs) \<Longrightarrow> r_pred h' x = r_pred h x) \<Longrightarrow> links h' xs = links h xs"
  by (induction h xs rule: links.induct) (auto split: if_splits)

text \<open>A ring is not changed by what happens at other addresses.\<close>

lemma ring_list_cong:
  "(\<And>x. x \<in> set (r # xs) \<Longrightarrow> r_succ h' x = r_succ h x \<and> r_pred h' x = r_pred h x \<and> r_parent h' x = r_parent h x) \<Longrightarrow>
   r_len h' r = r_len h r \<Longrightarrow> ring_list h' r xs = ring_list h r xs"
  unfolding ring_list_def by (subst links_cong [of "r # xs @ [r]" h' h]) (auto simp: butlast_append)

lemma ring_list_init: "r \<noteq> 0 \<Longrightarrow> ring_list (nio_ring_init r h) r []"
  by (simp add: ring_list_def nio_ring_init_def ring_set_defs)

text \<open>Splicing an entry in between two neighbours, and out.\<close>

lemma links_insert:
  assumes "links h (as @ p # s # bs)" "p \<notin> set as" "s \<notin> set bs" "p \<notin> set (butlast (s # bs))"
    "s \<notin> set (tl (as @ [p]))" "e \<notin> set (as @ p # s # bs)"
    "r_succ h' = (r_succ h)(p := e, e := s)" "r_pred h' = (r_pred h)(e := p, s := e)"
  shows "links h' (as @ p # e # s # bs)"
proof -
  have l: "links h (as @ [p])" "links h (s # bs)"
    using assms(1) links_append [of h as p "s # bs"] by simp_all
  have "links h' (as @ [p]) = links h (as @ [p])"
    using assms(2,5,6) by (intro links_cong) (auto simp: assms(7,8) dest: list.set_sel(2) [rotated])
  moreover have "links h' (s # bs) = links h (s # bs)"
    using assms(3,4,6) by (intro links_cong) (auto simp: assms(7,8) dest: in_set_butlastD split: if_splits)
  moreover have "p \<noteq> e" "s \<noteq> e" using assms(6) by auto
  ultimately show ?thesis
    using l links_append [of h' as p "e # s # bs"] by (simp add: assms(7,8))
qed

lemma links_remove:
  assumes "links h (as @ p # e # s # bs)" "p \<notin> set as" "s \<notin> set bs" "p \<notin> set (butlast (s # bs))"
    "s \<notin> set (tl (as @ [p]))" "e \<notin> set (as @ p # s # bs)"
    "r_succ h' = (r_succ h)(p := s, e := e)" "r_pred h' = (r_pred h)(s := p, e := e)"
  shows "links h' (as @ p # s # bs)"
proof -
  have l: "links h (as @ [p])" "links h (s # bs)"
    using assms(1) links_append [of h as p "e # s # bs"] by simp_all
  have "links h' (as @ [p]) = links h (as @ [p])"
    using assms(2,5,6) by (intro links_cong) (auto simp: assms(7,8) dest: list.set_sel(2) [rotated])
  moreover have "links h' (s # bs) = links h (s # bs)"
    using assms(3,4,6) by (intro links_cong) (auto simp: assms(7,8) dest: in_set_butlastD split: if_splits)
  moreover have "p \<noteq> e" "s \<noteq> e" using assms(6) by auto
  ultimately show ?thesis
    using l links_append [of h' as p "s # bs"] by (simp add: assms(7,8))
qed

text \<open>The operations, on the memory.\<close>

lemma append_fields:
  assumes "e \<noteq> r" "r_parent h r = r"
  shows "r_succ (nio_ring_append r e h) = (r_succ h)(r := e, e := r_succ h r)"
    "r_pred (nio_ring_append r e h) = (r_pred h)(e := r, r_succ h r := e)"
    "r_parent (nio_ring_append r e h) = (r_parent h)(e := r)"
    "r_len (nio_ring_append r e h) = (r_len h)(r := r_len h r + 1)"
  using assms by (simp_all add: nio_ring_append_def ring_set_defs Let_def fun_upd_twist)

lemma prepend_fields:
  assumes "e \<noteq> r" "r_parent h r = r"
  shows "r_succ (nio_ring_prepend r e h) = (r_succ h)(e := r, r_pred h r := e)"
    "r_pred (nio_ring_prepend r e h) = (r_pred h)(e := r_pred h r, r := e)"
    "r_parent (nio_ring_prepend r e h) = (r_parent h)(e := r)"
    "r_len (nio_ring_prepend r e h) = (r_len h)(r := r_len h r + 1)"
  using assms by (simp_all add: nio_ring_prepend_def ring_set_defs Let_def)

lemma detach_fields:
  assumes "r_parent h e = r" "r \<noteq> e" "r_succ h e \<noteq> 0" "r_pred h e \<noteq> 0"
  shows "r_succ (nio_ring_detach e h) = (r_succ h)(r_pred h e := r_succ h e, e := e)"
    "r_pred (nio_ring_detach e h) = (r_pred h)(r_succ h e := r_pred h e, e := e)"
    "r_parent (nio_ring_detach e h) = (r_parent h)(e := e)"
    "r_len (nio_ring_detach e h) = (r_len h)(r := r_len h r - 1, e := 0)"
  using assms by (simp_all add: nio_ring_detach_def ring_set_defs Let_def)

lemma detach_alone: "r_parent h e = e \<Longrightarrow> nio_ring_detach e h = h"
  by (simp add: nio_ring_detach_def)

lemma ring_ends:
  assumes "ring_list h r xs"
  shows "r_succ h r = hd (xs @ [r])" "r_pred h r = last (r # xs)"
proof -
  show "r_succ h r = hd (xs @ [r])" using assms by (cases xs) (auto simp: ring_list_def)
  obtain A p where pa: "r # xs = A @ [p]" by (metis rev_exhaust list.distinct(1))
  have "r # xs @ [r] = A @ p # [r]" using arg_cong [OF pa, of "\<lambda>ys. ys @ [r]"] by simp
  then have "links h (A @ p # [r])" using assms by (metis ring_list_def)
  then have "r_pred h r = p" using links_append [of h A p "[r]"] by simp
  then show "r_pred h r = last (r # xs)" by (simp only: pa last_snoc)
qed

lemma ring_list_append:
  assumes "ring_list h r xs" "e \<noteq> 0" "e \<notin> set (r # xs)"
  shows "ring_list (nio_ring_append r e h) r (e # xs)"
proof -
  let ?s = "hd (xs @ [r])" and ?b = "tl (xs @ [r])"
  have sb: "xs @ [r] = ?s # ?b" by (cases xs) auto
  have r: "e \<noteq> r" "r_parent h r = r" "distinct (xs @ [r])" using assms by (auto simp: ring_list_def)
  have "links (nio_ring_append r e h) ([] @ r # e # ?s # ?b)"
  proof (rule links_insert)
    show "links h ([] @ r # ?s # ?b)" using assms(1) sb by (simp add: ring_list_def)
    show "?s \<notin> set ?b" using r(3) sb by (metis distinct.simps(2))
    show "r \<notin> set (butlast (?s # ?b))" using r(3) by (simp add: sb [symmetric])
    show "e \<notin> set ([] @ r # ?s # ?b)" using assms(3) by (simp add: sb [symmetric] del: set_simps) auto
  qed (simp_all add: append_fields [OF r(1,2)] ring_ends [OF assms(1)])
  then show ?thesis
    using assms r(1,2) sb by (auto simp: ring_list_def append_fields)
qed

lemma ring_list_prepend:
  assumes "ring_list h r xs" "e \<noteq> 0" "e \<notin> set (r # xs)"
  shows "ring_list (nio_ring_prepend r e h) r (xs @ [e])"
proof -
  obtain A p where pa: "r # xs = A @ [p]" by (metis rev_exhaust list.distinct(1))
  have par: "r # xs @ [r] = A @ p # [r]" using arg_cong [OF pa, of "\<lambda>ys. ys @ [r]"] by simp
  have pr: "r_pred h r = p" using ring_ends(2) [OF assms(1)] by (simp only: pa last_snoc)
  have r: "e \<noteq> r" "r_parent h r = r" "distinct (r # xs)" using assms by (auto simp: ring_list_def)
  have d: "distinct (A @ [p])" "set (A @ [p]) = set (r # xs)" using r(3) pa by simp_all
  have "links (nio_ring_prepend r e h) (A @ p # e # r # [])"
  proof (rule links_insert)
    show "links h (A @ p # r # [])" using assms(1) by (simp add: ring_list_def flip: par)
    show "p \<notin> set A" using d(1) by simp
    show "r \<notin> set (tl (A @ [p]))" using r(3) by (simp flip: pa)
    show "e \<notin> set (A @ p # r # [])" using assms(3) d(2) by auto
    have "e \<noteq> p" using assms(3) d(2) by auto
    then show "r_succ (nio_ring_prepend r e h) = (r_succ h)(p := e, e := r)"
      by (simp add: prepend_fields [OF r(1,2)] pr fun_upd_twist)
    show "r_pred (nio_ring_prepend r e h) = (r_pred h)(e := p, r := e)"
      by (simp add: prepend_fields [OF r(1,2)] pr)
  qed simp_all
  moreover have "A @ p # e # r # [] = r # (xs @ [e]) @ [r]" using arg_cong [OF pa, of "\<lambda>ys. ys @ [e, r]"] by simp
  ultimately have "links (nio_ring_prepend r e h) (r # (xs @ [e]) @ [r])" by simp
  then show ?thesis
    using assms r(1,2) by (auto simp: ring_list_def prepend_fields)
qed

lemma ring_list_mem:
  assumes "ring_list h r (us @ e # vs)"
  shows "r_succ h e = hd (vs @ [r])" "r_pred h e = last (r # us)" "r_parent h e = r" "r \<noteq> e"
    "r_succ h e \<noteq> 0" "r_pred h e \<noteq> 0"
proof -
  obtain A p where pa: "r # us = A @ [p]" by (metis rev_exhaust list.distinct(1))
  have "r # (us @ e # vs) @ [r] = A @ p # e # vs @ [r]" using arg_cong [OF pa, of "\<lambda>ys. ys @ e # vs @ [r]"] by simp
  then have "links h (A @ p # e # vs @ [r])" using assms by (metis ring_list_def)
  then have l: "links h (p # e # vs @ [r])" using links_append [of h A p "e # vs @ [r]"] by simp
  then show s: "r_succ h e = hd (vs @ [r])" by (cases vs) simp_all
  have "r_pred h e = p" using l by simp
  then show p: "r_pred h e = last (r # us)" by (simp only: pa last_snoc)
  show "r_parent h e = r" "r \<noteq> e" using assms by (auto simp: ring_list_def)
  have z: "0 \<notin> set (vs @ [r])" "0 \<notin> set (r # us)" using assms by (simp_all add: ring_list_def)
  show "r_succ h e \<noteq> 0" unfolding s using z(1) hd_in_set [of "vs @ [r]"] by (metis snoc_eq_iff_butlast)
  show "r_pred h e \<noteq> 0" unfolding p using z(2) last_in_set [of "r # us"] by (metis list.distinct(1))
qed

lemma ring_list_detach:
  assumes "ring_list h r (us @ e # vs)"
  shows "ring_list (nio_ring_detach e h) r (us @ vs)"
proof -
  obtain A p where pa: "r # us = A @ [p]" by (metis rev_exhaust list.distinct(1))
  obtain s B where sb: "vs @ [r] = s # B" by (cases "vs @ [r]") auto
  have "r # us @ vs @ [r] = (r # us) @ (vs @ [r])" by simp
  then have ps1: "r # us @ vs @ [r] = A @ p # s # B" unfolding pa sb by simp
  have "r # us @ e # vs @ [r] = (r # us) @ e # (vs @ [r])" by simp
  then have ps2: "r # us @ e # vs @ [r] = A @ p # e # s # B" unfolding pa sb by simp
  note m = ring_list_mem [OF assms]
  have m12: "r_succ h e = s" "r_pred h e = p" using m(1,2) unfolding sb pa by simp_all
  have d: "distinct (r # us @ e # vs)" using assms by (simp add: ring_list_def)
  have dA: "distinct (A @ [p])" "set (A @ [p]) = set (r # us)" using d by (simp_all flip: pa)
  have dB: "distinct (s # B)" "set (s # B) = insert r (set vs)" using d by (auto simp flip: sb)
  have "links (nio_ring_detach e h) (A @ p # s # B)"
  proof (rule links_remove)
    show "links h (A @ p # e # s # B)" using assms by (simp add: ring_list_def flip: ps2)
    show "p \<notin> set A" using dA(1) by simp
    show "s \<notin> set B" using dB(1) by simp
    have "p \<in> set (r # us)" using dA(2) by auto
    then show "p \<notin> set (butlast (s # B))" using d by (auto simp flip: sb)
    have "s \<notin> set us" using dB(2) d by auto
    then show "s \<notin> set (tl (A @ [p]))" by (simp flip: pa)
    show "e \<notin> set (A @ p # s # B)" using dA(2) dB(2) d by auto
  qed (simp_all add: detach_fields [OF m(3-6)] m12)
  then have "links (nio_ring_detach e h) (r # (us @ vs) @ [r])" by (simp flip: ps1)
  then show ?thesis
    using assms detach_fields [OF m(3-6)] m(4) by (auto simp: ring_list_def)
qed

lemma ring_first:
  "ring_list h r xs \<Longrightarrow> nio_ring_first r h = (case xs of [] \<Rightarrow> 0 | x # _ \<Rightarrow> x)"
  using ring_ends(1) [of h r xs] by (cases xs) (auto simp: nio_ring_first_def ring_list_def)

lemma ring_last:
  assumes "ring_list h r xs"
  shows "nio_ring_last r h = (if xs = [] then 0 else last xs)"
proof (cases "xs = []")
  case False
  then have "last xs \<in> set xs" by simp
  then have "last xs \<noteq> r" using assms by (auto simp: ring_list_def)
  with False ring_ends(2) [OF assms] show ?thesis by (simp add: nio_ring_last_def)
qed (use ring_ends(2) [OF assms] in \<open>simp add: nio_ring_last_def\<close>)

lemma pop_head_list:
  assumes "ring_list h r xs" "nio_ring_pop_head r h = (h', p)"
  shows "ring_list h' r (tl xs) \<and> p = (case xs of [] \<Rightarrow> 0 | x # _ \<Rightarrow> x)"
proof (cases xs)
  case Nil
  with assms ring_ends(1) [OF assms(1)] show ?thesis by (auto simp: nio_ring_pop_head_def)
next
  case (Cons x ys)
  then have "r_succ h r = x" "x \<noteq> r" using assms(1) ring_ends(1) [OF assms(1)] by (auto simp: ring_list_def)
  with assms(2) ring_list_detach [of h r "[]" x ys] assms(1) Cons show ?thesis
    by (auto simp: nio_ring_pop_head_def)
qed

lemma pop_tail_list:
  assumes "ring_list h r xs" "nio_ring_pop_tail r h = (h', p)"
  shows "ring_list h' r (butlast xs) \<and> p = (if xs = [] then 0 else last xs)"
proof (cases xs rule: rev_cases)
  case Nil
  with assms ring_ends(2) [OF assms(1)] show ?thesis by (auto simp: nio_ring_pop_tail_def)
next
  case (snoc ys x)
  then have "r_pred h r = x" "x \<noteq> r" using assms(1) ring_ends(2) [OF assms(1)] by (auto simp: ring_list_def)
  with assms(2) ring_list_detach [of h r ys x "[]"] assms(1) snoc show ?thesis
    by (auto simp: nio_ring_pop_tail_def)
qed

lemma walk_forward:
  "links h (xs @ [r]) \<Longrightarrow> r \<notin> set xs \<Longrightarrow> ring_walk (r_succ h) r (hd (xs @ [r])) = Some xs"
proof (induction xs)
  case (Cons x xs)
  then have "links h (xs @ [r])" "r_succ h x = hd (xs @ [r])" by (cases xs; simp)+
  with Cons show ?case by (subst ring_walk.simps) auto
qed (simp add: ring_walk.simps)

lemma walk_back:
  "links h (r # xs @ ys) \<Longrightarrow> r \<notin> set xs \<Longrightarrow> ring_walk (r_pred h) r (last (r # xs)) = Some (rev xs)"
proof (induction xs arbitrary: ys rule: rev_induct)
  case (snoc x xs)
  have "links h (r # xs @ x # ys)" using snoc.prems(1) by simp
  then have "links h ((r # xs) @ [x])" using links_append [of h "r # xs" x ys] by simp
  moreover obtain A p where pa: "r # xs = A @ [p]" by (metis rev_exhaust list.distinct(1))
  ultimately have "r_pred h x = p" using links_append [of h A p "[x]"] by simp
  then have "r_pred h x = last (r # xs)" by (simp only: pa last_snoc)
  with snoc.IH [of "x # ys"] snoc.prems show ?case by (subst ring_walk.simps) auto
qed (simp add: ring_walk.simps)

lemma foreach_list:
  assumes "ring_list h r xs"
  shows "ring_foreach r h = Some xs" "ring_foreach_reverse r h = Some (rev xs)"
proof -
  have l: "links h (r # xs @ [r])" "r \<notin> set xs" using assms by (auto simp: ring_list_def)
  moreover have "links h (xs @ [r])" using l by (cases xs) auto
  ultimately show "ring_foreach r h = Some xs" "ring_foreach_reverse r h = Some (rev xs)"
    using walk_forward walk_back [of h r xs "[r]"]
    by (simp_all add: ring_foreach_def ring_foreach_reverse_def ring_ends [OF assms])
qed

subsection \<open>The contract of an intrusive list\<close>

text \<open>
  What the event loop relies on: entries are queued at the end, taken out anywhere, and the
  first one can be asked for.  \<open>drain\<close> is its loop: as long as there is a first entry, the
  body works on it; \<open>None\<close> is a body that aborts, or a loop that never ends.
\<close>

partial_function (option) drain :: "('s \<Rightarrow> nat) \<Rightarrow> (nat \<Rightarrow> 's \<Rightarrow> 's option) \<Rightarrow> 's \<Rightarrow> 's option" where
  "drain first body s = (if first s = 0 then Some s else Option.bind (body (first s) s) (drain first body))"

declare drain.simps [code]

locale intrusive_list =
  fixes rep :: "'h \<Rightarrow> nat \<Rightarrow> nat list \<Rightarrow> bool"
    and queue :: "nat \<Rightarrow> nat \<Rightarrow> 'h \<Rightarrow> 'h"
    and unlink :: "nat \<Rightarrow> 'h \<Rightarrow> 'h"
    and front :: "nat \<Rightarrow> 'h \<Rightarrow> nat"
  assumes rep_nodup: "rep h r xs \<Longrightarrow> distinct (r # xs) \<and> 0 \<notin> set (r # xs)"
    and rep_queue: "rep h r xs \<Longrightarrow> e \<noteq> 0 \<Longrightarrow> e \<notin> set (r # xs) \<Longrightarrow> rep (queue r e h) r (xs @ [e])"
    and rep_unlink: "rep h r (us @ e # vs) \<Longrightarrow> rep (unlink e h) r (us @ vs)"
    and rep_front: "rep h r xs \<Longrightarrow> front r h = (case xs of [] \<Rightarrow> 0 | x # _ \<Rightarrow> x)"
begin

lemma unlink_first: "rep h r (x # xs) \<Longrightarrow> rep (unlink x h) r xs"
  using rep_unlink [of h r "[]" x xs] by simp

lemma unlink_remove1: "rep h r xs \<Longrightarrow> e \<in> set xs \<Longrightarrow> rep (unlink e h) r (remove1 e xs)"
proof -
  assume a: "rep h r xs" "e \<in> set xs"
  then obtain us vs where "xs = us @ e # vs" "e \<notin> set us" by (metis split_list_first)
  with a(1) show ?thesis by (simp add: rep_unlink remove1_append)
qed

text \<open>
  A loop whose body takes out the entry it is given, and keeps an invariant \<open>I\<close> with the entries
  that are left, ends with none left.
\<close>

lemma drain_invariant:
  assumes "I s xs" "\<And>s xs. I s xs \<Longrightarrow> rep (mem s) (head s) xs"
    "\<And>x xs s. I s (x # xs) \<Longrightarrow> \<exists>s'. body x s = Some s' \<and> I s' xs"
  shows "\<exists>s'. drain (\<lambda>s. front (head s) (mem s)) body s = Some s' \<and> I s' []"
  using assms(1)
proof (induction xs arbitrary: s)
  case Nil
  with rep_front [OF assms(2)] show ?case by (subst drain.simps) simp
next
  case (Cons x xs)
  note rep = assms(2) [OF Cons.prems]
  have x: "front (head s) (mem s) = x" "x \<noteq> 0" using rep_front [OF rep] rep_nodup [OF rep] by auto
  obtain s' where "body x s = Some s'" "I s' xs" using assms(3) [OF Cons.prems] by blast
  with Cons.IH x show ?case by (subst drain.simps) simp
qed

end

interpretation ring: intrusive_list ring_list nio_ring_prepend nio_ring_detach nio_ring_first
proof
  fix h r xs
  assume "ring_list h r xs"
  then show "distinct (r # xs) \<and> 0 \<notin> set (r # xs)" by (simp add: ring_list_def)
qed (rule ring_list_prepend ring_list_detach ring_first; assumption)+

subsection \<open>Properties\<close>

datatype ring_call = Append_Entry nat | Prepend_Entry nat | Detach_Entry nat | Pop_Head | Pop_Tail | First | Last | Count | Each | Each_Reverse

datatype ring_result = Done | Node nat | Number int | Nodes "nat list option"

fun do_ring :: "nat \<Rightarrow> ring_call \<Rightarrow> rings \<Rightarrow> rings \<times> ring_result" where
  "do_ring r (Append_Entry e) h = (nio_ring_append r e h, Done)"
| "do_ring r (Prepend_Entry e) h = (nio_ring_prepend r e h, Done)"
| "do_ring r (Detach_Entry e) h = (nio_ring_detach e h, Done)"
| "do_ring r Pop_Head h = (case nio_ring_pop_head r h of (h', p) \<Rightarrow> (h', Node p))"
| "do_ring r Pop_Tail h = (case nio_ring_pop_tail r h of (h', p) \<Rightarrow> (h', Node p))"
| "do_ring r First h = (h, Node (nio_ring_first r h))"
| "do_ring r Last h = (h, Node (nio_ring_last r h))"
| "do_ring r Count h = (h, Number (nio_ring_size r h))"
| "do_ring r Each h = (h, Nodes (ring_foreach r h))"
| "do_ring r Each_Reverse h = (h, Nodes (ring_foreach_reverse r h))"

fun do_nodes :: "ring_call \<Rightarrow> nat list \<Rightarrow> nat list \<times> ring_result" where
  "do_nodes (Append_Entry e) xs = (e # xs, Done)"
| "do_nodes (Prepend_Entry e) xs = (xs @ [e], Done)"
| "do_nodes (Detach_Entry e) xs = (remove1 e xs, Done)"
| "do_nodes Pop_Head xs = (tl xs, Node (case xs of [] \<Rightarrow> 0 | x # _ \<Rightarrow> x))"
| "do_nodes Pop_Tail xs = (butlast xs, Node (if xs = [] then 0 else last xs))"
| "do_nodes First xs = (xs, Node (case xs of [] \<Rightarrow> 0 | x # _ \<Rightarrow> x))"
| "do_nodes Last xs = (xs, Node (if xs = [] then 0 else last xs))"
| "do_nodes Count xs = (xs, Number (int (length xs)))"
| "do_nodes Each xs = (xs, Nodes (Some xs))"
| "do_nodes Each_Reverse xs = (xs, Nodes (Some (rev xs)))"

text \<open>An entry is put in only when it is not in the ring, and detached only when it is.\<close>

fun ring_call_ok :: "nat \<Rightarrow> ring_call \<Rightarrow> nat list \<Rightarrow> bool" where
  "ring_call_ok r (Append_Entry e) xs = (e \<noteq> 0 \<and> e \<notin> set (r # xs))"
| "ring_call_ok r (Prepend_Entry e) xs = (e \<noteq> 0 \<and> e \<notin> set (r # xs))"
| "ring_call_ok r (Detach_Entry e) xs = (e \<in> set xs)"
| "ring_call_ok r _ xs = True"

text \<open>
  C38: from \<open>nio_ring_init\<close> on, any sequence of ring operations that puts in only entries that are not in it, and detaches only
  entries that are, does to the linked memory what the same operations do to a list, and the loops over
  the ring end and see that list.  As nio_ring.c says, and against the comments of nio_ring.h, which say tail and head:
  \<open>append\<close> puts an entry in front, behind the head of the ring, where \<open>pop_head\<close> takes it next, and \<open>prepend\<close> at the end.
\<close>

theorem ring_refines_list:
  assumes "r \<noteq> 0" "calls_ok (ring_call_ok r) do_nodes cs []"
    "run_calls (do_ring r) cs (nio_ring_init r h) = (h', rs)"
  shows "\<exists>xs. run_calls do_nodes cs [] = (xs, rs) \<and> ring_list h' r xs"
proof -
  have "ring_list (fst (do_ring r c s)) r (fst (do_nodes c xs)) \<and> snd (do_ring r c s) = snd (do_nodes c xs)"
    if "ring_list s r xs" "ring_call_ok r c xs" for c s xs
  proof (cases c)
    case Pop_Head
    with pop_head_list [OF that(1)] show ?thesis by (cases "nio_ring_pop_head r s") auto
  next
    case Pop_Tail
    with pop_tail_list [OF that(1)] show ?thesis by (cases "nio_ring_pop_tail r s") auto
  qed (use that in \<open>auto simp: ring_list_append ring_list_prepend ring.unlink_remove1 ring_first ring_last
      foreach_list nio_ring_size_def\<close>, auto simp: ring_list_def)
  from run_calls_refines [where R = "\<lambda>h xs. ring_list h r xs" and f = "do_ring r" and g = do_nodes and ok = "ring_call_ok r", OF this ring_list_init [OF assms(1), of h] assms(2)] assms(3)
  have "ring_list h' r (fst (run_calls do_nodes cs []))" "rs = snd (run_calls do_nodes cs [])" by simp_all
  then show ?thesis by (intro exI [of _ "fst (run_calls do_nodes cs [])"]) simp
qed

theorem ring_refines_list_witness:
  "\<exists>h' rs. run_calls (do_ring 1) [Prepend_Entry 5, Prepend_Entry 6, Append_Entry 7, Detach_Entry 5, Each, Pop_Head]
      (nio_ring_init 1 \<lparr>r_succ = (\<lambda>_. 0), r_pred = (\<lambda>_. 0), r_parent = (\<lambda>_. 0), r_len = (\<lambda>_. 0)\<rparr>) = (h', rs) \<and>
    rs = [Done, Done, Done, Done, Nodes (Some [7, 6]), Node 7] \<and> ring_list h' 1 [6]"
proof -
  let ?cs = "[Prepend_Entry 5, Prepend_Entry 6, Append_Entry 7, Detach_Entry 5, Each, Pop_Head]"
  let ?h = "nio_ring_init 1 \<lparr>r_succ = (\<lambda>_. 0), r_pred = (\<lambda>_. 0), r_parent = (\<lambda>_. 0), r_len = (\<lambda>_. 0)\<rparr>"
  obtain h' rs where h: "run_calls (do_ring 1) ?cs ?h = (h', rs)" by fastforce
  have "(1 :: nat) \<noteq> 0" "calls_ok (ring_call_ok 1) do_nodes ?cs []" by simp_all
  from ring_refines_list [OF this h] have "rs = [Done, Done, Done, Done, Nodes (Some [7, 6]), Node 7]" "ring_list h' 1 [6]"
    by simp_all
  with h show ?thesis by blast
qed

end
