(* ===== verification/Nio_Loop.thy ===== *)
theory Nio_Loop
  imports Nio_Ring Nio_Timer
begin

text \<open>
  The event loop (c/src/nio_event.c) and its descriptors (c/src/nio_file.c, c/src/event.h): a
  client asks for read and write events of a descriptor; the request is either handed to the
  poller at once (\<open>NIO_EVENT_DIRECT\<close>) or kept in the descriptor's \<open>oper\<close> bits, with the
  descriptor queued on the ring \<open>events\<close>, until \<open>nio_event_prepare\<close> hands all of them on.
  The locale \<open>poller\<close> states what the loop relies on of the poller, and that the poller then
  watches exactly what was asked for is proved from it.
\<close>

subsection \<open>State\<close>

definition TYPE_NONE :: byte where "TYPE_NONE = 0"
definition TYPE_SOCK :: byte where "TYPE_SOCK = 1"
definition TYPE_NOSOCK :: byte where "TYPE_NOSOCK = 2"

definition NIO_EVENT_ADD_READ :: byte where "NIO_EVENT_ADD_READ = 1"
definition NIO_EVENT_DEL_READ :: byte where "NIO_EVENT_DEL_READ = 2"
definition NIO_EVENT_ADD_WRITE :: byte where "NIO_EVENT_ADD_WRITE = 4"
definition NIO_EVENT_DEL_WRITE :: byte where "NIO_EVENT_DEL_WRITE = 8"

definition NIO_EVENT_NONE :: byte where "NIO_EVENT_NONE = 0"
definition NIO_EVENT_READ :: byte where "NIO_EVENT_READ = 1"
definition NIO_EVENT_WRITE :: byte where "NIO_EVENT_WRITE = 2"

definition NIO_EVENT_ONESHOT :: u32 where "NIO_EVENT_ONESHOT = 1"
definition NIO_EVENT_DIRECT :: u32 where "NIO_EVENT_DIRECT = 2"

lemmas nio_consts = TYPE_NONE_def TYPE_SOCK_def TYPE_NOSOCK_def NIO_EVENT_ADD_READ_def NIO_EVENT_DEL_READ_def
  NIO_EVENT_ADD_WRITE_def NIO_EVENT_DEL_WRITE_def NIO_EVENT_NONE_def NIO_EVENT_READ_def NIO_EVENT_WRITE_def

text \<open>
  \<open>NIO_FILE_\<close>; \<open>'p\<close> is the type of the callbacks.  Its ring member \<open>me\<close> is in the memory of the
  rings, and a descriptor is named by the address of that member, as \<open>nio_ring_to_appl\<close> finds it.
\<close>

record 'p nio_file =
  f_fd :: int
  f_id :: int
  f_type :: byte
  f_oper :: byte
  f_mask :: byte
  f_r_proc :: "'p option"
  f_w_proc :: "'p option"

text \<open>\<open>NIO_EVENT\<close>, with the memory of the descriptors; \<open>'k\<close> is what the poller adds to it.\<close>

record ('p, 'k) nio_event =
  ev_rings :: rings
  ev_events :: nat
  ev_files :: "nat \<Rightarrow> 'p nio_file"
  ev_timeout :: int
  ev_fdcount :: int
  ev_setsize :: int
  ev_flags :: u32
  ev_poller :: 'k

definition upd_file :: "nat \<Rightarrow> ('p nio_file \<Rightarrow> 'p nio_file) \<Rightarrow> ('p, 'k) nio_event \<Rightarrow> ('p, 'k) nio_event" where
  "upd_file f g e = e\<lparr>ev_files := (ev_files e)(f := g (ev_files e f))\<rparr>"

definition upd_poller :: "('k \<Rightarrow> 'k) \<Rightarrow> ('p, 'k) nio_event \<Rightarrow> ('p, 'k) nio_event" where
  "upd_poller g e = e\<lparr>ev_poller := g (ev_poller e)\<rparr>"

text \<open>
  The function pointers of \<open>NIO_EVENT\<close>.  \<open>None\<close> is a failed assertion or an access outside an
  array.  \<open>event_wait\<close> also returns the callbacks it has run, with their descriptors.
\<close>

record ('p, 'k) poller_ops =
  op_add_read :: "nat \<Rightarrow> ('p, 'k) nio_event \<Rightarrow> (('p, 'k) nio_event \<times> int) option"
  op_add_write :: "nat \<Rightarrow> ('p, 'k) nio_event \<Rightarrow> (('p, 'k) nio_event \<times> int) option"
  op_del_read :: "nat \<Rightarrow> ('p, 'k) nio_event \<Rightarrow> (('p, 'k) nio_event \<times> int) option"
  op_del_write :: "nat \<Rightarrow> ('p, 'k) nio_event \<Rightarrow> (('p, 'k) nio_event \<times> int) option"
  op_del_readwrite :: "(nat \<Rightarrow> ('p, 'k) nio_event \<Rightarrow> (('p, 'k) nio_event \<times> int) option) option"
  op_event_fflush :: "(('p, 'k) nio_event \<Rightarrow> (('p, 'k) nio_event \<times> int) option) option"
  op_event_wait :: "int \<Rightarrow> ('p, 'k) nio_event \<Rightarrow> (('p, 'k) nio_event \<times> int \<times> ('p \<times> nat) list) option"

text \<open>Memory that nothing has been written to, with the head of the ring at address 1.\<close>

definition blank_event :: "'k \<Rightarrow> ('p, 'k) nio_event" where
  "blank_event k =
     \<lparr>ev_rings = \<lparr>r_succ = (\<lambda>_. 0), r_pred = (\<lambda>_. 0), r_parent = (\<lambda>_. 0), r_len = (\<lambda>_. 0)\<rparr>, ev_events = 1,
      ev_files = (\<lambda>_. \<lparr>f_fd = 0, f_id = 0, f_type = 0, f_oper = 0, f_mask = 0, f_r_proc = None, f_w_proc = None\<rparr>),
      ev_timeout = 0, ev_fdcount = 0, ev_setsize = 0, ev_flags = 0, ev_poller = k\<rparr>"

lemma blank_event_fields [simp]: "ev_poller (blank_event k) = k" "ev_events (blank_event k) = 1" "ev_flags (blank_event k) = 0"
  by (simp_all add: blank_event_def)

subsection \<open>Descriptors and the loop\<close>

definition nio_file_init :: "nat \<Rightarrow> int \<Rightarrow> ('p, 'k) nio_event \<Rightarrow> ('p, 'k) nio_event" where
  "nio_file_init f fd e =
     (let e = e\<lparr>ev_rings := nio_ring_init f (ev_rings e)\<rparr>
      in upd_file f (\<lambda>fe. fe\<lparr>f_fd := fd, f_id := - 1, f_type := TYPE_NONE, f_oper := 0,
           f_mask := NIO_EVENT_NONE, f_r_proc := None, f_w_proc := None\<rparr>) e)"

text \<open>What \<open>nio_event_create\<close> does to the event that the poller has made.\<close>

definition nio_event_setup :: "int \<Rightarrow> u32 \<Rightarrow> ('p, 'k) nio_event \<Rightarrow> ('p, 'k) nio_event" where
  "nio_event_setup n flags e =
     e\<lparr>ev_rings := nio_ring_init (ev_events e) (ev_rings e), ev_timeout := - 1, ev_setsize := n,
       ev_fdcount := 0, ev_flags := ev_flags e OR flags\<rparr>"

definition nio_event_isset_oneshot :: "('p, 'k) nio_event \<Rightarrow> bool" where
  "nio_event_isset_oneshot e \<longleftrightarrow> ev_flags e AND NIO_EVENT_ONESHOT \<noteq> 0"

definition nio_event_size :: "('p, 'k) nio_event \<Rightarrow> int" where
  "nio_event_size e = ev_setsize e"

text \<open>\<open>seekable\<close> stands for \<open>lseek\<close>: whether the descriptor can be seeked, or is not open.\<close>

definition checkfd :: "(int \<Rightarrow> bool) \<Rightarrow> 'p nio_file \<Rightarrow> int" where
  "checkfd seekable fe = (if \<not> seekable (f_fd fe) then 0 else - 1)"

definition enqueue :: "nat \<Rightarrow> ('p, 'k) nio_event \<Rightarrow> ('p, 'k) nio_event" where
  "enqueue f e = e\<lparr>ev_rings := nio_ring_prepend (ev_events e) f (ev_rings e)\<rparr>"

definition nio_event_add_read ::
  "(int \<Rightarrow> bool) \<Rightarrow> ('p, 'k) poller_ops \<Rightarrow> nat \<Rightarrow> 'p \<Rightarrow> ('p, 'k) nio_event \<Rightarrow> (('p, 'k) nio_event \<times> int) option" where
  "nio_event_add_read seekable ops f proc e =
     (if f_type (ev_files e f) = TYPE_NOSOCK then Some (e, 0)
      else if f_fd (ev_files e f) \<ge> ev_setsize e then Some (e, 0)
      else
        let e = (if f_oper (ev_files e f) AND NIO_EVENT_DEL_READ \<noteq> 0
                 then upd_file f (\<lambda>fe. fe\<lparr>f_oper := f_oper fe AND NOT NIO_EVENT_DEL_READ\<rparr>) e else e)
        in if f_mask (ev_files e f) AND NIO_EVENT_READ = 0 \<or> ev_flags e AND NIO_EVENT_ONESHOT \<noteq> 0 then
             if f_type (ev_files e f) = TYPE_NONE \<and> checkfd seekable (ev_files e f) = - 1
             then Some (upd_file f (\<lambda>fe. fe\<lparr>f_type := TYPE_NOSOCK\<rparr>) e, 0)
             else
               let e = (if f_type (ev_files e f) = TYPE_NONE then upd_file f (\<lambda>fe. fe\<lparr>f_type := TYPE_SOCK\<rparr>) e else e)
               in Option.bind
                    (if ev_flags e AND NIO_EVENT_DIRECT \<noteq> 0 then map_option fst (op_add_read ops f e)
                     else if r_parent (ev_rings e) f = f then Some (enqueue f e) else Some e)
                    (\<lambda>e. Some (upd_file f (\<lambda>fe. fe\<lparr>f_oper := f_oper fe OR NIO_EVENT_ADD_READ, f_r_proc := Some proc\<rparr>) e, 1))
           else Some (upd_file f (\<lambda>fe. fe\<lparr>f_r_proc := Some proc\<rparr>) e, 1))"

definition nio_event_add_write ::
  "(int \<Rightarrow> bool) \<Rightarrow> ('p, 'k) poller_ops \<Rightarrow> nat \<Rightarrow> 'p \<Rightarrow> ('p, 'k) nio_event \<Rightarrow> (('p, 'k) nio_event \<times> int) option" where
  "nio_event_add_write seekable ops f proc e =
     (if f_type (ev_files e f) = TYPE_NOSOCK then Some (e, 0)
      else if f_fd (ev_files e f) \<ge> ev_setsize e then Some (e, 0)
      else
        let e = (if f_oper (ev_files e f) AND NIO_EVENT_DEL_WRITE \<noteq> 0
                 then upd_file f (\<lambda>fe. fe\<lparr>f_oper := f_oper fe AND NOT NIO_EVENT_DEL_WRITE\<rparr>) e else e)
        in if f_mask (ev_files e f) AND NIO_EVENT_WRITE = 0 \<or> ev_flags e AND NIO_EVENT_ONESHOT \<noteq> 0 then
             if f_type (ev_files e f) = TYPE_NONE \<and> checkfd seekable (ev_files e f) = - 1
             then Some (upd_file f (\<lambda>fe. fe\<lparr>f_type := TYPE_NOSOCK\<rparr>) e, 0)
             else
               let e = (if f_type (ev_files e f) = TYPE_NONE then upd_file f (\<lambda>fe. fe\<lparr>f_type := TYPE_SOCK\<rparr>) e else e)
               in Option.bind
                    (if ev_flags e AND NIO_EVENT_DIRECT \<noteq> 0 then map_option fst (op_add_write ops f e)
                     else if r_parent (ev_rings e) f = f then Some (enqueue f e) else Some e)
                    (\<lambda>e. Some (upd_file f (\<lambda>fe. fe\<lparr>f_oper := f_oper fe OR NIO_EVENT_ADD_WRITE, f_w_proc := Some proc\<rparr>) e, 1))
           else Some (upd_file f (\<lambda>fe. fe\<lparr>f_w_proc := Some proc\<rparr>) e, 1))"

definition nio_event_del_read ::
  "('p, 'k) poller_ops \<Rightarrow> nat \<Rightarrow> ('p, 'k) nio_event \<Rightarrow> ('p, 'k) nio_event option" where
  "nio_event_del_read ops f e =
     (let e = (if f_oper (ev_files e f) AND NIO_EVENT_ADD_READ \<noteq> 0
               then upd_file f (\<lambda>fe. fe\<lparr>f_oper := f_oper fe AND NOT NIO_EVENT_ADD_READ\<rparr>) e else e)
      in Option.bind
           (if f_mask (ev_files e f) AND NIO_EVENT_READ \<noteq> 0 then
              if ev_flags e AND NIO_EVENT_DIRECT \<noteq> 0 then map_option fst (op_del_read ops f e)
              else if r_parent (ev_rings e) f = f
              then Some (upd_file f (\<lambda>fe. fe\<lparr>f_oper := f_oper fe OR NIO_EVENT_DEL_READ\<rparr>) (enqueue f e))
              else Some (upd_file f (\<lambda>fe. fe\<lparr>f_oper := f_oper fe OR NIO_EVENT_DEL_READ\<rparr>) e)
            else Some e)
           (\<lambda>e. Some (upd_file f (\<lambda>fe. fe\<lparr>f_r_proc := None\<rparr>) e)))"

definition nio_event_del_write ::
  "('p, 'k) poller_ops \<Rightarrow> nat \<Rightarrow> ('p, 'k) nio_event \<Rightarrow> ('p, 'k) nio_event option" where
  "nio_event_del_write ops f e =
     (let e = (if f_oper (ev_files e f) AND NIO_EVENT_ADD_WRITE \<noteq> 0
               then upd_file f (\<lambda>fe. fe\<lparr>f_oper := f_oper fe AND NOT NIO_EVENT_ADD_WRITE\<rparr>) e else e)
      in Option.bind
           (if f_mask (ev_files e f) AND NIO_EVENT_WRITE \<noteq> 0 then
              if ev_flags e AND NIO_EVENT_DIRECT \<noteq> 0 then map_option fst (op_del_write ops f e)
              else if r_parent (ev_rings e) f = f
              then Some (upd_file f (\<lambda>fe. fe\<lparr>f_oper := f_oper fe OR NIO_EVENT_DEL_WRITE\<rparr>) (enqueue f e))
              else Some (upd_file f (\<lambda>fe. fe\<lparr>f_oper := f_oper fe OR NIO_EVENT_DEL_WRITE\<rparr>) e)
            else Some e)
           (\<lambda>e. Some (upd_file f (\<lambda>fe. fe\<lparr>f_w_proc := None\<rparr>) e)))"

definition nio_event_del_readwrite ::
  "('p, 'k) poller_ops \<Rightarrow> nat \<Rightarrow> ('p, 'k) nio_event \<Rightarrow> ('p, 'k) nio_event option" where
  "nio_event_del_readwrite ops f e =
     Option.bind
       (case op_del_readwrite ops of
          Some del \<Rightarrow>
            if f_mask (ev_files e f) AND (NIO_EVENT_READ OR NIO_EVENT_WRITE) \<noteq> 0
            then map_option fst (del f e) else Some e
        | None \<Rightarrow>
            Option.bind
              (if f_mask (ev_files e f) AND NIO_EVENT_READ \<noteq> 0 then map_option fst (op_del_read ops f e) else Some e)
              (\<lambda>e. if f_mask (ev_files e f) AND NIO_EVENT_WRITE \<noteq> 0 then map_option fst (op_del_write ops f e) else Some e))
       (\<lambda>e. let e = (if r_parent (ev_rings e) f \<noteq> f then e\<lparr>ev_rings := nio_ring_detach f (ev_rings e)\<rparr> else e);
                e = upd_file f (\<lambda>fe. fe\<lparr>f_oper := 0\<rparr>) e
            in case op_event_fflush ops of Some fflush \<Rightarrow> map_option fst (fflush e) | None \<Rightarrow> Some e)"

text \<open>The body of the loop of \<open>nio_event_prepare\<close>; the results of the poller are not looked at.\<close>

definition when_oper ::
  "byte \<Rightarrow> nat \<Rightarrow> (nat \<Rightarrow> ('p, 'k) nio_event \<Rightarrow> (('p, 'k) nio_event \<times> int) option) \<Rightarrow> ('p, 'k) nio_event \<Rightarrow>
     ('p, 'k) nio_event option" where
  "when_oper b f op e = (if f_oper (ev_files e f) AND b \<noteq> 0 then map_option fst (op f e) else Some e)"

definition prepare_file :: "('p, 'k) poller_ops \<Rightarrow> nat \<Rightarrow> ('p, 'k) nio_event \<Rightarrow> ('p, 'k) nio_event option" where
  "prepare_file ops f e =
     Option.bind (when_oper NIO_EVENT_DEL_READ f (op_del_read ops) e) (\<lambda>e.
     Option.bind (when_oper NIO_EVENT_DEL_WRITE f (op_del_write ops) e) (\<lambda>e.
     Option.bind (when_oper NIO_EVENT_ADD_READ f (op_add_read ops) e) (\<lambda>e.
     Option.bind (when_oper NIO_EVENT_ADD_WRITE f (op_add_write ops) e) (\<lambda>e.
     let e = e\<lparr>ev_rings := nio_ring_detach f (ev_rings e)\<rparr>
     in Some (upd_file f (\<lambda>fe. fe\<lparr>f_oper := 0\<rparr>) e)))))"

definition nio_event_prepare :: "('p, 'k) poller_ops \<Rightarrow> ('p, 'k) nio_event \<Rightarrow> ('p, 'k) nio_event option" where
  "nio_event_prepare ops e =
     map_option (\<lambda>e. e\<lparr>ev_rings := nio_ring_init (ev_events e) (ev_rings e)\<rparr>)
       (drain (\<lambda>e. nio_ring_first (ev_events e) (ev_rings e)) (prepare_file ops) e)"

text \<open>A callback that is there is run when its event has come.\<close>

definition run_proc ::
  "('p \<Rightarrow> nat \<Rightarrow> ('p, 'k) nio_event \<Rightarrow> ('p, 'k) nio_event option) \<Rightarrow> bool \<Rightarrow> 'p option \<Rightarrow> nat \<Rightarrow> ('p, 'k) nio_event \<Rightarrow>
     (('p, 'k) nio_event \<times> ('p \<times> nat) list) option" where
  "run_proc run b proc f e =
     (case proc of Some p \<Rightarrow> if b then map_option (\<lambda>e. (e, [(p, f)])) (run p f e) else Some (e, [])
      | None \<Rightarrow> Some (e, []))"

text \<open>\<open>before\<close> is the caller's hook, \<open>Some\<close> when there is none to run.\<close>

definition nio_event_wait2 ::
  "('p, 'k) poller_ops \<Rightarrow> (('p, 'k) nio_event \<Rightarrow> ('p, 'k) nio_event option) \<Rightarrow> int \<Rightarrow> ('p, 'k) nio_event \<Rightarrow>
     (('p, 'k) nio_event \<times> int \<times> ('p \<times> nat) list) option" where
  "nio_event_wait2 ops before_wait timeout e =
     (let timeout = wait2_timeout (ev_timeout e) timeout
      in Option.bind (nio_event_prepare ops e) (\<lambda>e. Option.bind (before_wait e) (op_event_wait ops timeout)))"

definition nio_event_wait ::
  "('p, 'k) poller_ops \<Rightarrow> int \<Rightarrow> ('p, 'k) nio_event \<Rightarrow> (('p, 'k) nio_event \<times> int \<times> ('p \<times> nat) list) option" where
  "nio_event_wait ops timeout e = nio_event_wait2 ops Some timeout e"

subsection \<open>Reading and writing alike\<close>

text \<open>The functions for reading and for writing differ in bits and members only.\<close>

datatype direction = Reading | Writing

fun other :: "direction \<Rightarrow> direction" where
  "other Reading = Writing" | "other Writing = Reading"

lemma direction_other: "d' \<noteq> d \<longleftrightarrow> d' = other d" "other d \<noteq> d"
  by (cases d; cases d'; simp)+

definition has :: "'a::len word \<Rightarrow> 'a word \<Rightarrow> bool" where
  "has x b \<longleftrightarrow> x AND b \<noteq> 0"

fun ev_bit :: "direction \<Rightarrow> byte" where
  "ev_bit Reading = NIO_EVENT_READ" | "ev_bit Writing = NIO_EVENT_WRITE"

fun add_bit :: "direction \<Rightarrow> byte" where
  "add_bit Reading = NIO_EVENT_ADD_READ" | "add_bit Writing = NIO_EVENT_ADD_WRITE"

fun del_bit :: "direction \<Rightarrow> byte" where
  "del_bit Reading = NIO_EVENT_DEL_READ" | "del_bit Writing = NIO_EVENT_DEL_WRITE"

fun proc_of :: "direction \<Rightarrow> 'p nio_file \<Rightarrow> 'p option" where
  "proc_of Reading = f_r_proc" | "proc_of Writing = f_w_proc"

fun set_proc :: "direction \<Rightarrow> 'p option \<Rightarrow> 'p nio_file \<Rightarrow> 'p nio_file" where
  "set_proc Reading p fe = fe\<lparr>f_r_proc := p\<rparr>" | "set_proc Writing p fe = fe\<lparr>f_w_proc := p\<rparr>"

fun op_add :: "('p, 'k) poller_ops \<Rightarrow> direction \<Rightarrow> nat \<Rightarrow> ('p, 'k) nio_event \<Rightarrow> (('p, 'k) nio_event \<times> int) option" where
  "op_add ops Reading = op_add_read ops" | "op_add ops Writing = op_add_write ops"

fun op_del :: "('p, 'k) poller_ops \<Rightarrow> direction \<Rightarrow> nat \<Rightarrow> ('p, 'k) nio_event \<Rightarrow> (('p, 'k) nio_event \<times> int) option" where
  "op_del ops Reading = op_del_read ops" | "op_del ops Writing = op_del_write ops"

lemma has_iff: "has (x :: 'a::len word) b \<longleftrightarrow> (\<exists>n. bit x n \<and> bit b n)"
proof -
  have "n < LENGTH('a)" if "bit x n" for n using bit_imp_le_length [OF that] .
  then show ?thesis by (auto simp: has_def bit_eq_iff bit_and_iff)
qed

lemma has_or [simp]: "has (x OR y) b \<longleftrightarrow> has x b \<or> has y b"
  by (auto simp: has_iff bit_or_iff)

lemma has_clear_same [simp]: "\<not> has (x AND NOT b) b"
  by (auto simp: has_iff bit_and_iff bit_not_iff)

lemma has_clear_other [simp]:
  fixes x :: "'a::len word"
  assumes "\<not> has b c"
  shows "has (x AND NOT b) c \<longleftrightarrow> has x c"
proof -
  have "n < LENGTH('a)" if "bit x n" for n using bit_imp_le_length [OF that] .
  with assms show ?thesis by (auto simp: has_iff bit_and_iff bit_not_iff)
qed

lemma has_0 [simp]: "\<not> has 0 b"
  by (simp add: has_def)

lemma has_bits [simp]:
  "has (ev_bit d) (ev_bit d') \<longleftrightarrow> d = d'" "has (add_bit d) (add_bit d') \<longleftrightarrow> d = d'"
  "has (del_bit d) (del_bit d') \<longleftrightarrow> d = d'" "\<not> has (add_bit d) (del_bit d')" "\<not> has (del_bit d) (add_bit d')"
  by (cases d; cases d'; simp add: has_def nio_consts)+

lemma has_commute: "has x b \<longleftrightarrow> has b x"
  by (simp add: has_def and.commute)

lemma has_both: "x AND (NIO_EVENT_READ OR NIO_EVENT_WRITE) \<noteq> 0 \<longleftrightarrow> (\<exists>d. has x (ev_bit d))"
proof -
  have "x AND (NIO_EVENT_READ OR NIO_EVENT_WRITE) \<noteq> 0 \<longleftrightarrow> has x NIO_EVENT_READ \<or> has x NIO_EVENT_WRITE"
    unfolding has_def [symmetric] has_commute [of x] by simp
  also have "\<dots> \<longleftrightarrow> (\<exists>d. has x (ev_bit d))" by (metis direction.exhaust ev_bit.simps)
  finally show ?thesis .
qed

lemma proc_of_simps [simp]:
  "proc_of d (fe\<lparr>f_oper := x\<rparr>) = proc_of d fe" "proc_of d (fe\<lparr>f_type := x\<rparr>) = proc_of d fe"
  "proc_of d (set_proc d' p fe) = (if d = d' then p else proc_of d fe)"
  "f_fd (set_proc d p fe) = f_fd fe" "f_id (set_proc d p fe) = f_id fe" "f_type (set_proc d p fe) = f_type fe"
  "f_oper (set_proc d p fe) = f_oper fe" "f_mask (set_proc d p fe) = f_mask fe"
  by (cases d; cases d'; simp)+

definition event_add ::
  "direction \<Rightarrow> (int \<Rightarrow> bool) \<Rightarrow> ('p, 'k) poller_ops \<Rightarrow> nat \<Rightarrow> 'p \<Rightarrow> ('p, 'k) nio_event \<Rightarrow> (('p, 'k) nio_event \<times> int) option" where
  "event_add d seekable ops f proc e =
     (if f_type (ev_files e f) = TYPE_NOSOCK then Some (e, 0)
      else if f_fd (ev_files e f) \<ge> ev_setsize e then Some (e, 0)
      else
        let e = upd_file f (\<lambda>fe. fe\<lparr>f_oper := f_oper fe AND NOT (del_bit d)\<rparr>) e
        in if \<not> has (f_mask (ev_files e f)) (ev_bit d) \<or> nio_event_isset_oneshot e then
             if f_type (ev_files e f) = TYPE_NONE \<and> seekable (f_fd (ev_files e f))
             then Some (upd_file f (\<lambda>fe. fe\<lparr>f_type := TYPE_NOSOCK\<rparr>) e, 0)
             else
               let e = (if f_type (ev_files e f) = TYPE_NONE then upd_file f (\<lambda>fe. fe\<lparr>f_type := TYPE_SOCK\<rparr>) e else e)
               in Option.bind
                    (if ev_flags e AND NIO_EVENT_DIRECT \<noteq> 0 then map_option fst (op_add ops d f e)
                     else if r_parent (ev_rings e) f = f then Some (enqueue f e) else Some e)
                    (\<lambda>e. Some (upd_file f (\<lambda>fe. set_proc d (Some proc) (fe\<lparr>f_oper := f_oper fe OR add_bit d\<rparr>)) e, 1))
           else Some (upd_file f (set_proc d (Some proc)) e, 1))"

definition event_del :: "direction \<Rightarrow> ('p, 'k) poller_ops \<Rightarrow> nat \<Rightarrow> ('p, 'k) nio_event \<Rightarrow> ('p, 'k) nio_event option" where
  "event_del d ops f e =
     (let e = upd_file f (\<lambda>fe. fe\<lparr>f_oper := f_oper fe AND NOT (add_bit d)\<rparr>) e
      in Option.bind
           (if has (f_mask (ev_files e f)) (ev_bit d) then
              if ev_flags e AND NIO_EVENT_DIRECT \<noteq> 0 then map_option fst (op_del ops d f e)
              else if r_parent (ev_rings e) f = f
              then Some (upd_file f (\<lambda>fe. fe\<lparr>f_oper := f_oper fe OR del_bit d\<rparr>) (enqueue f e))
              else Some (upd_file f (\<lambda>fe. fe\<lparr>f_oper := f_oper fe OR del_bit d\<rparr>) e)
            else Some e)
           (\<lambda>e. Some (upd_file f (set_proc d None) e)))"

text \<open>Clearing a bit that is not set changes nothing.\<close>

lemma clear_unset: "\<not> has x b \<Longrightarrow> x AND NOT b = x"
  by (auto simp: has_iff bit_eq_iff bit_and_iff bit_not_iff dest: bit_imp_le_length)

lemma upd_file_same [simp]: "g (ev_files e f) = ev_files e f \<Longrightarrow> upd_file f g e = e"
  by (simp add: upd_file_def)

lemma clear_if:
  "(if f_oper (ev_files e f) AND b \<noteq> 0 then upd_file f (\<lambda>fe. fe\<lparr>f_oper := f_oper fe AND NOT b\<rparr>) e else e) =
     upd_file f (\<lambda>fe. fe\<lparr>f_oper := f_oper fe AND NOT b\<rparr>) e"
  using clear_unset [of "f_oper (ev_files e f)" b] by (simp add: has_def)

lemma set_proc_eta:
  "set_proc Reading p = f_r_proc_update (\<lambda>_. p)" "set_proc Writing p = f_w_proc_update (\<lambda>_. p)"
  by (rule ext, simp)+

lemma event_add_eq:
  "nio_event_add_read = event_add Reading" "nio_event_add_write = event_add Writing"
proof -
  have c: "checkfd sk fe = - 1 \<longleftrightarrow> sk (f_fd fe)" for sk :: "int \<Rightarrow> bool" and fe :: "'p nio_file"
    by (simp add: checkfd_def)
  show "nio_event_add_read = event_add Reading"
    by (intro ext) (simp only: nio_event_add_read_def event_add_def clear_if has_def not_not c
      nio_event_isset_oneshot_def ev_bit.simps add_bit.simps del_bit.simps op_add.simps set_proc_eta)
  show "nio_event_add_write = event_add Writing"
    by (intro ext) (simp only: nio_event_add_write_def event_add_def clear_if has_def not_not c
      nio_event_isset_oneshot_def ev_bit.simps add_bit.simps del_bit.simps op_add.simps set_proc_eta)
qed

lemma event_del_eq:
  "nio_event_del_read = event_del Reading" "nio_event_del_write = event_del Writing"
  by (intro ext, simp only: nio_event_del_read_def nio_event_del_write_def event_del_def clear_if has_def Let_def
      ev_bit.simps add_bit.simps del_bit.simps op_del.simps set_proc_eta)+

text \<open>The descriptor of an update, and what stays.\<close>

lemma upd_file_fields [simp]:
  "ev_files (upd_file f g e) h = (if h = f then g (ev_files e f) else ev_files e h)"
  "ev_rings (upd_file f g e) = ev_rings e" "ev_events (upd_file f g e) = ev_events e"
  "ev_flags (upd_file f g e) = ev_flags e" "ev_setsize (upd_file f g e) = ev_setsize e"
  "ev_fdcount (upd_file f g e) = ev_fdcount e" "ev_poller (upd_file f g e) = ev_poller e"
  "ev_timeout (upd_file f g e) = ev_timeout e"
  by (simp_all add: upd_file_def)

lemma upd_poller_fields [simp]:
  "ev_poller (upd_poller g e) = g (ev_poller e)" "ev_files (upd_poller g e) = ev_files e" "ev_rings (upd_poller g e) = ev_rings e"
  "ev_events (upd_poller g e) = ev_events e" "ev_timeout (upd_poller g e) = ev_timeout e" "ev_setsize (upd_poller g e) = ev_setsize e"
  "ev_flags (upd_poller g e) = ev_flags e" "ev_fdcount (upd_poller g e) = ev_fdcount e"
  by (simp_all add: upd_poller_def)

lemma enqueue_fields [simp]:
  "ev_files (enqueue f e) = ev_files e" "ev_events (enqueue f e) = ev_events e" "ev_flags (enqueue f e) = ev_flags e"
  "ev_setsize (enqueue f e) = ev_setsize e" "ev_fdcount (enqueue f e) = ev_fdcount e" "ev_poller (enqueue f e) = ev_poller e"
  "ev_timeout (enqueue f e) = ev_timeout e" "ev_rings (enqueue f e) = nio_ring_prepend (ev_events e) f (ev_rings e)"
  by (simp_all add: enqueue_def)

subsection \<open>Invariant and abstraction\<close>

definition direct :: "('p, 'k) nio_event \<Rightarrow> bool" where
  "direct e \<longleftrightarrow> ev_flags e AND NIO_EVENT_DIRECT \<noteq> 0"

text \<open>
  What was asked for last: \<open>Some p\<close> an event and the callback for it.  A descriptor asks for it
  in its mask, or in a request that is still to be handed on; \<open>queued\<close> is whether it is on the ring.
\<close>

type_synonym 'p wants = "nat \<Rightarrow> direction \<Rightarrow> 'p option"

definition asks :: "'p nio_file \<Rightarrow> direction \<Rightarrow> bool" where
  "asks fe d \<longleftrightarrow> has (f_mask fe) (ev_bit d) \<and> \<not> has (f_oper fe) (del_bit d) \<or> has (f_oper fe) (add_bit d)"

definition file_ok :: "(int \<Rightarrow> bool) \<Rightarrow> int \<Rightarrow> bool \<Rightarrow> bool \<Rightarrow> 'p nio_file \<Rightarrow> bool" where
  "file_ok seekable n dir queued fe \<longleftrightarrow>
     (\<forall>d. (has (f_oper fe) (del_bit d) \<longrightarrow> has (f_mask fe) (ev_bit d) \<and> \<not> has (f_oper fe) (add_bit d) \<and> queued) \<and>
          (has (f_oper fe) (add_bit d) \<longrightarrow> queued \<or> dir \<and> has (f_mask fe) (ev_bit d)) \<and>
          (has (f_mask fe) (ev_bit d) \<or> has (f_oper fe) (add_bit d) \<longrightarrow> f_type fe = TYPE_SOCK)) \<and>
     (f_type fe = TYPE_SOCK \<longrightarrow> \<not> seekable (f_fd fe) \<and> f_fd fe < n) \<and> (f_type fe = TYPE_NOSOCK \<longrightarrow> seekable (f_fd fe)) \<and>
     f_type fe \<in> {TYPE_NONE, TYPE_SOCK, TYPE_NOSOCK}"

definition file_wants :: "(direction \<Rightarrow> 'p option) \<Rightarrow> 'p nio_file \<Rightarrow> bool" where
  "file_wants w fe \<longleftrightarrow> (\<forall>d. (w d \<noteq> None \<longleftrightarrow> asks fe d) \<and> (\<forall>p. w d = Some p \<longrightarrow> proc_of d fe = Some p))"

definition queue_ok :: "nat set \<Rightarrow> ('p, 'k) nio_event \<Rightarrow> nat list \<Rightarrow> bool" where
  "queue_ok F e q \<longleftrightarrow> ring_list (ev_rings e) (ev_events e) q \<and> ev_events e \<notin> F \<and> 0 \<notin> F \<and> set q \<subseteq> F \<and>
     (\<forall>f \<in> F. f \<notin> set q \<longrightarrow> r_parent (ev_rings e) f = f) \<and> (direct e \<longrightarrow> q = [])"

definition loop_rel :: "(int \<Rightarrow> bool) \<Rightarrow> nat set \<Rightarrow> ('p, 'k) nio_event \<Rightarrow> nat list \<Rightarrow> 'p wants \<Rightarrow> bool" where
  "loop_rel seekable F e q w \<longleftrightarrow> queue_ok F e q \<and>
     (\<forall>f \<in> F. file_ok seekable (ev_setsize e) (direct e) (f \<in> set q) (ev_files e f) \<and> file_wants (w f) (ev_files e f))"

text \<open>
  What the poller does to the event: it changes its own part, and of the descriptors only the
  mask of the one it is called for, where \<open>P\<close> tells the events in it, and its index in \<open>id\<close>.
\<close>

definition remasked :: "nat set \<Rightarrow> nat \<Rightarrow> (direction \<Rightarrow> bool) \<Rightarrow> ('p, 'k) nio_event \<Rightarrow> ('p, 'k) nio_event \<Rightarrow> bool" where
  "remasked F f P e e' \<longleftrightarrow>
     ev_rings e' = ev_rings e \<and> ev_events e' = ev_events e \<and> ev_timeout e' = ev_timeout e \<and>
     ev_setsize e' = ev_setsize e \<and> ev_flags e' = ev_flags e \<and>
     (\<forall>g \<in> F. ev_files e' g =
        (ev_files e g)\<lparr>f_id := f_id (ev_files e' g), f_mask := f_mask (ev_files e' g)\<rparr> \<and>
        (g \<noteq> f \<longrightarrow> f_mask (ev_files e' g) = f_mask (ev_files e g))) \<and>
     (\<forall>d. has (f_mask (ev_files e' f)) (ev_bit d) = P d)"

text \<open>The part of the event that the poller depends on.\<close>

definition same_poller :: "nat set \<Rightarrow> ('p, 'k) nio_event \<Rightarrow> ('p, 'k) nio_event \<Rightarrow> bool" where
  "same_poller F e e' \<longleftrightarrow> ev_poller e' = ev_poller e \<and> ev_fdcount e' = ev_fdcount e \<and>
     (\<forall>f \<in> F. f_fd (ev_files e' f) = f_fd (ev_files e f) \<and> f_id (ev_files e' f) = f_id (ev_files e f) \<and>
        f_mask (ev_files e' f) = f_mask (ev_files e f))"

lemma queue_enqueue:
  assumes "queue_ok F e q" "f \<in> F" "r_parent (ev_rings e) f = f" "\<not> direct e"
  shows "f \<notin> set q" "queue_ok F (enqueue f e) (q @ [f])"
proof -
  have r: "ring_list (ev_rings e) (ev_events e) q" and F: "ev_events e \<notin> F" "0 \<notin> F" "set q \<subseteq> F"
    using assms(1) by (simp_all add: queue_ok_def)
  have p: "f \<noteq> ev_events e" "f \<noteq> 0" using assms(2) F by metis+
  show f: "f \<notin> set q" using r p assms(3) by (auto simp: ring_list_def)
  have "ring_list (ev_rings (enqueue f e)) (ev_events e) (q @ [f])"
    using ring.rep_queue [OF r p(2)] f p by simp
  moreover have "r_parent (ev_rings e) (ev_events e) = ev_events e" using r by (simp add: ring_list_def)
  ultimately show "queue_ok F (enqueue f e) (q @ [f])"
    using assms F p by (auto simp: queue_ok_def prepend_fields direct_def)
qed

lemma queue_cong:
  "ev_rings e' = ev_rings e \<Longrightarrow> ev_events e' = ev_events e \<Longrightarrow> ev_flags e' = ev_flags e \<Longrightarrow> queue_ok F e' q = queue_ok F e q"
  by (simp add: queue_ok_def direct_def)

lemma queued_iff: "queue_ok F e q \<Longrightarrow> f \<in> F \<Longrightarrow> f \<in> set q \<longleftrightarrow> r_parent (ev_rings e) f \<noteq> f"
  by (auto simp: queue_ok_def ring_list_def)

lemma queue_detach:
  assumes "queue_ok F e q" "f \<in> F"
  shows "queue_ok F (e\<lparr>ev_rings := nio_ring_detach f (ev_rings e)\<rparr>) (remove1 f q)"
proof (cases "f \<in> set q")
  case True
  have r: "ring_list (ev_rings e) (ev_events e) q" using assms(1) by (simp add: queue_ok_def)
  obtain us vs where q: "q = us @ f # vs" using True by (meson split_list)
  note m = ring_list_mem [OF r [unfolded q]]
  have "set (remove1 f q) = set q - {f}" using r by (simp add: ring_list_def set_remove1_eq)
  with ring.unlink_remove1 [OF r True] detach_fields(3) [OF m(3-6)] assms show ?thesis
    by (auto simp: queue_ok_def direct_def)
next
  case False
  with assms queued_iff [OF assms] show ?thesis by (simp add: queue_ok_def detach_alone direct_def remove1_idem)
qed

lemma clear_bits [simp]:
  "has (x AND NOT (del_bit d)) (del_bit d') \<longleftrightarrow> d \<noteq> d' \<and> has x (del_bit d')"
  "has (x AND NOT (add_bit d)) (add_bit d') \<longleftrightarrow> d \<noteq> d' \<and> has x (add_bit d')"
  by (cases "d = d'"; simp)+

lemma types_distinct [simp]:
  "TYPE_SOCK \<noteq> TYPE_NOSOCK" "TYPE_NOSOCK \<noteq> TYPE_SOCK" "TYPE_NONE \<noteq> TYPE_SOCK" "TYPE_SOCK \<noteq> TYPE_NONE"
  "TYPE_NONE \<noteq> TYPE_NOSOCK" "TYPE_NOSOCK \<noteq> TYPE_NONE"
  by (simp_all add: nio_consts)

lemma upd_file_twice: "upd_file f g (upd_file f h e) = upd_file f (\<lambda>fe. g (h fe)) e"
  by (simp add: upd_file_def)

text \<open>Requests, on one descriptor.\<close>

lemma file_clear_del: "file_ok sk n dir q fe \<Longrightarrow> file_ok sk n dir q (fe\<lparr>f_oper := f_oper fe AND NOT (del_bit d)\<rparr>)"
  by (auto simp: file_ok_def)

lemma file_clear_add: "file_ok sk n dir q fe \<Longrightarrow> file_ok sk n dir q (fe\<lparr>f_oper := f_oper fe AND NOT (add_bit d)\<rparr>)"
  by (auto simp: file_ok_def)

lemma file_add:
  assumes "file_ok sk n dir q fe" "file_wants w fe" "f_type fe' = TYPE_SOCK" "\<not> sk (f_fd fe')" "f_fd fe' < n"
    "\<not> has (f_oper fe') (del_bit d)" "q' \<or> dir \<and> has (f_mask fe') (ev_bit d)"
    "\<And>d'. d' \<noteq> d \<Longrightarrow> has (f_oper fe') (del_bit d') = has (f_oper fe) (del_bit d')" "q \<longrightarrow> q'"
    "\<And>d'. has (f_oper fe') (add_bit d') = has (f_oper fe) (add_bit d')"
    "\<And>d'. d' \<noteq> d \<Longrightarrow> has (f_mask fe') (ev_bit d') = has (f_mask fe) (ev_bit d')"
    "\<And>d'. proc_of d' fe' = proc_of d' fe"
  shows "file_ok sk n dir q' (set_proc d (Some p) (fe'\<lparr>f_oper := f_oper fe' OR add_bit d\<rparr>))"
    "file_wants (w(d := Some p)) (set_proc d (Some p) (fe'\<lparr>f_oper := f_oper fe' OR add_bit d\<rparr>))"
proof -
  show "file_ok sk n dir q' (set_proc d (Some p) (fe'\<lparr>f_oper := f_oper fe' OR add_bit d\<rparr>))"
    unfolding file_ok_def
  proof (intro conjI allI)
    fix d'
    show "has (f_oper (set_proc d (Some p) (fe'\<lparr>f_oper := f_oper fe' OR add_bit d\<rparr>))) (del_bit d') \<longrightarrow>
        has (f_mask (set_proc d (Some p) (fe'\<lparr>f_oper := f_oper fe' OR add_bit d\<rparr>))) (ev_bit d') \<and>
        \<not> has (f_oper (set_proc d (Some p) (fe'\<lparr>f_oper := f_oper fe' OR add_bit d\<rparr>))) (add_bit d') \<and> q'"
      using assms by (cases "d' = d") (auto simp: file_ok_def)
    show "has (f_oper (set_proc d (Some p) (fe'\<lparr>f_oper := f_oper fe' OR add_bit d\<rparr>))) (add_bit d') \<longrightarrow>
        q' \<or> dir \<and> has (f_mask (set_proc d (Some p) (fe'\<lparr>f_oper := f_oper fe' OR add_bit d\<rparr>))) (ev_bit d')"
      using assms by (cases "d' = d") (auto simp: file_ok_def)
  qed (use assms in simp_all)
  show "file_wants (w(d := Some p)) (set_proc d (Some p) (fe'\<lparr>f_oper := f_oper fe' OR add_bit d\<rparr>))"
    using assms(2,8,10,11,12) by (auto simp: file_wants_def asks_def)
qed

lemma file_keep:
  assumes "file_ok sk n dir q fe" "file_wants w fe" "has (f_mask fe) (ev_bit d)"
  shows "file_ok sk n dir q (set_proc d (Some p) (fe\<lparr>f_oper := f_oper fe AND NOT (del_bit d)\<rparr>))"
    "file_wants (w(d := Some p)) (set_proc d (Some p) (fe\<lparr>f_oper := f_oper fe AND NOT (del_bit d)\<rparr>))"
  using assms file_clear_del [OF assms(1), of d] by (auto simp: file_ok_def file_wants_def asks_def)

lemma loop_rel_upd:
  assumes "loop_rel sk F e q w" "f \<in> F"
    "file_ok sk (ev_setsize e) (direct e) (f \<in> set q) (g (ev_files e f))" "file_wants w' (g (ev_files e f))"
  shows "loop_rel sk F (upd_file f g e) q (w(f := w'))"
  using assms by (auto simp: loop_rel_def queue_cong [of "upd_file f g e" e] direct_def)

lemma loop_relI:
  assumes "queue_ok F e q" "\<And>g. g \<in> F \<Longrightarrow> g \<noteq> f \<Longrightarrow>
      file_ok sk (ev_setsize e) (direct e) (g \<in> set q) (ev_files e g) \<and> file_wants (w g) (ev_files e g)"
    "file_ok sk (ev_setsize e) (direct e) (f \<in> set q) (ev_files e f)" "file_wants w' (ev_files e f)"
  shows "loop_rel sk F e q (w(f := w'))"
  using assms by (simp add: loop_rel_def)

lemma loop_rel_poller: "loop_rel sk F (e\<lparr>ev_poller := k\<rparr>) q w = loop_rel sk F e q w"
  by (simp add: loop_rel_def queue_ok_def direct_def)

lemma remasked_queue: "queue_ok F e q \<Longrightarrow> remasked F f P e e' \<Longrightarrow> queue_ok F e' q"
  using queue_cong [of e' e F q] by (simp add: remasked_def)

lemma remasked_fd:
  assumes "remasked F f P e e'" "g \<in> F"
  shows "f_fd (ev_files e' g) = f_fd (ev_files e g)"
proof -
  have *: "ev_files e' g = (ev_files e g)\<lparr>f_id := f_id (ev_files e' g), f_mask := f_mask (ev_files e' g)\<rparr>"
    using assms by (simp add: remasked_def)
  show ?thesis by (subst *) simp
qed

lemma remasked_other:
  assumes "file_ok sk (ev_setsize e) (direct e) b (ev_files e g) \<and> file_wants v (ev_files e g)" "remasked F f P e e'"
    "g \<in> F" "g \<noteq> f"
  shows "file_ok sk (ev_setsize e') (direct e') b (ev_files e' g) \<and> file_wants v (ev_files e' g)"
proof -
  from assms(2-4) have "ev_files e' g = (ev_files e g)\<lparr>f_id := f_id (ev_files e' g), f_mask := f_mask (ev_files e g)\<rparr>"
    by (metis remasked_def)
  then obtain i where i: "ev_files e' g = (ev_files e g)\<lparr>f_id := i\<rparr>" by (metis (no_types) nio_file.surjective nio_file.update_convs(2,5))
  have "proc_of d (fe\<lparr>f_id := i\<rparr>) = proc_of d fe" for d and fe :: "'a nio_file" by (cases d) simp_all
  with assms show ?thesis
    by (simp add: i remasked_def file_ok_def file_wants_def asks_def direct_def)
qed

lemma remasked_refl: "remasked F f (\<lambda>d. has (f_mask (ev_files e f)) (ev_bit d)) e e"
  by (simp add: remasked_def)

lemma remasked_trans:
  assumes "remasked F f P e e1" "remasked F f Q e1 e2"
  shows "remasked F f Q e e2"
  unfolding remasked_def
proof (intro conjI ballI)
  fix g assume g: "g \<in> F"
  have 1: "ev_files e1 g = (ev_files e g)\<lparr>f_id := f_id (ev_files e1 g), f_mask := f_mask (ev_files e1 g)\<rparr>"
    using assms(1) g by (simp add: remasked_def)
  have "ev_files e2 g = (ev_files e1 g)\<lparr>f_id := f_id (ev_files e2 g), f_mask := f_mask (ev_files e2 g)\<rparr>"
    using assms(2) g by (simp add: remasked_def)
  then show "ev_files e2 g = (ev_files e g)\<lparr>f_id := f_id (ev_files e2 g), f_mask := f_mask (ev_files e2 g)\<rparr>"
    by (subst (asm) 1) simp
qed (use assms in \<open>simp_all add: remasked_def\<close>)

text \<open>What the poller leaves of the descriptor it is called for.\<close>

lemma remasked_file:
  assumes "remasked F f P e e'" "f \<in> F"
  shows "f_fd (ev_files e' f) = f_fd (ev_files e f)" "f_type (ev_files e' f) = f_type (ev_files e f)"
    "f_oper (ev_files e' f) = f_oper (ev_files e f)" "proc_of d (ev_files e' f) = proc_of d (ev_files e f)"
    "has (f_mask (ev_files e' f)) (ev_bit d) = P d" "direct e' = direct e" "ev_setsize e' = ev_setsize e"
    "ev_rings e' = ev_rings e" "ev_events e' = ev_events e" "ev_flags e' = ev_flags e"
proof -
  have *: "ev_files e' f = (ev_files e f)\<lparr>f_id := f_id (ev_files e' f), f_mask := f_mask (ev_files e' f)\<rparr>"
    using assms by (simp add: remasked_def)
  show "f_fd (ev_files e' f) = f_fd (ev_files e f)" "f_type (ev_files e' f) = f_type (ev_files e f)"
    "f_oper (ev_files e' f) = f_oper (ev_files e f)" "proc_of d (ev_files e' f) = proc_of d (ev_files e f)"
    by (subst *, cases d; simp)+
qed (use assms in \<open>simp_all add: remasked_def direct_def\<close>)

text \<open>An event with some descriptors, none in use.\<close>

definition open_files :: "(nat \<Rightarrow> int) \<Rightarrow> nat list \<Rightarrow> ('p, 'k) nio_event \<Rightarrow> ('p, 'k) nio_event" where
  "open_files fds fs e = fold (\<lambda>f. nio_file_init f (fds f)) fs e"

lemma open_files_fields [simp]:
  "ev_events (open_files fds fs e) = ev_events e" "ev_flags (open_files fds fs e) = ev_flags e"
  "ev_setsize (open_files fds fs e) = ev_setsize e" "ev_fdcount (open_files fds fs e) = ev_fdcount e"
  "ev_poller (open_files fds fs e) = ev_poller e"
  unfolding open_files_def by (induction fs arbitrary: e) (simp_all add: nio_file_init_def)

lemma open_files_file:
  "f \<in> set fs \<Longrightarrow> ev_files (open_files fds fs e) f =
     (ev_files e f)\<lparr>f_fd := fds f, f_id := - 1, f_type := TYPE_NONE, f_oper := 0, f_mask := NIO_EVENT_NONE,
        f_r_proc := None, f_w_proc := None\<rparr> \<and> r_parent (ev_rings (open_files fds fs e)) f = f"
proof (induction fs rule: rev_induct)
  case (snoc g fs)
  then show ?case
    by (cases "g = f") (auto simp: open_files_def nio_file_init_def nio_ring_init_def ring_set_defs)
qed simp

lemma open_files_ring:
  "r \<notin> set fs \<Longrightarrow> ring_list (ev_rings e) r [] \<Longrightarrow> ring_list (ev_rings (open_files fds fs e)) r []"
proof (induction fs rule: rev_induct)
  case (snoc g fs)
  then show ?case
    by (subst ring_list_cong [where h = "ev_rings (open_files fds fs e)"])
       (auto simp: open_files_def nio_file_init_def nio_ring_init_def ring_set_defs)
qed (simp add: open_files_def)

subsection \<open>The poller\<close>

text \<open>
  The contract of a poller, for the descriptors \<open>F\<close>.  It watches what the masks say.  It can be
  asked to watch a descriptor that is no file, whatever it watches it for already, and to stop
  watching it for an event it does watch it for, and it changes nothing else.
\<close>

locale poller =
  fixes seekable :: "int \<Rightarrow> bool"
    and ops :: "('p, 'k) poller_ops"
    and inv :: "nat set \<Rightarrow> ('p, 'k) nio_event \<Rightarrow> bool"
    and watch :: "('p, 'k) nio_event \<Rightarrow> nat \<Rightarrow> direction \<Rightarrow> bool"
  assumes watch_mask: "inv F e \<Longrightarrow> f \<in> F \<Longrightarrow> watch e f d \<longleftrightarrow> has (f_mask (ev_files e f)) (ev_bit d)"
    and inv_frame: "inv F e \<Longrightarrow> same_poller F e e' \<Longrightarrow> inv F e'"
    and add_ok: "inv F e \<Longrightarrow> f \<in> F \<Longrightarrow> \<not> seekable (f_fd (ev_files e f)) \<Longrightarrow>
      \<exists>e'. op_add ops d f e = Some (e', 0) \<and> inv F e' \<and>
        remasked F f (\<lambda>d'. d' = d \<or> has (f_mask (ev_files e f)) (ev_bit d')) e e'"
    and del_ok: "inv F e \<Longrightarrow> f \<in> F \<Longrightarrow> has (f_mask (ev_files e f)) (ev_bit d) \<Longrightarrow>
      \<exists>e'. op_del ops d f e = Some (e', 0) \<and> inv F e' \<and>
        remasked F f (\<lambda>d'. d' \<noteq> d \<and> has (f_mask (ev_files e f)) (ev_bit d')) e e'"
    and del_both_ok: "op_del_readwrite ops = Some del \<Longrightarrow> inv F e \<Longrightarrow> f \<in> F \<Longrightarrow>
      has (f_mask (ev_files e f)) (ev_bit d) \<Longrightarrow>
      \<exists>e'. del f e = Some (e', 0) \<and> inv F e' \<and> remasked F f (\<lambda>d'. False) e e'"
    and fflush_ok: "op_event_fflush ops = Some fflush \<Longrightarrow> inv F e \<Longrightarrow>
      \<exists>k r. fflush e = Some (e\<lparr>ev_poller := k\<rparr>, r) \<and> inv F (e\<lparr>ev_poller := k\<rparr>)"
begin

lemma inv_upd:
  "inv F e \<Longrightarrow> f_fd (g (ev_files e f)) = f_fd (ev_files e f) \<Longrightarrow> f_id (g (ev_files e f)) = f_id (ev_files e f) \<Longrightarrow>
     f_mask (g (ev_files e f)) = f_mask (ev_files e f) \<Longrightarrow> inv F (upd_file f g e)"
  by (erule inv_frame) (simp add: same_poller_def)

lemma inv_rings: "inv F e \<Longrightarrow> inv F (e\<lparr>ev_rings := h\<rparr>)"
  by (erule inv_frame) (simp add: same_poller_def)

lemma inv_enqueue: "inv F e \<Longrightarrow> inv F (enqueue f e)"
  by (erule inv_frame) (simp add: same_poller_def)

definition loop :: "nat set \<Rightarrow> (nat \<Rightarrow> int) \<Rightarrow> int \<Rightarrow> ('p, 'k) nio_event \<Rightarrow> 'p wants \<Rightarrow> bool" where
  "loop F fds n e w \<longleftrightarrow> inv F e \<and> (\<exists>q. loop_rel seekable F e q w) \<and> (\<forall>f \<in> F. f_fd (ev_files e f) = fds f) \<and> ev_setsize e = n"

lemma add_step:
  assumes l: "loop F fds n e w" and f: "f \<in> F"
  shows "\<exists>e'. event_add d seekable ops f p e = Some (e', if \<not> seekable (fds f) \<and> fds f < n then 1 else 0) \<and>
    loop F fds n e' (if \<not> seekable (fds f) \<and> fds f < n then w(f := (w f)(d := Some p)) else w)"
proof -
  obtain q where inv: "inv F e" and r: "loop_rel seekable F e q w" and fd: "\<forall>g \<in> F. f_fd (ev_files e g) = fds g"
    and n: "ev_setsize e = n" using l by (auto simp: loop_def)
  have q: "queue_ok F e q" and fo: "file_ok seekable n (direct e) (f \<in> set q) (ev_files e f)"
    and fw: "file_wants (w f) (ev_files e f)" using r f n by (auto simp: loop_rel_def)
  let ?e1 = "upd_file f (\<lambda>fe. fe\<lparr>f_oper := f_oper fe AND NOT (del_bit d)\<rparr>) e"
  have inv1: "inv F ?e1" using inv by (rule inv_upd) simp_all
  consider (nosock) "f_type (ev_files e f) = TYPE_NOSOCK" | (large) "f_type (ev_files e f) \<noteq> TYPE_NOSOCK" "fds f \<ge> n"
    | (new_nosock) "f_type (ev_files e f) = TYPE_NONE" "fds f < n" "seekable (fds f)"
    | (ok) "f_type (ev_files e f) \<noteq> TYPE_NOSOCK" "fds f < n" "\<not> seekable (fds f)"
    using fo fd f by (force simp: file_ok_def)
  then show ?thesis
  proof cases
    case ok
    let ?h = "\<lambda>fe. fe\<lparr>f_oper := f_oper fe AND NOT (del_bit d), f_type := TYPE_SOCK\<rparr>"
    let ?g = "\<lambda>fe. set_proc d (Some p) (fe\<lparr>f_oper := f_oper fe OR add_bit d\<rparr>)"
    let ?e2 = "upd_file f ?h e"
    show ?thesis
    proof (cases "has (f_mask (ev_files e f)) (ev_bit d) \<and> \<not> nio_event_isset_oneshot e")
      case True
      let ?e' = "upd_file f (set_proc d (Some p)) ?e1"
      have "event_add d seekable ops f p e = Some (?e', 1)"
        using ok True fd f n by (simp add: event_add_def nio_event_isset_oneshot_def)
      moreover have "inv F ?e'" using inv1 by (rule inv_upd) simp_all
      moreover have "loop_rel seekable F ?e' q (w(f := (w f)(d := Some p)))"
        unfolding upd_file_twice
        by (rule loop_rel_upd [OF r f]) (use file_keep [OF fo fw] True n in simp_all)
      ultimately show ?thesis using ok fd n by (auto simp: loop_def)
    next
      case False
      have sock: "(if f_type (ev_files ?e1 f) = TYPE_NONE then upd_file f (\<lambda>fe. fe\<lparr>f_type := TYPE_SOCK\<rparr>) ?e1 else ?e1) = ?e2"
        using ok fo by (auto simp: upd_file_twice file_ok_def upd_file_def fun_eq_iff)
      have inv2: "inv F ?e2" using inv by (rule inv_upd) simp_all
      have q2: "queue_ok F ?e2 q" using q queue_cong [of ?e2 e] by simp
      have other: "file_ok seekable (ev_setsize ?e2) (direct ?e2) b (ev_files ?e2 g) \<and> file_wants (w g) (ev_files ?e2 g)"
        if "g \<in> F" "g \<noteq> f" "b = (g \<in> set q)" for g b
        using r that by (auto simp: loop_rel_def direct_def)
      have run: "event_add d seekable ops f p e =
          Option.bind (if direct ?e2 then map_option fst (op_add ops d f ?e2)
             else if r_parent (ev_rings ?e2) f = f then Some (enqueue f ?e2) else Some ?e2)
           (\<lambda>e. Some (upd_file f ?g e, 1))"
        unfolding event_add_def Let_def sock using ok False fd f n by (auto simp: nio_event_isset_oneshot_def direct_def)
      show ?thesis
      proof (cases "direct e")
        case True
        have sk: "\<not> seekable (f_fd (ev_files ?e2 f))" using ok fd f by simp
        obtain e3 where e3: "op_add ops d f ?e2 = Some (e3, 0)" "inv F e3"
          "remasked F f (\<lambda>d'. d' = d \<or> has (f_mask (ev_files ?e2 f)) (ev_bit d')) ?e2 e3"
          using add_ok [OF inv2 f sk] by blast
        note rf = remasked_file [OF e3(3) f]
        have "loop_rel seekable F (upd_file f ?g e3) q (w(f := (w f)(d := Some p)))"
        proof (rule loop_relI)
          show "queue_ok F (upd_file f ?g e3) q"
            using remasked_queue [OF q2 e3(3)] queue_cong [of "upd_file f ?g e3" e3] by simp
          show "file_ok seekable (ev_setsize (upd_file f ?g e3)) (direct (upd_file f ?g e3)) (f \<in> set q) (ev_files (upd_file f ?g e3) f)"
            "file_wants ((w f)(d := Some p)) (ev_files (upd_file f ?g e3) f)"
            using file_add [OF fo fw, of "ev_files e3 f" d "f \<in> set q" p] rf ok True fd f n
            by (auto simp: direct_def)
        qed (use remasked_other [OF other e3(3)] in \<open>simp add: direct_def\<close>)
        moreover have "inv F (upd_file f ?g e3)" using e3(2) by (rule inv_upd) simp_all
        moreover have "\<forall>g \<in> F. f_fd (ev_files (upd_file f ?g e3) g) = fds g"
          using fd remasked_fd [OF e3(3)] by auto
        moreover have "event_add d seekable ops f p e = Some (upd_file f ?g e3, 1)"
          using True e3(1) unfolding run by (simp add: direct_def)
        ultimately show ?thesis using ok n rf by (auto simp: loop_def)
      next
        case False
        let ?e3 = "if r_parent (ev_rings e) f = f then enqueue f ?e2 else ?e2"
        let ?q = "if r_parent (ev_rings e) f = f then q @ [f] else q"
        have q3: "queue_ok F ?e3 ?q" "f \<in> set ?q" "\<And>g. g \<noteq> f \<Longrightarrow> g \<in> set ?q \<longleftrightarrow> g \<in> set q"
          using queue_enqueue [OF q2 f] q2 queued_iff [OF q f] False by (auto simp: direct_def)
        have "loop_rel seekable F (upd_file f ?g ?e3) ?q (w(f := (w f)(d := Some p)))"
        proof (rule loop_relI)
          show "queue_ok F (upd_file f ?g ?e3) ?q"
            using q3(1) by (simp only: queue_cong [of "upd_file f ?g ?e3" ?e3, OF upd_file_fields(2,3,4)])
          show "file_ok seekable (ev_setsize (upd_file f ?g ?e3)) (direct (upd_file f ?g ?e3)) (f \<in> set ?q) (ev_files (upd_file f ?g ?e3) f)"
            "file_wants ((w f)(d := Some p)) (ev_files (upd_file f ?g ?e3) f)"
            using file_add [OF fo fw, of "?h (ev_files e f)" d "f \<in> set ?q" p] q3(2) ok fd f n
            by (auto simp: direct_def)
        qed (use other q3(3) in \<open>auto simp: direct_def\<close>)
        moreover have "inv F (upd_file f ?g ?e3)"
          by (rule inv_upd) (use inv2 inv_enqueue [OF inv2] in simp_all)
        moreover have "event_add d seekable ops f p e = Some (upd_file f ?g ?e3, 1)"
          using False unfolding run by (simp add: direct_def)
        ultimately show ?thesis using ok fd n by (auto simp: loop_def)
      qed
    qed
  next
    case new_nosock
    then have m: "\<not> has (f_mask (ev_files e f)) (ev_bit d')" "\<not> has (f_oper (ev_files e f)) (add_bit d')"
      "\<not> has (f_oper (ev_files e f)) (del_bit d')" for d' using fo by (auto simp: file_ok_def)
    let ?e2 = "upd_file f (\<lambda>fe. fe\<lparr>f_type := TYPE_NOSOCK\<rparr>) ?e1"
    have "event_add d seekable ops f p e = Some (?e2, 0)"
      using new_nosock m fd f n by (simp add: event_add_def)
    moreover have "inv F ?e2" using inv1 by (rule inv_upd) simp_all
    moreover have "loop_rel seekable F ?e2 q (w(f := w f))"
      unfolding upd_file_twice
      by (rule loop_rel_upd [OF r f])
         (use m fw fo new_nosock fd f n in \<open>auto simp: file_ok_def file_wants_def asks_def\<close>)
    ultimately show ?thesis using new_nosock fd n by (auto simp: loop_def)
  next
    case nosock
    then have "seekable (fds f)" using fo fd f by (auto simp: file_ok_def)
    with nosock l show ?thesis by (simp add: event_add_def)
  qed (use l fd f n in \<open>auto simp: event_add_def\<close>)
qed

lemma del_step:
  assumes l: "loop F fds n e w" and f: "f \<in> F"
  shows "\<exists>e'. event_del d ops f e = Some e' \<and> loop F fds n e' (w(f := (w f)(d := None)))"
proof -
  obtain q where inv: "inv F e" and r: "loop_rel seekable F e q w" and fd: "\<forall>g \<in> F. f_fd (ev_files e g) = fds g"
    and n: "ev_setsize e = n" using l by (auto simp: loop_def)
  have q: "queue_ok F e q" and fo: "file_ok seekable n (direct e) (f \<in> set q) (ev_files e f)"
    and fw: "file_wants (w f) (ev_files e f)" using r f n by (auto simp: loop_rel_def)
  let ?e1 = "upd_file f (\<lambda>fe. fe\<lparr>f_oper := f_oper fe AND NOT (add_bit d)\<rparr>) e"
  let ?g = "\<lambda>fe. set_proc d None (fe\<lparr>f_oper := f_oper fe OR del_bit d\<rparr>)"
  have inv1: "inv F ?e1" using inv by (rule inv_upd) simp_all
  have q1: "queue_ok F ?e1 q" using q queue_cong [of ?e1 e] by simp
  have other: "file_ok seekable (ev_setsize ?e1) (direct ?e1) b (ev_files ?e1 g) \<and> file_wants (w g) (ev_files ?e1 g)"
    if "g \<in> F" "g \<noteq> f" "b = (g \<in> set q)" for g b
    using r that by (auto simp: loop_rel_def direct_def)
  show ?thesis
  proof (cases "has (f_mask (ev_files e f)) (ev_bit d)")
    case False
    let ?e' = "upd_file f (set_proc d None) ?e1"
    have "event_del d ops f e = Some ?e'" using False by (simp add: event_del_def)
    moreover have "inv F ?e'" using inv1 by (rule inv_upd) simp_all
    moreover have "loop_rel seekable F ?e' q (w(f := (w f)(d := None)))"
      unfolding upd_file_twice
      by (rule loop_rel_upd [OF r f])
         (use file_clear_add [OF fo, of d] False fw n in \<open>auto simp: file_ok_def file_wants_def asks_def\<close>)
    ultimately show ?thesis using fd n by (auto simp: loop_def)
  next
    case True
    show ?thesis
    proof (cases "direct e")
      case dir: True
      have m: "has (f_mask (ev_files ?e1 f)) (ev_bit d)" using True by simp
      obtain e3 where e3: "op_del ops d f ?e1 = Some (e3, 0)" "inv F e3"
        "remasked F f (\<lambda>d'. d' \<noteq> d \<and> has (f_mask (ev_files ?e1 f)) (ev_bit d')) ?e1 e3"
        using del_ok [OF inv1 f m] by blast
      note rf = remasked_file [OF e3(3) f]
      have nq: "f \<notin> set q" using q dir by (simp add: queue_ok_def)
      let ?e' = "upd_file f (set_proc d None) e3"
      have "loop_rel seekable F ?e' q (w(f := (w f)(d := None)))"
      proof (rule loop_relI)
        show "queue_ok F ?e' q" using remasked_queue [OF q1 e3(3)] queue_cong [of ?e' e3] by simp
        show "file_ok seekable (ev_setsize ?e') (direct ?e') (f \<in> set q) (ev_files ?e' f)"
          "file_wants ((w f)(d := None)) (ev_files ?e' f)"
          using fo fw rf dir nq n by (auto simp: file_ok_def file_wants_def asks_def direct_def)
      qed (use remasked_other [OF other e3(3)] in \<open>simp add: direct_def\<close>)
      moreover have "inv F ?e'" using e3(2) by (rule inv_upd) simp_all
      moreover have "event_del d ops f e = Some ?e'"
        using True dir e3(1) by (simp add: event_del_def direct_def)
      ultimately show ?thesis using fd remasked_fd [OF e3(3)] n rf by (auto simp: loop_def)
    next
      case False
      let ?e3 = "if r_parent (ev_rings e) f = f then enqueue f ?e1 else ?e1"
      let ?q = "if r_parent (ev_rings e) f = f then q @ [f] else q"
      have q3: "queue_ok F ?e3 ?q" "f \<in> set ?q" "\<And>g. g \<noteq> f \<Longrightarrow> g \<in> set ?q \<longleftrightarrow> g \<in> set q"
        using queue_enqueue [OF q1 f] q1 queued_iff [OF q f] False by (auto simp: direct_def)
      let ?e' = "upd_file f ?g ?e3"
      have "loop_rel seekable F ?e' ?q (w(f := (w f)(d := None)))"
      proof (rule loop_relI)
        show "queue_ok F ?e' ?q"
          using q3(1) by (simp only: queue_cong [of ?e' ?e3, OF upd_file_fields(2,3,4)])
        show "file_ok seekable (ev_setsize ?e') (direct ?e') (f \<in> set ?q) (ev_files ?e' f)"
          "file_wants ((w f)(d := None)) (ev_files ?e' f)"
          using fo fw q3(2) True n by (auto simp: file_ok_def file_wants_def asks_def direct_def)
      qed (use other q3(3) in \<open>auto simp: direct_def\<close>)
      moreover have "inv F ?e'" by (rule inv_upd) (use inv1 inv_enqueue [OF inv1] in simp_all)
      moreover have "event_del d ops f e = Some ?e'"
        using True False by (simp add: event_del_def direct_def upd_file_twice)
      ultimately show ?thesis using fd n by (auto simp: loop_def)
    qed
  qed
qed

text \<open>A call of the poller that is made only if a bit is set.\<close>

lemma del_when:
  assumes "inv F e" "f \<in> F" "c \<longrightarrow> has (f_mask (ev_files e f)) (ev_bit d)"
  shows "\<exists>e'. (if c then map_option fst (op_del ops d f e) else Some e) = Some e' \<and> inv F e' \<and>
    remasked F f (\<lambda>d'. \<not> (c \<and> d' = d) \<and> has (f_mask (ev_files e f)) (ev_bit d')) e e'"
proof (cases c)
  case True
  with del_ok [OF assms(1,2), of d] assms(3) show ?thesis by auto
qed (use assms(1) remasked_refl in simp)

lemma add_when:
  assumes "inv F e" "f \<in> F" "c \<longrightarrow> \<not> seekable (f_fd (ev_files e f))"
  shows "\<exists>e'. (if c then map_option fst (op_add ops d f e) else Some e) = Some e' \<and> inv F e' \<and>
    remasked F f (\<lambda>d'. c \<and> d' = d \<or> has (f_mask (ev_files e f)) (ev_bit d')) e e'"
proof (cases c)
  case True
  with add_ok [OF assms(1,2), of d] assms(3) show ?thesis by auto
qed (use assms(1) remasked_refl in simp)

text \<open>The descriptor is taken off the ring and its requests are forgotten, once they are in the mask.\<close>

definition finish :: "nat \<Rightarrow> ('p, 'k) nio_event \<Rightarrow> ('p, 'k) nio_event" where
  "finish f e = upd_file f (\<lambda>fe. fe\<lparr>f_oper := 0\<rparr>) (e\<lparr>ev_rings := nio_ring_detach f (ev_rings e)\<rparr>)"

lemma finish_step:
  assumes r: "loop_rel seekable F e q w" and f: "f \<in> F" and inv: "inv F e1" and m: "remasked F f P e e1"
    and w': "\<And>d. (w' d \<noteq> None) = P d" "\<And>d p. w' d = Some p \<Longrightarrow> proc_of d (ev_files e f) = Some p"
    and sock: "\<And>d. P d \<Longrightarrow> f_type (ev_files e f) = TYPE_SOCK"
  shows "inv F (finish f e1) \<and> loop_rel seekable F (finish f e1) (remove1 f q) (w(f := w'))"
proof
  show "inv F (finish f e1)" unfolding finish_def by (rule inv_upd) (use inv_rings [OF inv] in simp_all)
  have q: "queue_ok F e q" and fo: "file_ok seekable (ev_setsize e) (direct e) (f \<in> set q) (ev_files e f)"
    using r f by (auto simp: loop_rel_def)
  have d: "distinct q" using q by (simp add: queue_ok_def ring_list_def)
  note rf = remasked_file [OF m f]
  have other: "file_ok seekable (ev_setsize e) (direct e) b (ev_files e g) \<and> file_wants (w g) (ev_files e g)"
    if "g \<in> F" "g \<noteq> f" "b = (g \<in> set q)" for g b
    using r that by (auto simp: loop_rel_def)
  show "loop_rel seekable F (finish f e1) (remove1 f q) (w(f := w'))"
  proof (rule loop_relI)
    show "queue_ok F (finish f e1) (remove1 f q)"
      using queue_detach [OF remasked_queue [OF q m] f]
      by (simp only: finish_def queue_cong [of "upd_file f g e'" e' for g e', OF upd_file_fields(2,3,4)])
    show "file_ok seekable (ev_setsize (finish f e1)) (direct (finish f e1)) (f \<in> set (remove1 f q)) (ev_files (finish f e1) f)"
      using fo rf sock by (auto simp: finish_def file_ok_def)
    show "file_wants w' (ev_files (finish f e1) f)"
      using rf w' by (auto simp: finish_def file_wants_def asks_def)
  qed (use remasked_other [OF other m] d in \<open>auto simp: finish_def direct_def\<close>)
qed

lemma finish_if:
  "finish f e = upd_file f (\<lambda>fe. fe\<lparr>f_oper := 0\<rparr>) (if r_parent (ev_rings e) f \<noteq> f then e\<lparr>ev_rings := nio_ring_detach f (ev_rings e)\<rparr> else e)"
  by (simp add: finish_def detach_alone)

lemma finish_fields: "f_fd (ev_files (finish f e) g) = f_fd (ev_files e g)" "ev_setsize (finish f e) = ev_setsize e"
  by (simp_all add: finish_def)

lemma del_both_step:
  assumes l: "loop F fds n e w" and f: "f \<in> F"
  shows "\<exists>e'. nio_event_del_readwrite ops f e = Some e' \<and> loop F fds n e' (w(f := (\<lambda>d. None)))"
proof -
  obtain q where inv: "inv F e" and r: "loop_rel seekable F e q w" and fd: "\<forall>g \<in> F. f_fd (ev_files e g) = fds g"
    and n: "ev_setsize e = n" using l by (auto simp: loop_def)
  have q: "queue_ok F e q" using r by (simp add: loop_rel_def)
  let ?del = "case op_del_readwrite ops of
          Some del \<Rightarrow> if f_mask (ev_files e f) AND (NIO_EVENT_READ OR NIO_EVENT_WRITE) \<noteq> 0
            then map_option fst (del f e) else Some e
        | None \<Rightarrow> Option.bind
              (if f_mask (ev_files e f) AND NIO_EVENT_READ \<noteq> 0 then map_option fst (op_del_read ops f e) else Some e)
              (\<lambda>e. if f_mask (ev_files e f) AND NIO_EVENT_WRITE \<noteq> 0 then map_option fst (op_del_write ops f e) else Some e)"
  have "\<exists>e1. ?del = Some e1 \<and> inv F e1 \<and> remasked F f (\<lambda>d. False) e e1"
  proof (cases "op_del_readwrite ops")
    case None
    obtain e1 where e1: "(if has (f_mask (ev_files e f)) NIO_EVENT_READ then map_option fst (op_del_read ops f e) else Some e) = Some e1"
      "inv F e1" "remasked F f (\<lambda>d'. \<not> (has (f_mask (ev_files e f)) NIO_EVENT_READ \<and> d' = Reading) \<and>
        has (f_mask (ev_files e f)) (ev_bit d')) e e1"
      using del_when [OF inv f, of "has (f_mask (ev_files e f)) NIO_EVENT_READ" Reading]
      unfolding op_del.simps ev_bit.simps by blast
    obtain e2 where e2: "(if has (f_mask (ev_files e1 f)) NIO_EVENT_WRITE then map_option fst (op_del_write ops f e1) else Some e1) = Some e2"
      "inv F e2" "remasked F f (\<lambda>d'. \<not> (has (f_mask (ev_files e1 f)) NIO_EVENT_WRITE \<and> d' = Writing) \<and>
        has (f_mask (ev_files e1 f)) (ev_bit d')) e1 e2"
      using del_when [OF e1(2) f, of "has (f_mask (ev_files e1 f)) NIO_EVENT_WRITE" Writing]
      unfolding op_del.simps ev_bit.simps by blast
    have "(\<lambda>d'. \<not> (has (f_mask (ev_files e1 f)) NIO_EVENT_WRITE \<and> d' = Writing) \<and> has (f_mask (ev_files e1 f)) (ev_bit d')) =
        (\<lambda>d'. False)"
    proof
      show "(\<not> (has (f_mask (ev_files e1 f)) NIO_EVENT_WRITE \<and> d' = Writing) \<and> has (f_mask (ev_files e1 f)) (ev_bit d')) = False" for d'
        using remasked_file(5) [OF e1(3) f, of d'] by (cases d') auto
    qed
    from remasked_trans [OF e1(3) e2(3) [unfolded this]] e1(1) e2(1,2) None show ?thesis by (simp add: has_def)
  next
    case (Some del)
    show ?thesis
    proof (cases "\<exists>d. has (f_mask (ev_files e f)) (ev_bit d)")
      case True
      then obtain d where d: "has (f_mask (ev_files e f)) (ev_bit d)" by blast
      with del_both_ok [OF Some inv f d] Some show ?thesis by (auto simp: has_both)
    next
      case False
      with remasked_refl [of F f e] inv Some show ?thesis by (simp add: has_both)
    qed
  qed
  then obtain e1 where e1: "?del = Some e1" "inv F e1" "remasked F f (\<lambda>d. False) e e1" by blast
  have step: "inv F (finish f e1) \<and> loop_rel seekable F (finish f e1) (remove1 f q) (w(f := (\<lambda>d. None)))"
    by (rule finish_step [OF r f e1(2,3)]) simp_all
  obtain k where flushed: "(case op_event_fflush ops of Some fflush \<Rightarrow> map_option fst (fflush (finish f e1)) | None \<Rightarrow> Some (finish f e1)) =
      Some ((finish f e1)\<lparr>ev_poller := k\<rparr>)" "inv F ((finish f e1)\<lparr>ev_poller := k\<rparr>)"
  proof (cases "op_event_fflush ops")
    case None
    with step that [of "ev_poller (finish f e1)"] show ?thesis by simp
  next
    case (Some fflush)
    with fflush_ok [OF Some conjunct1 [OF step]] that show ?thesis by auto
  qed
  have "nio_event_del_readwrite ops f e = Some ((finish f e1)\<lparr>ev_poller := k\<rparr>)"
    using flushed(1) unfolding nio_event_del_readwrite_def e1(1) finish_if by (simp add: Let_def)
  moreover have "loop_rel seekable F ((finish f e1)\<lparr>ev_poller := k\<rparr>) (remove1 f q) (w(f := (\<lambda>d. None)))"
    using step by (simp add: loop_rel_poller)
  ultimately show ?thesis
    using flushed(2) fd n remasked_fd [OF e1(3)] remasked_file(7) [OF e1(3) f] by (auto simp: loop_def finish_fields)
qed

lemma when_oper_if: "when_oper b f op e = (if has (f_oper (ev_files e f)) b then map_option fst (op f e) else Some e)"
  by (simp add: when_oper_def has_def)

lemma prepare_step:
  assumes inv: "inv F e" and r: "loop_rel seekable F e (f # q) w"
  shows "\<exists>e'. prepare_file ops f e = Some e' \<and> inv F e' \<and> loop_rel seekable F e' q w \<and>
    (\<forall>g \<in> F. f_fd (ev_files e' g) = f_fd (ev_files e g)) \<and> ev_setsize e' = ev_setsize e"
proof -
  let ?o = "f_oper (ev_files e f)" and ?m = "f_mask (ev_files e f)"
  have f: "f \<in> F" and q: "queue_ok F e (f # q)" using r by (auto simp: loop_rel_def queue_ok_def)
  have fo: "file_ok seekable (ev_setsize e) (direct e) True (ev_files e f)" and fw: "file_wants (w f) (ev_files e f)"
    using r f by (auto simp: loop_rel_def)
  obtain e1 where e1: "(if has ?o (del_bit Reading) then map_option fst (op_del ops Reading f e) else Some e) = Some e1"
    "inv F e1" "remasked F f (\<lambda>d'. \<not> (has ?o (del_bit Reading) \<and> d' = Reading) \<and> has ?m (ev_bit d')) e e1"
    using del_when [OF inv f, of "has ?o (del_bit Reading)" Reading] fo unfolding file_ok_def by blast
  note m1 = remasked_file [OF e1(3) f]
  have "has ?o (del_bit Writing) \<longrightarrow> has (f_mask (ev_files e1 f)) (ev_bit Writing)"
    using fo m1(5) [of Writing] unfolding file_ok_def by blast
  then obtain e2 where e2: "(if has ?o (del_bit Writing) then map_option fst (op_del ops Writing f e1) else Some e1) = Some e2"
    "inv F e2" "remasked F f (\<lambda>d'. \<not> (has ?o (del_bit Writing) \<and> d' = Writing) \<and> has (f_mask (ev_files e1 f)) (ev_bit d')) e1 e2"
    using del_when [OF e1(2) f, of "has ?o (del_bit Writing)" Writing] by blast
  note r2 = remasked_trans [OF e1(3) e2(3)]
  note m2 = remasked_file [OF r2 f]
  have sk: "has ?o (add_bit d) \<longrightarrow> \<not> seekable (f_fd (ev_files e f))" for d
    using fo unfolding file_ok_def by blast
  have "has ?o (add_bit Reading) \<longrightarrow> \<not> seekable (f_fd (ev_files e2 f))" using sk [of Reading] m2(1) by simp
  then obtain e3 where e3: "(if has ?o (add_bit Reading) then map_option fst (op_add ops Reading f e2) else Some e2) = Some e3"
    "inv F e3" "remasked F f (\<lambda>d'. has ?o (add_bit Reading) \<and> d' = Reading \<or> has (f_mask (ev_files e2 f)) (ev_bit d')) e2 e3"
    using add_when [OF e2(2) f, of "has ?o (add_bit Reading)" Reading] by blast
  note r3 = remasked_trans [OF r2 e3(3)]
  note m3 = remasked_file [OF r3 f]
  have "has ?o (add_bit Writing) \<longrightarrow> \<not> seekable (f_fd (ev_files e3 f))" using sk [of Writing] m3(1) by simp
  then obtain e4 where e4: "(if has ?o (add_bit Writing) then map_option fst (op_add ops Writing f e3) else Some e3) = Some e4"
    "inv F e4" "remasked F f (\<lambda>d'. has ?o (add_bit Writing) \<and> d' = Writing \<or> has (f_mask (ev_files e3 f)) (ev_bit d')) e3 e4"
    using add_when [OF e3(2) f, of "has ?o (add_bit Writing)" Writing] by blast
  note r4 = remasked_trans [OF r3 e4(3)]
  note m4 = remasked_file [OF r4 f]
  have mask: "(has ?o (add_bit Writing) \<and> d = Writing \<or> has (f_mask (ev_files e3 f)) (ev_bit d)) = asks (ev_files e f) d" for d
    using m1(5) [of d] m2(5) [of d] m3(5) [of d] by (cases d) (auto simp: asks_def simp del: add_bit.simps del_bit.simps ev_bit.simps)
  have "when_oper NIO_EVENT_DEL_READ f (op_del_read ops) e = Some e1" "when_oper NIO_EVENT_DEL_WRITE f (op_del_write ops) e1 = Some e2"
    "when_oper NIO_EVENT_ADD_READ f (op_add_read ops) e2 = Some e3" "when_oper NIO_EVENT_ADD_WRITE f (op_add_write ops) e3 = Some e4"
    unfolding when_oper_if m1(3) m2(3) m3(3)
    using e1(1) e2(1) e3(1) e4(1) by (simp_all only: op_add.simps op_del.simps add_bit.simps del_bit.simps)
  then have run: "prepare_file ops f e = Some (finish f e4)" by (simp add: prepare_file_def finish_def)
  have "inv F (finish f e4) \<and> loop_rel seekable F (finish f e4) (remove1 f (f # q)) (w(f := w f))"
  proof (rule finish_step [OF r f e4(2) r4])
    show "(w f d \<noteq> None) = (has ?o (add_bit Writing) \<and> d = Writing \<or> has (f_mask (ev_files e3 f)) (ev_bit d))" for d
      using fw unfolding mask file_wants_def by blast
    show "w f d = Some p \<Longrightarrow> proc_of d (ev_files e f) = Some p" for d p using fw unfolding file_wants_def by blast
    show "has ?o (add_bit Writing) \<and> d = Writing \<or> has (f_mask (ev_files e3 f)) (ev_bit d) \<Longrightarrow> f_type (ev_files e f) = TYPE_SOCK" for d
      unfolding mask using fo by (auto simp: asks_def file_ok_def)
  qed
  with run remasked_fd [OF r4] m4(7) show ?thesis by (simp add: finish_fields)
qed

text \<open>All requests are handed on: the loop ends with nothing queued.\<close>

lemma prepare_all:
  assumes l: "loop F fds n e w"
  shows "\<exists>e'. nio_event_prepare ops e = Some e' \<and> loop F fds n e' w \<and>
    (\<forall>f \<in> F. \<forall>d. watch e' f d = (w f d \<noteq> None) \<and> (\<forall>p. w f d = Some p \<longrightarrow> proc_of d (ev_files e' f) = Some p))"
proof -
  define I where "I e q \<longleftrightarrow> inv F e \<and> loop_rel seekable F e q w \<and> (\<forall>f \<in> F. f_fd (ev_files e f) = fds f) \<and> ev_setsize e = n" for e q
  obtain q where q: "I e q" using l by (auto simp: loop_def I_def)
  have "\<exists>e'. drain (\<lambda>e. nio_ring_first (ev_events e) (ev_rings e)) (prepare_file ops) e = Some e' \<and> I e' []"
  proof (rule ring.drain_invariant [where I = I and mem = ev_rings and head = ev_events, OF q])
    show "I e q \<Longrightarrow> ring_list (ev_rings e) (ev_events e) q" for e q
      by (simp add: I_def loop_rel_def queue_ok_def)
    show "I e (f # q) \<Longrightarrow> \<exists>e'. prepare_file ops f e = Some e' \<and> I e' q" for f q e
      using prepare_step [of F e f q w] unfolding I_def by fastforce
  qed
  then obtain e1 where e1: "drain (\<lambda>e. nio_ring_first (ev_events e) (ev_rings e)) (prepare_file ops) e = Some e1" "I e1 []"
    by blast
  let ?e = "e1\<lparr>ev_rings := nio_ring_init (ev_events e1) (ev_rings e1)\<rparr>"
  have r1: "loop_rel seekable F e1 [] w" using e1(2) by (simp add: I_def)
  then have q1: "queue_ok F e1 []" by (simp add: loop_rel_def)
  have "queue_ok F ?e []"
  proof -
    have "r_parent (nio_ring_init (ev_events e1) (ev_rings e1)) f = f" if "f \<in> F" for f
      using q1 that by (simp add: queue_ok_def nio_ring_init_def ring_set_defs)
    moreover have "ev_events e1 \<noteq> 0" using q1 by (simp add: queue_ok_def ring_list_def)
    ultimately show ?thesis using q1 by (simp add: queue_ok_def ring_list_init)
  qed
  with r1 have r2: "loop_rel seekable F ?e [] w" by (simp add: loop_rel_def direct_def)
  have inv: "inv F ?e" using e1(2) inv_rings by (simp add: I_def)
  have "watch ?e f d = (w f d \<noteq> None) \<and> (\<forall>p. w f d = Some p \<longrightarrow> proc_of d (ev_files ?e f) = Some p)" if f: "f \<in> F" for f d
  proof -
    have fo: "file_ok seekable (ev_setsize e1) (direct e1) False (ev_files e1 f)" and fw: "file_wants (w f) (ev_files e1 f)"
      using r1 f by (auto simp: loop_rel_def)
    have "asks (ev_files e1 f) d \<longleftrightarrow> has (f_mask (ev_files e1 f)) (ev_bit d)"
      using fo by (auto simp: asks_def file_ok_def)
    with fw watch_mask [OF inv f, of d] show ?thesis by (simp add: file_wants_def)
  qed
  moreover have "loop F fds n ?e w" using inv r2 e1(2) by (auto simp: loop_def I_def)
  moreover have "nio_event_prepare ops e = Some ?e" using e1(1) by (simp add: nio_event_prepare_def)
  ultimately show ?thesis by blast
qed

text \<open>The loop starts with no requests.\<close>

lemma opened_loop:
  assumes "ev_events e \<noteq> 0" "ev_events e \<notin> set fs" "0 \<notin> set fs"
    "inv (set fs) (open_files fds fs (nio_event_setup n flags e))"
  shows "loop (set fs) fds n (open_files fds fs (nio_event_setup n flags e)) (\<lambda>_ _. None)"
proof -
  let ?e = "open_files fds fs (nio_event_setup n flags e)"
  have "ring_list (ev_rings ?e) (ev_events e) []"
    using open_files_ring [of "ev_events e" fs "nio_event_setup n flags e"] ring_list_init [OF assms(1)] assms(2)
    by (simp add: nio_event_setup_def)
  then have "loop_rel seekable (set fs) ?e [] (\<lambda>_ _. None)"
    using assms(2,3) open_files_file [of _ fs fds "nio_event_setup n flags e"]
    by (auto simp: loop_rel_def queue_ok_def file_ok_def file_wants_def asks_def nio_event_setup_def NIO_EVENT_NONE_def)
  moreover have "ev_setsize ?e = n" by (simp add: nio_event_setup_def)
  ultimately show ?thesis using assms(4) open_files_file [of _ fs fds "nio_event_setup n flags e"] by (auto simp: loop_def)
qed

end

subsection \<open>The calls of the interface\<close>

datatype 'p loop_call = Add direction nat 'p | Del direction nat | Del_Both nat | Prepare

text \<open>\<open>None\<close> is a program that has been aborted, or does not return.\<close>

fun call_loop ::
  "(int \<Rightarrow> bool) \<Rightarrow> ('p, 'k) poller_ops \<Rightarrow> 'p loop_call \<Rightarrow> ('p, 'k) nio_event \<Rightarrow> (('p, 'k) nio_event \<times> int) option" where
  "call_loop sk ops (Add Reading f p) e = nio_event_add_read sk ops f p e"
| "call_loop sk ops (Add Writing f p) e = nio_event_add_write sk ops f p e"
| "call_loop sk ops (Del Reading f) e = map_option (\<lambda>e. (e, 0)) (nio_event_del_read ops f e)"
| "call_loop sk ops (Del Writing f) e = map_option (\<lambda>e. (e, 0)) (nio_event_del_write ops f e)"
| "call_loop sk ops (Del_Both f) e = map_option (\<lambda>e. (e, 0)) (nio_event_del_readwrite ops f e)"
| "call_loop sk ops Prepare e = map_option (\<lambda>e. (e, 0)) (nio_event_prepare ops e)"

definition do_loop ::
  "(int \<Rightarrow> bool) \<Rightarrow> ('p, 'k) poller_ops \<Rightarrow> 'p loop_call \<Rightarrow> ('p, 'k) nio_event option \<Rightarrow> ('p, 'k) nio_event option \<times> int" where
  "do_loop sk ops c s =
     (case Option.bind s (call_loop sk ops c) of Some (e, r) \<Rightarrow> (Some e, r) | None \<Rightarrow> (None, - 1))"

text \<open>
  What the calls ask for: a descriptor that can be seeked, or is beyond the size of the event,
  is refused.
\<close>

fun do_wants :: "(int \<Rightarrow> bool) \<Rightarrow> (nat \<Rightarrow> int) \<Rightarrow> int \<Rightarrow> 'p loop_call \<Rightarrow> 'p wants \<Rightarrow> 'p wants \<times> int" where
  "do_wants sk fds n (Add d f p) w =
     (if \<not> sk (fds f) \<and> fds f < n then (w(f := (w f)(d := Some p)), 1) else (w, 0))"
| "do_wants sk fds n (Del d f) w = (w(f := (w f)(d := None)), 0)"
| "do_wants sk fds n (Del_Both f) w = (w(f := (\<lambda>d. None)), 0)"
| "do_wants sk fds n Prepare w = (w, 0)"

fun call_of :: "nat set \<Rightarrow> 'p loop_call \<Rightarrow> bool" where
  "call_of F (Add d f p) = (f \<in> F)"
| "call_of F (Del d f) = (f \<in> F)"
| "call_of F (Del_Both f) = (f \<in> F)"
| "call_of F Prepare = True"

lemma run_calls_append:
  "run_calls g (cs @ ds) s = (case run_calls g cs s of (s1, rs) \<Rightarrow> case run_calls g ds s1 of (s2, rs') \<Rightarrow> (s2, rs @ rs'))"
  by (induction cs arbitrary: s) (auto split: prod.splits)

context poller
begin

lemma call_step:
  assumes "loop F fds n e w" "call_of F c"
  shows "\<exists>e'. call_loop seekable ops c e = Some (e', snd (do_wants seekable fds n c w)) \<and>
    loop F fds n e' (fst (do_wants seekable fds n c w))"
proof (cases c)
  case (Add d f p)
  with add_step [OF assms(1), of f d p] assms(2) show ?thesis
    by (cases d) (auto simp: event_add_eq split: if_splits)
next
  case (Del d f)
  with del_step [OF assms(1), of f d] assms(2) show ?thesis by (cases d) (auto simp: event_del_eq)
next
  case (Del_Both f)
  with del_both_step [OF assms(1), of f] assms(2) show ?thesis by auto
next
  case Prepare
  with prepare_all [OF assms(1)] show ?thesis by auto
qed

text \<open>After any calls and a last \<open>prepare\<close>, the poller watches what was asked for.\<close>

lemma calls_watched:
  assumes "loop F fds n e w" "list_all (call_of F) cs"
  shows "\<exists>e'. run_calls (do_loop seekable ops) (cs @ [Prepare]) (Some e) =
      (Some e', snd (run_calls (do_wants seekable fds n) (cs @ [Prepare]) w)) \<and>
    inv F e' \<and> (\<forall>f \<in> F. f_fd (ev_files e' f) = fds f) \<and>
    (\<forall>f \<in> F. \<forall>d. watch e' f d = (fst (run_calls (do_wants seekable fds n) cs w) f d \<noteq> None) \<and>
      (\<forall>p. fst (run_calls (do_wants seekable fds n) cs w) f d = Some p \<longrightarrow> proc_of d (ev_files e' f) = Some p))"
proof -
  let ?R = "\<lambda>s w. \<exists>e. s = Some e \<and> loop F fds n e w" and ?g = "do_wants seekable fds n"
  have step: "?R (fst (do_loop seekable ops c s)) (fst (?g c w)) \<and> snd (do_loop seekable ops c s) = snd (?g c w)"
    if "?R s w" "call_of F c" for c s w
    using that call_step [of F fds n _ w c] by (fastforce simp: do_loop_def)
  have "calls_ok (\<lambda>c w. call_of F c) ?g cs w"
    using assms(2) by (induction cs arbitrary: w) auto
  from run_calls_refines [where R = ?R and ok = "\<lambda>c w. call_of F c" and f = "do_loop seekable ops" and g = ?g, OF step _ this, of "Some e"]
    assms(1)
  obtain e1 where e1: "run_calls (do_loop seekable ops) cs (Some e) = (Some e1, snd (run_calls ?g cs w))"
    "loop F fds n e1 (fst (run_calls ?g cs w))" by (metis (no_types, lifting) prod.collapse)
  from prepare_all [OF e1(2)] obtain e' where e': "nio_event_prepare ops e1 = Some e'"
    "loop F fds n e' (fst (run_calls ?g cs w))" "\<forall>f \<in> F. \<forall>d. watch e' f d = (fst (run_calls ?g cs w) f d \<noteq> None) \<and>
      (\<forall>p. fst (run_calls ?g cs w) f d = Some p \<longrightarrow> proc_of d (ev_files e' f) = Some p)" by blast
  have "run_calls (do_loop seekable ops) (cs @ [Prepare]) (Some e) = (Some e', snd (run_calls ?g (cs @ [Prepare]) w))"
    by (simp add: run_calls_append e1(1) e'(1) do_loop_def split_beta)
  with e'(2,3) show ?thesis unfolding loop_def by blast
qed

end

end
