(* ===== verification/Nio_Epoll.thy ===== *)
theory Nio_Epoll
  imports Nio_Loop
begin

text \<open>
  The epoll poller (c/src/events/nio_event_epoll.c): it keeps nothing but the kernel's interest
  list, whose state is \<open>ev_poller\<close>.  The system calls are arguments, and what they are relied on
  to do is \<open>epoll_doc\<close>.
\<close>

subsection \<open>Operations\<close>

definition EPOLLIN :: u32 where "EPOLLIN = 1"
definition EPOLLOUT :: u32 where "EPOLLOUT = 4"
definition EPOLL_ERR :: u32 where "EPOLL_ERR = 0x18"   \<comment> \<open>\<open>EPOLLERR | EPOLLHUP\<close>\<close>
definition EPOLLONESHOT :: u32 where "EPOLLONESHOT = 0x40000000"

datatype epoll_op = EPOLL_CTL_ADD | EPOLL_CTL_DEL | EPOLL_CTL_MOD

text \<open>\<open>struct epoll_event\<close>: the events and the descriptor in \<open>data.ptr\<close>.\<close>

type_synonym epoll_event = "u32 \<times> nat"
type_synonym 'k epoll_ctl = "epoll_op \<Rightarrow> int \<Rightarrow> epoll_event \<Rightarrow> 'k \<Rightarrow> 'k \<times> int"

definition epoll_add_read :: "'k epoll_ctl \<Rightarrow> nat \<Rightarrow> ('p, 'k) nio_event \<Rightarrow> (('p, 'k) nio_event \<times> int) option" where
  "epoll_add_read epoll_ctl f e =
     (let fe = ev_files e f;
          events = EPOLLIN;
          events = (if ev_flags e AND NIO_EVENT_ONESHOT \<noteq> 0 then events OR EPOLLONESHOT else events);
          (events, op, n) =
            (if f_mask fe AND NIO_EVENT_WRITE \<noteq> 0 then (events OR EPOLLOUT, EPOLL_CTL_MOD, 0)
             else if f_mask fe AND NIO_EVENT_READ \<noteq> 0 then (events, EPOLL_CTL_MOD, 0)
             else (events, EPOLL_CTL_ADD, 1));
          (k, ret) = epoll_ctl op (f_fd fe) (events, f) (ev_poller e);
          e = e\<lparr>ev_poller := k\<rparr>
      in if ret = 0
         then Some ((upd_file f (\<lambda>fe. fe\<lparr>f_mask := f_mask fe OR NIO_EVENT_READ\<rparr>) e)\<lparr>ev_fdcount := ev_fdcount e + n\<rparr>, 0)
         else Some (e, - 1))"

definition epoll_add_write :: "'k epoll_ctl \<Rightarrow> nat \<Rightarrow> ('p, 'k) nio_event \<Rightarrow> (('p, 'k) nio_event \<times> int) option" where
  "epoll_add_write epoll_ctl f e =
     (let fe = ev_files e f;
          events = EPOLLOUT;
          (events, op, n) =
            (if f_mask fe AND NIO_EVENT_READ \<noteq> 0 then (events OR EPOLLIN, EPOLL_CTL_MOD, 0)
             else if f_mask fe AND NIO_EVENT_WRITE \<noteq> 0 then (events, EPOLL_CTL_MOD, 0)
             else (events, EPOLL_CTL_ADD, 1));
          (k, ret) = epoll_ctl op (f_fd fe) (events, f) (ev_poller e);
          e = e\<lparr>ev_poller := k\<rparr>
      in if ret = 0
         then Some ((upd_file f (\<lambda>fe. fe\<lparr>f_mask := f_mask fe OR NIO_EVENT_WRITE\<rparr>) e)\<lparr>ev_fdcount := ev_fdcount e + n\<rparr>, 0)
         else Some (e, - 1))"

definition epoll_del_read :: "'k epoll_ctl \<Rightarrow> nat \<Rightarrow> ('p, 'k) nio_event \<Rightarrow> (('p, 'k) nio_event \<times> int) option" where
  "epoll_del_read epoll_ctl f e =
     (let e = upd_file f (\<lambda>fe. fe\<lparr>f_mask := f_mask fe AND NOT NIO_EVENT_READ\<rparr>) e;
          fe = ev_files e f;
          (events, op, n) =
            (if f_mask fe AND NIO_EVENT_WRITE \<noteq> 0
             then (if ev_flags e AND NIO_EVENT_ONESHOT \<noteq> 0 then EPOLLOUT OR EPOLLONESHOT else EPOLLOUT, EPOLL_CTL_MOD, 0)
             else (0, EPOLL_CTL_DEL, - 1));
          (k, ret) = epoll_ctl op (f_fd fe) (events, f) (ev_poller e);
          e = e\<lparr>ev_poller := k\<rparr>
      in if ret = 0 then Some (e\<lparr>ev_fdcount := ev_fdcount e + n\<rparr>, 0) else Some (e, - 1))"

definition epoll_del_write :: "'k epoll_ctl \<Rightarrow> nat \<Rightarrow> ('p, 'k) nio_event \<Rightarrow> (('p, 'k) nio_event \<times> int) option" where
  "epoll_del_write epoll_ctl f e =
     (let e = upd_file f (\<lambda>fe. fe\<lparr>f_mask := f_mask fe AND NOT NIO_EVENT_WRITE\<rparr>) e;
          fe = ev_files e f;
          (events, op, n) =
            (if f_mask fe AND NIO_EVENT_READ \<noteq> 0
             then (if ev_flags e AND NIO_EVENT_ONESHOT \<noteq> 0 then EPOLLIN OR EPOLLONESHOT else EPOLLIN, EPOLL_CTL_MOD, 0)
             else (0, EPOLL_CTL_DEL, - 1));
          (k, ret) = epoll_ctl op (f_fd fe) (events, f) (ev_poller e);
          e = e\<lparr>ev_poller := k\<rparr>
      in if ret = 0 then Some (e\<lparr>ev_fdcount := ev_fdcount e + n\<rparr>, 0) else Some (e, - 1))"

definition epoll_del_readwrite :: "'k epoll_ctl \<Rightarrow> nat \<Rightarrow> ('p, 'k) nio_event \<Rightarrow> (('p, 'k) nio_event \<times> int) option" where
  "epoll_del_readwrite epoll_ctl f e =
     (let e = upd_file f (\<lambda>fe. fe\<lparr>f_mask := NIO_EVENT_NONE\<rparr>) e;
          (k, ret) = epoll_ctl EPOLL_CTL_DEL (f_fd (ev_files e f)) (0, f) (ev_poller e);
          e = e\<lparr>ev_poller := k\<rparr>
      in if ret = 0 then Some (e\<lparr>ev_fdcount := ev_fdcount e - 1\<rparr>, 0) else Some (e, - 1))"

text \<open>
  \<open>epoll_event_wait\<close>: the events that the kernel returns, with the descriptors they were
  registered with.  The two callbacks of a descriptor are looked up before either is run.
\<close>

datatype epoll_result = Epoll_Failed bool | Epolled "epoll_event list"

fun epoll_dispatch ::
  "('p \<Rightarrow> nat \<Rightarrow> ('p, 'k) nio_event \<Rightarrow> ('p, 'k) nio_event option) \<Rightarrow> epoll_event list \<Rightarrow> ('p, 'k) nio_event \<Rightarrow>
     (('p, 'k) nio_event \<times> ('p \<times> nat) list) option" where
  "epoll_dispatch run [] e = Some (e, [])"
| "epoll_dispatch run ((ev, f) # evs) e =
     (if f = 0 then epoll_dispatch run evs e
      else
        let r_proc = f_r_proc (ev_files e f); w_proc = f_w_proc (ev_files e f)
        in Option.bind (run_proc run (ev AND (EPOLLIN OR EPOLL_ERR) \<noteq> 0) r_proc f e) (\<lambda>(e, t1).
           Option.bind (run_proc run (ev AND (EPOLLOUT OR EPOLL_ERR) \<noteq> 0) w_proc f e) (\<lambda>(e, t2).
           map_option (\<lambda>(e, t3). (e, t1 @ t2 @ t3)) (epoll_dispatch run evs e))))"

definition epoll_event_wait ::
  "(int \<Rightarrow> 'k \<Rightarrow> 'k \<times> epoll_result) \<Rightarrow> ('p \<Rightarrow> nat \<Rightarrow> ('p, 'k) nio_event \<Rightarrow> ('p, 'k) nio_event option) \<Rightarrow> int \<Rightarrow>
     ('p, 'k) nio_event \<Rightarrow> (('p, 'k) nio_event \<times> int \<times> ('p \<times> nat) list) option" where
  "epoll_event_wait epoll_wait run timeout e =
     (case epoll_wait timeout (ev_poller e) of
        (k, Epoll_Failed eintr) \<Rightarrow> if eintr then Some (e\<lparr>ev_poller := k\<rparr>, 0, []) else None
      | (k, Epolled evs) \<Rightarrow> map_option (\<lambda>(e, t). (e, int (length evs), t)) (epoll_dispatch run evs (e\<lparr>ev_poller := k\<rparr>)))"

definition epoll_checkfd :: "('p, 'k) poller_ops \<Rightarrow> nat \<Rightarrow> ('p, 'k) nio_event \<Rightarrow> (('p, 'k) nio_event \<times> int) option" where
  "epoll_checkfd ops f e =
     Option.bind (op_add_read ops f e) (\<lambda>(e, r).
       if r = - 1 then Some (e, - 1)
       else Option.bind (op_del_read ops f e) (\<lambda>(e, r). if r = - 1 then Some (e, - 1) else Some (e, 0)))"

definition nio_epoll_create ::
  "'k epoll_ctl \<Rightarrow> (int \<Rightarrow> 'k \<Rightarrow> 'k \<times> epoll_result) \<Rightarrow> ('p \<Rightarrow> nat \<Rightarrow> ('p, 'k) nio_event \<Rightarrow> ('p, 'k) nio_event option) \<Rightarrow>
     ('p, 'k) poller_ops" where
  "nio_epoll_create epoll_ctl epoll_wait run =
     \<lparr>op_add_read = epoll_add_read epoll_ctl, op_add_write = epoll_add_write epoll_ctl,
      op_del_read = epoll_del_read epoll_ctl, op_del_write = epoll_del_write epoll_ctl,
      op_del_readwrite = Some (epoll_del_readwrite epoll_ctl),
      op_event_fflush = None, op_event_wait = epoll_event_wait epoll_wait run\<rparr>"

subsection \<open>The kernel\<close>

text \<open>
  What epoll_ctl(2) documents: \<open>interest\<close> is the kernel's interest list.  A descriptor that is
  not on it can be added if it is none that can be seeked, and one that is on it can be modified
  and deleted; the entry is then what the call says, and no other has changed.
\<close>

definition epoll_doc :: "(int \<Rightarrow> bool) \<Rightarrow> 'k epoll_ctl \<Rightarrow> ('k \<Rightarrow> int \<rightharpoonup> epoll_event) \<Rightarrow> bool" where
  "epoll_doc seekable epoll_ctl interest \<longleftrightarrow> (\<forall>k fd ev.
     (interest k fd = None \<and> \<not> seekable fd \<longrightarrow>
        (\<exists>k'. epoll_ctl EPOLL_CTL_ADD fd ev k = (k', 0) \<and> interest k' = (interest k)(fd \<mapsto> ev))) \<and>
     (interest k fd \<noteq> None \<longrightarrow>
        (\<exists>k'. epoll_ctl EPOLL_CTL_MOD fd ev k = (k', 0) \<and> interest k' = (interest k)(fd \<mapsto> ev)) \<and>
        (\<exists>k'. epoll_ctl EPOLL_CTL_DEL fd ev k = (k', 0) \<and> interest k' = (interest k)(fd := None))))"

fun epoll_bit :: "direction \<Rightarrow> u32" where
  "epoll_bit Reading = EPOLLIN" | "epoll_bit Writing = EPOLLOUT"

lemma has_epoll_bits [simp]: "has (epoll_bit d) (epoll_bit d') \<longleftrightarrow> d = d'" "\<not> has EPOLLONESHOT (epoll_bit d)"
  by (cases d; cases d'; simp add: has_def EPOLLIN_def EPOLLOUT_def EPOLLONESHOT_def)+

definition epoll_watch :: "('k \<Rightarrow> int \<rightharpoonup> epoll_event) \<Rightarrow> ('p, 'k) nio_event \<Rightarrow> nat \<Rightarrow> direction \<Rightarrow> bool" where
  "epoll_watch interest e f d \<longleftrightarrow>
     (case interest (ev_poller e) (f_fd (ev_files e f)) of None \<Rightarrow> False | Some (ev, p) \<Rightarrow> p = f \<and> has ev (epoll_bit d))"

text \<open>The kernel watches the descriptors in use, for the events in their masks, and \<open>fdcount\<close> counts them.\<close>

definition epoll_inv ::
  "(int \<Rightarrow> bool) \<Rightarrow> 'k epoll_ctl \<Rightarrow> ('k \<Rightarrow> int \<rightharpoonup> epoll_event) \<Rightarrow> nat set \<Rightarrow> ('p, 'k) nio_event \<Rightarrow> bool" where
  "epoll_inv seekable epoll_ctl interest F e \<longleftrightarrow>
     epoll_doc seekable epoll_ctl interest \<and> finite F \<and> inj_on (\<lambda>f. f_fd (ev_files e f)) F \<and>
     (\<forall>f \<in> F. case interest (ev_poller e) (f_fd (ev_files e f)) of
        None \<Rightarrow> \<forall>d. \<not> has (f_mask (ev_files e f)) (ev_bit d)
      | Some (ev, p) \<Rightarrow> p = f \<and> (\<exists>d. has (f_mask (ev_files e f)) (ev_bit d)) \<and>
          (\<forall>d. has ev (epoll_bit d) = has (f_mask (ev_files e f)) (ev_bit d))) \<and>
     ev_fdcount e = int (card {f \<in> F. \<exists>d. has (f_mask (ev_files e f)) (ev_bit d)})"

text \<open>Reading and writing alike: the call of the kernel, and the record of it.\<close>

definition epoll_step ::
  "'k epoll_ctl \<Rightarrow> nat \<Rightarrow> byte \<Rightarrow> u32 \<Rightarrow> epoll_op \<Rightarrow> int \<Rightarrow> ('p, 'k) nio_event \<Rightarrow> (('p, 'k) nio_event \<times> int) option" where
  "epoll_step epoll_ctl f m ev op n e =
     (case epoll_ctl op (f_fd (ev_files e f)) (ev, f) (ev_poller e) of (k, ret) \<Rightarrow>
        if ret = 0 then Some ((upd_file f (\<lambda>fe. fe\<lparr>f_mask := m\<rparr>) (e\<lparr>ev_poller := k\<rparr>))\<lparr>ev_fdcount := ev_fdcount e + n\<rparr>, 0)
        else None)"

text \<open>
  One step keeps the invariant: the mask \<open>m\<close> that is recorded is what the kernel is told to
  watch, it is told by the right operation, and \<open>n\<close> is the change of the count.
\<close>

lemma epoll_step_ok:
  assumes inv: "epoll_inv seekable epoll_ctl interest F e" and f: "f \<in> F"
    and op: "op = (if \<exists>d. has m (ev_bit d) then if \<exists>d. has (f_mask (ev_files e f)) (ev_bit d) then EPOLL_CTL_MOD else EPOLL_CTL_ADD
                   else EPOLL_CTL_DEL)"
    and use: "(\<exists>d. has m (ev_bit d)) \<or> (\<exists>d. has (f_mask (ev_files e f)) (ev_bit d))" "op = EPOLL_CTL_ADD \<longrightarrow> \<not> seekable (f_fd (ev_files e f))"
    and ev: "op \<noteq> EPOLL_CTL_DEL \<longrightarrow> (\<forall>d. has ev (epoll_bit d) = has m (ev_bit d))"
    and n: "n = of_bool (op = EPOLL_CTL_ADD) - of_bool (op = EPOLL_CTL_DEL)"
    and P: "\<And>d. has m (ev_bit d) = P d"
  shows "\<exists>e'. epoll_step epoll_ctl f m ev op n e = Some (e', 0) \<and> epoll_inv seekable epoll_ctl interest F e' \<and> remasked F f P e e'"
proof -
  let ?fd = "f_fd (ev_files e f)" and ?old = "\<exists>d. has (f_mask (ev_files e f)) (ev_bit d)" and ?new = "\<exists>d. has m (ev_bit d)"
  let ?used = "{g \<in> F. \<exists>d. has (f_mask (ev_files e g)) (ev_bit d)}"
  have doc: "epoll_doc seekable epoll_ctl interest" and fin: "finite F" and inj: "inj_on (\<lambda>f. f_fd (ev_files e f)) F"
    and cnt: "ev_fdcount e = int (card ?used)"
    and reg: "\<And>g. g \<in> F \<Longrightarrow> case interest (ev_poller e) (f_fd (ev_files e g)) of
        None \<Rightarrow> \<forall>d. \<not> has (f_mask (ev_files e g)) (ev_bit d)
      | Some (ev, p) \<Rightarrow> p = g \<and> (\<exists>d. has (f_mask (ev_files e g)) (ev_bit d)) \<and>
          (\<forall>d. has ev (epoll_bit d) = has (f_mask (ev_files e g)) (ev_bit d))"
    using inv by (simp_all add: epoll_inv_def)
  have here: "interest (ev_poller e) ?fd \<noteq> None \<longleftrightarrow> ?old"
    using reg [OF f] by (auto split: option.splits)
  have "\<exists>k'. epoll_ctl op ?fd (ev, f) (ev_poller e) = (k', 0) \<and>
      interest k' = (interest (ev_poller e))(?fd := if ?new then Some (ev, f) else None)"
  proof (cases ?old)
    case True
    then have "interest (ev_poller e) ?fd \<noteq> None" using here by simp
    with doc True op show ?thesis unfolding epoll_doc_def by (cases ?new) auto
  next
    case False
    then have "interest (ev_poller e) ?fd = None" "op = EPOLL_CTL_ADD" ?new using here op use(1) by (blast, auto)
    with doc use(2) show ?thesis unfolding epoll_doc_def by auto
  qed
  then obtain k' where k': "epoll_ctl op ?fd (ev, f) (ev_poller e) = (k', 0)"
    "interest k' = (interest (ev_poller e))(?fd := if ?new then Some (ev, f) else None)" by blast
  let ?e = "(upd_file f (\<lambda>fe. fe\<lparr>f_mask := m\<rparr>) (e\<lparr>ev_poller := k'\<rparr>))\<lparr>ev_fdcount := ev_fdcount e + n\<rparr>"
  have fds: "f_fd (ev_files ?e g) = f_fd (ev_files e g)" for g by simp
  have "epoll_inv seekable epoll_ctl interest F ?e"
    unfolding epoll_inv_def fds
  proof (intro conjI ballI doc fin inj)
    fix g assume g: "g \<in> F"
    show "case interest (ev_poller ?e) (f_fd (ev_files e g)) of
        None \<Rightarrow> \<forall>d. \<not> has (f_mask (ev_files ?e g)) (ev_bit d)
      | Some (ev, p) \<Rightarrow> p = g \<and> (\<exists>d. has (f_mask (ev_files ?e g)) (ev_bit d)) \<and>
          (\<forall>d. has ev (epoll_bit d) = has (f_mask (ev_files ?e g)) (ev_bit d))"
    proof (cases "g = f")
      case True
      have "op \<noteq> EPOLL_CTL_DEL" if ?new using that op by (auto split: if_splits)
      with True k'(2) ev show ?thesis by (cases ?new) auto
    next
      case False
      then have "f_fd (ev_files e g) \<noteq> ?fd" using inj_onD [OF inj _ g f] by blast
      with False k'(2) have same: "ev_files ?e g = ev_files e g"
        "interest (ev_poller ?e) (f_fd (ev_files e g)) = interest (ev_poller e) (f_fd (ev_files e g))" by simp_all
      show ?thesis unfolding same by (rule reg [OF g])
    qed
  next
    have used': "{g \<in> F. \<exists>d. has (f_mask (ev_files ?e g)) (ev_bit d)} = (if ?new then insert f ?used else ?used - {f})"
      using f by auto
    have "finite ?used" using fin by simp
    then have "int (card (if ?new then insert f ?used else ?used - {f})) = int (card ?used) + n"
    proof (cases ?new)
      case True
      with \<open>finite ?used\<close> f op n show ?thesis by (auto simp: card_insert_if)
    next
      case False
      with f use(1) have "Suc (card (?used - {f})) = card ?used" using \<open>finite ?used\<close> by (intro card_Suc_Diff1) auto
      with False op n show ?thesis by simp
    qed
    then show "ev_fdcount ?e = int (card {g \<in> F. \<exists>d. has (f_mask (ev_files ?e g)) (ev_bit d)})"
      unfolding used' by (simp add: cnt)
  qed
  moreover have "remasked F f P e ?e" using P by (simp add: remasked_def)
  moreover have "epoll_step epoll_ctl f m ev op n e = Some (?e, 0)" using k'(1) by (simp add: epoll_step_def)
  ultimately show ?thesis by blast
qed

subsection \<open>The poller's contract\<close>

definition add_events :: "bool \<Rightarrow> direction \<Rightarrow> byte \<Rightarrow> u32" where
  "add_events oneshot d m =
     (let ev = (if oneshot \<and> d = Reading then epoll_bit d OR EPOLLONESHOT else epoll_bit d)
      in case d of Reading \<Rightarrow> if has m (ev_bit Writing) then ev OR EPOLLOUT else ev
         | Writing \<Rightarrow> if has m (ev_bit Reading) then ev OR EPOLLIN else ev)"

lemma add_events_bits: "has (add_events oneshot d m) (epoll_bit d') \<longleftrightarrow> has (m OR ev_bit d) (ev_bit d')"
proof -
  have b: "\<not> has EPOLLIN EPOLLOUT" "\<not> has EPOLLOUT EPOLLIN" "has EPOLLIN EPOLLIN" "has EPOLLOUT EPOLLOUT"
    "\<not> has EPOLLONESHOT EPOLLIN" "\<not> has EPOLLONESHOT EPOLLOUT" "\<not> has NIO_EVENT_READ NIO_EVENT_WRITE"
    "\<not> has NIO_EVENT_WRITE NIO_EVENT_READ" "has NIO_EVENT_READ NIO_EVENT_READ" "has NIO_EVENT_WRITE NIO_EVENT_WRITE"
    by (simp_all add: has_def nio_consts EPOLLIN_def EPOLLOUT_def EPOLLONESHOT_def)
  show ?thesis by (cases d; cases d') (simp_all add: add_events_def b)
qed

text \<open>When the kernel does as documented, the operations are such steps.\<close>

lemma epoll_add_step:
  assumes "epoll_step epoll_ctl f (f_mask (ev_files e f) OR ev_bit d)
      (add_events (ev_flags e AND NIO_EVENT_ONESHOT \<noteq> 0) d (f_mask (ev_files e f)))
      (if \<exists>d. has (f_mask (ev_files e f)) (ev_bit d) then EPOLL_CTL_MOD else EPOLL_CTL_ADD)
      (of_bool (\<not> (\<exists>d. has (f_mask (ev_files e f)) (ev_bit d)))) e = Some (e', 0)"
  shows "op_add (nio_epoll_create epoll_ctl epoll_wait run) d f e = Some (e', 0)"
proof -
  have any: "(\<exists>d. has m (ev_bit d)) \<longleftrightarrow> m AND NIO_EVENT_READ \<noteq> 0 \<or> m AND NIO_EVENT_WRITE \<noteq> 0" for m
    unfolding has_both [symmetric] by (simp add: bit.conj_disj_distrib or_eq_0_iff)
  show ?thesis using assms [unfolded any]
    by (cases d; cases "f_mask (ev_files e f) AND NIO_EVENT_READ = 0"; cases "f_mask (ev_files e f) AND NIO_EVENT_WRITE = 0")
       (simp_all add: epoll_step_def nio_epoll_create_def epoll_add_read_def epoll_add_write_def add_events_def has_def
          Let_def split_beta upd_file_def split: if_splits)
qed

definition del_events :: "bool \<Rightarrow> direction \<Rightarrow> byte \<Rightarrow> u32" where
  "del_events oneshot d m =
     (if has m (ev_bit (other d)) then if oneshot then epoll_bit (other d) OR EPOLLONESHOT else epoll_bit (other d) else 0)"

lemma del_events_bits:
  "has (del_events oneshot d m) (epoll_bit d') \<longleftrightarrow> has (m AND NOT (ev_bit d)) (ev_bit d')"
proof -
  have b: "\<not> has EPOLLIN EPOLLOUT" "\<not> has EPOLLOUT EPOLLIN" "has EPOLLIN EPOLLIN" "has EPOLLOUT EPOLLOUT"
    "\<not> has EPOLLONESHOT EPOLLIN" "\<not> has EPOLLONESHOT EPOLLOUT" "\<not> has NIO_EVENT_READ NIO_EVENT_WRITE"
    "\<not> has NIO_EVENT_WRITE NIO_EVENT_READ"
    by (simp_all add: has_def nio_consts EPOLLIN_def EPOLLOUT_def EPOLLONESHOT_def)
  show ?thesis by (cases d; cases d') (simp_all add: del_events_def Let_def b)
qed

lemma epoll_del_step:
  assumes "epoll_step epoll_ctl f (f_mask (ev_files e f) AND NOT (ev_bit d))
      (del_events (ev_flags e AND NIO_EVENT_ONESHOT \<noteq> 0) d (f_mask (ev_files e f)))
      (if \<exists>d'. has (f_mask (ev_files e f) AND NOT (ev_bit d)) (ev_bit d') then EPOLL_CTL_MOD else EPOLL_CTL_DEL)
      (- of_bool (\<not> (\<exists>d'. has (f_mask (ev_files e f) AND NOT (ev_bit d)) (ev_bit d')))) e = Some (e', 0)"
  shows "op_del (nio_epoll_create epoll_ctl epoll_wait run) d f e = Some (e', 0)"
proof -
  have b: "\<not> has NIO_EVENT_READ NIO_EVENT_WRITE" "\<not> has NIO_EVENT_WRITE NIO_EVENT_READ" by (simp_all add: has_def nio_consts)
  have any: "(\<exists>d'. has (m AND NOT (ev_bit d)) (ev_bit d')) \<longleftrightarrow>
      has (m AND NOT (ev_bit d)) (ev_bit (other d))" for m
    by (cases d; simp; metis (full_types) direction.exhaust ev_bit.simps has_clear_same)
  have comm: "e\<lparr>ev_files := a, ev_poller := k\<rparr> = e\<lparr>ev_poller := k, ev_files := a\<rparr>" for a k
    by (cases e) simp
  show ?thesis using assms [unfolded any]
    by (cases d; cases "has (f_mask (ev_files e f)) NIO_EVENT_READ"; cases "has (f_mask (ev_files e f)) NIO_EVENT_WRITE")
       (simp_all add: epoll_step_def nio_epoll_create_def epoll_del_read_def epoll_del_write_def del_events_def b
          Let_def split_beta upd_file_def comm has_def [symmetric] split: if_splits)
qed

lemma epoll_del_both_step:
  assumes "epoll_step epoll_ctl f 0 0 EPOLL_CTL_DEL (- 1) e = Some (e', 0)"
  shows "epoll_del_readwrite epoll_ctl f e = Some (e', 0)"
proof -
  have comm: "e\<lparr>ev_files := a, ev_poller := k\<rparr> = e\<lparr>ev_poller := k, ev_files := a\<rparr>" for a k
    by (cases e) simp
  show ?thesis using assms
    by (simp add: epoll_step_def epoll_del_readwrite_def Let_def split_beta upd_file_def comm NIO_EVENT_NONE_def split: if_splits)
qed

interpretation ep: poller seekable "nio_epoll_create epoll_ctl epoll_wait run" "epoll_inv seekable epoll_ctl interest" "epoll_watch interest"
  for seekable and epoll_ctl :: "'k epoll_ctl" and epoll_wait interest and
    run :: "'p \<Rightarrow> nat \<Rightarrow> ('p, 'k) nio_event \<Rightarrow> ('p, 'k) nio_event option"
proof
  fix F and e :: "('p, 'k) nio_event" and f d
  assume inv: "epoll_inv seekable epoll_ctl interest F e" and f: "f \<in> F"
  let ?m = "f_mask (ev_files e f)"
  have "case interest (ev_poller e) (f_fd (ev_files e f)) of None \<Rightarrow> \<forall>d. \<not> has ?m (ev_bit d)
      | Some (ev, p) \<Rightarrow> p = f \<and> (\<exists>d. has ?m (ev_bit d)) \<and> (\<forall>d. has ev (epoll_bit d) = has ?m (ev_bit d))"
    using inv f by (simp add: epoll_inv_def)
  then show "epoll_watch interest e f d \<longleftrightarrow> has ?m (ev_bit d)"
    by (auto simp: epoll_watch_def split: option.splits)
  {
    assume sk: "\<not> seekable (f_fd (ev_files e f))"
    have P: "has (?m OR ev_bit d) (ev_bit d') = (d' = d \<or> has ?m (ev_bit d'))" for d' by auto
    have "\<exists>e'. epoll_step epoll_ctl f (?m OR ev_bit d) (add_events (ev_flags e AND NIO_EVENT_ONESHOT \<noteq> 0) d ?m)
        (if \<exists>d. has ?m (ev_bit d) then EPOLL_CTL_MOD else EPOLL_CTL_ADD)
        (of_bool (\<not> (\<exists>d. has ?m (ev_bit d)))) e = Some (e', 0) \<and> epoll_inv seekable epoll_ctl interest F e' \<and>
        remasked F f (\<lambda>d'. d' = d \<or> has ?m (ev_bit d')) e e'"
      by (rule epoll_step_ok [OF inv f]) (use sk P in \<open>auto simp: add_events_bits\<close>)
    then show "\<exists>e'. op_add (nio_epoll_create epoll_ctl epoll_wait run) d f e = Some (e', 0) \<and>
        epoll_inv seekable epoll_ctl interest F e' \<and> remasked F f (\<lambda>d'. d' = d \<or> has ?m (ev_bit d')) e e'"
      using epoll_add_step by blast
  }
  {
    assume m: "has ?m (ev_bit d)"
    have P: "has (?m AND NOT (ev_bit d)) (ev_bit d') = (d' \<noteq> d \<and> has ?m (ev_bit d'))" for d'
      by (cases "d' = d") simp_all
    have "\<exists>e'. epoll_step epoll_ctl f (?m AND NOT (ev_bit d)) (del_events (ev_flags e AND NIO_EVENT_ONESHOT \<noteq> 0) d ?m)
        (if \<exists>d'. has (?m AND NOT (ev_bit d)) (ev_bit d') then EPOLL_CTL_MOD else EPOLL_CTL_DEL)
        (- of_bool (\<not> (\<exists>d'. has (?m AND NOT (ev_bit d)) (ev_bit d')))) e = Some (e', 0) \<and>
        epoll_inv seekable epoll_ctl interest F e' \<and> remasked F f (\<lambda>d'. d' \<noteq> d \<and> has ?m (ev_bit d')) e e'"
      by (rule epoll_step_ok [OF inv f]) (use m P in \<open>auto simp: del_events_bits\<close>)
    then show "\<exists>e'. op_del (nio_epoll_create epoll_ctl epoll_wait run) d f e = Some (e', 0) \<and>
        epoll_inv seekable epoll_ctl interest F e' \<and> remasked F f (\<lambda>d'. d' \<noteq> d \<and> has ?m (ev_bit d')) e e'"
      using epoll_del_step by blast
    fix del assume "op_del_readwrite (nio_epoll_create epoll_ctl epoll_wait run) = Some del"
    then have del: "del = epoll_del_readwrite epoll_ctl" by (simp add: nio_epoll_create_def)
    have "\<exists>e'. epoll_step epoll_ctl f 0 0 EPOLL_CTL_DEL (- 1) e = Some (e', 0) \<and>
        epoll_inv seekable epoll_ctl interest F e' \<and> remasked F f (\<lambda>d'. False) e e'"
      by (rule epoll_step_ok [OF inv f]) (use m in auto)
    then show "\<exists>e'. del f e = Some (e', 0) \<and> epoll_inv seekable epoll_ctl interest F e' \<and> remasked F f (\<lambda>d'. False) e e'"
      unfolding del using epoll_del_both_step by blast
  }
next
  fix F and e e' :: "('p, 'k) nio_event"
  assume inv: "epoll_inv seekable epoll_ctl interest F e" and same: "same_poller F e e'"
  have k: "ev_poller e' = ev_poller e" "ev_fdcount e' = ev_fdcount e"
    and g: "\<And>g. g \<in> F \<Longrightarrow> f_fd (ev_files e' g) = f_fd (ev_files e g)" "\<And>g. g \<in> F \<Longrightarrow> f_mask (ev_files e' g) = f_mask (ev_files e g)"
    using same by (simp_all add: same_poller_def)
  have "inj_on (\<lambda>f. f_fd (ev_files e' f)) F = inj_on (\<lambda>f. f_fd (ev_files e f)) F"
    by (rule inj_on_cong) (rule g)
  moreover have "{f \<in> F. \<exists>d. has (f_mask (ev_files e' f)) (ev_bit d)} = {f \<in> F. \<exists>d. has (f_mask (ev_files e f)) (ev_bit d)}"
    using g(2) by auto
  ultimately show "epoll_inv seekable epoll_ctl interest F e'"
    using inv unfolding epoll_inv_def k by (simp add: g cong: ball_cong option.case_cong)
qed (simp add: nio_epoll_create_def)

subsection \<open>Properties\<close>

lemma epoll_opened:
  assumes "epoll_doc seekable epoll_ctl interest" "\<And>f. f \<in> set fs \<Longrightarrow> interest (ev_poller e) (fds f) = None" "inj_on fds (set fs)"
  shows "epoll_inv seekable epoll_ctl interest (set fs) (open_files fds fs (nio_event_setup n flags e))"
proof -
  let ?e = "open_files fds fs (nio_event_setup n flags e)"
  note f = open_files_file [of _ fs fds "nio_event_setup n flags e"]
  have "inj_on (\<lambda>f. f_fd (ev_files ?e f)) (set fs) = inj_on fds (set fs)" by (rule inj_on_cong) (simp add: f)
  moreover have "{f \<in> set fs. \<exists>d. has (f_mask (ev_files ?e f)) (ev_bit d)} = {}" using f by (auto simp: NIO_EVENT_NONE_def)
  ultimately show ?thesis
    using assms f by (simp add: epoll_inv_def nio_event_setup_def NIO_EVENT_NONE_def cong: ball_cong)
qed

text \<open>
  C29: with the epoll poller, on a kernel that keeps its documentation, whatever is asked for and taken back on
  open descriptors, in any order and with \<open>nio_event_prepare\<close> anywhere in between: after a last
  \<open>nio_event_prepare\<close> the kernel watches every descriptor for exactly the events that were asked for last,
  under its own pointer, the callback given for each is in the descriptor, and \<open>fdcount\<close> is the number of
  descriptors that are watched.
\<close>

theorem epoll_watches_wanted:
  assumes "epoll_doc seekable epoll_ctl interest" "\<And>f. f \<in> set fs \<Longrightarrow> interest (ev_poller e) (fds f) = None" "inj_on fds (set fs)"
    "ev_events e \<noteq> 0" "ev_events e \<notin> set fs" "0 \<notin> set fs" "list_all (call_of (set fs)) cs"
    "fst (run_calls (do_wants seekable fds n) cs (\<lambda>_ _. None)) = w"
  shows "\<exists>e'. run_calls (do_loop seekable (nio_epoll_create epoll_ctl epoll_wait run)) (cs @ [Prepare])
        (Some (open_files fds fs (nio_event_setup n flags e))) =
      (Some e', snd (run_calls (do_wants seekable fds n) (cs @ [Prepare]) (\<lambda>_ _. None))) \<and>
    (\<forall>f \<in> set fs. \<forall>d. epoll_watch interest e' f d = (w f d \<noteq> None) \<and>
      (\<forall>p. w f d = Some p \<longrightarrow> proc_of d (ev_files e' f) = Some p)) \<and>
    ev_fdcount e' = int (card {f \<in> set fs. \<exists>d. w f d \<noteq> None})"
proof -
  let ?e = "open_files fds fs (nio_event_setup n flags e)"
  have "ep.loop seekable epoll_ctl interest (set fs) fds n ?e (\<lambda>_ _. None)"
    by (rule ep.opened_loop [OF assms(4-6)]) (rule epoll_opened [OF assms(1-3)])
  from ep.calls_watched [OF this assms(7)] obtain e' where e':
    "run_calls (do_loop seekable (nio_epoll_create epoll_ctl epoll_wait run)) (cs @ [Prepare]) (Some ?e) =
      (Some e', snd (run_calls (do_wants seekable fds n) (cs @ [Prepare]) (\<lambda>_ _. None)))"
    "epoll_inv seekable epoll_ctl interest (set fs) e'"
    "\<forall>f \<in> set fs. \<forall>d. epoll_watch interest e' f d = (w f d \<noteq> None) \<and> (\<forall>p. w f d = Some p \<longrightarrow> proc_of d (ev_files e' f) = Some p)"
    unfolding assms(8) by blast
  have "{f \<in> set fs. \<exists>d. has (f_mask (ev_files e' f)) (ev_bit d)} = {f \<in> set fs. \<exists>d. w f d \<noteq> None}"
    using e'(3) ep.watch_mask [OF e'(2)] by blast
  with e'(2) have "ev_fdcount e' = int (card {f \<in> set fs. \<exists>d. w f d \<noteq> None})" by (simp add: epoll_inv_def)
  with e'(1,3) show ?thesis by blast
qed

text \<open>A kernel for the witness: the interest list itself.\<close>

definition list_ctl :: "(int \<rightharpoonup> epoll_event) epoll_ctl" where
  "list_ctl op fd ev k =
     (case op of EPOLL_CTL_ADD \<Rightarrow> if k fd = None then (k(fd \<mapsto> ev), 0) else (k, - 1)
      | EPOLL_CTL_MOD \<Rightarrow> if k fd = None then (k, - 1) else (k(fd \<mapsto> ev), 0)
      | EPOLL_CTL_DEL \<Rightarrow> if k fd = None then (k, - 1) else (k(fd := None), 0))"

theorem epoll_watches_wanted_witness:
  "\<exists>w e'. fst (run_calls (do_wants (\<lambda>_. False) int 100)
       [Add Reading 5 True, Add Reading 6 False, Prepare, Del Reading 5, Add Writing 6 True] (\<lambda>_ _. None)) = w \<and>
    (\<forall>f \<in> set [5, 6]. \<forall>d. epoll_watch (\<lambda>k. k) e' f d = (w f d \<noteq> None) \<and>
      (\<forall>p. w f d = Some p \<longrightarrow> proc_of d (ev_files e' f) = Some p)) \<and> w 5 Reading = None \<and> w 6 Writing = Some True"
proof -
  have doc: "epoll_doc (\<lambda>_. False) list_ctl (\<lambda>k. k)" by (simp add: epoll_doc_def list_ctl_def)
  have none: "ev_poller (blank_event Map.empty) (int f) = (None :: epoll_event option)" for f by simp
  have inj: "inj_on int (set [5, 6])" by (simp add: inj_on_def)
  have head: "ev_events (blank_event (Map.empty :: int \<rightharpoonup> epoll_event)) \<noteq> 0"
    "ev_events (blank_event (Map.empty :: int \<rightharpoonup> epoll_event)) \<notin> set [5, 6]" "0 \<notin> set [5, 6 :: nat]" by simp_all
  have "list_all (call_of (set [5, 6]))
      [Add Reading 5 True, Add Reading 6 False, Prepare, Del Reading 5, Add Writing 6 True]" by simp
  from epoll_watches_wanted [where epoll_wait = "\<lambda>_ k. (k, Epolled [])" and run = "\<lambda>_ _. Some" and n = 100 and flags = 0,
      OF doc none inj head this refl]
  show ?thesis by (elim exE conjE) (rule exI, rule exI, intro conjI, rule refl, assumption, simp_all)
qed

text \<open>
  \<open>epoll_event_wait\<close> looks both callbacks of a descriptor up before it runs the first: when an event or an
  error concerns reading and writing, the write callback runs even if the read callback has just stopped
  watching the descriptor, with whatever state the read callback left behind.
\<close>

theorem epoll_runs_both:
  assumes "f \<noteq> 0" "f_r_proc (ev_files e f) = Some p" "f_w_proc (ev_files e f) = Some q"
    "ev AND (EPOLLIN OR EPOLL_ERR) \<noteq> 0" "ev AND (EPOLLOUT OR EPOLL_ERR) \<noteq> 0"
    "run p f e = Some e1" "run q f e1 = Some e2" "epoll_dispatch run evs e2 = Some (e3, t)"
  shows "epoll_dispatch run ((ev, f) # evs) e = Some (e3, (p, f) # (q, f) # t)"
  using assms by (simp add: run_proc_def)

lemma epoll_runs_both_witness:
  "\<exists>e. epoll_dispatch (\<lambda>p f e. if p then nio_event_del_readwrite (nio_epoll_create list_ctl (\<lambda>_ k. (k, Epolled [])) (\<lambda>_ _. Some)) f e
      else Some e) [(EPOLL_ERR, 5)] (upd_file 5 (\<lambda>fe. fe\<lparr>f_r_proc := Some True, f_w_proc := Some False\<rparr>) (blank_event Map.empty)) =
    Some (e, [(True, 5), (False, 5)])"
  by (rule exI, rule epoll_runs_both [where evs = "[]" and t = "[]"])
     (simp_all add: EPOLL_ERR_def EPOLLIN_def EPOLLOUT_def nio_event_del_readwrite_def nio_epoll_create_def blank_event_def upd_file_def
       Let_def)

end
