(* ===== verification/Nio_Slots.thy ===== *)
theory Nio_Slots
  imports Prelude
begin

text \<open>
  The table in which the poll and the select poller (c/src/events/nio_event_poll.c,
  nio_event_select.c) keep their descriptors: the first \<open>n\<close> places of an array are taken, every
  descriptor knows the index of its place, -1 when it has none, and the last one moves into the
  place of one that leaves.
\<close>

definition slots :: "int \<Rightarrow> nat list \<Rightarrow> (nat \<Rightarrow> int) \<Rightarrow> nat set \<Rightarrow> bool" where
  "slots n xs idf F \<longleftrightarrow> 0 \<le> n \<and> n \<le> int (length xs) \<and>
     (\<forall>i. 0 \<le> i \<and> i < n \<longrightarrow> xs ! nat i \<in> F \<and> idf (xs ! nat i) = i) \<and>
     (\<forall>f \<in> F. idf f = - 1 \<or> 0 \<le> idf f \<and> idf f < n \<and> xs ! nat (idf f) = f)"

lemma slotsI:
  assumes "0 \<le> n" "n \<le> int (length xs)"
    "\<And>i. 0 \<le> i \<Longrightarrow> i < n \<Longrightarrow> xs ! nat i \<in> F \<and> idf (xs ! nat i) = i"
    "\<And>f. f \<in> F \<Longrightarrow> idf f \<noteq> - 1 \<Longrightarrow> 0 \<le> idf f \<and> idf f < n \<and> xs ! nat (idf f) = f"
  shows "slots n xs idf F"
  unfolding slots_def using assms by blast

lemma slots_empty: "(\<And>f. f \<in> F \<Longrightarrow> idf f = - 1) \<Longrightarrow> slots 0 xs idf F"
  by (intro slotsI) simp_all

lemma slots_of:
  assumes "slots n xs idf F" "f \<in> F" "idf f \<noteq> - 1"
  shows "0 \<le> idf f" "idf f < n" "xs ! nat (idf f) = f" "nat (idf f) < length xs"
  using assms unfolding slots_def by force+

lemma slots_at:
  assumes "slots n xs idf F" "0 \<le> i" "i < n"
  shows "xs ! nat i \<in> F" "idf (xs ! nat i) = i" "nat i < length xs"
  using assms unfolding slots_def by force+

lemma slots_inj: "slots n xs idf F \<Longrightarrow> f \<in> F \<Longrightarrow> g \<in> F \<Longrightarrow> idf f \<noteq> - 1 \<Longrightarrow> idf f = idf g \<Longrightarrow> f = g"
  using slots_of by metis

lemma slots_cong:
  assumes "\<And>f. f \<in> F \<Longrightarrow> idf' f = idf f" "slots n xs idf F"
  shows "slots n xs idf' F"
proof (rule slotsI)
  show "xs ! nat i \<in> F \<and> idf' (xs ! nat i) = i" if "0 \<le> i" "i < n" for i
    using slots_at [OF assms(2) that] assms(1) by simp
  show "0 \<le> idf' f \<and> idf' f < n \<and> xs ! nat (idf' f) = f" if "f \<in> F" "idf' f \<noteq> - 1" for f
    using slots_of [OF assms(2) that(1)] that assms(1) by simp
qed (use assms(2) in \<open>simp_all add: slots_def\<close>)

text \<open>There is a place for every descriptor.\<close>

lemma slots_room:
  assumes s: "slots n xs idf F" and F: "finite F" "card F \<le> length xs" and f: "f \<in> F" "idf f = - 1"
  shows "n < int (length xs)"
proof (rule ccontr)
  assume "\<not> n < int (length xs)"
  then have n: "n = int (length xs)" using s by (simp add: slots_def)
  have at: "xs ! i \<in> F - {f} \<and> idf (xs ! i) = int i" if "i < length xs" for i
    using slots_at [OF s, of "int i"] that n f by auto
  have "distinct xs" by (auto simp: distinct_conv_nth) (metis at of_nat_eq_iff)
  moreover have "set xs \<subseteq> F - {f}" using at by (auto simp: set_conv_nth)
  then have "card (set xs) \<le> card (F - {f})" using F(1) by (intro card_mono) auto
  moreover have "card (F - {f}) < card F" using F(1) f(1) by (intro psubset_card_mono) auto
  ultimately show False using F(2) by (simp add: distinct_card)
qed

lemma slots_add:
  assumes s: "slots n xs idf F" and f: "f \<in> F" "idf f = - 1" and n: "n < int (length xs)"
  shows "slots (n + 1) (xs[nat n := f]) (idf(f := n)) F"
proof (rule slotsI)
  have n0: "0 \<le> n" using s by (simp add: slots_def)
  fix i assume i: "0 \<le> i" "i < n + 1"
  with n0 slots_at [OF s, of i] f n show "xs[nat n := f] ! nat i \<in> F \<and> (idf(f := n)) (xs[nat n := f] ! nat i) = i"
    by (cases "i = n") (auto simp: nth_list_update)
next
  fix g assume g: "g \<in> F" "(idf(f := n)) g \<noteq> - 1"
  have n0: "0 \<le> n" using s by (simp add: slots_def)
  show "0 \<le> (idf(f := n)) g \<and> (idf(f := n)) g < n + 1 \<and> xs[nat n := f] ! nat ((idf(f := n)) g) = g"
  proof (cases "g = f")
    case False
    with slots_of [OF s g(1)] g(2) n show ?thesis by (auto simp: nth_list_update)
  qed (use n0 n in simp)
qed (use s n in \<open>simp_all add: slots_def\<close>)

lemma slots_del:
  assumes s: "slots n xs idf F" and f: "f \<in> F" "idf f \<noteq> - 1"
  defines "i \<equiv> idf f"
  defines "g \<equiv> xs ! nat (n - 1)"
  shows "slots (n - 1) (if i < n - 1 then xs[nat i := g] else xs) ((if i < n - 1 then idf(g := i) else idf)(f := - 1)) F"
proof -
  have i: "0 \<le> i" "i < n" "xs ! nat i = f" using slots_of [OF s f] by (simp_all add: i_def)
  have g: "g \<in> F" "idf g = n - 1" using slots_at [OF s, of "n - 1"] i by (simp_all add: g_def)
  have len: "n \<le> int (length xs)" using s by (simp add: slots_def)
  show ?thesis
  proof (cases "i < n - 1")
    case True
    then have fg: "f \<noteq> g" using g(2) i_def by auto
    have at: "xs[nat i := g] ! nat j = (if j = i then g else xs ! nat j)" if "0 \<le> j" for j
      using i len that by (auto simp: nth_list_update)
    let ?id = "(idf(g := i))(f := - 1)"
    have "slots (n - 1) (xs[nat i := g]) ?id F"
    proof (rule slotsI)
      fix j assume j: "0 \<le> j" "j < n - 1"
      have "xs ! nat j \<noteq> g \<and> xs ! nat j \<noteq> f" if "j \<noteq> i"
        using slots_at(2) [OF s, of j] g(2) j that i_def by auto
      with j at [of j] fg g(1) slots_at [OF s, of j] show "xs[nat i := g] ! nat j \<in> F \<and> ?id (xs[nat i := g] ! nat j) = j"
        by (cases "j = i") auto
    next
      fix h assume h: "h \<in> F" "?id h \<noteq> - 1"
      show "0 \<le> ?id h \<and> ?id h < n - 1 \<and> xs[nat i := g] ! nat (?id h) = h"
      proof (cases "h = g")
        case False
        with h have h': "h \<noteq> f" "idf h \<noteq> - 1" "?id h = idf h" by (auto split: if_splits)
        then have "idf h \<noteq> n - 1" "idf h \<noteq> i"
          using slots_inj [OF s h(1) g(1)] slots_inj [OF s h(1) f(1)] g(2) False by (auto simp: i_def)
        with h' slots_of [OF s h(1)] at [of "idf h"] show ?thesis by simp
      qed (use True i at [of i] fg in simp)
    qed (use len i in simp_all)
    with True show ?thesis by simp
  next
    case False
    then have n: "i = n - 1" using i by simp
    have "slots (n - 1) xs (idf(f := - 1)) F"
    proof (rule slotsI)
      fix j assume j: "0 \<le> j" "j < n - 1"
      then have "xs ! nat j \<noteq> f" using slots_at(2) [OF s, of j] n i_def by auto
      with j slots_at [OF s, of j] show "xs ! nat j \<in> F \<and> (idf(f := - 1)) (xs ! nat j) = j" by simp
    next
      fix h assume h: "h \<in> F" "(idf(f := - 1)) h \<noteq> - 1"
      then have h': "h \<noteq> f" "idf h \<noteq> - 1" by (auto split: if_splits)
      then have "idf h \<noteq> n - 1" using slots_inj [OF s h(1) f(1)] n by (auto simp: i_def)
      with h' slots_of [OF s h(1)] show "0 \<le> (idf(f := - 1)) h \<and> (idf(f := - 1)) h < n - 1 \<and> xs ! nat ((idf(f := - 1)) h) = h"
        by simp
    qed (use len i n in simp_all)
    with False show ?thesis by simp
  qed
qed

end
