(* ===== verification/Nio_Places.thy ===== *)
theory Nio_Places
  imports Nio_Loop Nio_Slots
begin

text \<open>
  What the poll and the select poller have in common: a descriptor is given a place in a table before
  anything is watched for it, each direction is set and cleared on its own, and the place is given up
  when neither is left.  The locale \<open>table_poller\<close> states this, and that such a poller keeps the
  contract of the event loop is proved from it.
\<close>

abbreviation idf :: "('p, 'k) nio_event \<Rightarrow> nat \<Rightarrow> int" where
  "idf e \<equiv> \<lambda>f. f_id (ev_files e f)"

text \<open>What \<open>remasked\<close> asks for, when only the index and the mask of a descriptor have changed.\<close>

lemma remaskedI:
  assumes "ev_rings e' = ev_rings e" "ev_events e' = ev_events e" "ev_timeout e' = ev_timeout e"
    "ev_setsize e' = ev_setsize e" "ev_flags e' = ev_flags e"
    "\<And>g. \<exists>i m. ev_files e' g = (ev_files e g)\<lparr>f_id := i, f_mask := m\<rparr>"
    "\<And>g. g \<noteq> f \<Longrightarrow> f_mask (ev_files e' g) = f_mask (ev_files e g)"
    "\<And>d. has (f_mask (ev_files e' f)) (ev_bit d) = P d"
  shows "remasked F f P e e'"
  unfolding remasked_def
proof (intro conjI ballI allI impI)
  fix g
  obtain i m where "ev_files e' g = (ev_files e g)\<lparr>f_id := i, f_mask := m\<rparr>" using assms(6) by blast
  then show "ev_files e' g = (ev_files e g)\<lparr>f_id := f_id (ev_files e' g), f_mask := f_mask (ev_files e' g)\<rparr>"
    by simp
qed (use assms in simp_all)

text \<open>
  \<open>rel X F e\<close> is the invariant of the table, but for descriptors in \<open>X\<close> that may have a place and
  nothing to watch.
\<close>

locale table_poller =
  fixes seekable :: "int \<Rightarrow> bool"
    and ops :: "('p, 'k) poller_ops"
    and enter :: "nat \<Rightarrow> ('p, 'k) nio_event \<Rightarrow> ('p, 'k) nio_event option"
    and leave :: "nat \<Rightarrow> ('p, 'k) nio_event \<Rightarrow> ('p, 'k) nio_event"
    and put :: "bool \<Rightarrow> direction \<Rightarrow> nat \<Rightarrow> ('p, 'k) nio_event \<Rightarrow> ('p, 'k) nio_event"
    and rel :: "nat set \<Rightarrow> nat set \<Rightarrow> ('p, 'k) nio_event \<Rightarrow> bool"
    and watch :: "('p, 'k) nio_event \<Rightarrow> nat \<Rightarrow> direction \<Rightarrow> bool"
  assumes no_both: "op_del_readwrite ops = None" and no_fflush: "op_event_fflush ops = None"
    and rel_mask: "rel X F e \<Longrightarrow> f \<in> F \<Longrightarrow> watch e f d \<longleftrightarrow> has (f_mask (ev_files e f)) (ev_bit d)"
    and rel_place: "rel X F e \<Longrightarrow> f \<in> F \<Longrightarrow> watch e f d \<Longrightarrow> idf e f \<noteq> - 1"
    and rel_frame: "rel {} F e \<Longrightarrow> same_poller F e e' \<Longrightarrow> rel {} F e'"
    and rel_weaken: "rel {} F e \<Longrightarrow> rel X F e"
    and rel_drop: "rel {f} F e \<Longrightarrow> watch e f d \<Longrightarrow> rel {} F e"
    and enter_ok: "rel {} F e \<Longrightarrow> f \<in> F \<Longrightarrow> \<exists>e'. enter f e = Some e' \<and> rel {f} F e' \<and> idf e' f \<noteq> - 1 \<and>
      remasked F f (\<lambda>d. has (f_mask (ev_files e f)) (ev_bit d)) e e'"
    and leave_ok: "rel {f} F e \<Longrightarrow> f \<in> F \<Longrightarrow> idf e f \<noteq> - 1 \<Longrightarrow> (\<And>d. \<not> watch e f d) \<Longrightarrow>
      rel {} F (leave f e) \<and> remasked F f (\<lambda>d. False) e (leave f e)"
    and put_ok: "rel {f} F e \<Longrightarrow> f \<in> F \<Longrightarrow> idf e f \<noteq> - 1 \<Longrightarrow> rel {f} F (put b d f e) \<and> idf (put b d f e) f \<noteq> - 1 \<and>
      remasked F f (\<lambda>d'. if d' = d then b else has (f_mask (ev_files e f)) (ev_bit d')) e (put b d f e)"
    and add_eq: "op_add ops d f e = map_option (\<lambda>e. (put True d f e, 0)) (enter f e)"
    and del_eq: "rel {} F e \<Longrightarrow> f \<in> F \<Longrightarrow> idf e f \<noteq> - 1 \<Longrightarrow> op_del ops d f e =
      Some (if watch (put False d f e) f (other d) then put False d f e else leave f (put False d f e), 0)"
begin

lemma put_watch:
  assumes "rel {f} F e" "f \<in> F" "idf e f \<noteq> - 1"
  shows "watch (put b d f e) f d' \<longleftrightarrow> (if d' = d then b else watch e f d')"
proof -
  note p = put_ok [OF assms, of b d]
  have "watch (put b d f e) f d' \<longleftrightarrow> has (f_mask (ev_files (put b d f e) f)) (ev_bit d')"
    using p assms(2) by (intro rel_mask) auto
  moreover have "has (f_mask (ev_files (put b d f e) f)) (ev_bit d') \<longleftrightarrow> (if d' = d then b else has (f_mask (ev_files e f)) (ev_bit d'))"
    using p by (intro remasked_file(5) [OF _ assms(2)]) blast
  ultimately show ?thesis using rel_mask [OF assms(1,2)] by simp
qed

lemma add_placed:
  assumes inv: "rel {} F e" and f: "f \<in> F"
  shows "\<exists>e'. op_add ops d f e = Some (e', 0) \<and> rel {} F e' \<and>
    remasked F f (\<lambda>d'. d' = d \<or> has (f_mask (ev_files e f)) (ev_bit d')) e e'"
proof -
  obtain e1 where e1: "enter f e = Some e1" "rel {f} F e1" "idf e1 f \<noteq> - 1"
    "remasked F f (\<lambda>d. has (f_mask (ev_files e f)) (ev_bit d)) e e1"
    using enter_ok [OF inv f] by blast
  note p = put_ok [OF e1(2) f e1(3), of True d]
  have "watch (put True d f e1) f d" using put_watch [OF e1(2) f e1(3)] by simp
  with p have "rel {} F (put True d f e1)" by (blast intro: rel_drop)
  moreover have "(\<lambda>d'. if d' = d then True else has (f_mask (ev_files e1 f)) (ev_bit d')) =
      (\<lambda>d'. d' = d \<or> has (f_mask (ev_files e f)) (ev_bit d'))"
    using remasked_file(5) [OF e1(4) f] by (auto simp: fun_eq_iff)
  then have "remasked F f (\<lambda>d'. d' = d \<or> has (f_mask (ev_files e f)) (ev_bit d')) e (put True d f e1)"
    using remasked_trans [OF e1(4)] p by metis
  ultimately show ?thesis using e1(1) by (auto simp: add_eq)
qed

lemma del_placed:
  assumes inv: "rel {} F e" and f: "f \<in> F" and m: "has (f_mask (ev_files e f)) (ev_bit d)"
  shows "\<exists>e'. op_del ops d f e = Some (e', 0) \<and> rel {} F e' \<and>
    remasked F f (\<lambda>d'. d' \<noteq> d \<and> has (f_mask (ev_files e f)) (ev_bit d')) e e'"
proof -
  let ?e1 = "put False d f e"
  have id: "idf e f \<noteq> - 1" using rel_place [OF inv f] rel_mask [OF inv f] m by blast
  note rel = rel_weaken [OF inv, of "{f}"]
  note p = put_ok [OF rel f id, of False d] and w = put_watch [OF rel f id, of False d]
  have P: "(\<lambda>d'. if d' = d then False else has (f_mask (ev_files e f)) (ev_bit d')) =
      (\<lambda>d'. d' \<noteq> d \<and> has (f_mask (ev_files e f)) (ev_bit d'))" by auto
  show ?thesis
  proof (cases "watch ?e1 f (other d)")
    case True
    with p have "rel {} F ?e1" by (blast intro: rel_drop)
    with True p show ?thesis unfolding del_eq [OF inv f id] P by simp
  next
    case False
    then have none: "\<not> watch ?e1 f d'" for d' using w [of d'] direction_other(1) [of d' d] by auto
    have l: "rel {} F (leave f ?e1) \<and> remasked F f (\<lambda>d. False) ?e1 (leave f ?e1)"
      using p f none by (intro leave_ok) auto
    have no: "(\<lambda>d'. False) = (\<lambda>d'. d' \<noteq> d \<and> has (f_mask (ev_files e f)) (ev_bit d'))"
    proof
      show "False = (d' \<noteq> d \<and> has (f_mask (ev_files e f)) (ev_bit d'))" for d'
        using none [of d'] w [of d'] rel_mask [OF inv f, of d'] by auto
    qed
    have "remasked F f (\<lambda>d. False) e (leave f ?e1)" using p l by (blast intro: remasked_trans)
    with l False show ?thesis unfolding del_eq [OF inv f id] no by simp
  qed
qed

text \<open>A poller with such a table is a poller.\<close>

sublocale poller seekable ops "rel {}" watch
proof
  fix F and e :: "('p, 'k) nio_event" and f d
  assume "rel {} F e" "f \<in> F"
  then show "watch e f d \<longleftrightarrow> has (f_mask (ev_files e f)) (ev_bit d)" by (rule rel_mask)
next
  show "rel {} F e \<Longrightarrow> same_poller F e e' \<Longrightarrow> rel {} F e'" for F e e' by (rule rel_frame)
  show "rel {} F e \<Longrightarrow> f \<in> F \<Longrightarrow> \<exists>e'. op_add ops d f e = Some (e', 0) \<and> rel {} F e' \<and>
    remasked F f (\<lambda>d'. d' = d \<or> has (f_mask (ev_files e f)) (ev_bit d')) e e'" for F e f d by (rule add_placed)
  show "rel {} F e \<Longrightarrow> f \<in> F \<Longrightarrow> has (f_mask (ev_files e f)) (ev_bit d) \<Longrightarrow> \<exists>e'. op_del ops d f e = Some (e', 0) \<and> rel {} F e' \<and>
    remasked F f (\<lambda>d'. d' \<noteq> d \<and> has (f_mask (ev_files e f)) (ev_bit d')) e e'" for F e f d by (rule del_placed)
qed (simp_all add: no_both no_fflush)

end

end
