(* ===== verification/Nio_Poll.thy ===== *)
theory Nio_Poll
  imports Nio_Places
begin

text \<open>
  The poll poller (c/src/events/nio_event_poll.c): an array of \<open>struct pollfd\<close> beside an array
  of the descriptors, of which the first \<open>count\<close> places are taken.  The system call is an
  argument.
\<close>

subsection \<open>State and operations\<close>

definition POLLIN :: u16 where "POLLIN = 1"
definition POLLOUT :: u16 where "POLLOUT = 4"
definition POLL_ERR :: u16 where "POLL_ERR = 0x38"   \<comment> \<open>\<open>POLLERR | POLLHUP | POLLNVAL\<close>\<close>

record pollfd =
  pf_fd :: int
  pf_events :: u16
  pf_revents :: u16

record polls =
  po_files :: "nat list"
  po_size :: int
  po_count :: int
  po_pfds :: "pollfd list"

type_synonym 'p poll_event = "('p, polls) nio_event"

definition upd_pollfd :: "int \<Rightarrow> (pollfd \<Rightarrow> pollfd) \<Rightarrow> 'p poll_event \<Rightarrow> 'p poll_event" where
  "upd_pollfd i g e =
     upd_poller (\<lambda>k. k\<lparr>po_pfds := (po_pfds k)[nat i := g (po_pfds k ! nat i)]\<rparr>) e"

definition nio_poll_create :: "int \<Rightarrow> polls" where
  "nio_poll_create limit =
     (let n = (if limit \<le> 0 then 1024 else limit)
      in \<lparr>po_files = replicate (nat n) 0, po_size = n, po_count = 0,
           po_pfds = replicate (nat n) \<lparr>pf_fd = 0, pf_events = 0, pf_revents = 0\<rparr>\<rparr>)"

text \<open>The beginning of \<open>poll_add_read\<close> and of \<open>poll_add_write\<close>: a place for the descriptor.\<close>

definition poll_enter :: "nat \<Rightarrow> 'p poll_event \<Rightarrow> 'p poll_event option" where
  "poll_enter f e =
     Option.bind
       (if f_id (ev_files e f) = - 1 then
          if po_count (ev_poller e) < po_size (ev_poller e)
          then Some (upd_poller (\<lambda>k. k\<lparr>po_count := po_count k + 1\<rparr>)
                 (upd_file f (\<lambda>fe. fe\<lparr>f_id := po_count (ev_poller e)\<rparr>) e))
          else None
        else Some e)
       (\<lambda>e. let i = f_id (ev_files e f); pfd = po_pfds (ev_poller e) ! nat i
            in if pf_events pfd AND (POLLIN OR POLLOUT) \<noteq> 0
               then if po_files (ev_poller e) ! nat i = f then Some e else None
               else
                 let e = upd_pollfd i (\<lambda>_. \<lparr>pf_fd = f_fd (ev_files e f), pf_events = 0, pf_revents = 0\<rparr>) e;
                     e = upd_poller (\<lambda>k. k\<lparr>po_files := (po_files k)[nat i := f]\<rparr>) e
                 in Some (e\<lparr>ev_fdcount := ev_fdcount e + 1\<rparr>))"

definition poll_add_read :: "nat \<Rightarrow> 'p poll_event \<Rightarrow> ('p poll_event \<times> int) option" where
  "poll_add_read f e =
     Option.bind (poll_enter f e) (\<lambda>e.
       let e = upd_file f (\<lambda>fe. fe\<lparr>f_mask := f_mask fe OR NIO_EVENT_READ\<rparr>) e
       in Some (upd_pollfd (f_id (ev_files e f)) (\<lambda>pfd. pfd\<lparr>pf_events := pf_events pfd OR POLLIN\<rparr>) e, 0))"

definition poll_add_write :: "nat \<Rightarrow> 'p poll_event \<Rightarrow> ('p poll_event \<times> int) option" where
  "poll_add_write f e =
     Option.bind (poll_enter f e) (\<lambda>e.
       let e = upd_file f (\<lambda>fe. fe\<lparr>f_mask := f_mask fe OR NIO_EVENT_WRITE\<rparr>) e
       in Some (upd_pollfd (f_id (ev_files e f)) (\<lambda>pfd. pfd\<lparr>pf_events := pf_events pfd OR POLLOUT\<rparr>) e, 0))"

text \<open>The place of a descriptor is given up: the last one moves into it.\<close>

definition poll_move :: "int \<Rightarrow> int \<Rightarrow> 'p poll_event \<Rightarrow> 'p poll_event" where
  "poll_move i n e =
     (let e = upd_pollfd i (\<lambda>_. po_pfds (ev_poller e) ! nat n) e;
          e = upd_poller (\<lambda>k. k\<lparr>po_files := (po_files k)[nat i := po_files k ! nat n]\<rparr>) e
      in upd_file (po_files (ev_poller e) ! nat i) (\<lambda>fe. fe\<lparr>f_id := i\<rparr>) e)"

definition poll_leave :: "nat \<Rightarrow> 'p poll_event \<Rightarrow> 'p poll_event" where
  "poll_leave f e =
     (let i = f_id (ev_files e f);
          e = upd_poller (\<lambda>k. k\<lparr>po_count := po_count k - 1\<rparr>) e;
          n = po_count (ev_poller e);
          e = (if i < n then poll_move i n e else e);
          e = upd_pollfd n (\<lambda>_. \<lparr>pf_fd = - 1, pf_events = 0, pf_revents = 0\<rparr>) e;
          e = upd_file f (\<lambda>fe. fe\<lparr>f_id := - 1\<rparr>) e
      in e\<lparr>ev_fdcount := ev_fdcount e - 1\<rparr>)"

definition poll_del_read :: "nat \<Rightarrow> 'p poll_event \<Rightarrow> ('p poll_event \<times> int) option" where
  "poll_del_read f e =
     (let i = f_id (ev_files e f)
      in if \<not> (0 \<le> i \<and> i < po_count (ev_poller e)) then None
         else
           let e = (if pf_events (po_pfds (ev_poller e) ! nat i) AND POLLIN \<noteq> 0
                    then upd_pollfd i (\<lambda>pfd. pfd\<lparr>pf_events := pf_events pfd AND NOT POLLIN\<rparr>) e else e);
               e = (if pf_events (po_pfds (ev_poller e) ! nat i) AND POLLOUT = 0 then poll_leave f e else e)
           in Some (upd_file f (\<lambda>fe. fe\<lparr>f_mask := f_mask fe AND NOT NIO_EVENT_READ\<rparr>) e, 0))"

definition poll_del_write :: "nat \<Rightarrow> 'p poll_event \<Rightarrow> ('p poll_event \<times> int) option" where
  "poll_del_write f e =
     (let i = f_id (ev_files e f)
      in if \<not> (0 \<le> i \<and> i < po_count (ev_poller e)) then None
         else
           let e = (if pf_events (po_pfds (ev_poller e) ! nat i) AND POLLOUT \<noteq> 0
                    then upd_pollfd i (\<lambda>pfd. pfd\<lparr>pf_events := pf_events pfd AND NOT POLLOUT\<rparr>) e else e);
               e = (if pf_events (po_pfds (ev_poller e) ! nat i) AND POLLIN = 0 then poll_leave f e else e)
           in Some (upd_file f (\<lambda>fe. fe\<lparr>f_mask := f_mask fe AND NOT NIO_EVENT_WRITE\<rparr>) e, 0))"

text \<open>
  \<open>poll_wait\<close>: what the system call returns for the taken places, then the callbacks of every
  descriptor that had a place when it returned.  A callback runs on the event as it is by then,
  and an access at an index that is no place is \<open>None\<close>.
\<close>

datatype poll_result = Poll_Failed bool | Polled int "u16 list"

fun poll_dispatch ::
  "('p \<Rightarrow> nat \<Rightarrow> 'p poll_event \<Rightarrow> 'p poll_event option) \<Rightarrow> nat list \<Rightarrow> 'p poll_event \<Rightarrow> ('p poll_event \<times> ('p \<times> nat) list) option" where
  "poll_dispatch run [] e = Some (e, [])"
| "poll_dispatch run (f # fs) e =
     (let i = f_id (ev_files e f)
      in if \<not> (0 \<le> i \<and> nat i < length (po_pfds (ev_poller e))) then None
         else
           let r_proc = f_r_proc (ev_files e f); w_proc = f_w_proc (ev_files e f)
           in Option.bind (run_proc run (pf_revents (po_pfds (ev_poller e) ! nat i) AND (POLLIN OR POLL_ERR) \<noteq> 0) r_proc f e) (\<lambda>(e, t1).
              Option.bind (run_proc run (pf_revents (po_pfds (ev_poller e) ! nat i) AND (POLLOUT OR POLL_ERR) \<noteq> 0) w_proc f e) (\<lambda>(e, t2).
              map_option (\<lambda>(e, t3). (e, t1 @ t2 @ t3)) (poll_dispatch run fs e))))"

definition poll_wait ::
  "(int \<Rightarrow> pollfd list \<Rightarrow> poll_result) \<Rightarrow> ('p \<Rightarrow> nat \<Rightarrow> 'p poll_event \<Rightarrow> 'p poll_event option) \<Rightarrow> int \<Rightarrow> 'p poll_event \<Rightarrow>
     ('p poll_event \<times> int \<times> ('p \<times> nat) list) option" where
  "poll_wait poll run timeout e =
     (let k = ev_poller e; n = nat (po_count k)
      in case poll timeout (take n (po_pfds k)) of
           Poll_Failed eintr \<Rightarrow> if eintr then Some (e, 0, []) else None
         | Polled r revents \<Rightarrow>
             let e = upd_poller (\<lambda>k. k\<lparr>po_pfds := map2 (\<lambda>pfd ev. pfd\<lparr>pf_revents := ev\<rparr>) (take n (po_pfds k)) revents @
                       drop n (po_pfds k)\<rparr>) e
             in if r = 0 then Some (e, 0, [])
                else map_option (\<lambda>(e, t). (e, r, t)) (poll_dispatch run (take n (po_files k)) e))"

definition poll_ops ::
  "(int \<Rightarrow> pollfd list \<Rightarrow> poll_result) \<Rightarrow> ('p \<Rightarrow> nat \<Rightarrow> 'p poll_event \<Rightarrow> 'p poll_event option) \<Rightarrow> ('p, polls) poller_ops" where
  "poll_ops poll run =
     \<lparr>op_add_read = poll_add_read, op_add_write = poll_add_write, op_del_read = poll_del_read,
      op_del_write = poll_del_write, op_del_readwrite = None, op_event_fflush = None,
      op_event_wait = poll_wait poll run\<rparr>"

subsection \<open>Invariant\<close>

fun poll_bit :: "direction \<Rightarrow> u16" where
  "poll_bit Reading = POLLIN" | "poll_bit Writing = POLLOUT"

lemma has_poll_bits [simp]: "has (poll_bit d) (poll_bit d') \<longleftrightarrow> d = d'"
  by (cases d; cases d'; simp add: has_def POLLIN_def POLLOUT_def)

lemma has_any: "x AND (POLLIN OR POLLOUT) \<noteq> 0 \<longleftrightarrow> (\<exists>d. has x (poll_bit d))"
proof -
  have "x AND (POLLIN OR POLLOUT) \<noteq> 0 \<longleftrightarrow> has x POLLIN \<or> has x POLLOUT"
    unfolding has_def [symmetric] has_commute [of x] by simp
  also have "\<dots> \<longleftrightarrow> (\<exists>d. has x (poll_bit d))" by (metis direction.exhaust poll_bit.simps)
  finally show ?thesis .
qed

lemma upd_pollfd_fields [simp]:
  "ev_files (upd_pollfd i g e) = ev_files e" "ev_rings (upd_pollfd i g e) = ev_rings e"
  "ev_events (upd_pollfd i g e) = ev_events e" "ev_timeout (upd_pollfd i g e) = ev_timeout e" "ev_setsize (upd_pollfd i g e) = ev_setsize e"
  "ev_flags (upd_pollfd i g e) = ev_flags e" "ev_fdcount (upd_pollfd i g e) = ev_fdcount e"
  "po_files (ev_poller (upd_pollfd i g e)) = po_files (ev_poller e)" "po_size (ev_poller (upd_pollfd i g e)) = po_size (ev_poller e)"
  "po_count (ev_poller (upd_pollfd i g e)) = po_count (ev_poller e)"
  "po_pfds (ev_poller (upd_pollfd i g e)) = (po_pfds (ev_poller e))[nat i := g (po_pfds (ev_poller e) ! nat i)]"
  by (simp_all add: upd_pollfd_def)

lemma poll_move_fields [simp]:
  "po_count (ev_poller (poll_move i n e)) = po_count (ev_poller e)" "po_size (ev_poller (poll_move i n e)) = po_size (ev_poller e)"
  "ev_fdcount (poll_move i n e) = ev_fdcount e"
  "po_files (ev_poller (poll_move i n e)) = (po_files (ev_poller e))[nat i := po_files (ev_poller e) ! nat n]"
  "po_pfds (ev_poller (poll_move i n e)) = (po_pfds (ev_poller e))[nat i := po_pfds (ev_poller e) ! nat n]"
  "ev_rings (poll_move i n e) = ev_rings e" "ev_events (poll_move i n e) = ev_events e" "ev_timeout (poll_move i n e) = ev_timeout e"
  "ev_setsize (poll_move i n e) = ev_setsize e" "ev_flags (poll_move i n e) = ev_flags e"
  "ev_files (poll_move i n e) h =
     (if h = (po_files (ev_poller e))[nat i := po_files (ev_poller e) ! nat n] ! nat i then (ev_files e h)\<lparr>f_id := i\<rparr> else ev_files e h)"
  by (simp_all add: poll_move_def Let_def)

text \<open>\<open>poll_leave\<close>, without its intermediate states.\<close>

lemma poll_leave_fields:
  fixes e :: "'p poll_event" and f :: nat
  defines "i \<equiv> f_id (ev_files e f)" and "n \<equiv> po_count (ev_poller e) - 1"
  defines "fs \<equiv> (if i < n then (po_files (ev_poller e))[nat i := po_files (ev_poller e) ! nat n] else po_files (ev_poller e))"
  shows "po_count (ev_poller (poll_leave f e)) = n" "po_size (ev_poller (poll_leave f e)) = po_size (ev_poller e)"
    "ev_fdcount (poll_leave f e) = ev_fdcount e - 1" "po_files (ev_poller (poll_leave f e)) = fs"
    "po_pfds (ev_poller (poll_leave f e)) =
       (if i < n then (po_pfds (ev_poller e))[nat i := po_pfds (ev_poller e) ! nat n] else po_pfds (ev_poller e))
         [nat n := \<lparr>pf_fd = - 1, pf_events = 0, pf_revents = 0\<rparr>]"
    "ev_files (poll_leave f e) h =
       (if h = f then (ev_files e f)\<lparr>f_id := - 1\<rparr> else if i < n \<and> h = fs ! nat i then (ev_files e h)\<lparr>f_id := i\<rparr> else ev_files e h)"
    "ev_rings (poll_leave f e) = ev_rings e" "ev_events (poll_leave f e) = ev_events e" "ev_timeout (poll_leave f e) = ev_timeout e"
    "ev_setsize (poll_leave f e) = ev_setsize e" "ev_flags (poll_leave f e) = ev_flags e"
  by (cases "i < n"; simp add: poll_leave_def Let_def i_def n_def fs_def)+

abbreviation pfd_of :: "'p poll_event \<Rightarrow> nat \<Rightarrow> pollfd" where
  "pfd_of e f \<equiv> po_pfds (ev_poller e) ! nat (f_id (ev_files e f))"

definition poll_watch :: "'p poll_event \<Rightarrow> nat \<Rightarrow> direction \<Rightarrow> bool" where
  "poll_watch e f d \<longleftrightarrow> f_id (ev_files e f) \<noteq> - 1 \<and> has (pf_events (pfd_of e f)) (poll_bit d)"

text \<open>The invariant, but for descriptors in \<open>X\<close> that may have a place and nothing to watch.\<close>

definition poll_rel :: "nat set \<Rightarrow> nat set \<Rightarrow> 'p poll_event \<Rightarrow> bool" where
  "poll_rel X F e \<longleftrightarrow>
     finite F \<and> int (card F) \<le> po_size (ev_poller e) \<and>
     length (po_pfds (ev_poller e)) = nat (po_size (ev_poller e)) \<and>
     length (po_files (ev_poller e)) = nat (po_size (ev_poller e)) \<and>
     slots (po_count (ev_poller e)) (po_files (ev_poller e)) (idf e) F \<and>
     (\<forall>f \<in> F. \<forall>d. has (f_mask (ev_files e f)) (ev_bit d) = poll_watch e f d) \<and>
     (\<forall>f \<in> F. f_id (ev_files e f) \<noteq> - 1 \<longrightarrow> pf_fd (pfd_of e f) = f_fd (ev_files e f) \<and>
        (f \<notin> X \<longrightarrow> (\<exists>d. poll_watch e f d))) \<and>
     (\<forall>i d. po_count (ev_poller e) \<le> i \<and> i < po_size (ev_poller e) \<longrightarrow> \<not> has (pf_events (po_pfds (ev_poller e) ! nat i)) (poll_bit d)) \<and>
     ev_fdcount e = po_count (ev_poller e)"

lemma poll_relI:
  assumes "finite F" "int (card F) \<le> po_size (ev_poller e)"
    "length (po_pfds (ev_poller e)) = nat (po_size (ev_poller e))"
    "length (po_files (ev_poller e)) = nat (po_size (ev_poller e))"
    "slots (po_count (ev_poller e)) (po_files (ev_poller e)) (idf e) F"
    "\<And>f d. f \<in> F \<Longrightarrow> has (f_mask (ev_files e f)) (ev_bit d) = poll_watch e f d"
    "\<And>f. f \<in> F \<Longrightarrow> f_id (ev_files e f) \<noteq> - 1 \<Longrightarrow> pf_fd (pfd_of e f) = f_fd (ev_files e f)"
    "\<And>f. f \<in> F \<Longrightarrow> f_id (ev_files e f) \<noteq> - 1 \<Longrightarrow> f \<notin> X \<Longrightarrow> \<exists>d. poll_watch e f d"
    "\<And>i d. po_count (ev_poller e) \<le> i \<Longrightarrow> i < po_size (ev_poller e) \<Longrightarrow>
       \<not> has (pf_events (po_pfds (ev_poller e) ! nat i)) (poll_bit d)"
    "ev_fdcount e = po_count (ev_poller e)"
  shows "poll_rel X F e"
  unfolding poll_rel_def using assms by blast

lemma poll_relD:
  assumes "poll_rel X F e"
  shows "finite F" "int (card F) \<le> po_size (ev_poller e)"
    "length (po_pfds (ev_poller e)) = nat (po_size (ev_poller e))"
    "length (po_files (ev_poller e)) = nat (po_size (ev_poller e))"
    "slots (po_count (ev_poller e)) (po_files (ev_poller e)) (idf e) F"
    "\<And>f d. f \<in> F \<Longrightarrow> has (f_mask (ev_files e f)) (ev_bit d) = poll_watch e f d"
    "\<And>f. f \<in> F \<Longrightarrow> f_id (ev_files e f) \<noteq> - 1 \<Longrightarrow> pf_fd (pfd_of e f) = f_fd (ev_files e f)"
    "\<And>f. f \<in> F \<Longrightarrow> f_id (ev_files e f) \<noteq> - 1 \<Longrightarrow> f \<notin> X \<Longrightarrow> \<exists>d. poll_watch e f d"
    "\<And>i d. po_count (ev_poller e) \<le> i \<Longrightarrow> i < po_size (ev_poller e) \<Longrightarrow>
       \<not> has (pf_events (po_pfds (ev_poller e) ! nat i)) (poll_bit d)"
    "ev_fdcount e = po_count (ev_poller e)"
  using assms unfolding poll_rel_def by blast+

subsection \<open>Entering and leaving\<close>

lemma poll_enter_ok:
  assumes inv: "poll_rel {} F e" and f: "f \<in> F"
  shows "\<exists>e1. poll_enter f e = Some e1 \<and> poll_rel {f} F e1 \<and> f_id (ev_files e1 f) \<noteq> - 1 \<and>
    remasked F f (\<lambda>d. has (f_mask (ev_files e f)) (ev_bit d)) e e1"
proof (cases "f_id (ev_files e f) = - 1")
  case False
  note r = poll_relD [OF inv]
  obtain d where "poll_watch e f d" using r(8) [OF f False] by auto
  then have "pf_events (pfd_of e f) AND (POLLIN OR POLLOUT) \<noteq> 0" unfolding has_any poll_watch_def by blast
  moreover have "po_files (ev_poller e) ! nat (f_id (ev_files e f)) = f" using slots_of(3) [OF r(5) f] False by simp
  ultimately have "poll_enter f e = Some e" using False by (simp add: poll_enter_def Let_def)
  moreover have "poll_rel {f} F e" using r by (intro poll_relI) blast+
  ultimately show ?thesis using False remasked_refl by blast
next
  case True
  note r = poll_relD [OF inv]
  let ?k = "ev_poller e" and ?n = "po_count (ev_poller e)"
  have room: "?n < po_size ?k" "0 \<le> ?n"
    using slots_room [OF r(5,1) _ f] True r(2,4) r(5) by (auto simp: slots_def)
  have free: "pf_events (po_pfds ?k ! nat ?n) AND (POLLIN OR POLLOUT) = 0"
    using r(9) [of ?n] room has_any by blast
  let ?e1 = "e\<lparr>ev_files := (ev_files e)(f := (ev_files e f)\<lparr>f_id := ?n\<rparr>),
       ev_poller := ?k\<lparr>po_count := ?n + 1, po_pfds := (po_pfds ?k)[nat ?n := \<lparr>pf_fd = f_fd (ev_files e f), pf_events = 0, pf_revents = 0\<rparr>],
          po_files := (po_files ?k)[nat ?n := f]\<rparr>, ev_fdcount := ev_fdcount e + 1\<rparr>"
  have run: "poll_enter f e = Some ?e1"
    using True room free by (simp add: poll_enter_def upd_file_def upd_pollfd_def upd_poller_def Let_def)
  have none: "\<not> has (f_mask (ev_files e f)) (ev_bit d)" for d
    using r(6) [OF f] True by (simp add: poll_watch_def)
  have other: "nat (f_id (ev_files e g)) \<noteq> nat ?n" "f_id (ev_files e g) < ?n" if "g \<in> F" "f_id (ev_files e g) \<noteq> - 1" for g
    using slots_of(1,2) [OF r(5) that] by auto
  have watch: "poll_watch ?e1 g d = poll_watch e g d" if "g \<in> F" "g \<noteq> f" for g d
    using other [OF that(1)] that(2) by (auto simp: poll_watch_def)
  have len: "nat ?n < length (po_pfds ?k)" using room r(3) by simp
  have watch_f: "\<not> poll_watch ?e1 f d" for d using len by (simp add: poll_watch_def)
  have "poll_rel {f} F ?e1"
  proof (rule poll_relI)
    have "slots (?n + 1) ((po_files ?k)[nat ?n := f]) ((idf e)(f := ?n)) F"
      using slots_add [OF r(5) f True] room r(4) by simp
    moreover have "idf ?e1 = (idf e)(f := ?n)" by (simp add: fun_eq_iff)
    ultimately show "slots (po_count (ev_poller ?e1)) (po_files (ev_poller ?e1)) (idf ?e1) F"
      unfolding \<open>idf ?e1 = (idf e)(f := ?n)\<close> by simp
    show "has (f_mask (ev_files ?e1 g)) (ev_bit d) = poll_watch ?e1 g d" if "g \<in> F" for g d
      using r(6) [OF that] watch [OF that] watch_f none by (cases "g = f") auto
    show "\<exists>d. poll_watch ?e1 g d" if "g \<in> F" "f_id (ev_files ?e1 g) \<noteq> - 1" "g \<notin> {f}" for g
      using r(8) [OF that(1)] watch [OF that(1)] that(2,3) by auto
    show "pf_fd (pfd_of ?e1 g) = f_fd (ev_files ?e1 g)" if "g \<in> F" "f_id (ev_files ?e1 g) \<noteq> - 1" for g
      using r(7) [OF that(1)] other [OF that(1)] that(2) len by (cases "g = f") auto
    show "\<not> has (pf_events (po_pfds (ev_poller ?e1) ! nat i)) (poll_bit d)"
      if "po_count (ev_poller ?e1) \<le> i" "i < po_size (ev_poller ?e1)" for i d
      using r(9) [of i] that room by (simp add: nth_list_update)
  qed (use r in simp_all)
  moreover have "remasked F f (\<lambda>d. has (f_mask (ev_files e f)) (ev_bit d)) e ?e1"
  proof (rule remaskedI)
    show "\<exists>i m. ev_files ?e1 g = (ev_files e g)\<lparr>f_id := i, f_mask := m\<rparr>" for g
      by (rule exI [of _ "f_id (ev_files ?e1 g)"], rule exI [of _ "f_mask (ev_files e g)"]) simp
  qed simp_all
  ultimately show ?thesis using run room by auto
qed

lemma poll_leave_ok:
  assumes rel: "poll_rel {f} F e" and f: "f \<in> F" and id: "f_id (ev_files e f) \<noteq> - 1"
    and none: "\<And>d. \<not> poll_watch e f d"
  shows "poll_rel {} F (poll_leave f e) \<and> remasked F f (\<lambda>d. False) e (poll_leave f e)"
proof -
  note r = poll_relD [OF rel]
  let ?k = "ev_poller e" and ?e1 = "poll_leave f e"
  define n i where ni: "n = po_count ?k - 1" "i = f_id (ev_files e f)"
  define g where g: "g = po_files ?k ! nat n"
  have i: "0 \<le> i" "i \<le> n" "po_files ?k ! nat i = f" using slots_of [OF r(5) f id] by (auto simp: ni)
  have "po_count ?k \<le> int (length (po_files ?k))" using r(5) by (simp add: slots_def)
  with i have n: "n < po_size ?k" "0 \<le> n" unfolding r(4) ni by (simp_all split: if_splits)
  have gF: "g \<in> F" "f_id (ev_files e g) = n" using slots_at [OF r(5), of n] i by (auto simp: g ni)
  have len: "nat i < length (po_pfds ?k)" "nat n < length (po_pfds ?k)" "nat i < length (po_files ?k)" "nat n < length (po_files ?k)"
    using i n r(3,4) by auto
  have fields: "po_count (ev_poller ?e1) = n" "po_size (ev_poller ?e1) = po_size ?k" "ev_fdcount ?e1 = ev_fdcount e - 1"
    "po_files (ev_poller ?e1) = (if i < n then (po_files ?k)[nat i := g] else po_files ?k)"
    "po_pfds (ev_poller ?e1) = (if i < n then (po_pfds ?k)[nat i := po_pfds ?k ! nat n] else po_pfds ?k)
       [nat n := \<lparr>pf_fd = - 1, pf_events = 0, pf_revents = 0\<rparr>]"
    "ev_rings ?e1 = ev_rings e" "ev_events ?e1 = ev_events e" "ev_timeout ?e1 = ev_timeout e"
    "ev_setsize ?e1 = ev_setsize e" "ev_flags ?e1 = ev_flags e"
    by (simp_all add: poll_leave_fields ni g)
  have files: "ev_files ?e1 h = (if h = f then (ev_files e f)\<lparr>f_id := - 1\<rparr>
      else if i < n \<and> h = g then (ev_files e g)\<lparr>f_id := i\<rparr> else ev_files e h)" for h
    using len(3) by (simp add: poll_leave_fields Let_def ni [symmetric] g)
  have ids: "idf ?e1 = (if i < n then (idf e)(g := i) else idf e)(f := - 1)"
    by (simp add: fun_eq_iff files)
  have pfd: "pfd_of ?e1 h = pfd_of e h \<and> f_id (ev_files e h) \<noteq> - 1" if h: "h \<in> F" "f_id (ev_files ?e1 h) \<noteq> - 1" for h
  proof -
    have hf: "h \<noteq> f" using h(2) by (auto simp: files)
    show ?thesis
    proof (cases "i < n \<and> h = g")
      case True
      with gF i n len hf show ?thesis by (auto simp: files fields nth_list_update)
    next
      case False
      then have e: "f_id (ev_files ?e1 h) = f_id (ev_files e h)" using hf by (auto simp: files)
      have "f_id (ev_files e h) \<noteq> i" using slots_inj [OF r(5) h(1) f] h(2) hf e by (auto simp: ni)
      moreover have "f_id (ev_files e h) \<noteq> n"
        using slots_inj [OF r(5) h(1) gF(1)] h(2) hf e False gF(2) i(2) slots_inj [OF r(5) f gF(1) id] ni(2) by force
      ultimately show ?thesis using slots_of(1) [OF r(5) h(1)] h(2) e i n by (auto simp: fields nth_list_update)
    qed
  qed
  have watch: "poll_watch ?e1 h d = poll_watch e h d" if "h \<in> F" "h \<noteq> f" for h d
    using pfd [OF that(1)] that(2) i n gF by (auto simp: poll_watch_def files split: if_splits)
  have "poll_rel {} F ?e1"
  proof (rule poll_relI)
    show "slots (po_count (ev_poller ?e1)) (po_files (ev_poller ?e1)) (idf ?e1) F"
      unfolding ids fields g ni by (rule slots_del [OF r(5) f id])
    show "has (f_mask (ev_files ?e1 h)) (ev_bit d) = poll_watch ?e1 h d" if "h \<in> F" for h d
    proof (cases "h = f")
      case True
      then show ?thesis using r(6) [OF f] none by (simp add: poll_watch_def files)
    next
      case False
      then show ?thesis using r(6) [OF that] watch [OF that] by (auto simp: files)
    qed
    show "pf_fd (pfd_of ?e1 h) = f_fd (ev_files ?e1 h)" if "h \<in> F" "f_id (ev_files ?e1 h) \<noteq> - 1" for h
      using r(7) [OF that(1)] pfd [OF that] by (simp add: files)
    show "\<exists>d. poll_watch ?e1 h d" if "h \<in> F" "f_id (ev_files ?e1 h) \<noteq> - 1" "h \<notin> {}" for h
      using r(8) [OF that(1)] pfd [OF that(1,2)] watch [OF that(1)] that(2) by (cases "h = f") (auto simp: files)
    show "\<not> has (pf_events (po_pfds (ev_poller ?e1) ! nat j)) (poll_bit d)"
      if "po_count (ev_poller ?e1) \<le> j" "j < po_size (ev_poller ?e1)" for j d
      using r(9) [of j d] that i n r(3) by (cases "j = n") (auto simp: fields ni nth_list_update)
  qed (use r fields ni in simp_all)
  moreover have "remasked F f (\<lambda>d. False) e ?e1"
  proof (rule remaskedI)
    show "\<exists>i m. ev_files ?e1 h = (ev_files e h)\<lparr>f_id := i, f_mask := m\<rparr>" for h
      by (rule exI [of _ "f_id (ev_files ?e1 h)"], rule exI [of _ "f_mask (ev_files e h)"]) (simp add: files)
    show "has (f_mask (ev_files ?e1 f)) (ev_bit d) = False" for d
      using r(6) [OF f, of d] none by (simp add: files)
  qed (simp_all add: fields files)
  ultimately show ?thesis by blast
qed

subsection \<open>The poller's contract\<close>

definition poll_set :: "bool \<Rightarrow> direction \<Rightarrow> nat \<Rightarrow> 'p poll_event \<Rightarrow> 'p poll_event" where
  "poll_set b d f e =
     upd_pollfd (f_id (ev_files e f))
       (\<lambda>pfd. pfd\<lparr>pf_events := if b then pf_events pfd OR poll_bit d else pf_events pfd AND NOT (poll_bit d)\<rparr>)
       (upd_file f (\<lambda>fe. fe\<lparr>f_mask := if b then f_mask fe OR ev_bit d else f_mask fe AND NOT (ev_bit d)\<rparr>) e)"

lemma poll_set_ok:
  assumes rel: "poll_rel {f} F e" and f: "f \<in> F" and id: "f_id (ev_files e f) \<noteq> - 1"
  shows "poll_rel {f} F (poll_set b d f e)" "f_id (ev_files (poll_set b d f e) f) \<noteq> - 1"
    "remasked F f (\<lambda>d'. if d' = d then b else has (f_mask (ev_files e f)) (ev_bit d')) e (poll_set b d f e)"
    "poll_watch (poll_set b d f e) f d' \<longleftrightarrow> (if d' = d then b else poll_watch e f d')"
proof -
  note r = poll_relD [OF rel]
  let ?e1 = "poll_set b d f e" and ?i = "nat (f_id (ev_files e f))"
  have len: "?i < length (po_pfds (ev_poller e))" using slots_of(4) [OF r(5) f id] r(3,4) by simp
  have fields: "po_count (ev_poller ?e1) = po_count (ev_poller e)" "po_size (ev_poller ?e1) = po_size (ev_poller e)"
    "po_files (ev_poller ?e1) = po_files (ev_poller e)" "ev_fdcount ?e1 = ev_fdcount e"
    "length (po_pfds (ev_poller ?e1)) = length (po_pfds (ev_poller e))" "idf ?e1 = idf e"
    by (simp_all add: poll_set_def fun_eq_iff)
  have other: "nat (f_id (ev_files e g)) \<noteq> ?i" if "g \<in> F" "g \<noteq> f" "f_id (ev_files e g) \<noteq> - 1" for g
    using slots_inj [OF r(5) that(1) f that(3)] slots_of(1) [OF r(5) that(1,3)] slots_of(1) [OF r(5) f id] that(2)
    by (metis eq_nat_nat_iff)
  have pfd: "pfd_of ?e1 g = (if g = f then (pfd_of e f)\<lparr>pf_events := if b then pf_events (pfd_of e f) OR poll_bit d
      else pf_events (pfd_of e f) AND NOT (poll_bit d)\<rparr> else pfd_of e g)"
    if "g \<in> F" "f_id (ev_files e g) \<noteq> - 1" for g
  proof (cases "g = f")
    case True
    with len show ?thesis by (simp add: poll_set_def)
  next
    case False
    with other [OF that(1) False that(2)] show ?thesis by (simp add: poll_set_def)
  qed
  have events: "has (pf_events (pfd_of ?e1 g)) (poll_bit d') =
      (if g = f \<and> d' = d then b else has (pf_events (pfd_of e g)) (poll_bit d'))"
    if "g \<in> F" "f_id (ev_files e g) \<noteq> - 1" for g d'
    unfolding pfd [OF that] by (cases "g = f"; cases b; cases "d' = d") simp_all
  have fds: "pf_fd (pfd_of ?e1 g) = pf_fd (pfd_of e g)" if "g \<in> F" "f_id (ev_files e g) \<noteq> - 1" for g
    unfolding pfd [OF that] by simp
  have ids: "f_id (ev_files ?e1 g) = f_id (ev_files e g)" "f_fd (ev_files ?e1 g) = f_fd (ev_files e g)" for g
    by (simp_all add: poll_set_def)
  have watch: "poll_watch ?e1 g d' = (if g = f \<and> d' = d then b else poll_watch e g d')" if "g \<in> F" for g d'
    using events [OF that, of d'] id by (cases "f_id (ev_files e g) = - 1") (auto simp: poll_watch_def ids)
  have mask: "has (f_mask (ev_files ?e1 g)) (ev_bit d') =
      (if g = f \<and> d' = d then b else has (f_mask (ev_files e g)) (ev_bit d'))" for g d'
    by (cases "g = f"; cases b; cases "d' = d") (simp_all add: poll_set_def)
  show "poll_watch ?e1 f d' \<longleftrightarrow> (if d' = d then b else poll_watch e f d')" using watch [OF f] by simp
  show "f_id (ev_files ?e1 f) \<noteq> - 1" using id ids by simp
  show "poll_rel {f} F ?e1"
  proof (rule poll_relI)
    show "slots (po_count (ev_poller ?e1)) (po_files (ev_poller ?e1)) (idf ?e1) F"
      unfolding fields using r(5) .
    show "has (f_mask (ev_files ?e1 g)) (ev_bit d') = poll_watch ?e1 g d'" if "g \<in> F" for g d'
      using r(6) [OF that] by (simp add: mask watch [OF that])
    show "pf_fd (pfd_of ?e1 g) = f_fd (ev_files ?e1 g)" if "g \<in> F" "f_id (ev_files ?e1 g) \<noteq> - 1" for g
      using r(7) [OF that(1)] fds [OF that(1)] that(2) by (simp add: ids)
    show "\<exists>d. poll_watch ?e1 g d" if "g \<in> F" "f_id (ev_files ?e1 g) \<noteq> - 1" "g \<notin> {f}" for g
      using r(8) [OF that(1)] that by (simp add: ids watch [OF that(1)])
    show "\<not> has (pf_events (po_pfds (ev_poller ?e1) ! nat j)) (poll_bit d')"
      if "po_count (ev_poller ?e1) \<le> j" "j < po_size (ev_poller ?e1)" for j d'
      using r(9) [of j d'] that slots_of(1,2) [OF r(5) f id]
      by (simp add: fields) (auto simp: poll_set_def nth_list_update)
  qed (use r fields in simp_all)
  show "remasked F f (\<lambda>d'. if d' = d then b else has (f_mask (ev_files e f)) (ev_bit d')) e ?e1"
  proof (rule remaskedI)
    show "\<exists>i m. ev_files ?e1 g = (ev_files e g)\<lparr>f_id := i, f_mask := m\<rparr>" for g
      by (rule exI [of _ "f_id (ev_files e g)"], rule exI [of _ "f_mask (ev_files ?e1 g)"])
         (simp add: poll_set_def)
  qed (simp_all add: mask, simp_all add: poll_set_def)
qed

text \<open>The operations for reading and for writing, in these terms.\<close>

lemma poll_add_eq:
  "op_add (poll_ops poll run) d f e = map_option (\<lambda>e. (poll_set True d f e, 0)) (poll_enter f e)"
  by (cases d; cases "poll_enter f e") (simp_all add: poll_ops_def poll_add_read_def poll_add_write_def poll_set_def Let_def)

lemma poll_leave_mask:
  fixes e :: "'p poll_event" and f :: nat and m :: byte
  defines "g \<equiv> upd_file f (\<lambda>fe. fe\<lparr>f_mask := f_mask fe AND m\<rparr>) :: 'p poll_event \<Rightarrow> 'p poll_event"
  shows "g (poll_leave f e) = poll_leave f (g e)"
proof (rule nio_event.equality)
  show "ev_files (g (poll_leave f e)) = ev_files (poll_leave f (g e))"
    by (rule ext) (simp add: poll_leave_fields g_def)
  show "ev_poller (g (poll_leave f e)) = ev_poller (poll_leave f (g e))"
    by (rule polls.equality) (simp_all add: poll_leave_fields g_def)
qed (simp_all add: poll_leave_fields g_def)

lemma upd_pollfd_same: "nat i < length (po_pfds (ev_poller e)) \<Longrightarrow> g (po_pfds (ev_poller e) ! nat i) = po_pfds (ev_poller e) ! nat i \<Longrightarrow> upd_pollfd i g e = e"
  by (simp add: upd_pollfd_def upd_poller_def)

lemma poll_del_eq:
  assumes "poll_rel {} F e" "f \<in> F" "f_id (ev_files e f) \<noteq> - 1"
  shows "op_del (poll_ops poll run) d f e =
    Some (if poll_watch (poll_set False d f e) f (other d) then poll_set False d f e else poll_leave f (poll_set False d f e), 0)"
proof -
  note r = poll_relD [OF assms(1)]
  note s = slots_of [OF r(5) assms(2,3)]
  have len: "nat (f_id (ev_files e f)) < length (po_pfds (ev_poller e))" using s(4) r(3,4) by simp
  have clear: "(if pf_events (pfd_of e f) AND b \<noteq> 0
        then upd_pollfd (f_id (ev_files e f)) (\<lambda>pfd. pfd\<lparr>pf_events := pf_events pfd AND NOT b\<rparr>) e else e) =
      upd_pollfd (f_id (ev_files e f)) (\<lambda>pfd. pfd\<lparr>pf_events := pf_events pfd AND NOT b\<rparr>) e" for b
    using upd_pollfd_same [OF len, of "\<lambda>pfd. pfd\<lparr>pf_events := pf_events pfd AND NOT b\<rparr>"] clear_unset [of "pf_events (pfd_of e f)" b]
    by (simp add: has_def)
  have comm: "upd_file f g (upd_pollfd i h e) = upd_pollfd i h (upd_file f g e)" for g i h and e :: "'a poll_event"
    by (simp add: upd_file_def upd_pollfd_def upd_poller_def)
  have pw: "poll_watch (poll_set False d f e) f (other d) \<longleftrightarrow> has (pf_events (pfd_of e f) AND NOT (poll_bit d)) (poll_bit (other d))" for d
    using len assms(3) by (simp add: poll_watch_def poll_set_def)
  show ?thesis unfolding pw using s(1,2)
    by (cases d) (auto simp: poll_ops_def poll_del_read_def poll_del_write_def Let_def clear len has_def poll_leave_mask comm
      poll_set_def)
qed

interpretation pl: table_poller seekable "poll_ops poll run" poll_enter poll_leave poll_set poll_rel poll_watch
  for seekable poll and run :: "'p \<Rightarrow> nat \<Rightarrow> 'p poll_event \<Rightarrow> 'p poll_event option"
proof
  fix X F f d b and e e' :: "'p poll_event"
  show "poll_rel X F e \<Longrightarrow> f \<in> F \<Longrightarrow> poll_watch e f d \<longleftrightarrow> has (f_mask (ev_files e f)) (ev_bit d)"
    "poll_rel X F e \<Longrightarrow> f \<in> F \<Longrightarrow> poll_watch e f d \<Longrightarrow> idf e f \<noteq> - 1"
    by (simp_all add: poll_rel_def poll_watch_def)
  show "poll_rel {} F e \<Longrightarrow> poll_rel X F e" by (auto simp: poll_rel_def)
  show "poll_rel {f} F e \<Longrightarrow> poll_watch e f d \<Longrightarrow> poll_rel {} F e" by (auto simp: poll_rel_def)
  show "op_add (poll_ops poll run) d f e = map_option (\<lambda>e. (poll_set True d f e, 0)) (poll_enter f e)" by (rule poll_add_eq)
  assume r: "poll_rel {} F e"
  show "f \<in> F \<Longrightarrow> \<exists>e'. poll_enter f e = Some e' \<and> poll_rel {f} F e' \<and> idf e' f \<noteq> - 1 \<and>
      remasked F f (\<lambda>d. has (f_mask (ev_files e f)) (ev_bit d)) e e'" by (rule poll_enter_ok [OF r])
  show "f \<in> F \<Longrightarrow> idf e f \<noteq> - 1 \<Longrightarrow> op_del (poll_ops poll run) d f e = Some (if poll_watch (poll_set False d f e) f (other d)
      then poll_set False d f e else poll_leave f (poll_set False d f e), 0)" by (rule poll_del_eq [OF r])
  assume same: "same_poller F e e'"
  have k: "ev_poller e' = ev_poller e" "ev_fdcount e' = ev_fdcount e"
    and g: "\<And>g. g \<in> F \<Longrightarrow> f_fd (ev_files e' g) = f_fd (ev_files e g) \<and> f_id (ev_files e' g) = f_id (ev_files e g) \<and>
      f_mask (ev_files e' g) = f_mask (ev_files e g)" using same by (simp_all add: same_poller_def)
  have w: "\<And>g d. g \<in> F \<Longrightarrow> poll_watch e' g d = poll_watch e g d" using k g by (simp add: poll_watch_def)
  show "poll_rel {} F e'"
  proof (rule poll_relI)
    show "slots (po_count (ev_poller e')) (po_files (ev_poller e')) (idf e') F"
      unfolding k by (rule slots_cong [OF _ poll_relD(5) [OF r]]) (simp add: g)
  qed (use poll_relD [OF r] k g w in simp_all)
qed (simp_all add: poll_ops_def poll_leave_ok poll_set_ok)

subsection \<open>Properties\<close>

lemma poll_opened:
  assumes "ev_poller e = nio_poll_create limit" "card (set fs) \<le> nat (if limit \<le> 0 then 1024 else limit)"
  shows "poll_rel {} (set fs) (open_files fds fs (nio_event_setup n flags e))"
proof (rule poll_relI)
  let ?e = "open_files fds fs (nio_event_setup n flags e)"
  have k: "ev_poller ?e = nio_poll_create limit" "ev_fdcount ?e = 0" using assms(1) by (simp_all add: nio_event_setup_def)
  note f = open_files_file [of _ fs fds "nio_event_setup n flags e"]
  show "slots (po_count (ev_poller ?e)) (po_files (ev_poller ?e)) (idf ?e) (set fs)"
  proof -
    have "po_count (nio_poll_create limit) = 0" by (simp add: nio_poll_create_def Let_def)
    then show ?thesis unfolding k by (simp only:) (rule slots_empty, simp add: f)
  qed
  show "has (f_mask (ev_files ?e f)) (ev_bit d) = poll_watch ?e f d" if "f \<in> set fs" for f d
    using f [OF that] by (simp add: poll_watch_def NIO_EVENT_NONE_def)
  show "\<not> has (pf_events (po_pfds (ev_poller ?e) ! nat i)) (poll_bit d)"
    if "po_count (ev_poller ?e) \<le> i" "i < po_size (ev_poller ?e)" for i d
    using that unfolding k by (simp add: nio_poll_create_def Let_def split: if_splits)
qed (use assms open_files_file [of _ fs fds "nio_event_setup n flags e"] in
    \<open>auto simp: nio_event_setup_def nio_poll_create_def Let_def\<close>)

text \<open>
  C30: with the poll poller, whatever is asked for and taken back on open descriptors, in any order and
  with \<open>nio_event_prepare\<close> anywhere in between, no assertion fails and no loop runs forever; after a last
  \<open>nio_event_prepare\<close> the array for \<open>poll\<close> has for every descriptor exactly the events that were asked for
  last, the callback given for each is in the descriptor, and no place of the array is for anything else.
  Descriptors that are files, or beyond the event's size, are refused and not watched.
\<close>

theorem poll_watches_wanted:
  assumes "ev_poller e = nio_poll_create limit" "card (set fs) \<le> nat (if limit \<le> 0 then 1024 else limit)"
    "ev_events e \<noteq> 0" "ev_events e \<notin> set fs" "0 \<notin> set fs" "list_all (call_of (set fs)) cs"
    "fst (run_calls (do_wants seekable fds n) cs (\<lambda>_ _. None)) = w"
  shows "\<exists>e'. run_calls (do_loop seekable (poll_ops poll run)) (cs @ [Prepare])
        (Some (open_files fds fs (nio_event_setup n flags e))) =
      (Some e', snd (run_calls (do_wants seekable fds n) (cs @ [Prepare]) (\<lambda>_ _. None))) \<and>
    (\<forall>f \<in> set fs. \<forall>d. poll_watch e' f d = (w f d \<noteq> None) \<and> (\<forall>p. w f d = Some p \<longrightarrow> proc_of d (ev_files e' f) = Some p)) \<and>
    (\<forall>i. 0 \<le> i \<and> i < po_count (ev_poller e') \<longrightarrow> (\<exists>f \<in> set fs. \<exists>d. w f d \<noteq> None \<and> f_id (ev_files e' f) = i \<and>
       po_files (ev_poller e') ! nat i = f \<and> pf_fd (po_pfds (ev_poller e') ! nat i) = fds f))"
proof -
  let ?e = "open_files fds fs (nio_event_setup n flags e)"
  have "pl.loop seekable (set fs) fds n ?e (\<lambda>_ _. None)"
    by (rule pl.opened_loop [OF assms(3-5)]) (rule poll_opened [OF assms(1,2)])
  from pl.calls_watched [OF this assms(6)] obtain e' where e':
    "run_calls (do_loop seekable (poll_ops poll run)) (cs @ [Prepare]) (Some ?e) =
      (Some e', snd (run_calls (do_wants seekable fds n) (cs @ [Prepare]) (\<lambda>_ _. None)))"
    "poll_rel {} (set fs) e'" "\<forall>f \<in> set fs. f_fd (ev_files e' f) = fds f"
    "\<forall>f \<in> set fs. \<forall>d. poll_watch e' f d = (w f d \<noteq> None) \<and> (\<forall>p. w f d = Some p \<longrightarrow> proc_of d (ev_files e' f) = Some p)"
    unfolding assms(7) by blast
  note r = poll_relD [OF e'(2)]
  have "\<exists>f \<in> set fs. \<exists>d. w f d \<noteq> None \<and> f_id (ev_files e' f) = i \<and>
       po_files (ev_poller e') ! nat i = f \<and> pf_fd (po_pfds (ev_poller e') ! nat i) = fds f"
    if i: "0 \<le> i" "i < po_count (ev_poller e')" for i
  proof -
    let ?f = "po_files (ev_poller e') ! nat i"
    have f: "?f \<in> set fs" "f_id (ev_files e' ?f) = i" using slots_at [OF r(5) i] by simp_all
    with i(1) have "f_id (ev_files e' ?f) \<noteq> - 1" by simp
    with r(7,8) [OF f(1)] f e'(3,4) show ?thesis by fastforce
  qed
  with e'(1,4) show ?thesis by blast
qed

theorem poll_watches_wanted_witness:
  "\<exists>w e'. fst (run_calls (do_wants (\<lambda>_. False) int 100)
       [Add Reading 5 True, Add Reading 6 False, Prepare, Del Reading 5, Add Writing 6 True] (\<lambda>_ _. None)) = w \<and>
    (\<forall>f \<in> set [5, 6]. \<forall>d. poll_watch e' f d = (w f d \<noteq> None) \<and>
      (\<forall>p. w f d = Some p \<longrightarrow> proc_of d (ev_files e' f) = Some p)) \<and> w 5 Reading = None \<and> w 6 Writing = Some True"
proof -
  let ?e = "blank_event (nio_poll_create 10)"
  have a: "ev_poller ?e = nio_poll_create 10" "card (set [5, 6 :: nat]) \<le> nat (if (10::int) \<le> 0 then 1024 else 10)"
    "ev_events ?e \<noteq> 0" "ev_events ?e \<notin> set [5, 6]" "0 \<notin> set [5, 6 :: nat]" by simp_all
  have "list_all (call_of (set [5, 6]))
      [Add Reading 5 True, Add Reading 6 False, Prepare, Del Reading 5, Add Writing 6 True]" by simp
  from poll_watches_wanted [where seekable = "\<lambda>_. False" and fds = int and n = 100 and poll = "\<lambda>_ _. Polled 0 []" and
      run = "\<lambda>_ _. Some" and flags = 0, OF a this refl]
  show ?thesis by (elim exE conjE) (rule exI, rule exI, intro conjI, rule refl, assumption, simp_all)
qed

text \<open>
  A callback that \<open>poll_wait\<close> runs may stop watching another descriptor that it will look at later
  in the same round: two descriptors are watched and ready, the callback of the first deletes the second,
  and the loop then uses the second one's index, by now -1, to read outside the array.
\<close>

theorem poll_wait_reads_outside:
  "\<exists>e. fst (run_calls (do_loop (\<lambda>_. False) (poll_ops (\<lambda>_ _. Polled 2 [POLLIN, POLLIN]) (\<lambda>_ _. Some)))
       [Add Reading 5 True, Add Reading 6 False]
       (Some (open_files int [5, 6] (nio_event_setup 100 NIO_EVENT_DIRECT (blank_event (nio_poll_create 2)))))) = Some e \<and>
    poll_wait (\<lambda>_ _. Polled 2 [POLLIN, POLLIN])
      (\<lambda>p f e. if p then nio_event_del_readwrite (poll_ops (\<lambda>_ _. Polled 2 [POLLIN, POLLIN]) (\<lambda>_ _. Some)) 6 e else Some e)
      0 e = None"
proof -
  have "case fst (run_calls (do_loop (\<lambda>_. False) (poll_ops (\<lambda>_ _. Polled 2 [POLLIN, POLLIN]) (\<lambda>_ _. Some)))
       [Add Reading 5 True, Add Reading 6 False]
       (Some (open_files int [5, 6] (nio_event_setup 100 NIO_EVENT_DIRECT (blank_event (nio_poll_create 2)))))) of
      None \<Rightarrow> False
    | Some e \<Rightarrow> poll_wait (\<lambda>_ _. Polled 2 [POLLIN, POLLIN])
      (\<lambda>p f e. if p then nio_event_del_readwrite (poll_ops (\<lambda>_ _. Polled 2 [POLLIN, POLLIN]) (\<lambda>_ _. Some)) 6 e else Some e)
      0 e = None"
    by code_simp
  then show ?thesis by (simp split: option.splits)
qed

end
