(* ===== verification/Nio_Select.thy ===== *)
theory Nio_Select
  imports Nio_Places
begin

text \<open>
  The select poller (c/src/events/nio_event_select.c), for systems other than Windows: three sets of
  descriptors beside an array of those that are in one of them.  The system call is an argument.
\<close>

subsection \<open>State and operations\<close>

text \<open>A \<open>fd_set\<close> is an array of \<open>FD_SETSIZE\<close> bits: a descriptor outside of it is an access outside the array.\<close>

definition FD_SETSIZE :: int where "FD_SETSIZE = 1024"

definition in_fd_set :: "int \<Rightarrow> bool" where
  "in_fd_set fd \<longleftrightarrow> 0 \<le> fd \<and> fd < FD_SETSIZE"

record selects =
  sl_rset :: "int set"
  sl_wset :: "int set"
  sl_xset :: "int set"
  sl_files :: "nat list"
  sl_size :: int
  sl_count :: int
  sl_maxfd :: int
  sl_dirty :: bool
  sl_ready :: "nat list"

type_synonym 'p select_event = "('p, selects) nio_event"

definition nio_select_create :: "int \<Rightarrow> selects" where
  "nio_select_create limit =
     (let n = (if limit \<le> 0 then 1024 else limit)
      in \<lparr>sl_rset = {}, sl_wset = {}, sl_xset = {}, sl_files = replicate (nat n) 0, sl_size = n, sl_count = 0,
           sl_maxfd = - 1, sl_dirty = False, sl_ready = []\<rparr>)"

text \<open>The beginning of \<open>select_add_read\<close> and of \<open>select_add_write\<close>: a place for the descriptor.\<close>

definition select_enter :: "nat \<Rightarrow> 'p select_event \<Rightarrow> 'p select_event option" where
  "select_enter f e =
     (let fd = f_fd (ev_files e f); i = f_id (ev_files e f); k = ev_poller e
      in if \<not> in_fd_set fd then None
         else if fd \<in> sl_wset k \<or> fd \<in> sl_rset k
         then if 0 \<le> i \<and> i < sl_count k \<and> sl_files k ! nat i = f then Some e else None
         else if sl_count k < sl_size k then
           let e = upd_file f (\<lambda>fe. fe\<lparr>f_id := sl_count k\<rparr>) e;
               e = upd_poller (\<lambda>k. k\<lparr>sl_files := (sl_files k)[nat (sl_count k) := f], sl_count := sl_count k + 1,
                     sl_xset := insert fd (sl_xset k), sl_maxfd := (if fd > sl_maxfd k then fd else sl_maxfd k)\<rparr>) e
           in Some (e\<lparr>ev_fdcount := ev_fdcount e + 1\<rparr>)
         else None)"

definition select_add_read :: "nat \<Rightarrow> 'p select_event \<Rightarrow> ('p select_event \<times> int) option" where
  "select_add_read f e =
     Option.bind (select_enter f e) (\<lambda>e.
       let e = upd_file f (\<lambda>fe. fe\<lparr>f_mask := f_mask fe OR NIO_EVENT_READ\<rparr>) e
       in Some (upd_poller (\<lambda>k. k\<lparr>sl_rset := insert (f_fd (ev_files e f)) (sl_rset k)\<rparr>) e, 0))"

definition select_add_write :: "nat \<Rightarrow> 'p select_event \<Rightarrow> ('p select_event \<times> int) option" where
  "select_add_write f e =
     Option.bind (select_enter f e) (\<lambda>e.
       let e = upd_file f (\<lambda>fe. fe\<lparr>f_mask := f_mask fe OR NIO_EVENT_WRITE\<rparr>) e
       in Some (upd_poller (\<lambda>k. k\<lparr>sl_wset := insert (f_fd (ev_files e f)) (sl_wset k)\<rparr>) e, 0))"

text \<open>The place of a descriptor is given up: the last one moves into it.\<close>

definition select_leave :: "nat \<Rightarrow> 'p select_event \<Rightarrow> 'p select_event" where
  "select_leave f e =
     (let fd = f_fd (ev_files e f); i = f_id (ev_files e f);
          e = upd_poller (\<lambda>k. k\<lparr>sl_xset := sl_xset k - {fd}, sl_count := sl_count k - 1\<rparr>) e;
          n = sl_count (ev_poller e);
          e = (if i < n then
                 let e = upd_poller (\<lambda>k. k\<lparr>sl_files := (sl_files k)[nat i := sl_files k ! nat n]\<rparr>) e
                 in upd_file (sl_files (ev_poller e) ! nat i) (\<lambda>fe. fe\<lparr>f_id := i\<rparr>) e
               else e);
          e = upd_file f (\<lambda>fe. fe\<lparr>f_id := - 1\<rparr>) e;
          e = (if fd = sl_maxfd (ev_poller e) then upd_poller (\<lambda>k. k\<lparr>sl_dirty := True\<rparr>) e else e)
      in e\<lparr>ev_fdcount := ev_fdcount e - 1\<rparr>)"

definition select_del_read :: "nat \<Rightarrow> 'p select_event \<Rightarrow> ('p select_event \<times> int) option" where
  "select_del_read f e =
     (let fd = f_fd (ev_files e f); i = f_id (ev_files e f)
      in if \<not> (0 \<le> i \<and> i < sl_count (ev_poller e)) \<or> \<not> in_fd_set fd then None
         else
           let e = (if fd \<in> sl_rset (ev_poller e) then upd_poller (\<lambda>k. k\<lparr>sl_rset := sl_rset k - {fd}\<rparr>) e else e);
               e = (if fd \<notin> sl_wset (ev_poller e) then select_leave f e else e)
           in Some (upd_file f (\<lambda>fe. fe\<lparr>f_mask := f_mask fe AND NOT NIO_EVENT_READ\<rparr>) e, 0))"

definition select_del_write :: "nat \<Rightarrow> 'p select_event \<Rightarrow> ('p select_event \<times> int) option" where
  "select_del_write f e =
     (let fd = f_fd (ev_files e f); i = f_id (ev_files e f)
      in if \<not> (0 \<le> i \<and> i < sl_count (ev_poller e)) \<or> \<not> in_fd_set fd then None
         else
           let e = (if fd \<in> sl_wset (ev_poller e) then upd_poller (\<lambda>k. k\<lparr>sl_wset := sl_wset k - {fd}\<rparr>) e else e);
               e = (if fd \<notin> sl_rset (ev_poller e) then select_leave f e else e)
           in Some (upd_file f (\<lambda>fe. fe\<lparr>f_mask := f_mask fe AND NOT NIO_EVENT_WRITE\<rparr>) e, 0))"

text \<open>
  \<open>select_event_wait\<close>: the greatest descriptor is computed again once one has been given up, on every
  call from then on, for the flag is never cleared.  The system call gets the sets for reading and for
  exceptions, and a null pointer for the one for writing; the copy of the set for writing is looked at behind the call, which did not get it.
\<close>

datatype select_result = Select_Failed bool | Selected int "int set" "int set"

definition select_maxfd :: "'p select_event \<Rightarrow> 'p select_event" where
  "select_maxfd e =
     upd_poller (\<lambda>k. k\<lparr>sl_maxfd := fold (\<lambda>f m. if f_fd (ev_files e f) > m then f_fd (ev_files e f) else m)
       (take (nat (sl_count k)) (sl_files k)) (- 1)\<rparr>) e"

definition select_timeval :: "int \<Rightarrow> (int \<times> int) option" where
  "select_timeval timeout = (if timeout \<ge> 0 then Some (timeout div 1000, timeout mod 1000 * 1000) else None)"

fun select_dispatch ::
  "('p \<Rightarrow> nat \<Rightarrow> 'p select_event \<Rightarrow> 'p select_event option) \<Rightarrow> int set \<Rightarrow> int set \<Rightarrow> int set \<Rightarrow> nat list \<Rightarrow> 'p select_event \<Rightarrow>
     ('p select_event \<times> ('p \<times> nat) list) option" where
  "select_dispatch run rset wset xset [] e = Some (e, [])"
| "select_dispatch run rset wset xset (f # fs) e =
     (let fd = f_fd (ev_files e f); r_proc = f_r_proc (ev_files e f); w_proc = f_w_proc (ev_files e f)
      in if \<not> in_fd_set fd then None
         else
           Option.bind (run_proc run (fd \<in> (if fd \<in> xset then sl_rset (ev_poller e) else rset)) r_proc f e) (\<lambda>(e, t1).
           Option.bind (run_proc run (fd \<in> (if fd \<in> xset then sl_wset (ev_poller e) else wset)) w_proc f e) (\<lambda>(e, t2).
           map_option (\<lambda>(e, t3). (e, t1 @ t2 @ t3)) (select_dispatch run rset wset xset fs e))))"

definition select_event_wait ::
  "(int \<Rightarrow> int set \<Rightarrow> int set option \<Rightarrow> int set \<Rightarrow> (int \<times> int) option \<Rightarrow> select_result) \<Rightarrow> ('p \<Rightarrow> nat \<Rightarrow> 'p select_event \<Rightarrow> 'p select_event option) \<Rightarrow>
     int \<Rightarrow> 'p select_event \<Rightarrow> ('p select_event \<times> int \<times> ('p \<times> nat) list) option" where
  "select_event_wait select run timeout e =
     (let wset = sl_wset (ev_poller e);
          e = (if sl_dirty (ev_poller e) then select_maxfd e else e);
          k = ev_poller e
      in case select (sl_maxfd k + 1) (sl_rset k) None (sl_xset k) (select_timeval timeout) of
           Select_Failed eintr \<Rightarrow> if eintr then Some (e, 0, []) else None
         | Selected n rset xset \<Rightarrow>
             if n = 0 then Some (e, 0, [])
             else
               let e = upd_poller (\<lambda>k. k\<lparr>sl_ready := sl_ready k @ take (nat (sl_count k)) (sl_files k)\<rparr>) e
               in map_option (\<lambda>(e, t). (upd_poller (\<lambda>k. k\<lparr>sl_ready := []\<rparr>) e, n, t))
                    (select_dispatch run rset wset xset (sl_ready (ev_poller e)) e))"

definition select_ops ::
  "(int \<Rightarrow> int set \<Rightarrow> int set option \<Rightarrow> int set \<Rightarrow> (int \<times> int) option \<Rightarrow> select_result) \<Rightarrow> ('p \<Rightarrow> nat \<Rightarrow> 'p select_event \<Rightarrow> 'p select_event option) \<Rightarrow>
     ('p, selects) poller_ops" where
  "select_ops select run =
     \<lparr>op_add_read = select_add_read, op_add_write = select_add_write, op_del_read = select_del_read,
      op_del_write = select_del_write, op_del_readwrite = None, op_event_fflush = None,
      op_event_wait = select_event_wait select run\<rparr>"

subsection \<open>Invariant\<close>

fun sl_set :: "direction \<Rightarrow> selects \<Rightarrow> int set" where
  "sl_set Reading = sl_rset" | "sl_set Writing = sl_wset"

fun upd_set :: "direction \<Rightarrow> (int set \<Rightarrow> int set) \<Rightarrow> selects \<Rightarrow> selects" where
  "upd_set Reading g k = k\<lparr>sl_rset := g (sl_rset k)\<rparr>" | "upd_set Writing g k = k\<lparr>sl_wset := g (sl_wset k)\<rparr>"

lemma upd_set_fields [simp]:
  "sl_set d' (upd_set d g k) = (if d' = d then g (sl_set d k) else sl_set d' k)"
  "sl_xset (upd_set d g k) = sl_xset k" "sl_files (upd_set d g k) = sl_files k" "sl_size (upd_set d g k) = sl_size k"
  "sl_count (upd_set d g k) = sl_count k" "sl_maxfd (upd_set d g k) = sl_maxfd k"
  by (cases d; cases d'; simp)+

lemma upd_set_eq:
  "upd_set Reading g = (\<lambda>k. k\<lparr>sl_rset := g (sl_rset k)\<rparr>)" "upd_set Writing g = (\<lambda>k. k\<lparr>sl_wset := g (sl_wset k)\<rparr>)"
  by (simp_all add: fun_eq_iff)

lemma sl_set_fields [simp]:
  "sl_set d (k\<lparr>sl_xset := a, sl_files := b, sl_count := c, sl_maxfd := m\<rparr>) = sl_set d k"
  "sl_set d (k\<lparr>sl_files := b, sl_count := c, sl_xset := a, sl_maxfd := m\<rparr>) = sl_set d k"
  by (cases d; simp)+

definition select_watch :: "'p select_event \<Rightarrow> nat \<Rightarrow> direction \<Rightarrow> bool" where
  "select_watch e f d \<longleftrightarrow> f_fd (ev_files e f) \<in> sl_set d (ev_poller e)"


text \<open>The invariant, but for descriptors in \<open>X\<close> that may have a place and nothing to watch.\<close>

definition select_rel :: "nat set \<Rightarrow> nat set \<Rightarrow> 'p select_event \<Rightarrow> bool" where
  "select_rel X F e \<longleftrightarrow>
     finite F \<and> int (card F) \<le> sl_size (ev_poller e) \<and> length (sl_files (ev_poller e)) = nat (sl_size (ev_poller e)) \<and>
     inj_on (\<lambda>f. f_fd (ev_files e f)) F \<and>
     slots (sl_count (ev_poller e)) (sl_files (ev_poller e)) (idf e) F \<and>
     (\<forall>f \<in> F. in_fd_set (f_fd (ev_files e f))) \<and>
     (\<forall>f \<in> F. \<forall>d. has (f_mask (ev_files e f)) (ev_bit d) = select_watch e f d) \<and>
     (\<forall>f \<in> F. if idf e f = - 1 then \<forall>d. \<not> select_watch e f d else f \<notin> X \<longrightarrow> (\<exists>d. select_watch e f d)) \<and>
     (\<forall>f \<in> F. f_fd (ev_files e f) \<in> sl_xset (ev_poller e) \<longleftrightarrow> idf e f \<noteq> - 1) \<and>
     (\<forall>f \<in> F. idf e f \<noteq> - 1 \<longrightarrow> f_fd (ev_files e f) \<le> sl_maxfd (ev_poller e)) \<and>
     ev_fdcount e = sl_count (ev_poller e)"

lemma select_relI:
  assumes "finite F" "int (card F) \<le> sl_size (ev_poller e)" "length (sl_files (ev_poller e)) = nat (sl_size (ev_poller e))"
    "inj_on (\<lambda>f. f_fd (ev_files e f)) F" "slots (sl_count (ev_poller e)) (sl_files (ev_poller e)) (idf e) F"
    "\<And>f. f \<in> F \<Longrightarrow> in_fd_set (f_fd (ev_files e f))"
    "\<And>f d. f \<in> F \<Longrightarrow> has (f_mask (ev_files e f)) (ev_bit d) = select_watch e f d"
    "\<And>f d. f \<in> F \<Longrightarrow> idf e f = - 1 \<Longrightarrow> \<not> select_watch e f d"
    "\<And>f. f \<in> F \<Longrightarrow> idf e f \<noteq> - 1 \<Longrightarrow> f \<notin> X \<Longrightarrow> \<exists>d. select_watch e f d"
    "\<And>f. f \<in> F \<Longrightarrow> f_fd (ev_files e f) \<in> sl_xset (ev_poller e) \<longleftrightarrow> idf e f \<noteq> - 1"
    "\<And>f. f \<in> F \<Longrightarrow> idf e f \<noteq> - 1 \<Longrightarrow> f_fd (ev_files e f) \<le> sl_maxfd (ev_poller e)"
    "ev_fdcount e = sl_count (ev_poller e)"
  shows "select_rel X F e"
  unfolding select_rel_def using assms by simp

lemma select_relD:
  assumes "select_rel X F e"
  shows "finite F" "int (card F) \<le> sl_size (ev_poller e)" "length (sl_files (ev_poller e)) = nat (sl_size (ev_poller e))"
    "inj_on (\<lambda>f. f_fd (ev_files e f)) F" "slots (sl_count (ev_poller e)) (sl_files (ev_poller e)) (idf e) F"
    "\<And>f. f \<in> F \<Longrightarrow> in_fd_set (f_fd (ev_files e f))"
    "\<And>f d. f \<in> F \<Longrightarrow> has (f_mask (ev_files e f)) (ev_bit d) = select_watch e f d"
    "\<And>f d. f \<in> F \<Longrightarrow> idf e f = - 1 \<Longrightarrow> \<not> select_watch e f d"
    "\<And>f. f \<in> F \<Longrightarrow> idf e f \<noteq> - 1 \<Longrightarrow> f \<notin> X \<Longrightarrow> \<exists>d. select_watch e f d"
    "\<And>f. f \<in> F \<Longrightarrow> f_fd (ev_files e f) \<in> sl_xset (ev_poller e) \<longleftrightarrow> idf e f \<noteq> - 1"
    "\<And>f. f \<in> F \<Longrightarrow> idf e f \<noteq> - 1 \<Longrightarrow> f_fd (ev_files e f) \<le> sl_maxfd (ev_poller e)"
    "ev_fdcount e = sl_count (ev_poller e)"
  using assms unfolding select_rel_def by (auto split: if_splits)

subsection \<open>Entering and leaving\<close>

lemma select_placed: "select_watch e f d \<Longrightarrow> f_fd (ev_files e f) \<in> sl_wset (ev_poller e) \<or> f_fd (ev_files e f) \<in> sl_rset (ev_poller e)"
  by (cases d) (simp_all add: select_watch_def)

lemma select_unplaced: "(\<And>d. \<not> select_watch e f d) \<Longrightarrow> f_fd (ev_files e f) \<notin> sl_wset (ev_poller e) \<and> f_fd (ev_files e f) \<notin> sl_rset (ev_poller e)"
  unfolding select_watch_def by (metis sl_set.simps)

lemma select_enter_ok:
  assumes inv: "select_rel {} F e" and f: "f \<in> F"
  shows "\<exists>e'. select_enter f e = Some e' \<and> select_rel {f} F e' \<and> idf e' f \<noteq> - 1 \<and>
    remasked F f (\<lambda>d. has (f_mask (ev_files e f)) (ev_bit d)) e e'"
proof (cases "idf e f = - 1")
  case False
  note r = select_relD [OF inv]
  obtain d where "select_watch e f d" using r(9) [OF f False] by auto
  then have "select_enter f e = Some e"
    using select_placed [of e f d] slots_of [OF r(5) f False] r(6) [OF f] by (auto simp: select_enter_def Let_def)
  moreover have "select_rel {f} F e" using r by (intro select_relI) auto
  ultimately show ?thesis using False remasked_refl by blast
next
  case True
  note r = select_relD [OF inv]
  let ?k = "ev_poller e" and ?n = "sl_count (ev_poller e)" and ?fd = "f_fd (ev_files e f)"
  have n: "?n < sl_size ?k" "0 \<le> ?n"
    using slots_room [OF r(5,1) _ f] True r(2,3) r(5) by (auto simp: slots_def)
  let ?e1 = "e\<lparr>ev_files := (ev_files e)(f := (ev_files e f)\<lparr>f_id := ?n\<rparr>),
       ev_poller := ?k\<lparr>sl_files := (sl_files ?k)[nat ?n := f], sl_count := ?n + 1, sl_xset := insert ?fd (sl_xset ?k),
          sl_maxfd := (if ?fd > sl_maxfd ?k then ?fd else sl_maxfd ?k)\<rparr>, ev_fdcount := ev_fdcount e + 1\<rparr>"
  have none: "\<not> select_watch e f d" for d by (rule r(8) [OF f True])
  have run: "select_enter f e = Some ?e1"
    using n select_unplaced [OF none] r(6) [OF f] by (simp add: select_enter_def upd_file_def upd_poller_def Let_def)
  have watch: "select_watch ?e1 g d = select_watch e g d" for g d by (simp add: select_watch_def)
  have ids: "idf ?e1 = (idf e)(f := ?n)" by (simp add: fun_eq_iff)
  have fds: "f_fd (ev_files ?e1 g) = f_fd (ev_files e g)" for g by simp
  have "select_rel {f} F ?e1"
  proof (rule select_relI)
    show "slots (sl_count (ev_poller ?e1)) (sl_files (ev_poller ?e1)) (idf ?e1) F"
      unfolding ids using slots_add [OF r(5) f True] n r(3) by simp
    show "inj_on (\<lambda>g. f_fd (ev_files ?e1 g)) F" unfolding fds by (rule r(4))
    show "f_fd (ev_files ?e1 g) \<in> sl_xset (ev_poller ?e1) \<longleftrightarrow> idf ?e1 g \<noteq> - 1" if "g \<in> F" for g
      using r(10) [OF that] inj_onD [OF r(4) _ that f] n by (cases "g = f") auto
    show "f_fd (ev_files ?e1 g) \<le> sl_maxfd (ev_poller ?e1)" if "g \<in> F" "idf ?e1 g \<noteq> - 1" for g
      using r(11) [OF that(1)] that(2) by (cases "g = f") auto
    show "in_fd_set (f_fd (ev_files ?e1 g))" if "g \<in> F" for g unfolding fds by (rule r(6) [OF that])
    show "has (f_mask (ev_files ?e1 g)) (ev_bit d) = select_watch ?e1 g d" if "g \<in> F" for g d
      unfolding watch using r(7) [OF that] by (cases "g = f") simp_all
    show "\<not> select_watch ?e1 g d" if "g \<in> F" "idf ?e1 g = - 1" for g d
      unfolding watch using r(8) [OF that(1)] that(2) none by (cases "g = f") auto
    show "\<exists>d. select_watch ?e1 g d" if "g \<in> F" "idf ?e1 g \<noteq> - 1" "g \<notin> {f}" for g
      unfolding watch using r(9) [OF that(1)] that(2,3) by auto
  qed (use r in simp_all)
  moreover have "remasked F f (\<lambda>d. has (f_mask (ev_files e f)) (ev_bit d)) e ?e1"
  proof (rule remaskedI)
    show "\<exists>i m. ev_files ?e1 g = (ev_files e g)\<lparr>f_id := i, f_mask := m\<rparr>" for g
      by (rule exI [of _ "idf ?e1 g"], rule exI [of _ "f_mask (ev_files e g)"]) simp
  qed simp_all
  ultimately show ?thesis using run n by auto
qed


text \<open>\<open>select_leave\<close>, without its intermediate states.\<close>

lemma select_leave_fields:
  fixes e :: "'p select_event" and f :: nat
  defines "i \<equiv> idf e f" and "n \<equiv> sl_count (ev_poller e) - 1"
  defines "fs \<equiv> (if i < n then (sl_files (ev_poller e))[nat i := sl_files (ev_poller e) ! nat n] else sl_files (ev_poller e))"
  shows "sl_count (ev_poller (select_leave f e)) = n" "sl_size (ev_poller (select_leave f e)) = sl_size (ev_poller e)"
    "sl_files (ev_poller (select_leave f e)) = fs" "sl_set d (ev_poller (select_leave f e)) = sl_set d (ev_poller e)"
    "sl_xset (ev_poller (select_leave f e)) = sl_xset (ev_poller e) - {f_fd (ev_files e f)}"
    "sl_maxfd (ev_poller (select_leave f e)) = sl_maxfd (ev_poller e)" "sl_ready (ev_poller (select_leave f e)) = sl_ready (ev_poller e)"
    "sl_dirty (ev_poller (select_leave f e)) = (sl_dirty (ev_poller e) \<or> f_fd (ev_files e f) = sl_maxfd (ev_poller e))"
    "ev_fdcount (select_leave f e) = ev_fdcount e - 1"
    "ev_files (select_leave f e) h =
       (if h = f then (ev_files e f)\<lparr>f_id := - 1\<rparr> else if i < n \<and> h = fs ! nat i then (ev_files e h)\<lparr>f_id := i\<rparr> else ev_files e h)"
    "ev_rings (select_leave f e) = ev_rings e" "ev_events (select_leave f e) = ev_events e" "ev_timeout (select_leave f e) = ev_timeout e"
    "ev_setsize (select_leave f e) = ev_setsize e" "ev_flags (select_leave f e) = ev_flags e"
proof -
  have set: "sl_set d (k\<lparr>sl_xset := a, sl_count := c\<rparr>) = sl_set d k" "sl_set d (k\<lparr>sl_files := b\<rparr>) = sl_set d k"
    "sl_set d (k\<lparr>sl_dirty := m\<rparr>) = sl_set d k" for a b c m k by (cases d; simp)+
  show "sl_set d (ev_poller (select_leave f e)) = sl_set d (ev_poller e)"
    by (cases "i < n") (simp_all add: select_leave_def Let_def set i_def n_def)
qed (cases "i < n"; simp add: select_leave_def Let_def i_def n_def fs_def)+

lemma select_leave_ok:
  assumes rel: "select_rel {f} F e" and f: "f \<in> F" and id: "idf e f \<noteq> - 1" and none: "\<And>d. \<not> select_watch e f d"
  shows "select_rel {} F (select_leave f e) \<and> remasked F f (\<lambda>d. False) e (select_leave f e)"
proof -
  note r = select_relD [OF rel]
  let ?k = "ev_poller e" and ?e1 = "select_leave f e"
  define n i g where nig: "n = sl_count ?k - 1" "i = idf e f" "g = sl_files ?k ! nat n"
  have i: "0 \<le> i" "i \<le> n" "nat i < length (sl_files ?k)" using slots_of [OF r(5) f id] by (auto simp: nig)
  have gF: "g \<in> F" "idf e g = n" using slots_at [OF r(5), of n] i by (auto simp: nig)
  have files: "ev_files ?e1 h = (if h = f then (ev_files e f)\<lparr>f_id := - 1\<rparr>
      else if i < n \<and> h = g then (ev_files e g)\<lparr>f_id := i\<rparr> else ev_files e h)" for h
    using i(3) by (simp add: select_leave_fields Let_def nig)
  have ids: "idf ?e1 = (if i < n then (idf e)(g := i) else idf e)(f := - 1)" by (simp add: fun_eq_iff files)
  have placed: "idf ?e1 h \<noteq> - 1 \<longleftrightarrow> h \<noteq> f \<and> idf e h \<noteq> - 1" for h
    using gF i by (auto simp: files)
  have watch: "select_watch ?e1 h d = select_watch e h d" for h d
    by (simp add: select_watch_def select_leave_fields files)
  have fds: "f_fd (ev_files ?e1 h) = f_fd (ev_files e h)" for h by (simp add: files)
  have mask: "f_mask (ev_files ?e1 h) = f_mask (ev_files e h)" for h by (simp add: files)
  have "select_rel {} F ?e1"
  proof (rule select_relI)
    show "slots (sl_count (ev_poller ?e1)) (sl_files (ev_poller ?e1)) (idf ?e1) F"
      unfolding ids nig select_leave_fields(1,3) by (rule slots_del [OF r(5) f id])
    show "inj_on (\<lambda>h. f_fd (ev_files ?e1 h)) F" unfolding fds by (rule r(4))
    show "length (sl_files (ev_poller ?e1)) = nat (sl_size (ev_poller ?e1))" using r(3) by (simp add: select_leave_fields(2,3))
    show "f_fd (ev_files ?e1 h) \<in> sl_xset (ev_poller ?e1) \<longleftrightarrow> idf ?e1 h \<noteq> - 1" if "h \<in> F" for h
      unfolding placed fds select_leave_fields(5) using r(10) [OF that] inj_onD [OF r(4) _ that f] by auto
    show "\<not> select_watch ?e1 h d" if "h \<in> F" "idf ?e1 h = - 1" for h d
      unfolding watch using r(8) [OF that(1)] none placed [of h] that(2) by auto
    show "\<exists>d. select_watch ?e1 h d" if "h \<in> F" "idf ?e1 h \<noteq> - 1" "h \<notin> {}" for h
      unfolding watch using r(9) [OF that(1)] that(2) placed by simp
    show "f_fd (ev_files ?e1 h) \<le> sl_maxfd (ev_poller ?e1)" if "h \<in> F" "idf ?e1 h \<noteq> - 1" for h
      using r(11) [OF that(1)] that(2) placed by (simp add: fds select_leave_fields(6))
  qed (use r in \<open>simp_all add: fds mask watch select_leave_fields(1,2,9)\<close>)
  moreover have "remasked F f (\<lambda>d. False) e ?e1"
  proof (rule remaskedI)
    show "\<exists>i m. ev_files ?e1 h = (ev_files e h)\<lparr>f_id := i, f_mask := m\<rparr>" for h
      by (rule exI [of _ "idf ?e1 h"], rule exI [of _ "f_mask (ev_files e h)"]) (simp add: files)
    show "has (f_mask (ev_files ?e1 f)) (ev_bit d) = False" for d
      using r(7) [OF f, of d] none by (simp add: mask)
  qed (simp_all add: mask select_leave_fields)
  ultimately show ?thesis by blast
qed

subsection \<open>The poller's contract\<close>

definition select_set :: "bool \<Rightarrow> direction \<Rightarrow> nat \<Rightarrow> 'p select_event \<Rightarrow> 'p select_event" where
  "select_set b d f e =
     upd_poller (upd_set d (if b then insert (f_fd (ev_files e f)) else (\<lambda>s. s - {f_fd (ev_files e f)})))
       (upd_file f (\<lambda>fe. fe\<lparr>f_mask := if b then f_mask fe OR ev_bit d else f_mask fe AND NOT (ev_bit d)\<rparr>) e)"

lemma select_set_ok:
  assumes rel: "select_rel {f} F e" and f: "f \<in> F" and id: "idf e f \<noteq> - 1"
  shows "select_rel {f} F (select_set b d f e) \<and> idf (select_set b d f e) f \<noteq> - 1 \<and>
    remasked F f (\<lambda>d'. if d' = d then b else has (f_mask (ev_files e f)) (ev_bit d')) e (select_set b d f e)"
proof -
  note r = select_relD [OF rel]
  let ?e1 = "select_set b d f e"
  have fields: "sl_count (ev_poller ?e1) = sl_count (ev_poller e)" "sl_size (ev_poller ?e1) = sl_size (ev_poller e)"
    "sl_files (ev_poller ?e1) = sl_files (ev_poller e)" "sl_xset (ev_poller ?e1) = sl_xset (ev_poller e)"
    "sl_maxfd (ev_poller ?e1) = sl_maxfd (ev_poller e)" "ev_fdcount ?e1 = ev_fdcount e"
    "f_id (ev_files ?e1 g) = f_id (ev_files e g)" "f_fd (ev_files ?e1 g) = f_fd (ev_files e g)" for g
    by (simp_all add: select_set_def)
  have watch: "select_watch ?e1 g d' = (if g = f \<and> d' = d then b else select_watch e g d')" if "g \<in> F" for g d'
    using inj_onD [OF r(4) _ that f] by (cases b) (auto simp: select_watch_def select_set_def)
  have mask: "has (f_mask (ev_files ?e1 g)) (ev_bit d') = (if g = f \<and> d' = d then b else has (f_mask (ev_files e g)) (ev_bit d'))" for g d'
    by (cases "g = f"; cases b; cases "d' = d") (simp_all add: select_set_def)
  have "select_rel {f} F ?e1"
  proof (rule select_relI)
    show "has (f_mask (ev_files ?e1 g)) (ev_bit d') = select_watch ?e1 g d'" if "g \<in> F" for g d'
      using r(7) [OF that] by (simp add: mask watch [OF that])
    show "\<not> select_watch ?e1 g d'" if "g \<in> F" "idf ?e1 g = - 1" for g d'
      using r(8) [OF that(1)] that(2) id by (auto simp: watch [OF that(1)] fields)
    show "\<exists>d. select_watch ?e1 g d" if "g \<in> F" "idf ?e1 g \<noteq> - 1" "g \<notin> {f}" for g
      using r(9) [OF that(1)] that by (simp add: watch [OF that(1)] fields)
  qed (use r in \<open>simp_all add: fields\<close>)
  moreover have "remasked F f (\<lambda>d'. if d' = d then b else has (f_mask (ev_files e f)) (ev_bit d')) e ?e1"
  proof (rule remaskedI)
    show "\<exists>i m. ev_files ?e1 g = (ev_files e g)\<lparr>f_id := i, f_mask := m\<rparr>" for g
      by (rule exI [of _ "idf e g"], rule exI [of _ "f_mask (ev_files ?e1 g)"]) (simp add: select_set_def)
  qed (simp_all add: mask, simp_all add: select_set_def)
  ultimately show ?thesis using id by (simp add: fields)
qed

lemma select_add_eq:
  "op_add (select_ops select run) d f e = map_option (\<lambda>e. (select_set True d f e, 0)) (select_enter f e)"
  by (cases d; cases "select_enter f e")
     (simp_all add: select_ops_def select_add_read_def select_add_write_def select_set_def Let_def upd_poller_def)

lemma select_leave_mask:
  fixes e :: "'p select_event" and f :: nat and m :: byte
  defines "g \<equiv> upd_file f (\<lambda>fe. fe\<lparr>f_mask := f_mask fe AND m\<rparr>) :: 'p select_event \<Rightarrow> 'p select_event"
  shows "g (select_leave f e) = select_leave f (g e)"
proof (rule nio_event.equality)
  show "ev_files (g (select_leave f e)) = ev_files (select_leave f (g e))"
    by (rule ext) (simp add: select_leave_fields g_def)
  show "ev_poller (g (select_leave f e)) = ev_poller (select_leave f (g e))"
    by (rule selects.equality) (simp_all add: select_leave_fields select_leave_fields(4) [where d = Reading, simplified]
      select_leave_fields(4) [where d = Writing, simplified] g_def)
qed (simp_all add: select_leave_fields g_def)

lemma select_del_eq:
  assumes "select_rel {} F e" "f \<in> F" "idf e f \<noteq> - 1"
  shows "op_del (select_ops select run) d f e =
    Some (if select_watch (select_set False d f e) f (other d) then select_set False d f e else select_leave f (select_set False d f e), 0)"
proof -
  note r = select_relD [OF assms(1)]
  note s = slots_of [OF r(5) assms(2,3)]
  let ?fd = "f_fd (ev_files e f)"
  have clear: "?fd \<notin> sl_rset (ev_poller e) \<Longrightarrow> upd_poller (\<lambda>k. k\<lparr>sl_rset := sl_rset k - {?fd}\<rparr>) e = e"
    "?fd \<notin> sl_wset (ev_poller e) \<Longrightarrow> upd_poller (\<lambda>k. k\<lparr>sl_wset := sl_wset k - {?fd}\<rparr>) e = e"
    by (simp_all add: upd_poller_def)
  have comm: "upd_file f g (upd_poller h e) = upd_poller h (upd_file f g e)" for g h and e :: "'a select_event"
    by (simp add: upd_file_def upd_poller_def)
  show ?thesis
  proof (cases d)
    case Reading
    let ?c = "upd_poller (upd_set Reading (\<lambda>s. s - {?fd})) e"
    have "select_del_read f e = Some (upd_file f (\<lambda>fe. fe\<lparr>f_mask := f_mask fe AND NOT NIO_EVENT_READ\<rparr>)
        (if ?fd \<notin> sl_wset (ev_poller ?c) then select_leave f ?c else ?c), 0)"
      using s(1,2) r(6) [OF assms(2)] by (auto simp: clear select_del_read_def upd_set_eq Let_def)
    moreover have "select_set False Reading f e = upd_file f (\<lambda>fe. fe\<lparr>f_mask := f_mask fe AND NOT NIO_EVENT_READ\<rparr>) ?c"
      by (simp add: select_set_def comm)
    ultimately show ?thesis using Reading by (simp add: select_ops_def select_leave_mask select_watch_def)
  next
    case Writing
    let ?c = "upd_poller (upd_set Writing (\<lambda>s. s - {?fd})) e"
    have "select_del_write f e = Some (upd_file f (\<lambda>fe. fe\<lparr>f_mask := f_mask fe AND NOT NIO_EVENT_WRITE\<rparr>)
        (if ?fd \<notin> sl_rset (ev_poller ?c) then select_leave f ?c else ?c), 0)"
      using s(1,2) r(6) [OF assms(2)] by (auto simp: clear select_del_write_def upd_set_eq Let_def)
    moreover have "select_set False Writing f e = upd_file f (\<lambda>fe. fe\<lparr>f_mask := f_mask fe AND NOT NIO_EVENT_WRITE\<rparr>) ?c"
      by (simp add: select_set_def comm)
    ultimately show ?thesis using Writing by (simp add: select_ops_def select_leave_mask select_watch_def)
  qed
qed

interpretation sl: table_poller seekable "select_ops select run" select_enter select_leave select_set select_rel select_watch
  for seekable select and run :: "'p \<Rightarrow> nat \<Rightarrow> 'p select_event \<Rightarrow> 'p select_event option"
proof
  fix X F f d b and e e' :: "'p select_event"
  show "select_rel X F e \<Longrightarrow> f \<in> F \<Longrightarrow> select_watch e f d \<longleftrightarrow> has (f_mask (ev_files e f)) (ev_bit d)"
    by (simp add: select_relD)
  show "select_rel X F e \<Longrightarrow> f \<in> F \<Longrightarrow> select_watch e f d \<Longrightarrow> idf e f \<noteq> - 1"
    by (blast dest: select_relD(8))
  show "select_rel {} F e \<Longrightarrow> select_rel X F e" by (auto simp: select_rel_def)
  show "select_rel {f} F e \<Longrightarrow> select_watch e f d \<Longrightarrow> select_rel {} F e"
    by (rule select_relI) (auto dest: select_relD)
  show "op_add (select_ops select run) d f e = map_option (\<lambda>e. (select_set True d f e, 0)) (select_enter f e)" by (rule select_add_eq)
  assume r: "select_rel {} F e"
  show "f \<in> F \<Longrightarrow> \<exists>e'. select_enter f e = Some e' \<and> select_rel {f} F e' \<and> idf e' f \<noteq> - 1 \<and>
      remasked F f (\<lambda>d. has (f_mask (ev_files e f)) (ev_bit d)) e e'" by (rule select_enter_ok [OF r])
  show "f \<in> F \<Longrightarrow> idf e f \<noteq> - 1 \<Longrightarrow> op_del (select_ops select run) d f e = Some (if select_watch (select_set False d f e) f (other d)
      then select_set False d f e else select_leave f (select_set False d f e), 0)" by (rule select_del_eq [OF r])
  assume same: "same_poller F e e'"
  have k: "ev_poller e' = ev_poller e" "ev_fdcount e' = ev_fdcount e"
    and g: "\<And>g. g \<in> F \<Longrightarrow> f_fd (ev_files e' g) = f_fd (ev_files e g) \<and> f_id (ev_files e' g) = f_id (ev_files e g) \<and>
      f_mask (ev_files e' g) = f_mask (ev_files e g)" using same by (simp_all add: same_poller_def)
  have w: "\<And>g d. g \<in> F \<Longrightarrow> select_watch e' g d = select_watch e g d" using k g by (simp add: select_watch_def)
  show "select_rel {} F e'"
  proof (rule select_relI)
    show "slots (sl_count (ev_poller e')) (sl_files (ev_poller e')) (idf e') F"
      unfolding k by (rule slots_cong [OF _ select_relD(5) [OF r]]) (simp add: g)
    show "inj_on (\<lambda>f. f_fd (ev_files e' f)) F" using select_relD(4) [OF r] g by (simp add: inj_on_def)
  qed (use select_relD [OF r] k g w in simp_all)
qed (simp_all add: select_ops_def select_leave_ok select_set_ok)

subsection \<open>Waiting\<close>

text \<open>The greatest descriptor, when it is computed again.\<close>

lemma fold_max:
  fixes g :: "'a \<Rightarrow> int"
  shows "m \<le> fold (\<lambda>x m. if g x > m then g x else m) xs m \<and>
    (\<forall>x \<in> set xs. g x \<le> fold (\<lambda>x m. if g x > m then g x else m) xs m)"
proof (induction xs arbitrary: m)
  case (Cons x xs)
  from Cons [of "if g x > m then g x else m"] show ?case by (auto split: if_splits)
qed simp

lemma select_maxfd_ok:
  assumes "select_rel X F e" shows "select_rel X F (select_maxfd e)"
proof (rule select_relI)
  note r = select_relD [OF assms]
  let ?e1 = "select_maxfd e"
  have fields: "ev_files ?e1 = ev_files e" "ev_fdcount ?e1 = ev_fdcount e" "sl_count (ev_poller ?e1) = sl_count (ev_poller e)"
    "sl_files (ev_poller ?e1) = sl_files (ev_poller e)" "sl_size (ev_poller ?e1) = sl_size (ev_poller e)"
    "sl_xset (ev_poller ?e1) = sl_xset (ev_poller e)"
    by (simp_all add: select_maxfd_def)
  have watch: "select_watch ?e1 f d = select_watch e f d" for f d
    by (cases d) (simp_all add: select_watch_def select_maxfd_def)
  show "f_fd (ev_files ?e1 f) \<le> sl_maxfd (ev_poller ?e1)" if "f \<in> F" "idf ?e1 f \<noteq> - 1" for f
  proof -
    let ?fs = "take (nat (sl_count (ev_poller e))) (sl_files (ev_poller e))"
    have id: "idf e f \<noteq> - 1" using that(2) by (simp add: fields)
    note s = slots_of [OF r(5) that(1) id]
    have "?fs ! nat (idf e f) = f" "nat (idf e f) < length ?fs" using s by auto
    then have "f \<in> set ?fs" by (metis nth_mem)
    with fold_max [of "- 1" "\<lambda>f. f_fd (ev_files e f)" ?fs] show ?thesis by (simp add: select_maxfd_def)
  qed
  show "slots (sl_count (ev_poller ?e1)) (sl_files (ev_poller ?e1)) (idf ?e1) F" unfolding fields by (rule r(5))
  show "has (f_mask (ev_files ?e1 f)) (ev_bit d) = select_watch ?e1 f d" if "f \<in> F" for f d
    unfolding watch fields by (rule r(7) [OF that])
  show "\<not> select_watch ?e1 f d" if "f \<in> F" "idf ?e1 f = - 1" for f d
    using r(8) [OF that(1)] that(2) unfolding watch fields by blast
  show "\<exists>d. select_watch ?e1 f d" if "f \<in> F" "idf ?e1 f \<noteq> - 1" "f \<notin> X" for f
    using r(9) [OF that(1)] that(2,3) unfolding watch fields by blast
qed (use select_relD [OF assms] in \<open>simp_all add: select_maxfd_def\<close>)

definition told_by :: "int set \<Rightarrow> int \<Rightarrow> 'p option \<Rightarrow> nat \<Rightarrow> ('p \<times> nat) list" where
  "told_by ready fd proc f = (case proc of Some p \<Rightarrow> if fd \<in> ready then [(p, f)] else [] | None \<Rightarrow> [])"

lemma select_dispatch_quiet:
  assumes quiet: "\<And>p f e. \<exists>e'. run p f e = Some e' \<and> ev_files e' = ev_files e"
  shows "\<forall>f \<in> set fs. in_fd_set (f_fd (ev_files e f)) \<Longrightarrow>
    \<exists>e'. select_dispatch run rset wset {} fs e = Some (e', concat (map (\<lambda>f.
      told_by rset (f_fd (ev_files e f)) (f_r_proc (ev_files e f)) f @ told_by wset (f_fd (ev_files e f)) (f_w_proc (ev_files e f)) f) fs)) \<and>
      ev_files e' = ev_files e"
proof (induction fs arbitrary: e)
  case (Cons f fs)
  have run: "\<exists>e'. run_proc run (fd \<in> ready) proc f e = Some (e', told_by ready fd proc f) \<and> ev_files e' = ev_files e"
    for fd ready proc and e :: "'a select_event"
    using quiet [of _ f e] by (cases proc) (auto simp: run_proc_def told_by_def)
  let ?fd = "f_fd (ev_files e f)" and ?r = "f_r_proc (ev_files e f)" and ?w = "f_w_proc (ev_files e f)"
  obtain e1 where e1: "run_proc run (?fd \<in> rset) ?r f e = Some (e1, told_by rset ?fd ?r f)" "ev_files e1 = ev_files e"
    using run by blast
  obtain e2 where e2: "run_proc run (?fd \<in> wset) ?w f e1 = Some (e2, told_by wset ?fd ?w f)" "ev_files e2 = ev_files e"
    using run [where e = e1] e1(2) by metis
  have "\<forall>f \<in> set fs. in_fd_set (f_fd (ev_files e2 f))" using Cons.prems e2(2) by simp
  from Cons.IH [OF this] e1 e2 Cons.prems show ?case by (auto simp: Let_def)
qed simp

subsection \<open>Properties\<close>

lemma select_opened:
  assumes "ev_poller e = nio_select_create limit" "card (set fs) \<le> nat (if limit \<le> 0 then 1024 else limit)"
    "inj_on fds (set fs)" "\<forall>f \<in> set fs. in_fd_set (fds f)"
  shows "select_rel {} (set fs) (open_files fds fs (nio_event_setup n flags e))"
proof (rule select_relI)
  let ?e = "open_files fds fs (nio_event_setup n flags e)"
  have k: "ev_poller ?e = nio_select_create limit" "ev_fdcount ?e = 0" using assms(1) by (simp_all add: nio_event_setup_def)
  have c: "sl_count (nio_select_create limit) = 0" "sl_rset (nio_select_create limit) = {}" "sl_wset (nio_select_create limit) = {}"
    "sl_xset (nio_select_create limit) = {}" by (simp_all add: nio_select_create_def Let_def)
  note f = open_files_file [of _ fs fds "nio_event_setup n flags e"]
  show "slots (sl_count (ev_poller ?e)) (sl_files (ev_poller ?e)) (idf ?e) (set fs)"
    unfolding k c by (rule slots_empty) (simp add: f)
  show "inj_on (\<lambda>g. f_fd (ev_files ?e g)) (set fs)" using assms(3) f by (simp add: inj_on_def)
  have w: "\<not> select_watch ?e g d" for g d unfolding select_watch_def k(1) by (cases d) (simp_all add: c)
  then show "\<not> select_watch ?e g d" for g d .
  show "has (f_mask (ev_files ?e g)) (ev_bit d) = select_watch ?e g d" if "g \<in> set fs" for g d
    using f [OF that] w by (simp add: NIO_EVENT_NONE_def)
  show "int (card (set fs)) \<le> sl_size (ev_poller ?e)" "length (sl_files (ev_poller ?e)) = nat (sl_size (ev_poller ?e))"
    using assms(2) unfolding k by (simp_all add: nio_select_create_def Let_def split: if_splits)
qed (use assms open_files_file [of _ fs fds "nio_event_setup n flags e"] in
    \<open>auto simp: nio_event_setup_def nio_select_create_def Let_def\<close>)

text \<open>
  C31: with the select poller, whatever is asked for and taken back on open descriptors, in any order and with
  \<open>nio_event_prepare\<close> anywhere in between, no assertion fails and no loop runs forever, as long as the descriptors fit
  into an \<open>fd_set\<close>; after a last \<open>nio_event_prepare\<close> the set for each direction has of the descriptors exactly those
  that it was asked for last, a descriptor is in the set for exceptions exactly when it is in one of them, and none of
  them is beyond the greatest descriptor that \<open>select\<close> is told of.
\<close>

theorem select_watches_wanted:
  assumes "ev_poller e = nio_select_create limit" "card (set fs) \<le> nat (if limit \<le> 0 then 1024 else limit)"
    "inj_on fds (set fs)" "\<forall>f \<in> set fs. in_fd_set (fds f)"
    "ev_events e \<noteq> 0" "ev_events e \<notin> set fs" "0 \<notin> set fs" "list_all (call_of (set fs)) cs"
    "fst (run_calls (do_wants seekable fds n) cs (\<lambda>_ _. None)) = w"
  shows "\<exists>e'. run_calls (do_loop seekable (select_ops select run)) (cs @ [Prepare])
        (Some (open_files fds fs (nio_event_setup n flags e))) =
      (Some e', snd (run_calls (do_wants seekable fds n) (cs @ [Prepare]) (\<lambda>_ _. None))) \<and>
    (\<forall>f \<in> set fs. \<forall>d. (fds f \<in> sl_set d (ev_poller e')) = (w f d \<noteq> None) \<and>
       (\<forall>p. w f d = Some p \<longrightarrow> proc_of d (ev_files e' f) = Some p)) \<and>
    (\<forall>f \<in> set fs. (fds f \<in> sl_xset (ev_poller e')) = (\<exists>d. w f d \<noteq> None)) \<and>
    (\<forall>f \<in> set fs. (\<exists>d. w f d \<noteq> None) \<longrightarrow> fds f \<le> sl_maxfd (ev_poller e'))"
proof -
  let ?e = "open_files fds fs (nio_event_setup n flags e)"
  have "sl.loop seekable (set fs) fds n ?e (\<lambda>_ _. None)"
    by (rule sl.opened_loop [OF assms(5-7)]) (rule select_opened [OF assms(1-4)])
  from sl.calls_watched [OF this assms(8)] obtain e' where e':
    "run_calls (do_loop seekable (select_ops select run)) (cs @ [Prepare]) (Some ?e) =
      (Some e', snd (run_calls (do_wants seekable fds n) (cs @ [Prepare]) (\<lambda>_ _. None)))"
    "select_rel {} (set fs) e'" "\<forall>f \<in> set fs. f_fd (ev_files e' f) = fds f"
    "\<forall>f \<in> set fs. \<forall>d. select_watch e' f d = (w f d \<noteq> None) \<and> (\<forall>p. w f d = Some p \<longrightarrow> proc_of d (ev_files e' f) = Some p)"
    unfolding assms(9) by blast
  note r = select_relD [OF e'(2)]
  have placed: "idf e' f \<noteq> - 1 \<longleftrightarrow> (\<exists>d. w f d \<noteq> None)" if "f \<in> set fs" for f
    using r(8,9) [OF that] e'(4) that by blast
  have "(fds f \<in> sl_xset (ev_poller e')) = (\<exists>d. w f d \<noteq> None)" if "f \<in> set fs" for f
    using r(10) [OF that] placed [OF that] e'(3) that by simp
  moreover have "fds f \<le> sl_maxfd (ev_poller e')" if "f \<in> set fs" "\<exists>d. w f d \<noteq> None" for f
    using r(11) [OF that(1)] placed [OF that(1)] that e'(3) by simp
  moreover have "\<forall>f \<in> set fs. \<forall>d. (fds f \<in> sl_set d (ev_poller e')) = (w f d \<noteq> None) \<and>
      (\<forall>p. w f d = Some p \<longrightarrow> proc_of d (ev_files e' f) = Some p)"
    using e'(3,4) by (simp add: select_watch_def)
  ultimately show ?thesis using e'(1) by blast
qed

theorem select_watches_wanted_witness:
  "\<exists>e'. (\<forall>d. (5 \<in> sl_set d (ev_poller e')) = (d = Writing)) \<and> (\<forall>d. 6 \<notin> sl_set d (ev_poller e')) \<and> 5 \<le> sl_maxfd (ev_poller e') \<and>
     proc_of Writing (ev_files e' 5) = Some True \<and>
     fst (run_calls (do_loop (\<lambda>_. False) (select_ops (\<lambda>_ _ _ _ _. Selected 0 {} {}) (\<lambda>_ _. Some)))
       ([Add Reading 5 True, Add Reading 6 False, Prepare, Del Reading 5, Add Writing 5 True, Del_Both 6] @ [Prepare])
       (Some (open_files int [5, 6] (nio_event_setup 100 0 (blank_event (nio_select_create 10)))))) = Some e'"
proof -
  let ?e = "blank_event (nio_select_create 10)"
  let ?cs = "[Add Reading 5 True, Add Reading 6 False, Prepare, Del Reading 5, Add Writing 5 True, Del_Both 6]"
  have a: "ev_poller ?e = nio_select_create 10" "card (set [5, 6 :: nat]) \<le> nat (if (10::int) \<le> 0 then 1024 else 10)"
    "inj_on int (set [5, 6])" "\<forall>f \<in> set [5, 6]. in_fd_set (int f)"
    "ev_events ?e \<noteq> 0" "ev_events ?e \<notin> set [5, 6]" "0 \<notin> set [5, 6 :: nat]"
    by (simp_all add: in_fd_set_def FD_SETSIZE_def)
  have c: "list_all (call_of (set [5, 6])) ?cs" by simp
  have w: "fst (run_calls (do_wants (\<lambda>_. False) int 100) ?cs (\<lambda>_ _. None)) = (\<lambda>_ _. None)(5 := (\<lambda>_. None)(Writing := Some True))"
    by (auto simp: fun_eq_iff)
  from select_watches_wanted [where seekable = "\<lambda>_. False" and fds = int and n = 100 and select = "\<lambda>_ _ _ _ _. Selected 0 {} {}" and
      run = "\<lambda>_ _. Some" and flags = 0, OF a c w]
  show ?thesis by (elim exE conjE) (rule exI, auto split: if_splits)
qed

text \<open>
  C33: \<open>select\<close> is not given the set for writing: what a wait does depends on \<open>select\<close> only as far as it answers without one.  The set is used behind
  the call as if it had been given: when \<open>select\<close> returns without an exceptional condition and the callbacks change no descriptor, the callback of any descriptor
  that is watched for writing is run if and only if the result of \<open>select\<close> is not 0, that is, for whatever reason it has returned,
  whether the descriptor can be written to or not.
\<close>

theorem select_ignores_writability:
  assumes "select_rel {} F e" "f \<in> F" "select_watch e f Writing" "f_w_proc (ev_files e f) = Some p"
    "sl_ready (ev_poller e) = []" "\<And>p f e. \<exists>e'. run p f e = Some e' \<and> ev_files e' = ev_files e"
    "\<And>m r x tv. select m r None x tv = Selected n rset {}"
  shows "(\<exists>e' t. select_event_wait select run timeout e = Some (e', n, t) \<and> ((p, f) \<in> set t \<longleftrightarrow> n \<noteq> 0)) \<and>
    ((\<forall>m r x tv. sel m r None x tv = sel' m r None x tv) \<longrightarrow> select_event_wait sel run' ms e0 = select_event_wait sel' run' ms e0)"
proof -
  define e1 where "e1 = (if sl_dirty (ev_poller e) then select_maxfd e else e)"
  have e1: "select_rel {} F e1" "ev_files e1 = ev_files e" "sl_wset (ev_poller e1) = sl_wset (ev_poller e)" "sl_ready (ev_poller e1) = []"
    using select_maxfd_ok [OF assms(1)] assms(1,5) by (auto simp: e1_def) (simp_all add: select_maxfd_def)
  note r = select_relD [OF e1(1)]
  define fs where "fs = take (nat (sl_count (ev_poller e1))) (sl_files (ev_poller e1))"
  define e2 where "e2 = upd_poller (\<lambda>k. k\<lparr>sl_ready := sl_ready k @ take (nat (sl_count k)) (sl_files k)\<rparr>) e1"
  have e2: "ev_files e2 = ev_files e" "sl_ready (ev_poller e2) = fs" by (simp_all add: e2_def fs_def e1)
  have wset: "f_fd (ev_files e f) \<in> sl_wset (ev_poller e)" using assms(3) by (simp add: select_watch_def)
  have id: "idf e1 f \<noteq> - 1" using r(8) [OF assms(2), of Writing] wset e1(2,3) by (auto simp: select_watch_def)
  note s = slots_of [OF r(5) assms(2) id]
  have "fs ! nat (idf e1 f) = f" "nat (idf e1 f) < length fs" using s by (auto simp: fs_def)
  then have f: "f \<in> set fs" by (metis nth_mem)
  have "in_fd_set (f_fd (ev_files e2 g))" if g: "g \<in> set fs" for g
  proof -
    obtain i where i: "i < length fs" "fs ! i = g" using g by (auto simp: in_set_conv_nth)
    then have "int i < sl_count (ev_poller e1)" "sl_files (ev_poller e1) ! i = g" by (auto simp: fs_def)
    with slots_at(1) [OF r(5), of "int i"] have "g \<in> F" by simp
    with r(6) show ?thesis by (simp add: e1(2) e2(1))
  qed
  then obtain e3 where e3: "select_dispatch run rset (sl_wset (ev_poller e)) {} fs e2 = Some (e3, concat (map (\<lambda>f.
      told_by rset (f_fd (ev_files e f)) (f_r_proc (ev_files e f)) f @
      told_by (sl_wset (ev_poller e)) (f_fd (ev_files e f)) (f_w_proc (ev_files e f)) f) fs))"
    using select_dispatch_quiet [where run = run, OF assms(6), of fs e2 rset "sl_wset (ev_poller e)"] unfolding e2(1) by blast
  have "(p, f) \<in> set (concat (map (\<lambda>f. told_by rset (f_fd (ev_files e f)) (f_r_proc (ev_files e f)) f @
      told_by (sl_wset (ev_poller e)) (f_fd (ev_files e f)) (f_w_proc (ev_files e f)) f) fs))"
    using f wset assms(4) by (force simp: told_by_def)
  moreover have "select_event_wait select run timeout e = (if n = 0 then Some (e1, 0, [])
      else map_option (\<lambda>(e, t). (upd_poller (\<lambda>k. k\<lparr>sl_ready := []\<rparr>) e, n, t)) (select_dispatch run rset (sl_wset (ev_poller e)) {} fs e2))"
    by (simp add: select_event_wait_def Let_def e1_def [symmetric] e2_def [symmetric] e2(2) assms(7))
  ultimately have "\<exists>e' t. select_event_wait select run timeout e = Some (e', n, t) \<and> ((p, f) \<in> set t \<longleftrightarrow> n \<noteq> 0)"
    using e3 by auto
  moreover have "(\<forall>m r x tv. sel m r None x tv = sel' m r None x tv) \<longrightarrow> select_event_wait sel run' ms e0 = select_event_wait sel' run' ms e0"
    by (simp add: select_event_wait_def Let_def)
  ultimately show ?thesis by blast
qed

theorem select_ignores_writability_witness:
  "\<exists>e e' t. fst (run_calls (do_loop (\<lambda>_. False) (select_ops (\<lambda>_ _ _ _ _. Selected 0 {} {}) (\<lambda>_ _. Some)))
       [Add Reading 5 True, Add Writing 6 False]
       (Some (open_files int [5, 6] (nio_event_setup 100 NIO_EVENT_DIRECT (blank_event (nio_select_create 2)))))) = Some e \<and>
     select_event_wait (\<lambda>_ _ _ _ _. Selected 1 {5} {}) (\<lambda>_ _. Some) 9 e = Some (e', 1, t) \<and> (False, 6) \<in> set t \<and>
     (\<exists>e'' t'. select_event_wait (\<lambda>_ _ _ _ _. Selected 0 {} {}) (\<lambda>_ _. Some) 9 e = Some (e'', 0, t') \<and> (False, 6) \<notin> set t')"
proof -
  let ?e = "blank_event (nio_select_create 2)"
  have a: "ev_poller ?e = nio_select_create 2" "card (set [5, 6 :: nat]) \<le> nat (if (2::int) \<le> 0 then 1024 else 2)"
    "inj_on int (set [5, 6])" "\<forall>f \<in> set [5, 6]. in_fd_set (int f)"
    "ev_events ?e \<noteq> 0" "ev_events ?e \<notin> set [5, 6]" "0 \<notin> set [5, 6 :: nat]"
    by (simp_all add: in_fd_set_def FD_SETSIZE_def)
  let ?ops = "select_ops (\<lambda>_ _ _ _ _. Selected 0 {} {}) (\<lambda>_ _. Some)"
  let ?start = "open_files int [5, 6] (nio_event_setup 100 NIO_EVENT_DIRECT ?e)"
  note step = sl.call_step [where select = "\<lambda>_ _ _ _ _. Selected 0 {} {}" and run = "\<lambda>_ _. Some" and seekable = "\<lambda>_. False"]
  have "sl.loop (\<lambda>_. False) (set [5, 6]) int 100 ?start (\<lambda>_ _. None)"
    by (rule sl.opened_loop [OF a(5-7)]) (rule select_opened [OF a(1-4)])
  from step [OF this, of "Add Reading 5 True"] obtain e1 w1 r1 where
    e1: "call_loop (\<lambda>_. False) ?ops (Add Reading 5 True) ?start = Some (e1, r1)" "sl.loop (\<lambda>_. False) (set [5, 6]) int 100 e1 w1" by auto
  from step [OF e1(2), of "Add Writing 6 False"] obtain e w r where
    e: "call_loop (\<lambda>_. False) ?ops (Add Writing 6 False) e1 = Some (e, r)" "select_rel {} (set [5, 6]) e" by (auto simp: sl.loop_def)
  let ?run = "fst (run_calls (do_loop (\<lambda>_. False) ?ops) [Add Reading 5 True, Add Writing 6 False] (Some ?start))"
  have run: "?run = Some e" using e1(1) e(1) by (simp add: do_loop_def)
  have "case ?run of None \<Rightarrow> False
    | Some e \<Rightarrow> sl_ready (ev_poller e) = [] \<and> f_r_proc (ev_files e 6) = None \<and> f_w_proc (ev_files e 6) = Some False \<and> select_watch e 6 Writing"
    by code_simp
  with run have n: "sl_ready (ev_poller e) = []" "f_r_proc (ev_files e 6) = None" "f_w_proc (ev_files e 6) = Some False"
    "select_watch e 6 Writing" by simp_all
  have s: "\<exists>e' t. select_event_wait (\<lambda>_ _ _ _ _. Selected m rset {}) (\<lambda>_ _. Some) 9 e = Some (e', m, t) \<and> ((False, 6) \<in> set t \<longleftrightarrow> m \<noteq> 0)"
    for m rset
    by (rule select_ignores_writability [OF e(2) _ n(4,3,1), THEN conjunct1]) simp_all
  from s [of 1 "{5}"] s [of 0 "{}"] run show ?thesis by auto
qed

end
