(* ===== verification/Nio_Kqueue.thy ===== *)
theory Nio_Kqueue
  imports Nio_Loop
begin

text \<open>
  The kqueue poller (c/src/events/nio_event_kqueue.c): changes to the kernel's filters are collected
  in an array and handed to the kernel when it is full, when the loop flushes it, and with every wait.
  The system call \<open>kevent\<close> is an argument, and what it is relied on to do is \<open>kqueue_doc\<close>.
\<close>

subsection \<open>State and operations\<close>

datatype kfilter = EVFILT_READ | EVFILT_WRITE
datatype kaction = EV_ADD | EV_DELETE

text \<open>\<open>struct kevent\<close>: what \<open>EV_SET\<close> sets, with the descriptor in \<open>udata\<close>.\<close>

record kevent =
  kev_ident :: int
  kev_filter :: kfilter
  kev_flags :: kaction
  kev_udata :: nat

text \<open>\<open>changes\<close> has \<open>setsize\<close> places, of which the first \<open>nchanges\<close> are in use; \<open>'k\<close> is the state of the kernel.\<close>

record 'k kqueue =
  kq_kernel :: 'k
  kq_changes :: "kevent list"
  kq_setsize :: int
  kq_nchanges :: int
  kq_nevents :: int

type_synonym ('p, 'k) kqueue_event = "('p, 'k kqueue) nio_event"

text \<open>\<open>kevent\<close> takes the changes, the room for events and the time, and fails, with \<open>EINTR\<close> or not, or returns events.\<close>

datatype kevent_result = Kevent_Failed bool | Kevented "kevent list"
type_synonym 'k kevent_call = "kevent list \<Rightarrow> int \<Rightarrow> int \<times> int \<Rightarrow> 'k \<Rightarrow> 'k \<times> kevent_result"

definition nio_kqueue_create :: "int \<Rightarrow> 'k \<Rightarrow> 'k kqueue" where
  "nio_kqueue_create sz k =
     (let n = (if sz \<le> 0 \<or> sz > 1024 then 1024 else sz)
      in \<lparr>kq_kernel = k, kq_changes = replicate (nat n) \<lparr>kev_ident = 0, kev_filter = EVFILT_READ, kev_flags = EV_ADD, kev_udata = 0\<rparr>,
           kq_setsize = n, kq_nchanges = 0, kq_nevents = 100\<rparr>)"

definition kqueue_fflush :: "'k kevent_call \<Rightarrow> ('p, 'k) kqueue_event \<Rightarrow> (('p, 'k) kqueue_event \<times> int) option" where
  "kqueue_fflush kevent e =
     (let q = ev_poller e
      in case kevent (take (nat (kq_nchanges q)) (kq_changes q)) 0 (0, 0) (kq_kernel q) of
           (k, Kevent_Failed eintr) \<Rightarrow> Some (upd_poller (\<lambda>q. q\<lparr>kq_kernel := k\<rparr>) e, - 1)
         | (k, Kevented evs) \<Rightarrow> Some (upd_poller (\<lambda>q. q\<lparr>kq_kernel := k, kq_nchanges := 0\<rparr>) e, kq_nchanges q))"

text \<open>The beginning of all four operations: a full array is flushed, and the next place takes the change.\<close>

definition kqueue_room :: "'k kevent_call \<Rightarrow> ('p, 'k) kqueue_event \<Rightarrow> (('p, 'k) kqueue_event \<times> int) option" where
  "kqueue_room kevent e =
     (if kq_nchanges (ev_poller e) \<ge> kq_setsize (ev_poller e) then kqueue_fflush kevent e else Some (e, 0))"

definition kqueue_set :: "nat \<Rightarrow> kfilter \<Rightarrow> kaction \<Rightarrow> ('p, 'k) kqueue_event \<Rightarrow> ('p, 'k) kqueue_event option" where
  "kqueue_set f filt act e =
     (let i = kq_nchanges (ev_poller e)
      in if 0 \<le> i \<and> nat i < length (kq_changes (ev_poller e))
         then Some (upd_poller (\<lambda>q. q\<lparr>kq_changes := (kq_changes q)[nat i :=
                \<lparr>kev_ident = f_fd (ev_files e f), kev_filter = filt, kev_flags = act, kev_udata = f\<rparr>], kq_nchanges := i + 1\<rparr>) e)
         else None)"

definition kqueue_add_read :: "'k kevent_call \<Rightarrow> nat \<Rightarrow> ('p, 'k) kqueue_event \<Rightarrow> (('p, 'k) kqueue_event \<times> int) option" where
  "kqueue_add_read kevent f e =
     Option.bind (kqueue_room kevent e) (\<lambda>(e, r).
       if r = - 1 then Some (e, - 1)
       else Option.bind (kqueue_set f EVFILT_READ EV_ADD e) (\<lambda>e.
         let e = (if f_mask (ev_files e f) AND NIO_EVENT_WRITE = 0 then e\<lparr>ev_fdcount := ev_fdcount e + 1\<rparr> else e)
         in Some (upd_file f (\<lambda>fe. fe\<lparr>f_mask := f_mask fe OR NIO_EVENT_READ\<rparr>) e, 0)))"

definition kqueue_add_write :: "'k kevent_call \<Rightarrow> nat \<Rightarrow> ('p, 'k) kqueue_event \<Rightarrow> (('p, 'k) kqueue_event \<times> int) option" where
  "kqueue_add_write kevent f e =
     Option.bind (kqueue_room kevent e) (\<lambda>(e, r).
       if r = - 1 then Some (e, - 1)
       else Option.bind (kqueue_set f EVFILT_WRITE EV_ADD e) (\<lambda>e.
         let e = (if f_mask (ev_files e f) AND NIO_EVENT_READ = 0 then e\<lparr>ev_fdcount := ev_fdcount e + 1\<rparr> else e)
         in Some (upd_file f (\<lambda>fe. fe\<lparr>f_mask := f_mask fe OR NIO_EVENT_WRITE\<rparr>) e, 0)))"

definition kqueue_del_read :: "'k kevent_call \<Rightarrow> nat \<Rightarrow> ('p, 'k) kqueue_event \<Rightarrow> (('p, 'k) kqueue_event \<times> int) option" where
  "kqueue_del_read kevent f e =
     Option.bind (kqueue_room kevent e) (\<lambda>(e, r).
       if r = - 1 then Some (e, - 1)
       else Option.bind (kqueue_set f EVFILT_READ EV_DELETE e) (\<lambda>e.
         let e = upd_file f (\<lambda>fe. fe\<lparr>f_mask := f_mask fe AND NOT NIO_EVENT_READ\<rparr>) e
         in Some (if f_mask (ev_files e f) AND NIO_EVENT_WRITE = 0 then e\<lparr>ev_fdcount := ev_fdcount e - 1\<rparr> else e, 0)))"

definition kqueue_del_write :: "'k kevent_call \<Rightarrow> nat \<Rightarrow> ('p, 'k) kqueue_event \<Rightarrow> (('p, 'k) kqueue_event \<times> int) option" where
  "kqueue_del_write kevent f e =
     Option.bind (kqueue_room kevent e) (\<lambda>(e, r).
       if r = - 1 then Some (e, - 1)
       else Option.bind (kqueue_set f EVFILT_WRITE EV_DELETE e) (\<lambda>e.
         let e = upd_file f (\<lambda>fe. fe\<lparr>f_mask := f_mask fe AND NOT NIO_EVENT_WRITE\<rparr>) e
         in Some (if f_mask (ev_files e f) AND NIO_EVENT_READ = 0 then e\<lparr>ev_fdcount := ev_fdcount e - 1\<rparr> else e, 0)))"

text \<open>
  \<open>kqueue_wait\<close>: the changes are gone whatever the call returns.  The two callbacks of a descriptor are
  looked up before either is run, and only the filter of an event is looked at.
\<close>

fun kqueue_dispatch ::
  "('p \<Rightarrow> nat \<Rightarrow> ('p, 'k) kqueue_event \<Rightarrow> ('p, 'k) kqueue_event option) \<Rightarrow> kevent list \<Rightarrow> ('p, 'k) kqueue_event \<Rightarrow>
     (('p, 'k) kqueue_event \<times> ('p \<times> nat) list) option" where
  "kqueue_dispatch run [] e = Some (e, [])"
| "kqueue_dispatch run (kev # evs) e =
     (let f = kev_udata kev
      in if f = 0 then kqueue_dispatch run evs e
         else
           let r_proc = f_r_proc (ev_files e f); w_proc = f_w_proc (ev_files e f)
           in Option.bind (run_proc run (kev_filter kev = EVFILT_READ) r_proc f e) (\<lambda>(e, t1).
              Option.bind (run_proc run (kev_filter kev = EVFILT_WRITE) w_proc f e) (\<lambda>(e, t2).
              map_option (\<lambda>(e, t3). (e, t1 @ t2 @ t3)) (kqueue_dispatch run evs e))))"

definition kqueue_timespec :: "int \<Rightarrow> int \<times> int" where
  "kqueue_timespec timeout = (timeout sdiv 1000, timeout smod 1000 * 1000000)"

definition kqueue_wait ::
  "'k kevent_call \<Rightarrow> ('p \<Rightarrow> nat \<Rightarrow> ('p, 'k) kqueue_event \<Rightarrow> ('p, 'k) kqueue_event option) \<Rightarrow> int \<Rightarrow> ('p, 'k) kqueue_event \<Rightarrow>
     (('p, 'k) kqueue_event \<times> int \<times> ('p \<times> nat) list) option" where
  "kqueue_wait kevent run timeout e =
     (let q = ev_poller e; (k, r) = kevent (take (nat (kq_nchanges q)) (kq_changes q)) (kq_nevents q) (kqueue_timespec timeout) (kq_kernel q);
          e = upd_poller (\<lambda>q. q\<lparr>kq_kernel := k, kq_nchanges := 0\<rparr>) e
      in case r of
           Kevent_Failed eintr \<Rightarrow> if eintr then Some (e, 0, []) else None
         | Kevented evs \<Rightarrow> map_option (\<lambda>(e, t). (e, int (length evs), t)) (kqueue_dispatch run evs e))"

definition kqueue_ops ::
  "'k kevent_call \<Rightarrow> ('p \<Rightarrow> nat \<Rightarrow> ('p, 'k) kqueue_event \<Rightarrow> ('p, 'k) kqueue_event option) \<Rightarrow> ('p, 'k kqueue) poller_ops" where
  "kqueue_ops kevent run =
     \<lparr>op_add_read = kqueue_add_read kevent, op_add_write = kqueue_add_write kevent, op_del_read = kqueue_del_read kevent,
      op_del_write = kqueue_del_write kevent, op_del_readwrite = None, op_event_fflush = Some (kqueue_fflush kevent),
      op_event_wait = kqueue_wait kevent run\<rparr>"

subsection \<open>The kernel\<close>

text \<open>A filter is registered for a descriptor, with \<open>udata\<close>; what a list of changes does to the filters.\<close>

type_synonym filters = "int \<times> kfilter \<rightharpoonup> nat"

fun change :: "kevent \<Rightarrow> filters \<Rightarrow> filters" where
  "change c m = (case kev_flags c of
     EV_ADD \<Rightarrow> m((kev_ident c, kev_filter c) \<mapsto> kev_udata c) | EV_DELETE \<Rightarrow> m((kev_ident c, kev_filter c) := None))"

fun changed :: "kevent list \<Rightarrow> filters \<Rightarrow> filters" where
  "changed [] m = m"
| "changed (c # cs) m = changed cs (change c m)"

text \<open>A filter can be deleted if it is there.\<close>

fun changeable :: "(int \<Rightarrow> bool) \<Rightarrow> kevent list \<Rightarrow> filters \<Rightarrow> bool" where
  "changeable seekable [] m \<longleftrightarrow> True"
| "changeable seekable (c # cs) m \<longleftrightarrow>
     (case kev_flags c of EV_ADD \<Rightarrow> \<not> seekable (kev_ident c) | EV_DELETE \<Rightarrow> m (kev_ident c, kev_filter c) \<noteq> None) \<and>
     changeable seekable cs (change c m)"

text \<open>
  What kevent(2) documents: changes of open descriptors that are no files are applied in order, adding a filter that is
  there already modifies it, and without room for events the call returns none of them.
\<close>

definition kqueue_doc :: "(int \<Rightarrow> bool) \<Rightarrow> 'k kevent_call \<Rightarrow> ('k \<Rightarrow> filters) \<Rightarrow> bool" where
  "kqueue_doc seekable kevent filters \<longleftrightarrow> (\<forall>cs ts k. changeable seekable cs (filters k) \<longrightarrow>
     (\<exists>k'. kevent cs 0 ts k = (k', Kevented []) \<and> filters k' = changed cs (filters k)))"


lemma changed_append: "changed (cs @ ds) m = changed ds (changed cs m)"
  by (induction cs arbitrary: m) simp_all

lemma changeable_append:
  "changeable seekable (cs @ ds) m \<longleftrightarrow> changeable seekable cs m \<and> changeable seekable ds (changed cs m)"
  by (induction cs arbitrary: m) auto

subsection \<open>Invariant\<close>

fun filter_of :: "direction \<Rightarrow> kfilter" where
  "filter_of Reading = EVFILT_READ" | "filter_of Writing = EVFILT_WRITE"

lemma filter_of_eq [simp]: "filter_of d = filter_of d' \<longleftrightarrow> d = d'"
  by (cases d; cases d') simp_all

definition kq_pending :: "('p, 'k) kqueue_event \<Rightarrow> kevent list" where
  "kq_pending e = take (nat (kq_nchanges (ev_poller e))) (kq_changes (ev_poller e))"

text \<open>The filters of the kernel with the collected changes.\<close>

definition kq_filters :: "('k \<Rightarrow> filters) \<Rightarrow> ('p, 'k) kqueue_event \<Rightarrow> filters" where
  "kq_filters filters e = changed (kq_pending e) (filters (kq_kernel (ev_poller e)))"

definition kqueue_watch :: "('k \<Rightarrow> filters) \<Rightarrow> ('p, 'k) kqueue_event \<Rightarrow> nat \<Rightarrow> direction \<Rightarrow> bool" where
  "kqueue_watch filters e f d \<longleftrightarrow> kq_filters filters e (f_fd (ev_files e f), filter_of d) = Some f"

definition kqueue_table :: "(int \<Rightarrow> bool) \<Rightarrow> ('k \<Rightarrow> filters) \<Rightarrow> ('p, 'k) kqueue_event \<Rightarrow> bool" where
  "kqueue_table seekable filters e \<longleftrightarrow>
     0 \<le> kq_nchanges (ev_poller e) \<and> kq_nchanges (ev_poller e) \<le> kq_setsize (ev_poller e) \<and> 0 < kq_setsize (ev_poller e) \<and>
     length (kq_changes (ev_poller e)) = nat (kq_setsize (ev_poller e)) \<and>
     changeable seekable (kq_pending e) (filters (kq_kernel (ev_poller e)))"

definition kqueue_inv :: "(int \<Rightarrow> bool) \<Rightarrow> 'k kevent_call \<Rightarrow> ('k \<Rightarrow> filters) \<Rightarrow> nat set \<Rightarrow> ('p, 'k) kqueue_event \<Rightarrow> bool" where
  "kqueue_inv seekable kevent filters F e \<longleftrightarrow> kqueue_doc seekable kevent filters \<and> kqueue_table seekable filters e \<and>
     inj_on (\<lambda>f. f_fd (ev_files e f)) F \<and>
     (\<forall>f \<in> F. \<forall>d. kq_filters filters e (f_fd (ev_files e f), filter_of d) = (if has (f_mask (ev_files e f)) (ev_bit d) then Some f else None))"

text \<open>Flushing makes room and changes nothing else.\<close>

lemma kqueue_flushed:
  assumes "kqueue_doc seekable kevent filters" "kqueue_table seekable filters e"
  shows "\<exists>k. kqueue_fflush kevent e = Some (e\<lparr>ev_poller := (ev_poller e)\<lparr>kq_kernel := k, kq_nchanges := 0\<rparr>\<rparr>, kq_nchanges (ev_poller e)) \<and>
    filters k = kq_filters filters e"
proof -
  have "changeable seekable (kq_pending e) (filters (kq_kernel (ev_poller e)))" using assms(2) by (simp add: kqueue_table_def)
  then obtain k where "kevent (kq_pending e) 0 (0, 0) (kq_kernel (ev_poller e)) = (k, Kevented [])" "filters k = kq_filters filters e"
    using assms(1) unfolding kqueue_doc_def kq_filters_def by blast
  then show ?thesis by (intro exI [of _ k]) (simp add: kqueue_fflush_def kq_pending_def Let_def upd_poller_def)
qed

lemma kqueue_room_ok:
  assumes "kqueue_doc seekable kevent filters" "kqueue_table seekable filters e"
  shows "\<exists>k r. kqueue_room kevent e = Some (e\<lparr>ev_poller := k\<rparr>, r) \<and> 0 \<le> r \<and> kqueue_table seekable filters (e\<lparr>ev_poller := k\<rparr>) \<and>
    kq_filters filters (e\<lparr>ev_poller := k\<rparr>) = kq_filters filters e \<and> kq_nchanges k < kq_setsize k"
proof (cases "kq_nchanges (ev_poller e) \<ge> kq_setsize (ev_poller e)")
  case True
  obtain k where k: "kqueue_fflush kevent e = Some (e\<lparr>ev_poller := (ev_poller e)\<lparr>kq_kernel := k, kq_nchanges := 0\<rparr>\<rparr>, kq_nchanges (ev_poller e))"
    "filters k = kq_filters filters e" using kqueue_flushed [OF assms] by blast
  have "kq_filters filters (e\<lparr>ev_poller := (ev_poller e)\<lparr>kq_kernel := k, kq_nchanges := 0\<rparr>\<rparr>) = kq_filters filters e"
    by (simp add: kq_filters_def kq_pending_def k(2) [unfolded kq_filters_def kq_pending_def])
  with k True assms(2) show ?thesis
    by (intro exI [of _ "(ev_poller e)\<lparr>kq_kernel := k, kq_nchanges := 0\<rparr>"] exI [of _ "kq_nchanges (ev_poller e)"])
      (simp add: kqueue_room_def kqueue_table_def kq_pending_def)
next
  case False
  with assms(2) show ?thesis by (intro exI [of _ "ev_poller e"] exI [of _ 0]) (simp add: kqueue_room_def)
qed

lemma kqueue_set_ok:
  assumes t: "kqueue_table seekable filters e" "kq_nchanges (ev_poller e) < kq_setsize (ev_poller e)"
    and c: "case act of EV_ADD \<Rightarrow> \<not> seekable (f_fd (ev_files e f)) | EV_DELETE \<Rightarrow> kq_filters filters e (f_fd (ev_files e f), filt) \<noteq> None"
  shows "\<exists>k. kqueue_set f filt act e = Some (e\<lparr>ev_poller := k\<rparr>) \<and> kqueue_table seekable filters (e\<lparr>ev_poller := k\<rparr>) \<and>
    kq_filters filters (e\<lparr>ev_poller := k\<rparr>) =
      (kq_filters filters e)((f_fd (ev_files e f), filt) := (case act of EV_ADD \<Rightarrow> Some f | EV_DELETE \<Rightarrow> None))"
proof -
  let ?q = "ev_poller e" and ?c = "\<lparr>kev_ident = f_fd (ev_files e f), kev_filter = filt, kev_flags = act, kev_udata = f\<rparr>"
  let ?i = "kq_nchanges ?q"
  let ?k = "?q\<lparr>kq_changes := (kq_changes ?q)[nat ?i := ?c], kq_nchanges := ?i + 1\<rparr>"
  have i: "0 \<le> ?i" "nat ?i < length (kq_changes ?q)" using t by (auto simp: kqueue_table_def)
  have p: "kq_pending (e\<lparr>ev_poller := ?k\<rparr>) = kq_pending e @ [?c]"
    using i by (simp add: kq_pending_def nat_add_distrib take_Suc_conv_app_nth)
  have "kqueue_set f filt act e = Some (e\<lparr>ev_poller := ?k\<rparr>)" using i by (simp add: kqueue_set_def Let_def upd_poller_def)
  moreover have "kqueue_table seekable filters (e\<lparr>ev_poller := ?k\<rparr>)"
    using t c unfolding kqueue_table_def p by (cases act) (simp_all add: changeable_append kq_filters_def)
  moreover have "kq_filters filters (e\<lparr>ev_poller := ?k\<rparr>) =
      (kq_filters filters e)((f_fd (ev_files e f), filt) := (case act of EV_ADD \<Rightarrow> Some f | EV_DELETE \<Rightarrow> None))"
    unfolding kq_filters_def p by (cases act) (simp_all add: changed_append)
  ultimately show ?thesis by blast
qed

subsection \<open>The poller's contract\<close>

text \<open>All four operations, when nothing fails: the change is collected, and the mask says so.\<close>

definition kqueue_action :: "bool \<Rightarrow> kaction" where
  "kqueue_action b = (if b then EV_ADD else EV_DELETE)"

definition kqueue_mask :: "bool \<Rightarrow> direction \<Rightarrow> byte \<Rightarrow> byte" where
  "kqueue_mask b d m = (if b then m OR ev_bit d else m AND NOT (ev_bit d))"

lemma kqueue_mask_bits [simp]: "has (kqueue_mask b d m) (ev_bit d') \<longleftrightarrow> (if d' = d then b else has m (ev_bit d'))"
  by (cases b; cases "d' = d") (simp_all add: kqueue_mask_def)

lemma fdcount_if:
  "(if c then e\<lparr>ev_fdcount := m\<rparr> else e) = e\<lparr>ev_fdcount := if c then m else ev_fdcount e\<rparr>"
  "(upd_file f g e)\<lparr>ev_fdcount := m\<rparr> = upd_file f g (e\<lparr>ev_fdcount := m\<rparr>)"
  "ev_fdcount (upd_file f g e) = ev_fdcount e"
  by (simp_all add: upd_file_def)

lemma kqueue_ops_eq:
  assumes "kqueue_room kevent e = Some (e1, r)" "r \<noteq> - 1" "kqueue_set f (filter_of d) (kqueue_action b) e1 = Some e2"
  obtains n where "(if b then op_add else op_del) (kqueue_ops kevent run) d f e =
    Some (upd_file f (\<lambda>fe. fe\<lparr>f_mask := kqueue_mask b d (f_mask fe)\<rparr>) (e2\<lparr>ev_fdcount := n\<rparr>), 0)"
proof (cases b)
  case True
  show ?thesis
  proof (cases d)
    case Reading
    with assms True that show ?thesis
      by (simp add: kqueue_ops_def kqueue_add_read_def kqueue_action_def kqueue_mask_def Let_def fdcount_if)
  next
    case Writing
    with assms True that show ?thesis
      by (simp add: kqueue_ops_def kqueue_add_write_def kqueue_action_def kqueue_mask_def Let_def fdcount_if)
  qed
next
  case False
  show ?thesis
  proof (cases d)
    case Reading
    with assms False that show ?thesis
      by (simp add: kqueue_ops_def kqueue_del_read_def kqueue_action_def kqueue_mask_def Let_def fdcount_if)
  next
    case Writing
    with assms False that show ?thesis
      by (simp add: kqueue_ops_def kqueue_del_write_def kqueue_action_def kqueue_mask_def Let_def fdcount_if)
  qed
qed

lemma kqueue_step:
  assumes inv: "kqueue_inv seekable kevent filters F e" and f: "f \<in> F"
    and c: "if b then \<not> seekable (f_fd (ev_files e f)) else has (f_mask (ev_files e f)) (ev_bit d)"
    and P: "\<And>d'. P d' = (if d' = d then b else has (f_mask (ev_files e f)) (ev_bit d'))"
  shows "\<exists>e'. (if b then op_add else op_del) (kqueue_ops kevent run) d f e = Some (e', 0) \<and> kqueue_inv seekable kevent filters F e' \<and>
    remasked F f P e e'"
proof -
  note i = inv [unfolded kqueue_inv_def]
  obtain k r where k: "kqueue_room kevent e = Some (e\<lparr>ev_poller := k\<rparr>, r)" "r \<noteq> - 1" "kqueue_table seekable filters (e\<lparr>ev_poller := k\<rparr>)"
    "kq_filters filters (e\<lparr>ev_poller := k\<rparr>) = kq_filters filters e" "kq_nchanges k < kq_setsize k"
    using kqueue_room_ok [of seekable kevent filters e] i by auto
  have c': "case kqueue_action b of EV_ADD \<Rightarrow> \<not> seekable (f_fd (ev_files (e\<lparr>ev_poller := k\<rparr>) f))
      | EV_DELETE \<Rightarrow> kq_filters filters (e\<lparr>ev_poller := k\<rparr>) (f_fd (ev_files (e\<lparr>ev_poller := k\<rparr>) f), filter_of d) \<noteq> None"
    using c i f k(4) by (auto simp: kqueue_action_def split: if_splits)
  obtain k2 where k2: "kqueue_set f (filter_of d) (kqueue_action b) (e\<lparr>ev_poller := k\<rparr>) = Some (e\<lparr>ev_poller := k2\<rparr>)"
    "kqueue_table seekable filters (e\<lparr>ev_poller := k2\<rparr>)" "kq_filters filters (e\<lparr>ev_poller := k2\<rparr>) =
      (kq_filters filters e)((f_fd (ev_files e f), filter_of d) := if b then Some f else None)"
    using kqueue_set_ok [OF k(3) _ c'] k(4,5) by (auto simp: kqueue_action_def split: if_splits)
  obtain n where n: "(if b then op_add else op_del) (kqueue_ops kevent run) d f e =
      Some (upd_file f (\<lambda>fe. fe\<lparr>f_mask := kqueue_mask b d (f_mask fe)\<rparr>) ((e\<lparr>ev_poller := k2\<rparr>)\<lparr>ev_fdcount := n\<rparr>), 0)"
    using kqueue_ops_eq [OF k(1,2) k2(1)] by blast
  let ?e = "upd_file f (\<lambda>fe. fe\<lparr>f_mask := kqueue_mask b d (f_mask fe)\<rparr>) ((e\<lparr>ev_poller := k2\<rparr>)\<lparr>ev_fdcount := n\<rparr>)"
  have same: "kqueue_table seekable filters ?e = kqueue_table seekable filters (e\<lparr>ev_poller := k2\<rparr>)"
    "kq_filters filters ?e = kq_filters filters (e\<lparr>ev_poller := k2\<rparr>)" "f_fd (ev_files ?e g) = f_fd (ev_files e g)" for g
    by (simp_all add: kqueue_table_def kq_filters_def kq_pending_def)
  have "kqueue_inv seekable kevent filters F ?e"
    unfolding kqueue_inv_def same k2(3)
  proof (intro conjI ballI allI)
    show "kqueue_doc seekable kevent filters" "kqueue_table seekable filters (e\<lparr>ev_poller := k2\<rparr>)" "inj_on (\<lambda>f. f_fd (ev_files e f)) F"
      using i k2(2) by simp_all
    fix g d' assume g: "g \<in> F"
    have "g \<noteq> f \<Longrightarrow> f_fd (ev_files e g) \<noteq> f_fd (ev_files e f)" using i inj_onD [of "\<lambda>f. f_fd (ev_files e f)" F, OF _ _ g f] by blast
    with i g show "((kq_filters filters e)((f_fd (ev_files e f), filter_of d) := if b then Some f else None)) (f_fd (ev_files e g), filter_of d') =
        (if has (f_mask (ev_files ?e g)) (ev_bit d') then Some g else None)"
      by (cases "g = f") auto
  qed
  moreover have "remasked F f P e ?e" by (simp add: remasked_def P)
  ultimately show ?thesis using n by blast
qed

interpretation kq: poller seekable "kqueue_ops kevent run" "kqueue_inv seekable kevent filters" "kqueue_watch filters"
  for seekable and kevent :: "'k kevent_call" and run :: "'p \<Rightarrow> nat \<Rightarrow> ('p, 'k) kqueue_event \<Rightarrow> ('p, 'k) kqueue_event option" and filters
proof
  fix F f d fflush and e e' :: "('p, 'k) kqueue_event"
  assume inv: "kqueue_inv seekable kevent filters F e"
  {
    assume f: "f \<in> F"
    then show "kqueue_watch filters e f d \<longleftrightarrow> has (f_mask (ev_files e f)) (ev_bit d)"
      using inv by (auto simp: kqueue_watch_def kqueue_inv_def)
    show "\<not> seekable (f_fd (ev_files e f)) \<Longrightarrow> \<exists>e'. op_add (kqueue_ops kevent run) d f e = Some (e', 0) \<and> kqueue_inv seekable kevent filters F e' \<and>
        remasked F f (\<lambda>d'. d' = d \<or> has (f_mask (ev_files e f)) (ev_bit d')) e e'"
      by (rule kqueue_step [OF inv f, where b = True, unfolded if_True]) simp_all
    show "has (f_mask (ev_files e f)) (ev_bit d) \<Longrightarrow> \<exists>e'. op_del (kqueue_ops kevent run) d f e = Some (e', 0) \<and> kqueue_inv seekable kevent filters F e' \<and>
        remasked F f (\<lambda>d'. d' \<noteq> d \<and> has (f_mask (ev_files e f)) (ev_bit d')) e e'"
      by (rule kqueue_step [OF inv f, where b = False, unfolded if_False]) simp_all
  }
  show "op_event_fflush (kqueue_ops kevent run) = Some fflush \<Longrightarrow>
      \<exists>k r. fflush e = Some (e\<lparr>ev_poller := k\<rparr>, r) \<and> kqueue_inv seekable kevent filters F (e\<lparr>ev_poller := k\<rparr>)"
  proof -
    assume "op_event_fflush (kqueue_ops kevent run) = Some fflush"
    then have fl: "fflush = kqueue_fflush kevent" by (simp add: kqueue_ops_def)
    obtain k where k: "kqueue_fflush kevent e = Some (e\<lparr>ev_poller := (ev_poller e)\<lparr>kq_kernel := k, kq_nchanges := 0\<rparr>\<rparr>, kq_nchanges (ev_poller e))"
      "filters k = kq_filters filters e" using kqueue_flushed inv unfolding kqueue_inv_def by blast
    let ?q = "(ev_poller e)\<lparr>kq_kernel := k, kq_nchanges := 0\<rparr>"
    have "kq_filters filters (e\<lparr>ev_poller := ?q\<rparr>) = kq_filters filters e"
      by (simp add: kq_filters_def kq_pending_def k(2) [unfolded kq_filters_def kq_pending_def])
    moreover have "kqueue_table seekable filters (e\<lparr>ev_poller := ?q\<rparr>)"
      using inv by (simp add: kqueue_inv_def kqueue_table_def kq_pending_def)
    ultimately show ?thesis using inv k(1) unfolding fl kqueue_inv_def by auto
  qed
  assume same: "same_poller F e e'"
  have t: "kqueue_table seekable filters e' = kqueue_table seekable filters e" "kq_filters filters e' = kq_filters filters e"
    using same by (simp_all add: same_poller_def kqueue_table_def kq_filters_def kq_pending_def)
  have "inj_on (\<lambda>f. f_fd (ev_files e' f)) F = inj_on (\<lambda>f. f_fd (ev_files e f)) F"
    using same by (intro inj_on_cong) (simp add: same_poller_def)
  with inv same show "kqueue_inv seekable kevent filters F e'"
    by (simp add: kqueue_inv_def t same_poller_def)
qed (simp add: kqueue_ops_def)

subsection \<open>Properties\<close>

lemma kqueue_opened:
  assumes "kqueue_doc seekable kevent filters" "ev_poller e = nio_kqueue_create sz k"
    "\<forall>f \<in> set fs. \<forall>d. filters k (fds f, filter_of d) = None" "inj_on fds (set fs)"
  shows "kqueue_inv seekable kevent filters (set fs) (open_files fds fs (nio_event_setup n flags e))"
proof -
  let ?e = "open_files fds fs (nio_event_setup n flags e)"
  note f = open_files_file [of _ fs fds "nio_event_setup n flags e"]
  have k: "ev_poller ?e = nio_kqueue_create sz k" using assms(2) by (simp add: nio_event_setup_def)
  have p: "kq_pending ?e = []" unfolding kq_pending_def k by (simp add: nio_kqueue_create_def Let_def)
  have "kq_filters filters ?e = filters k" unfolding kq_filters_def p k by (simp add: nio_kqueue_create_def Let_def)
  moreover have "kqueue_table seekable filters ?e" unfolding kqueue_table_def p k by (simp add: nio_kqueue_create_def Let_def)
  moreover have "inj_on (\<lambda>g. f_fd (ev_files ?e g)) (set fs) = inj_on fds (set fs)" by (rule inj_on_cong) (simp add: f)
  ultimately show ?thesis using assms f by (simp add: kqueue_inv_def NIO_EVENT_NONE_def)
qed

text \<open>
  C32: with the kqueue poller, on a kernel that keeps its documentation, whatever is asked for and taken back on open
  descriptors, in any order, with \<open>nio_event_prepare\<close> anywhere in between and however small the array of changes is: no change
  is lost or written outside the array, and none is refused by the kernel; after a last \<open>nio_event_prepare\<close> and
  flush the kernel has for every descriptor exactly the filters that were asked for last, under the descriptor's own
  pointer, and the callback given for each is in the descriptor.
\<close>

theorem kqueue_watches_wanted:
  assumes "kqueue_doc seekable kevent filters" "ev_poller e = nio_kqueue_create sz k"
    "\<forall>f \<in> set fs. \<forall>d. filters k (fds f, filter_of d) = None" "inj_on fds (set fs)"
    "ev_events e \<noteq> 0" "ev_events e \<notin> set fs" "0 \<notin> set fs" "list_all (call_of (set fs)) cs"
    "fst (run_calls (do_wants seekable fds n) cs (\<lambda>_ _. None)) = w"
  shows "\<exists>e' e'' r. run_calls (do_loop seekable (kqueue_ops kevent run)) (cs @ [Prepare])
        (Some (open_files fds fs (nio_event_setup n flags e))) =
      (Some e', snd (run_calls (do_wants seekable fds n) (cs @ [Prepare]) (\<lambda>_ _. None))) \<and>
    kqueue_fflush kevent e' = Some (e'', r) \<and> 0 \<le> r \<and> kq_nchanges (ev_poller e'') = 0 \<and>
    (\<forall>f \<in> set fs. \<forall>d. filters (kq_kernel (ev_poller e'')) (fds f, filter_of d) = (if w f d \<noteq> None then Some f else None) \<and>
       (\<forall>p. w f d = Some p \<longrightarrow> proc_of d (ev_files e'' f) = Some p))"
proof -
  let ?e = "open_files fds fs (nio_event_setup n flags e)"
  have "kq.loop seekable kevent filters (set fs) fds n ?e (\<lambda>_ _. None)"
    by (rule kq.opened_loop [OF assms(5-7)]) (rule kqueue_opened [OF assms(1-4)])
  from kq.calls_watched [OF this assms(8)] obtain e' where e':
    "run_calls (do_loop seekable (kqueue_ops kevent run)) (cs @ [Prepare]) (Some ?e) =
      (Some e', snd (run_calls (do_wants seekable fds n) (cs @ [Prepare]) (\<lambda>_ _. None)))"
    "kqueue_inv seekable kevent filters (set fs) e'" "\<forall>f \<in> set fs. f_fd (ev_files e' f) = fds f"
    "\<forall>f \<in> set fs. \<forall>d. kqueue_watch filters e' f d = (w f d \<noteq> None) \<and> (\<forall>p. w f d = Some p \<longrightarrow> proc_of d (ev_files e' f) = Some p)"
    unfolding assms(9) by blast
  have t: "kqueue_table seekable filters e'" using e'(2) by (simp add: kqueue_inv_def)
  obtain k' where k': "kqueue_fflush kevent e' = Some (e'\<lparr>ev_poller := (ev_poller e')\<lparr>kq_kernel := k', kq_nchanges := 0\<rparr>\<rparr>, kq_nchanges (ev_poller e'))"
    "filters k' = kq_filters filters e'" using kqueue_flushed [OF assms(1) t] by blast
  have "filters k' (fds f, filter_of d) = (if w f d \<noteq> None then Some f else None)" if "f \<in> set fs" for f d
    using e'(2-4) that kq.watch_mask [OF e'(2) that, of d] unfolding k'(2) kqueue_inv_def by metis
  with e' k' t show ?thesis by (auto simp: kqueue_table_def)
qed

text \<open>A kernel for the witness: the filters themselves.\<close>

definition list_kevent :: "filters kevent_call" where
  "list_kevent cs n ts k = (if changeable (\<lambda>_. False) cs k then (changed cs k, Kevented []) else (k, Kevent_Failed False))"

theorem kqueue_watches_wanted_witness:
  "\<exists>e' e'' r. fst (run_calls (do_loop (\<lambda>_. False) (kqueue_ops list_kevent (\<lambda>_ _. Some)))
       ([Add Reading 5 True, Add Reading 6 False, Prepare, Del Reading 5, Add Writing 5 True, Del_Both 6] @ [Prepare])
       (Some (open_files int [5, 6] (nio_event_setup 100 0 (blank_event (nio_kqueue_create 1 Map.empty)))))) = Some e' \<and>
     kqueue_fflush list_kevent e' = Some (e'', r) \<and> kq_kernel (ev_poller e'') (5, EVFILT_READ) = None \<and>
     kq_kernel (ev_poller e'') (5, EVFILT_WRITE) = Some 5 \<and> kq_kernel (ev_poller e'') (6, EVFILT_READ) = None"
proof -
  let ?e = "blank_event (nio_kqueue_create 1 Map.empty)"
  let ?cs = "[Add Reading 5 True, Add Reading 6 False, Prepare, Del Reading 5, Add Writing 5 True, Del_Both 6]"
  have doc: "kqueue_doc (\<lambda>_. False) list_kevent (\<lambda>k. k)" by (simp add: kqueue_doc_def list_kevent_def)
  have a: "ev_poller ?e = nio_kqueue_create 1 Map.empty" "\<forall>f \<in> set [5, 6]. \<forall>d. (Map.empty :: filters) (int f, filter_of d) = None"
    "inj_on int (set [5, 6])" "ev_events ?e \<noteq> 0" "ev_events ?e \<notin> set [5, 6]" "0 \<notin> set [5, 6 :: nat]" by simp_all
  have c: "list_all (call_of (set [5, 6])) ?cs" by simp
  have w: "fst (run_calls (do_wants (\<lambda>_. False) int 100) ?cs (\<lambda>_ _. None)) = (\<lambda>_ _. None)(5 := (\<lambda>_. None)(Writing := Some True))"
    by (auto simp: fun_eq_iff)
  obtain e' e'' r where e: "run_calls (do_loop (\<lambda>_. False) (kqueue_ops list_kevent (\<lambda>_ _. Some))) (?cs @ [Prepare])
       (Some (open_files int [5, 6] (nio_event_setup 100 0 ?e))) = (Some e', snd (run_calls (do_wants (\<lambda>_. False) int 100) (?cs @ [Prepare]) (\<lambda>_ _. None)))"
    "kqueue_fflush list_kevent e' = Some (e'', r)"
    "\<forall>f \<in> set [5, 6]. \<forall>d. kq_kernel (ev_poller e'') (int f, filter_of d) =
      (if ((\<lambda>_ _. None)(5 := (\<lambda>_. None)(Writing := Some True))) f d \<noteq> None then Some f else None)"
    using kqueue_watches_wanted [where run = "\<lambda>_ _. Some" and flags = 0 and fds = int and fs = "[5, 6]" and filters = "\<lambda>k. k", OF doc a c w]
    by (elim exE conjE) blast
  have k: "kq_kernel (ev_poller e'') (int f, filter_of d) =
      (if ((\<lambda>_ _. None)(5 := (\<lambda>_. None)(Writing := Some True))) f d \<noteq> None then Some f else None)" if "f \<in> set [5, 6]" for f d
    using e(3) that by blast
  from k [of 5 Reading] k [of 5 Writing] k [of 6 Reading] have "kq_kernel (ev_poller e'') (5, EVFILT_READ) = None"
    "kq_kernel (ev_poller e'') (5, EVFILT_WRITE) = Some 5" "kq_kernel (ev_poller e'') (6, EVFILT_READ) = None" by simp_all
  with e(1,2) show ?thesis by (metis fst_conv)
qed

text \<open>
  In one shot mode, asking for an event again, as the loop then does, counts the descriptor again: \<open>fdcount\<close> is 2 for
  one descriptor.
\<close>

lemma kqueue_counts_again:
  "\<exists>e. fst (run_calls (do_loop (\<lambda>_. False) (kqueue_ops list_kevent (\<lambda>_ _. Some))) [Add Reading 5 True, Add Reading 5 True]
       (Some (open_files int [5] (nio_event_setup 100 (NIO_EVENT_ONESHOT OR NIO_EVENT_DIRECT) (blank_event (nio_kqueue_create 4 Map.empty)))))) =
     Some e \<and> ev_fdcount e = 2"
proof -
  have "case fst (run_calls (do_loop (\<lambda>_. False) (kqueue_ops list_kevent (\<lambda>_ _. Some))) [Add Reading 5 True, Add Reading 5 True]
       (Some (open_files int [5] (nio_event_setup 100 (NIO_EVENT_ONESHOT OR NIO_EVENT_DIRECT) (blank_event (nio_kqueue_create 4 Map.empty)))))) of
      None \<Rightarrow> False | Some e \<Rightarrow> ev_fdcount e = 2"
    by code_simp
  then show ?thesis by (simp split: option.splits)
qed

end
