(* ===== verification/Nio_Create.thy ===== *)
theory Nio_Create
  imports Nio_Epoll Nio_Poll Nio_Select Nio_Kqueue
begin

text \<open>
  Which poller an event gets: the macros that nio_define.h defines for a system, the switch of
  \<open>nio_event_create\<close> (nio_event.c) and that of the constructor of \<open>nio_event\<close> (nio_event.cpp).
\<close>

text \<open>The systems that nio_define.h knows; of Windows, whether \<open>_WIN32_WINNT\<close> is at least \<open>0x0600\<close>.\<close>

datatype platform = Linux | FreeBSD | Apple | Windows bool

definition HAS_POLL :: "platform \<Rightarrow> bool" where
  "HAS_POLL os \<longleftrightarrow> (case os of Windows vista \<Rightarrow> vista | _ \<Rightarrow> True)"

definition HAS_EPOLL :: "platform \<Rightarrow> bool" where
  "HAS_EPOLL os \<longleftrightarrow> os = Linux"

definition HAS_KQUEUE :: "platform \<Rightarrow> bool" where
  "HAS_KQUEUE os \<longleftrightarrow> os = FreeBSD \<or> os = Apple"

definition HAS_WMSG :: "platform \<Rightarrow> bool" where
  "HAS_WMSG os \<longleftrightarrow> (case os of Windows vista \<Rightarrow> True | _ \<Rightarrow> False)"

definition HAS_IOCP :: "platform \<Rightarrow> bool" where
  "HAS_IOCP os \<longleftrightarrow> (case os of Windows vista \<Rightarrow> True | _ \<Rightarrow> False)"

definition NIO_EVENT_TYPE_KERNEL :: int where "NIO_EVENT_TYPE_KERNEL = 0"
definition NIO_EVENT_TYPE_POLL :: int where "NIO_EVENT_TYPE_POLL = 1"
definition NIO_EVENT_TYPE_SELECT :: int where "NIO_EVENT_TYPE_SELECT = 2"
definition NIO_EVENT_TYPE_WMSG :: int where "NIO_EVENT_TYPE_WMSG = 3"

datatype nio_event_t = NIO_EVENT_T_POLL | NIO_EVENT_T_SELECT | NIO_EVENT_T_KERNEL | NIO_EVENT_T_WMSG

text \<open>The constructor of \<open>nio_event\<close>.\<close>

definition nio_event_type :: "nio_event_t \<Rightarrow> int" where
  "nio_event_type type = (case type of
     NIO_EVENT_T_POLL \<Rightarrow> NIO_EVENT_TYPE_POLL
   | NIO_EVENT_T_SELECT \<Rightarrow> NIO_EVENT_TYPE_SELECT
   | NIO_EVENT_T_WMSG \<Rightarrow> NIO_EVENT_TYPE_WMSG
   | NIO_EVENT_T_KERNEL \<Rightarrow> NIO_EVENT_TYPE_KERNEL)"

text \<open>
  The functions that \<open>nio_event_create\<close> calls, by name; \<open>None\<close> is the call of \<open>nio_msg_fatal\<close>.  A system
  without any of the three kernel pollers does not compile.
\<close>

datatype creator = Nio_Poll_Create | Nio_Select_Create | Nio_Wmsg_Create | Nio_Epoll_Create | Nio_Kqueue_Create | Nio_Iocp_Create

definition nio_event_create :: "platform \<Rightarrow> int \<Rightarrow> creator option" where
  "nio_event_create os type =
     (if type = NIO_EVENT_TYPE_POLL then if HAS_POLL os then Some Nio_Poll_Create else None
      else if type = NIO_EVENT_TYPE_SELECT then Some Nio_Select_Create
      else if type = NIO_EVENT_TYPE_WMSG then if HAS_WMSG os then Some Nio_Wmsg_Create else None
      else if HAS_EPOLL os then Some Nio_Epoll_Create
      else if HAS_KQUEUE os then Some Nio_Kqueue_Create
      else Some Nio_Iocp_Create)"

text \<open>The default case of the switch is reached on Windows only when \<open>HAS_IOCP\<close> is defined.\<close>

lemma iocp_there: "\<not> HAS_EPOLL os \<Longrightarrow> \<not> HAS_KQUEUE os \<Longrightarrow> HAS_IOCP os"
  by (cases os) (simp_all add: HAS_EPOLL_def HAS_KQUEUE_def HAS_IOCP_def)

text \<open>The four pollers that have theories of their own are all there is outside Windows.\<close>

lemma created_off_windows:
  assumes "nio_event_create os type = Some c" "\<And>vista. os \<noteq> Windows vista"
  shows "c \<in> {Nio_Poll_Create, Nio_Select_Create, Nio_Epoll_Create, Nio_Kqueue_Create}"
  using assms by (cases os)
    (auto simp: nio_event_create_def HAS_EPOLL_def HAS_KQUEUE_def HAS_WMSG_def HAS_POLL_def split: if_splits)

text \<open>An event is refused only where the kind asked for is not there; the default kind always is.\<close>

lemma create_refused:
  "nio_event_create os (nio_event_type type) = None \<longleftrightarrow>
     type = NIO_EVENT_T_POLL \<and> os = Windows False \<or> type = NIO_EVENT_T_WMSG \<and> (\<forall>vista. os \<noteq> Windows vista)"
  by (cases os; cases type)
    (simp_all add: nio_event_create_def nio_event_type_def NIO_EVENT_TYPE_KERNEL_def NIO_EVENT_TYPE_POLL_def
      NIO_EVENT_TYPE_SELECT_def NIO_EVENT_TYPE_WMSG_def HAS_POLL_def HAS_WMSG_def)

end
