(* ===== verification/Nio_System.thy ===== *)
theory Nio_System
  imports Prelude
begin

text \<open>
  The small functions of c/src/common around system calls: the limit of open files (nio_open_limit.c), blocking
  (non_blocking.c) and the delay of tcp (nio_tcp_nodelay.c), for systems other than Windows.  The system calls are
  arguments; they work on a kernel of type \<open>'k\<close>.
\<close>

subsection \<open>The limit of open files\<close>

text \<open>\<open>struct rlimit\<close>; \<open>rlim_t\<close> has 64 bits.\<close>

record rlimit =
  rlim_cur :: "64 word"
  rlim_max :: "64 word"

text \<open>The cast of a \<open>rlim_t\<close> to \<open>int\<close>, and of an \<open>int\<close> to \<open>rlim_t\<close>.\<close>

definition rlim_int :: "64 word \<Rightarrow> int" where
  "rlim_int x = sint (ucast x :: 32 word)"

definition RLIM_INFINITY :: "64 word" where "RLIM_INFINITY = - 1"

definition nio_open_limit ::
  "('k \<Rightarrow> rlimit option) \<Rightarrow> (rlimit \<Rightarrow> 'k \<Rightarrow> 'k \<times> bool) \<Rightarrow> ('k \<Rightarrow> int) \<Rightarrow> int \<Rightarrow> 'k \<Rightarrow> 'k \<times> int" where
  "nio_open_limit getrlimit setrlimit getdtablesize limit k =
     (case getrlimit k of
        None \<Rightarrow> (k, getdtablesize k)
      | Some rl \<Rightarrow>
          let rl = (if rlim_max rl \<le> 0 then rl\<lparr>rlim_max := 102400\<rparr>
                    else if rlim_max rl > 10240000 then rl\<lparr>rlim_max := 10240000\<rparr> else rl);
              cur = rlim_int (rlim_cur rl)
          in if limit > 0 then
               let rl = (if limit > rlim_int (rlim_max rl) then rl\<lparr>rlim_cur := rlim_max rl\<rparr>
                         else rl\<lparr>rlim_cur := word_of_int limit\<rparr>)
               in (case setrlimit rl k of (k, ok) \<Rightarrow> (k, if ok then rlim_int (rlim_cur rl) else cur))
             else if rlim_max rl > rlim_cur rl then
               let rl = rl\<lparr>rlim_cur := rlim_max rl\<rparr>
               in (case setrlimit rl k of (k, ok) \<Rightarrow> (k, if ok then rlim_int (rlim_cur rl) else cur))
             else (k, rlim_int (rlim_cur rl)))"

text \<open>What is relied on of \<open>setrlimit\<close>: when it succeeds, the limits are what it was given.\<close>

definition setrlimit_doc :: "('k \<Rightarrow> rlimit option) \<Rightarrow> (rlimit \<Rightarrow> 'k \<Rightarrow> 'k \<times> bool) \<Rightarrow> bool" where
  "setrlimit_doc getrlimit setrlimit \<longleftrightarrow> (\<forall>rl k k' ok. setrlimit rl k = (k', ok) \<longrightarrow> getrlimit k' = (if ok then Some rl else getrlimit k))"

lemma rlim_int_small: "x \<le> 10240000 \<Longrightarrow> rlim_int x = uint x"
proof -
  assume "x \<le> 10240000"
  then have x: "uint x \<le> 10240000" by (simp add: word_le_def)
  have "uint (ucast x :: 32 word) = uint x" using x by (simp add: unsigned_ucast_eq take_bit_int_eq_self)
  moreover have "sint (ucast x :: 32 word) = signed_take_bit 31 (uint (ucast x :: 32 word))" by (simp add: sint_uint)
  moreover have "signed_take_bit 31 (uint x) = uint x" using x by (intro signed_take_bit_int_eq_self) (simp_all add: order_trans [OF _ uint_ge_0])
  ultimately show ?thesis by (simp add: rlim_int_def)
qed

text \<open>Whatever is returned is then the limit in force, as long as no limit is beyond the range that the function knows.\<close>

lemma open_limit_in_force:
  assumes "setrlimit_doc getrlimit setrlimit" "getrlimit k = Some rl" "rlim_cur rl \<le> rlim_max rl" "rlim_max rl \<le> 10240000" "limit < 2 ^ 31"
    "nio_open_limit getrlimit setrlimit getdtablesize limit k = (k', n)"
  shows "\<exists>rl'. getrlimit k' = Some rl' \<and> n = uint (rlim_cur rl')"
proof -
  define rl1 where "rl1 = (if rlim_max rl \<le> 0 then rl\<lparr>rlim_max := 102400\<rparr>
      else if rlim_max rl > 10240000 then rl\<lparr>rlim_max := 10240000\<rparr> else rl)"
  have small: "(102400 :: 64 word) \<le> 10240000" by simp
  then have m: "rlim_max rl1 \<le> 10240000" using assms(4) by (simp add: rl1_def)
  have c: "rlim_cur rl1 = rlim_cur rl" "rlim_cur rl \<le> 10240000" using assms(3,4) by (auto simp: rl1_def)
  have cur: "rlim_int (rlim_cur rl) = uint (rlim_cur rl)" "rlim_int (rlim_max rl1) = uint (rlim_max rl1)"
    using c(2) m by (auto intro: rlim_int_small)
  have l: "rlim_int (word_of_int limit) = uint (word_of_int limit :: 64 word)" if "0 < limit" "limit \<le> uint (rlim_max rl1)"
  proof (rule rlim_int_small)
    have "limit \<le> 10240000" using that(2) m by (simp add: word_le_def)
    then show "(word_of_int limit :: 64 word) \<le> 10240000" using that(1) by (simp add: word_le_def take_bit_int_eq_self uint_word_of_int)
  qed
  have set: "getrlimit v = (if ok then Some r else Some rl)" if "setrlimit r k = (v, ok)" for r v ok
    using assms(1,2) that by (simp add: setrlimit_doc_def)
  show ?thesis
    using assms(6) unfolding nio_open_limit_def assms(2) option.case Let_def rl1_def [symmetric] c(1) cur
    using assms(2) by (auto split: if_splits prod.splits dest!: set simp: cur l)
qed

lemma rlim_infinity: "\<not> RLIM_INFINITY \<le> 0" "10240000 < RLIM_INFINITY" "\<not> RLIM_INFINITY < 10240000" "1024 < RLIM_INFINITY" "rlim_int RLIM_INFINITY = - 1"
  by code_simp+

text \<open>A soft limit of \<open>RLIM_INFINITY\<close> is returned as -1, and the tables of poll and of select then get 1024 places.\<close>

lemma open_limit_infinite:
  assumes "getrlimit k = Some \<lparr>rlim_cur = RLIM_INFINITY, rlim_max = RLIM_INFINITY\<rparr>"
  shows "nio_open_limit getrlimit setrlimit getdtablesize 0 k = (k, - 1)"
  using assms rlim_infinity by (simp add: nio_open_limit_def Let_def)

text \<open>A hard limit beyond ten million files is lowered, which cannot be undone.\<close>

lemma open_limit_lowers:
  assumes "setrlimit_doc getrlimit setrlimit" "getrlimit k = Some \<lparr>rlim_cur = 1024, rlim_max = RLIM_INFINITY\<rparr>"
    "\<And>rl. snd (setrlimit rl k)"
  shows "getrlimit (fst (nio_open_limit getrlimit setrlimit getdtablesize 0 k)) = Some \<lparr>rlim_cur = 10240000, rlim_max = 10240000\<rparr>"
proof -
  let ?rl = "\<lparr>rlim_cur = 10240000, rlim_max = 10240000\<rparr>"
  obtain k' where "setrlimit ?rl k = (k', True)" using assms(3) [of ?rl] by (metis prod.collapse)
  with assms rlim_infinity show ?thesis
    by (simp add: nio_open_limit_def Let_def setrlimit_doc_def)
qed

subsection \<open>Blocking\<close>

definition O_NONBLOCK :: "32 word" where "O_NONBLOCK = 0x800"

text \<open>\<open>fcntl\<close> with \<open>F_GETFL\<close> and with \<open>F_SETFL\<close>; \<open>None\<close> is the result -1.\<close>

definition nio_non_blocking ::
  "(int \<Rightarrow> 'k \<Rightarrow> 32 word option) \<Rightarrow> (int \<Rightarrow> 32 word \<Rightarrow> 'k \<Rightarrow> 'k option) \<Rightarrow> int \<Rightarrow> bool \<Rightarrow> 'k \<Rightarrow> 'k \<times> int" where
  "nio_non_blocking getfl setfl fd on k =
     (case getfl fd k of
        None \<Rightarrow> (k, - 1)
      | Some flags \<Rightarrow>
          (case setfl fd (if on then flags OR O_NONBLOCK else flags AND NOT O_NONBLOCK) k of
             None \<Rightarrow> (k, - 1) | Some k \<Rightarrow> (k, sint flags)))"

lemma non_blocking_set:
  assumes "\<And>fl k k'. setfl fd fl k = Some k' \<Longrightarrow> getfl fd k' = Some fl" "nio_non_blocking getfl setfl fd on k = (k', r)" "r \<noteq> - 1"
  shows "\<exists>old new. getfl fd k = Some old \<and> getfl fd k' = Some new \<and> r = sint old \<and>
    (\<forall>i. bit new i \<longleftrightarrow> (if bit O_NONBLOCK i then on else bit old i))"
proof -
  obtain old where o: "getfl fd k = Some old" "setfl fd (if on then old OR O_NONBLOCK else old AND NOT O_NONBLOCK) k = Some k'" "r = sint old"
    using assms(2,3) by (auto simp: nio_non_blocking_def split: option.splits)
  have "getfl fd k' = Some (if on then old OR O_NONBLOCK else old AND NOT O_NONBLOCK)" using assms(1) [OF o(2)] .
  with o show ?thesis by (auto simp: bit_or_iff bit_and_iff bit_not_iff dest: bit_imp_le_length)
qed

subsection \<open>The delay of tcp\<close>

datatype family = AF_UNIX | AF_INET | AF_INET6 | AF_Other

definition getsocktype :: "(int \<Rightarrow> 'k \<Rightarrow> family option) \<Rightarrow> int \<Rightarrow> 'k \<Rightarrow> family option" where
  "getsocktype getsockname fd k =
     (if fd = - 1 then None
      else case getsockname fd k of
        None \<Rightarrow> None
      | Some sa_family \<Rightarrow>
          if sa_family = AF_UNIX then Some AF_UNIX
          else if sa_family = AF_INET \<or> sa_family = AF_INET6 then Some sa_family else None)"

definition nio_tcp_nodelay ::
  "(int \<Rightarrow> 'k \<Rightarrow> family option) \<Rightarrow> (int \<Rightarrow> int \<Rightarrow> 'k \<Rightarrow> 'k) \<Rightarrow> int \<Rightarrow> int \<Rightarrow> 'k \<Rightarrow> 'k" where
  "nio_tcp_nodelay getsockname set_nodelay fd onoff k =
     (let on = (if onoff \<noteq> 0 then 1 else 0); n = getsocktype getsockname fd k
      in if n \<noteq> Some AF_INET \<and> n \<noteq> Some AF_INET6 then k else set_nodelay fd on k)"

text \<open>Sockets of other families, pipes and files are left alone.\<close>

lemma nodelay_tcp_only:
  "getsockname fd k \<noteq> Some AF_INET \<Longrightarrow> getsockname fd k \<noteq> Some AF_INET6 \<Longrightarrow> nio_tcp_nodelay getsockname set_nodelay fd onoff k = k"
  by (auto simp: nio_tcp_nodelay_def getsocktype_def Let_def split: option.splits)

end
