(* ===== verification/Cpp_Machine.thy ===== *)
theory Cpp_Machine
  imports Nio_Epoll "HOL-Library.Monad_Syntax"
begin

text \<open>
  What the C++ classes of cpp/src work on: the event of the C core, the members of the objects,
  the timers of \<open>nio_event\<close> and the kernel, all in one machine.  The event of the C core holds the
  rest of the machine in \<open>ev_poller\<close>, as what the epoll poller and the callbacks it runs can reach.
  Objects, and the descriptors of type \<open>NIO_FILE\<close>, are named by their address, 0 for the null
  pointer.

  \<open>'h\<close> is the type of the user's function objects, \<open>'k\<close> the state of the kernel.
\<close>

subsection \<open>Objects\<close>

text \<open>The static methods that the C++ classes give to the C core.\<close>

datatype callback = Client_Read | Client_Write | Client_Connect | Proc_Read | Proc_Write | Proc_Connect

text \<open>What \<open>NIO_FILE.ctx\<close> points to.\<close>

datatype owner = Client_Object nat | Proc_Object nat

text \<open>A timer is the member \<open>read_timer_\<close> or \<open>write_timer_\<close> of a client, or one of the user's.\<close>

datatype timer_id = Read_Timer nat | Write_Timer nat | User_Timer nat

record client_timer =
  ct_waiting :: bool
  ct_connecting :: bool

definition client_timer_new :: client_timer where
  "client_timer_new = \<lparr>ct_waiting = False, ct_connecting = False\<rparr>"

text \<open>A timer that is not there yet is created when it is needed.\<close>

definition need_timer :: "client_timer option \<Rightarrow> client_timer" where
  "need_timer t = (case t of None \<Rightarrow> client_timer_new | Some t \<Rightarrow> t)"

definition client_f_init :: u32 where "client_f_init = 0"
definition client_f_rtimer :: u32 where "client_f_rtimer = 1"
definition client_f_wtimer :: u32 where "client_f_wtimer = 2"

text \<open>A \<open>std::function\<close> that is empty, and a pointer that is null, are \<open>None\<close>.\<close>

record 'h client_socket =
  cs_on_connect :: "'h option"
  cs_on_read :: "'h option"
  cs_on_write :: "'h option"
  cs_on_error :: "'h option"
  cs_on_close :: "'h option"
  cs_fe :: "nat option"
  cs_closing :: bool
  cs_flags :: u32
  cs_read_timer :: "client_timer option"
  cs_write_timer :: "client_timer option"
  cs_buf :: "bytes option"

definition client_socket_new :: "'h client_socket" where
  "client_socket_new =
     \<lparr>cs_on_connect = None, cs_on_read = None, cs_on_write = None, cs_on_error = None, cs_on_close = None,
      cs_fe = None, cs_closing = False, cs_flags = client_f_init, cs_read_timer = None, cs_write_timer = None,
      cs_buf = None\<rparr>"

text \<open>The class \<open>server_socket\<close> that is derived from \<open>event_proc\<close> adds these members.\<close>

record 'h server_socket =
  sv_lfd :: int
  sv_backlog :: int
  sv_on_accept :: "'h option"
  sv_on_error :: "'h option"
  sv_on_close :: "'h option"

text \<open>
  The class of an object decides what its virtual functions are: those of \<open>event_proc\<close>, those of
  \<open>server_socket\<close>, or the user's.
\<close>

datatype 'h proc_class = Base | Server "'h server_socket" | Derived 'h

record 'h event_proc =
  ep_ev :: bool                          \<comment> \<open>whether \<open>ev_\<close> is set; there is one event\<close>
  ep_fe :: "nat option"
  ep_buf :: "bytes option"
  ep_closing :: bool
  ep_class :: "'h proc_class"

definition event_proc_new :: "'h proc_class \<Rightarrow> 'h event_proc" where
  "event_proc_new cls = \<lparr>ep_ev = False, ep_fe = None, ep_buf = None, ep_closing = False, ep_class = cls\<rparr>"

subsection \<open>What the user is told, and can call\<close>

text \<open>The calls of the user's function objects and virtual functions, with their arguments.\<close>

datatype notice =
    Connected int bool | Readable int bool | Writable int bool | Failed int | Closed int
  | Proc_Readable nat | Proc_Writable nat | Proc_Connected nat bool | Proc_Failed nat | Proc_Closed nat
  | Accepted int string | Accept_Failed | Server_Closed | Timeout nat

text \<open>
  The public methods, which a program calls from anywhere, the user's functions included.  The
  byte in a writing call is the one in front of the data, which the code may read.
\<close>

datatype 'h api =
    Client_New | Client_Open int
  | On_Connect nat 'h | On_Read nat 'h | On_Write nat 'h | On_Error nat 'h | On_Close nat 'h
  | Read_Disable nat | Write_Disable nat | Read_Write_Disable nat
  | Connect_Await nat string int int | Read_Await nat int | Write_Await nat int
  | Write_Data nat byte bytes int | Close_Await nat | Set_Closing nat bool
  | Proc_Bind nat int | Proc_Read_Await nat | Proc_Write_Await nat | Proc_Read_Disable nat | Proc_Write_Disable nat
  | Proc_Connect_Await nat | Proc_Write_Data nat byte bytes | Proc_Close_Await nat | Proc_Set_Closing nat
  | Proc_New "'h proc_class" | Proc_Open "'h proc_class" int
  | Server_Open nat string int | Server_Accept_Await nat
  | Server_On_Accept nat 'h | Server_On_Error nat 'h | Server_On_Close nat 'h
  | Add_Timer nat int | Del_Timer nat | Reset_Timer nat int

text \<open>
  What has happened, in order: methods called, with their results, the user told, bytes of an
  object taken by the kernel, an object's \<open>close\<close> or \<open>on_close\<close> entered, and the system call \<open>close\<close>
  made on an object's descriptor.  The history is kept for the theorems; the code has none.
\<close>

datatype 'h happening = Called "'h api" int | Told 'h notice | Sent owner bytes | Closing owner | Shut owner int

subsection \<open>The machine\<close>

record ('h, 'k) machine =
  m_kernel :: 'k
  m_stamp :: int                         \<comment> \<open>\<open>NIO_EVENT.stamp\<close>\<close>
  m_ctx :: "nat \<Rightarrow> owner option"         \<comment> \<open>\<open>NIO_FILE.ctx\<close>\<close>
  m_fresh :: nat                         \<comment> \<open>the next address that \<open>new\<close> returns\<close>
  m_clients :: "nat \<Rightarrow> 'h client_socket"
  m_procs :: "nat \<Rightarrow> 'h event_proc"
  m_timers :: "timer_id timer_queue"     \<comment> \<open>\<open>nio_event\<close>: \<open>counter_\<close>, \<open>timers_\<close>\<close>
  m_procs_free :: "nat list"
  m_clients_free :: "nat list"
  m_trace :: "'h happening list"

type_synonym ('h, 'k) world = "(callback, ('h, 'k) machine) nio_event"

text \<open>
  The system calls.  \<open>write\<close> takes some of the bytes, or fails with \<open>EAGAIN\<close> or another error.
  Other calls return their result and \<open>errno\<close>.
\<close>

datatype written = Wrote nat | Again | Broken

datatype sockaddr = Addr_In bytes u16 | Addr_In6 bytes u16 u32 | Addr_Other

record 'k system =
  sys_write :: "int \<Rightarrow> bytes \<Rightarrow> 'k \<Rightarrow> 'k \<times> written"
  sys_close :: "int \<Rightarrow> 'k \<Rightarrow> 'k"
  sys_socket :: "'k \<Rightarrow> 'k \<times> int"
  sys_options :: "int \<Rightarrow> 'k \<Rightarrow> 'k"         \<comment> \<open>\<open>setsockopt\<close>, \<open>fcntl\<close>\<close>
  sys_connect :: "int \<Rightarrow> string \<Rightarrow> int \<Rightarrow> 'k \<Rightarrow> 'k \<times> int \<times> int"
  sys_so_error :: "int \<Rightarrow> 'k \<Rightarrow> 'k \<times> int \<times> int"
  sys_bind :: "int \<Rightarrow> string \<Rightarrow> int \<Rightarrow> 'k \<Rightarrow> 'k \<times> int"
  sys_listen :: "int \<Rightarrow> int \<Rightarrow> 'k \<Rightarrow> 'k \<times> int"
  sys_accept :: "int \<Rightarrow> 'k \<Rightarrow> 'k \<times> int \<times> int \<times> sockaddr"
  sys_inet_ntop :: "bytes \<Rightarrow> int + string"
  sys_if_name :: "u32 \<Rightarrow> string option"

definition EINPROGRESS :: int where "EINPROGRESS = 115"
definition EISCONN :: int where "EISCONN = 106"
definition EAGAIN :: int where "EAGAIN = 11"     \<comment> \<open>and \<open>EWOULDBLOCK\<close>\<close>

definition written_ret :: "written \<Rightarrow> int" where
  "written_ret r = (case r of Wrote n \<Rightarrow> int n | _ \<Rightarrow> - 1)"

text \<open>
  What a program is run in: the system, the poller, and the user, who answers every call of a
  function with some calls of methods and, where it matters, a truth value.  The poller waits with
  \<open>en_event_wait\<close>, which runs callbacks; \<open>en_timer\<close> are the \<open>on_timer\<close> methods of the user's timers.
\<close>

record ('h, 'k) env =
  en_system :: "'k system"
  en_seekable :: "int \<Rightarrow> bool"
  en_ops :: "(callback, ('h, 'k) machine) poller_ops"
  en_event_wait :: "(callback \<Rightarrow> nat \<Rightarrow> ('h, 'k) world \<Rightarrow> ('h, 'k) world option) \<Rightarrow> int \<Rightarrow> ('h, 'k) world \<Rightarrow>
    (('h, 'k) world \<times> int \<times> (callback \<times> nat) list) option"
  en_user :: "'h \<Rightarrow> notice \<Rightarrow> ('h, 'k) world \<Rightarrow> 'h api list \<times> bool"
  en_timer :: "nat \<Rightarrow> 'h"

definition client :: "nat \<Rightarrow> ('h, 'k) world \<Rightarrow> 'h client_socket" where
  "client c w = m_clients (ev_poller w) c"

definition proc :: "nat \<Rightarrow> ('h, 'k) world \<Rightarrow> 'h event_proc" where
  "proc p w = m_procs (ev_poller w) p"

definition upd_client :: "nat \<Rightarrow> ('h client_socket \<Rightarrow> 'h client_socket) \<Rightarrow> ('h, 'k) world \<Rightarrow> ('h, 'k) world" where
  "upd_client c g = upd_poller (\<lambda>m. m\<lparr>m_clients := (m_clients m)(c := g (m_clients m c))\<rparr>)"

definition upd_proc :: "nat \<Rightarrow> ('h event_proc \<Rightarrow> 'h event_proc) \<Rightarrow> ('h, 'k) world \<Rightarrow> ('h, 'k) world" where
  "upd_proc p g = upd_poller (\<lambda>m. m\<lparr>m_procs := (m_procs m)(p := g (m_procs m p))\<rparr>)"

definition happen :: "'h happening \<Rightarrow> ('h, 'k) world \<Rightarrow> ('h, 'k) world" where
  "happen x = upd_poller (\<lambda>m. m\<lparr>m_trace := m_trace m @ [x]\<rparr>)"

definition in_kernel :: "('k \<Rightarrow> 'k \<times> 'r) \<Rightarrow> ('h, 'k) world \<Rightarrow> ('h, 'k) world \<times> 'r" where
  "in_kernel g w = (case g (m_kernel (ev_poller w)) of (k, r) \<Rightarrow> (upd_poller (\<lambda>m. m\<lparr>m_kernel := k\<rparr>) w, r))"

definition kernel_do :: "('k \<Rightarrow> 'k) \<Rightarrow> ('h, 'k) world \<Rightarrow> ('h, 'k) world" where
  "kernel_do g = upd_poller (\<lambda>m. m\<lparr>m_kernel := g (m_kernel m)\<rparr>)"

text \<open>\<open>new\<close> returns an address that has not been used before.\<close>

definition new_address :: "('h, 'k) world \<Rightarrow> ('h, 'k) world \<times> nat" where
  "new_address w = (upd_poller (\<lambda>m. m\<lparr>m_fresh := m_fresh m + 1\<rparr>) w, m_fresh (ev_poller w))"

definition nio_file_alloc :: "int \<Rightarrow> ('h, 'k) world \<Rightarrow> ('h, 'k) world \<times> nat" where
  "nio_file_alloc fd w =
     (let (w, f) = new_address w;
          w = upd_poller (\<lambda>m. m\<lparr>m_ctx := (m_ctx m)(f := None)\<rparr>) w
      in (nio_file_init f fd w, f))"

definition nio_file_set_ctx :: "nat \<Rightarrow> owner \<Rightarrow> ('h, 'k) world \<Rightarrow> ('h, 'k) world" where
  "nio_file_set_ctx f ob = upd_poller (\<lambda>m. m\<lparr>m_ctx := (m_ctx m)(f := Some ob)\<rparr>)"

subsection \<open>The class \<open>nio_event\<close>\<close>

definition event_add_timer :: "timer_id \<Rightarrow> int \<Rightarrow> ('h, 'k) world \<Rightarrow> ('h, 'k) world" where
  "event_add_timer tm ms = upd_poller (\<lambda>m. m\<lparr>m_timers := add_timer (m_stamp m) tm ms (m_timers m)\<rparr>)"

definition event_del_timer :: "timer_id \<Rightarrow> ('h, 'k) world \<Rightarrow> ('h, 'k) world" where
  "event_del_timer tm = upd_poller (\<lambda>m. m\<lparr>m_timers := del_timer tm (m_timers m)\<rparr>)"

definition event_reset_timer :: "timer_id \<Rightarrow> int \<Rightarrow> ('h, 'k) world \<Rightarrow> ('h, 'k) world" where
  "event_reset_timer tm ms = upd_poller (\<lambda>m. m\<lparr>m_timers := reset_timer (m_stamp m) tm ms (m_timers m)\<rparr>)"

definition delay_close_proc :: "nat \<Rightarrow> ('h, 'k) world \<Rightarrow> ('h, 'k) world" where
  "delay_close_proc p w =
     (if \<not> ep_closing (proc p w)
      then upd_poller (\<lambda>m. m\<lparr>m_procs_free := m_procs_free m @ [p]\<rparr>) (upd_proc p (\<lambda>x. x\<lparr>ep_closing := True\<rparr>) w)
      else w)"

definition delay_close_client :: "nat \<Rightarrow> ('h, 'k) world \<Rightarrow> ('h, 'k) world" where
  "delay_close_client c w =
     (if \<not> cs_closing (client c w)
      then upd_poller (\<lambda>m. m\<lparr>m_clients_free := m_clients_free m @ [c]\<rparr>) (upd_client c (\<lambda>x. x\<lparr>cs_closing := True\<rparr>) w)
      else w)"

subsection \<open>Written bytes\<close>

text \<open>A \<open>std::string *\<close> of bytes that are still to be written.\<close>

definition pending :: "bytes option \<Rightarrow> bytes" where
  "pending b = (case b of None \<Rightarrow> [] | Some x \<Rightarrow> x)"

text \<open>
  The bytes from \<open>data + ret\<close> on, \<open>len - ret\<close> of them; \<open>prev\<close> is the byte at \<open>data - 1\<close>.
\<close>

definition from_offset :: "int \<Rightarrow> byte \<Rightarrow> bytes \<Rightarrow> bytes" where
  "from_offset ret prev data = drop (nat (ret + 1)) (prev # data)"

text \<open>The system call \<open>write\<close>, with what it takes noted for the object that writes.\<close>

definition write_out ::
  "'k system \<Rightarrow> owner \<Rightarrow> int \<Rightarrow> bytes \<Rightarrow> ('h, 'k) world \<Rightarrow> ('h, 'k) world \<times> written" where
  "write_out sys ob fd data w =
     (let (w, r) = in_kernel (sys_write sys fd data) w
      in (case r of Wrote n \<Rightarrow> happen (Sent ob (take n data)) w | _ \<Rightarrow> w, r))"

text \<open>\<open>flush\<close> of both classes: what is left of the buffer, and the result.\<close>

definition flush_bytes ::
  "'k system \<Rightarrow> owner \<Rightarrow> int \<Rightarrow> bytes \<Rightarrow> ('h, 'k) world \<Rightarrow> ('h, 'k) world \<times> bytes \<times> int" where
  "flush_bytes sys ob fd b w =
     (let (w, r) = write_out sys ob fd b w; ret = written_ret r
      in if ret = int (length b) then (w, [], ret)
         else if ret = - 1 then (if r \<noteq> Again then (w, b, - 1) else (w, b, 0))
         else (w, drop (nat ret) b, ret))"

end
