(* ===== verification/Cpp_Proc.thy ===== *)
theory Cpp_Proc
  imports Cpp_Machine
begin

text \<open>
  The public methods of \<open>event_proc\<close> (cpp/src/event_proc.cpp) and of \<open>server_socket\<close>, which is
  derived from it (cpp/src/server_socket.cpp).  The static methods that the event loop calls back
  are in \<open>Cpp_Event\<close>.  \<open>None\<close> is an access through a null pointer.
\<close>

subsection \<open>The class \<open>event_proc\<close>\<close>

definition proc_new :: "'h proc_class \<Rightarrow> ('h, 'k) world \<Rightarrow> ('h, 'k) world \<times> nat" where
  "proc_new cls w = (let (w, p) = new_address w in (upd_proc p (\<lambda>_. event_proc_new cls) w, p))"

definition proc_bind :: "nat \<Rightarrow> int \<Rightarrow> ('h, 'k) world \<Rightarrow> ('h, 'k) world" where
  "proc_bind p fd w =
     (let w = upd_proc p (\<lambda>x. x\<lparr>ep_ev := True\<rparr>) w;
          (w, f) = nio_file_alloc fd w;
          w = nio_file_set_ctx f (Proc_Object p) w
      in upd_proc p (\<lambda>x. x\<lparr>ep_fe := Some f\<rparr>) w)"

text \<open>The other constructor.\<close>

definition proc_open :: "'h proc_class \<Rightarrow> int \<Rightarrow> ('h, 'k) world \<Rightarrow> ('h, 'k) world \<times> nat" where
  "proc_open cls fd w =
     (let (w, p) = proc_new cls w;
          w = upd_proc p (\<lambda>x. x\<lparr>ep_ev := True\<rparr>) w;
          (w, f) = nio_file_alloc fd w;
          w = upd_proc p (\<lambda>x. x\<lparr>ep_fe := Some f\<rparr>) w
      in (nio_file_set_ctx f (Proc_Object p) w, p))"

definition proc_sock_handle :: "nat \<Rightarrow> ('h, 'k) world \<Rightarrow> int" where
  "proc_sock_handle p w =
     (case ep_class (proc p w) of
        Server s \<Rightarrow> sv_lfd s
      | _ \<Rightarrow> (case ep_fe (proc p w) of None \<Rightarrow> - 1 | Some f \<Rightarrow> f_fd (ev_files w f)))"

definition proc_set_closing :: "nat \<Rightarrow> ('h, 'k) world \<Rightarrow> ('h, 'k) world" where
  "proc_set_closing p = upd_proc p (\<lambda>x. x\<lparr>ep_closing := True\<rparr>)"

definition proc_close_await :: "('h, 'k) env \<Rightarrow> nat \<Rightarrow> ('h, 'k) world \<Rightarrow> ('h, 'k) world option" where
  "proc_close_await E p w =
     (if \<not> ep_ev (proc p w) then Some w
      else if \<not> ep_closing (proc p w) then do {
        f \<leftarrow> ep_fe (proc p w);
        w \<leftarrow> nio_event_del_readwrite (en_ops E) f w;
        let w = delay_close_proc p w;
        Some (upd_proc p (\<lambda>x. x\<lparr>ep_closing := True\<rparr>) w) }
      else Some w)"

definition proc_read_await :: "('h, 'k) env \<Rightarrow> nat \<Rightarrow> ('h, 'k) world \<Rightarrow> (('h, 'k) world \<times> bool) option" where
  "proc_read_await E p w =
     (if \<not> ep_ev (proc p w) then Some (w, False)
      else do {
        f \<leftarrow> ep_fe (proc p w);
        (w, r) \<leftarrow> nio_event_add_read (en_seekable E) (en_ops E) f Proc_Read w;
        Some (w, r \<noteq> 0) })"

definition proc_write_await :: "('h, 'k) env \<Rightarrow> nat \<Rightarrow> ('h, 'k) world \<Rightarrow> (('h, 'k) world \<times> bool) option" where
  "proc_write_await E p w =
     (if \<not> ep_ev (proc p w) then Some (w, False)
      else do {
        f \<leftarrow> ep_fe (proc p w);
        (w, r) \<leftarrow> nio_event_add_write (en_seekable E) (en_ops E) f Proc_Write w;
        Some (w, r \<noteq> 0) })"

definition proc_read_disable :: "('h, 'k) env \<Rightarrow> nat \<Rightarrow> ('h, 'k) world \<Rightarrow> ('h, 'k) world option" where
  "proc_read_disable E p w =
     (if \<not> ep_ev (proc p w) then Some w
      else do { f \<leftarrow> ep_fe (proc p w); nio_event_del_read (en_ops E) f w })"

definition proc_write_disable :: "('h, 'k) env \<Rightarrow> nat \<Rightarrow> ('h, 'k) world \<Rightarrow> ('h, 'k) world option" where
  "proc_write_disable E p w =
     (if \<not> ep_ev (proc p w) then Some w
      else do { f \<leftarrow> ep_fe (proc p w); nio_event_del_write (en_ops E) f w })"

definition proc_connect_await :: "('h, 'k) env \<Rightarrow> nat \<Rightarrow> ('h, 'k) world \<Rightarrow> (('h, 'k) world \<times> bool) option" where
  "proc_connect_await E p w =
     (if \<not> ep_ev (proc p w) then Some (w, True)
      else do {
        f \<leftarrow> ep_fe (proc p w);
        (w, r) \<leftarrow> nio_event_add_write (en_seekable E) (en_ops E) f Proc_Connect w;
        Some (w, r \<noteq> 0) })"

definition proc_write :: "('h, 'k) env \<Rightarrow> nat \<Rightarrow> byte \<Rightarrow> bytes \<Rightarrow> ('h, 'k) world \<Rightarrow> (('h, 'k) world \<times> int) option" where
  "proc_write E p prev data w =
     (if pending (ep_buf (proc p w)) \<noteq> []
      then Some (upd_proc p (\<lambda>x. x\<lparr>ep_buf := Some (pending (ep_buf x) @ data)\<rparr>) w, 0)
      else do {
        f \<leftarrow> ep_fe (proc p w);
        let (w, r) = write_out (en_system E) (Proc_Object p) (f_fd (ev_files w f)) data w;
        let ret = written_ret r;
        if ret = int (length data) then Some (w, ret)
        else if ret = - 1 \<and> r \<noteq> Again then Some (w, - 1)
        else do {
          let w = upd_proc p (\<lambda>x. x\<lparr>ep_buf := Some (pending (ep_buf x) @ from_offset ret prev data)\<rparr>) w;
          (w, ok) \<leftarrow> proc_write_await E p w;
          Some (w, if ok then ret else - 1) } })"

definition proc_flush :: "('h, 'k) env \<Rightarrow> nat \<Rightarrow> ('h, 'k) world \<Rightarrow> (('h, 'k) world \<times> int) option" where
  "proc_flush E p w =
     (if pending (ep_buf (proc p w)) = [] then Some (w, 0)
      else do {
        f \<leftarrow> ep_fe (proc p w);
        let (w, b, ret) = flush_bytes (en_system E) (Proc_Object p) (f_fd (ev_files w f)) (pending (ep_buf (proc p w))) w;
        Some (upd_proc p (\<lambda>x. x\<lparr>ep_buf := Some b\<rparr>) w, ret) })"

subsection \<open>The class \<open>server_socket\<close>\<close>

definition server_socket_new :: "int \<Rightarrow> 'h server_socket" where
  "server_socket_new backlog =
     \<lparr>sv_lfd = - 1, sv_backlog = backlog, sv_on_accept = None, sv_on_error = None, sv_on_close = None\<rparr>"

definition server :: "nat \<Rightarrow> ('h, 'k) world \<Rightarrow> 'h server_socket option" where
  "server p w = (case ep_class (proc p w) of Server s \<Rightarrow> Some s | _ \<Rightarrow> None)"

definition upd_server :: "nat \<Rightarrow> ('h server_socket \<Rightarrow> 'h server_socket) \<Rightarrow> ('h, 'k) world \<Rightarrow> ('h, 'k) world" where
  "upd_server p g =
     upd_proc p (\<lambda>x. x\<lparr>ep_class := (case ep_class x of Server s \<Rightarrow> Server (g s) | cls \<Rightarrow> cls)\<rparr>)"

definition server_open :: "('h, 'k) env \<Rightarrow> nat \<Rightarrow> string \<Rightarrow> int \<Rightarrow> ('h, 'k) world \<Rightarrow> (('h, 'k) world \<times> bool) option" where
  "server_open E p ip port w = do {
     s \<leftarrow> server p w;
     let (w, fd) = in_kernel (sys_socket (en_system E)) w;
     let w = upd_server p (\<lambda>s. s\<lparr>sv_lfd := fd\<rparr>) w;
     if fd = - 1 then Some (w, False)
     else do {
       let w = kernel_do (sys_options (en_system E) fd) w;
       let (w, r) = in_kernel (sys_bind (en_system E) fd ip port) w;
       if r < 0 then do {
         let w = kernel_do (sys_close (en_system E) fd) w;
         Some (upd_server p (\<lambda>s. s\<lparr>sv_lfd := - 1\<rparr>) w, False) }
       else do {
         let (w, r) = in_kernel (sys_listen (en_system E) fd (sv_backlog s)) w;
         if r < 0 then do {
           let w = upd_server p (\<lambda>s. s\<lparr>sv_lfd := - 1\<rparr>) w;
           let w = kernel_do (sys_close (en_system E) (- 1)) w;
           Some (w, False) }
         else Some (w, True) } } }"

text \<open>A number as an \<open>ostream\<close> prints it.\<close>

fun decimal :: "nat \<Rightarrow> string" where
  "decimal n = (if n < 10 then [char_of (48 + n)] else decimal (n div 10) @ [char_of (48 + n mod 10)])"

declare decimal.simps [simp del]

definition addr_string :: "'k system \<Rightarrow> sockaddr \<Rightarrow> int + string" where
  "addr_string sys sa =
     (case sa of
        Addr_In a port \<Rightarrow>
          (case sys_inet_ntop sys a of Inl err \<Rightarrow> Inl err
           | Inr ip \<Rightarrow> Inr (ip @ '':'' @ decimal (unat port)))
      | Addr_In6 a port scope \<Rightarrow>
          (case sys_inet_ntop sys a of Inl err \<Rightarrow> Inl err
           | Inr ip \<Rightarrow>
               let ifname = (case sys_if_name sys scope of None \<Rightarrow> '''' | Some s \<Rightarrow> s)
               in if unat port \<le> 0 then
                    Inr (if ip \<noteq> ''::1'' \<and> ifname \<noteq> '''' then ip @ ''%'' @ ifname else ip)
                  else if ip \<noteq> ''::1'' \<and> ifname \<noteq> '''' then Inr (ip @ ''%'' @ ifname @ ''|'' @ decimal (unat port))
                  else Inr (ip @ ''|'' @ decimal (unat port)))
      | Addr_Other \<Rightarrow> Inr '''')"

text \<open>\<open>accept\<close>: the socket, \<open>errno\<close> when it is -1, and what is left in \<open>*addr\<close>, an empty string before.\<close>

definition server_accept ::
  "('h, 'k) env \<Rightarrow> nat \<Rightarrow> bool \<Rightarrow> ('h, 'k) world \<Rightarrow> (('h, 'k) world \<times> int \<times> int \<times> string) option" where
  "server_accept E p want_addr w = do {
     s \<leftarrow> server p w;
     let (w, fd, err, sa) = in_kernel (sys_accept (en_system E) (sv_lfd s)) w;
     if fd = - 1 then Some (w, - 1, err, '''')
     else if \<not> want_addr then Some (w, fd, 0, '''')
     else (case addr_string (en_system E) sa of
       Inl err \<Rightarrow> do {
         let w = kernel_do (sys_close (en_system E) fd) w;
         Some (w, - 1, err, '''') }
     | Inr str \<Rightarrow> Some (w, fd, 0, str)) }"

definition server_accept_await :: "('h, 'k) env \<Rightarrow> nat \<Rightarrow> ('h, 'k) world \<Rightarrow> (('h, 'k) world \<times> bool) option" where
  "server_accept_await E p w = do {
     s \<leftarrow> server p w;
     if sv_lfd s < 0 then Some (w, False)
     else proc_read_await E p (proc_bind p (sv_lfd s) w) }"

definition server_set_on_accept :: "nat \<Rightarrow> 'h \<Rightarrow> ('h, 'k) world \<Rightarrow> ('h, 'k) world" where
  "server_set_on_accept p fn = upd_server p (\<lambda>s. s\<lparr>sv_on_accept := Some fn\<rparr>)"

definition server_set_on_error :: "nat \<Rightarrow> 'h \<Rightarrow> ('h, 'k) world \<Rightarrow> ('h, 'k) world" where
  "server_set_on_error p fn = upd_server p (\<lambda>s. s\<lparr>sv_on_error := Some fn\<rparr>)"

definition server_set_on_close :: "nat \<Rightarrow> 'h \<Rightarrow> ('h, 'k) world \<Rightarrow> ('h, 'k) world" where
  "server_set_on_close p fn = upd_server p (\<lambda>s. s\<lparr>sv_on_close := Some fn\<rparr>)"

end
