(* ===== verification/Cpp_Client.thy ===== *)
theory Cpp_Client
  imports Cpp_Machine
begin

text \<open>
  The public methods of \<open>client_socket\<close> (cpp/src/client_socket.cpp), but for the callbacks, which
  are in \<open>Cpp_Event\<close>.  \<open>None\<close> is a failed assertion or an access through a null pointer.
\<close>

subsection \<open>Members\<close>

definition client_new :: "('h, 'k) world \<Rightarrow> ('h, 'k) world \<times> nat" where
  "client_new w = (let (w, c) = new_address w in (upd_client c (\<lambda>_. client_socket_new) w, c))"

definition client_open :: "int \<Rightarrow> ('h, 'k) world \<Rightarrow> ('h, 'k) world \<times> nat" where
  "client_open fd w =
     (let (w, c) = client_new w;
          (w, f) = nio_file_alloc fd w;
          w = upd_client c (\<lambda>x. x\<lparr>cs_fe := Some f\<rparr>) w
      in (nio_file_set_ctx f (Client_Object c) w, c))"

definition client_sock_handle :: "nat \<Rightarrow> ('h, 'k) world \<Rightarrow> int" where
  "client_sock_handle c w = (case cs_fe (client c w) of None \<Rightarrow> - 1 | Some f \<Rightarrow> f_fd (ev_files w f))"

definition client_set_closing :: "nat \<Rightarrow> bool \<Rightarrow> ('h, 'k) world \<Rightarrow> ('h, 'k) world" where
  "client_set_closing c yes = upd_client c (\<lambda>x. x\<lparr>cs_closing := yes\<rparr>)"

definition client_on_connect :: "nat \<Rightarrow> 'h \<Rightarrow> ('h, 'k) world \<Rightarrow> ('h, 'k) world" where
  "client_on_connect c fn = upd_client c (\<lambda>x. x\<lparr>cs_on_connect := Some fn\<rparr>)"

definition client_on_read :: "nat \<Rightarrow> 'h \<Rightarrow> ('h, 'k) world \<Rightarrow> ('h, 'k) world" where
  "client_on_read c fn = upd_client c (\<lambda>x. x\<lparr>cs_on_read := Some fn\<rparr>)"

definition client_on_write :: "nat \<Rightarrow> 'h \<Rightarrow> ('h, 'k) world \<Rightarrow> ('h, 'k) world" where
  "client_on_write c fn = upd_client c (\<lambda>x. x\<lparr>cs_on_write := Some fn\<rparr>)"

definition client_on_error :: "nat \<Rightarrow> 'h \<Rightarrow> ('h, 'k) world \<Rightarrow> ('h, 'k) world" where
  "client_on_error c fn = upd_client c (\<lambda>x. x\<lparr>cs_on_error := Some fn\<rparr>)"

definition client_on_close :: "nat \<Rightarrow> 'h \<Rightarrow> ('h, 'k) world \<Rightarrow> ('h, 'k) world" where
  "client_on_close c fn = upd_client c (\<lambda>x. x\<lparr>cs_on_close := Some fn\<rparr>)"

subsection \<open>Asking for events\<close>

definition client_read_disable :: "('h, 'k) env \<Rightarrow> nat \<Rightarrow> ('h, 'k) world \<Rightarrow> ('h, 'k) world option" where
  "client_read_disable E c w = do { f \<leftarrow> cs_fe (client c w); nio_event_del_read (en_ops E) f w }"

definition client_write_disable :: "('h, 'k) env \<Rightarrow> nat \<Rightarrow> ('h, 'k) world \<Rightarrow> ('h, 'k) world option" where
  "client_write_disable E c w = do { f \<leftarrow> cs_fe (client c w); nio_event_del_write (en_ops E) f w }"

definition client_readwrite_disable :: "('h, 'k) env \<Rightarrow> nat \<Rightarrow> ('h, 'k) world \<Rightarrow> ('h, 'k) world option" where
  "client_readwrite_disable E c w = do { f \<leftarrow> cs_fe (client c w); nio_event_del_readwrite (en_ops E) f w }"

definition upd_read_timer :: "nat \<Rightarrow> (client_timer \<Rightarrow> client_timer) \<Rightarrow> ('h, 'k) world \<Rightarrow> ('h, 'k) world" where
  "upd_read_timer c g = upd_client c (\<lambda>x. x\<lparr>cs_read_timer := Some (g (need_timer (cs_read_timer x)))\<rparr>)"

definition upd_write_timer :: "nat \<Rightarrow> (client_timer \<Rightarrow> client_timer) \<Rightarrow> ('h, 'k) world \<Rightarrow> ('h, 'k) world" where
  "upd_write_timer c g = upd_client c (\<lambda>x. x\<lparr>cs_write_timer := Some (g (need_timer (cs_write_timer x)))\<rparr>)"

definition client_read_await :: "('h, 'k) env \<Rightarrow> nat \<Rightarrow> int \<Rightarrow> ('h, 'k) world \<Rightarrow> (('h, 'k) world \<times> bool) option" where
  "client_read_await E c ms w = do {
     f \<leftarrow> cs_fe (client c w);
     (w, r) \<leftarrow> (if \<not> nio_event_isset_oneshot w \<or> cs_flags (client c w) AND client_f_rtimer = 0
                then nio_event_add_read (en_seekable E) (en_ops E) f Client_Read w else Some (w, 1));
     if r = 0 then Some (w, False)
     else if ms \<le> 0 then Some (w, True)
     else do {
       let w = upd_read_timer c id w;
       if \<not> ct_waiting (need_timer (cs_read_timer (client c w)))
       then do {
         let w = event_add_timer (Read_Timer c) ms w;
         Some (upd_read_timer c (\<lambda>t. t\<lparr>ct_waiting := True\<rparr>) w, True) }
       else Some (w, True) } }"

definition client_write_await :: "('h, 'k) env \<Rightarrow> nat \<Rightarrow> int \<Rightarrow> ('h, 'k) world \<Rightarrow> (('h, 'k) world \<times> bool) option" where
  "client_write_await E c ms w = do {
     f \<leftarrow> cs_fe (client c w);
     (w, r) \<leftarrow> (if \<not> nio_event_isset_oneshot w \<or> cs_flags (client c w) AND client_f_wtimer = 0
                then nio_event_add_write (en_seekable E) (en_ops E) f Client_Write w else Some (w, 1));
     if r = 0 then Some (w, False)
     else if ms \<le> 0 then Some (w, True)
     else do {
       let w = upd_write_timer c id w;
       if \<not> ct_waiting (need_timer (cs_write_timer (client c w)))
       then do {
         let w = event_add_timer (Write_Timer c) ms w;
         Some (upd_write_timer c (\<lambda>t. t\<lparr>ct_waiting := True\<rparr>) w, True) }
       else Some (w, True) } }"

text \<open>The result of \<open>socket\<close> is not looked at.\<close>

definition client_connect_await ::
  "('h, 'k) env \<Rightarrow> nat \<Rightarrow> string \<Rightarrow> int \<Rightarrow> int \<Rightarrow> ('h, 'k) world \<Rightarrow> (('h, 'k) world \<times> bool) option" where
  "client_connect_await E c ip port ms w = do {
     let (w, fd) = in_kernel (sys_socket (en_system E)) w;
     let w = kernel_do (sys_options (en_system E) fd) w;
     let (w, r, err) = in_kernel (sys_connect (en_system E) fd ip port) w;
     if r < 0 \<and> err \<noteq> EINPROGRESS \<and> err \<noteq> EISCONN
     then do {
       let w = kernel_do (sys_close (en_system E) fd) w;
       Some (w, False) }
     else do {
       let (w, f) = nio_file_alloc fd w;
       (w, r) \<leftarrow> nio_event_add_write (en_seekable E) (en_ops E) f Client_Connect w;
       if r = 0
       then do {
         let w = kernel_do (sys_close (en_system E) fd) w;
         Some (w, False) }
       else do {
         let w = nio_file_set_ctx f (Client_Object c) w;
         let w = upd_client c (\<lambda>x. x\<lparr>cs_fe := Some f\<rparr>) w;
         if ms < 0 then Some (w, True)
         else do {
           let w = upd_write_timer c id w;
           let w = event_add_timer (Write_Timer c) ms w;
           Some (upd_write_timer c (\<lambda>t. t\<lparr>ct_connecting := True, ct_waiting := True\<rparr>) w, True) } } } }"

definition client_close_await :: "('h, 'k) env \<Rightarrow> nat \<Rightarrow> ('h, 'k) world \<Rightarrow> ('h, 'k) world option" where
  "client_close_await E c w =
     (if \<not> cs_closing (client c w) then do {
        w \<leftarrow> (case cs_fe (client c w) of
                Some f \<Rightarrow> if f_fd (ev_files w f) \<ge> 0 then nio_event_del_readwrite (en_ops E) f w else Some w
              | None \<Rightarrow> Some w);
        let w = delay_close_client c w;
        Some (upd_client c (\<lambda>x. x\<lparr>cs_closing := True\<rparr>) w) }
      else Some w)"

subsection \<open>Writing\<close>

definition client_write ::
  "('h, 'k) env \<Rightarrow> nat \<Rightarrow> byte \<Rightarrow> bytes \<Rightarrow> int \<Rightarrow> ('h, 'k) world \<Rightarrow> (('h, 'k) world \<times> int) option" where
  "client_write E c prev data ms w =
     (if pending (cs_buf (client c w)) \<noteq> []
      then Some (upd_client c (\<lambda>x. x\<lparr>cs_buf := Some (pending (cs_buf x) @ data)\<rparr>) w, 0)
      else do {
        f \<leftarrow> cs_fe (client c w);
        let (w, r) = write_out (en_system E) (Client_Object c) (f_fd (ev_files w f)) data w;
        let ret = written_ret r;
        if ret = int (length data) then Some (w, ret)
        else if ret = - 1 \<and> r \<noteq> Again then Some (w, - 1)
        else do {
          let w = upd_client c (\<lambda>x. x\<lparr>cs_buf := Some (pending (cs_buf x) @ from_offset ret prev data)\<rparr>) w;
          (w, ok) \<leftarrow> client_write_await E c ms w;
          Some (w, if ok then ret else - 1) } })"

definition client_flush :: "('h, 'k) env \<Rightarrow> nat \<Rightarrow> ('h, 'k) world \<Rightarrow> (('h, 'k) world \<times> int) option" where
  "client_flush E c w =
     (if pending (cs_buf (client c w)) = [] then Some (w, 0)
      else do {
        f \<leftarrow> cs_fe (client c w);
        let (w, b, ret) = flush_bytes (en_system E) (Client_Object c) (f_fd (ev_files w f)) (pending (cs_buf (client c w))) w;
        Some (upd_client c (\<lambda>x. x\<lparr>cs_buf := Some b\<rparr>) w, ret) })"

end
