(* ===== verification/Cpp_Event.thy ===== *)
theory Cpp_Event
  imports Cpp_Proc Cpp_Client
begin

text \<open>
  The classes at work: the public methods as calls that the user makes, the callbacks that the
  event loop makes, the user's functions that they run, and \<open>nio_event::wait\<close> around them
  (cpp/src/event_proc.cpp, cpp/src/client_socket.cpp, cpp/src/server_socket.cpp,
  cpp/src/nio_event.cpp).
\<close>

subsection \<open>Calls of methods\<close>

definition returns :: "('h, 'k) world option \<Rightarrow> (('h, 'k) world \<times> int) option" where
  "returns r = map_option (\<lambda>w. (w, 0)) r"

definition returns_bool :: "(('h, 'k) world \<times> bool) option \<Rightarrow> (('h, 'k) world \<times> int) option" where
  "returns_bool r = map_option (\<lambda>(w, b). (w, of_bool b)) r"

definition returns_address :: "('h, 'k) world \<times> nat \<Rightarrow> (('h, 'k) world \<times> int) option" where
  "returns_address r = (case r of (w, a) \<Rightarrow> Some (w, int a))"

fun do_api :: "('h, 'k) env \<Rightarrow> 'h api \<Rightarrow> ('h, 'k) world \<Rightarrow> (('h, 'k) world \<times> int) option" where
  "do_api E Client_New w = returns_address (client_new w)"
| "do_api E (Client_Open fd) w = returns_address (client_open fd w)"
| "do_api E (On_Connect c fn) w = returns (Some (client_on_connect c fn w))"
| "do_api E (On_Read c fn) w = returns (Some (client_on_read c fn w))"
| "do_api E (On_Write c fn) w = returns (Some (client_on_write c fn w))"
| "do_api E (On_Error c fn) w = returns (Some (client_on_error c fn w))"
| "do_api E (On_Close c fn) w = returns (Some (client_on_close c fn w))"
| "do_api E (Read_Disable c) w = returns (client_read_disable E c w)"
| "do_api E (Write_Disable c) w = returns (client_write_disable E c w)"
| "do_api E (Read_Write_Disable c) w = returns (client_readwrite_disable E c w)"
| "do_api E (Connect_Await c ip port ms) w = returns_bool (client_connect_await E c ip port ms w)"
| "do_api E (Read_Await c ms) w = returns_bool (client_read_await E c ms w)"
| "do_api E (Write_Await c ms) w = returns_bool (client_write_await E c ms w)"
| "do_api E (Write_Data c b data ms) w = client_write E c b data ms w"
| "do_api E (Close_Await c) w = returns (client_close_await E c w)"
| "do_api E (Set_Closing c yes) w = returns (Some (client_set_closing c yes w))"
| "do_api E (Proc_Bind p fd) w = returns (Some (proc_bind p fd w))"
| "do_api E (Proc_Read_Await p) w = returns_bool (proc_read_await E p w)"
| "do_api E (Proc_Write_Await p) w = returns_bool (proc_write_await E p w)"
| "do_api E (Proc_Read_Disable p) w = returns (proc_read_disable E p w)"
| "do_api E (Proc_Write_Disable p) w = returns (proc_write_disable E p w)"
| "do_api E (Proc_Connect_Await p) w = returns_bool (proc_connect_await E p w)"
| "do_api E (Proc_Write_Data p b data) w = proc_write E p b data w"
| "do_api E (Proc_Close_Await p) w = returns (proc_close_await E p w)"
| "do_api E (Proc_Set_Closing p) w = returns (Some (proc_set_closing p w))"
| "do_api E (Proc_New cls) w = returns_address (proc_new cls w)"
| "do_api E (Proc_Open cls fd) w = returns_address (proc_open cls fd w)"
| "do_api E (Server_Open p ip port) w = returns_bool (server_open E p ip port w)"
| "do_api E (Server_Accept_Await p) w = returns_bool (server_accept_await E p w)"
| "do_api E (Server_On_Accept p fn) w = returns (Some (server_set_on_accept p fn w))"
| "do_api E (Server_On_Error p fn) w = returns (Some (server_set_on_error p fn w))"
| "do_api E (Server_On_Close p fn) w = returns (Some (server_set_on_close p fn w))"
| "do_api E (Add_Timer t ms) w = returns (Some (event_add_timer (User_Timer t) ms w))"
| "do_api E (Del_Timer t) w = returns (Some (event_del_timer (User_Timer t) w))"
| "do_api E (Reset_Timer t ms) w = returns (Some (event_reset_timer (User_Timer t) ms w))"

text \<open>A call with its place in the history, and the calls that the user answers with.\<close>

definition call :: "('h, 'k) env \<Rightarrow> 'h api \<Rightarrow> ('h, 'k) world \<Rightarrow> ('h, 'k) world option" where
  "call E c w = map_option (\<lambda>(w, r). happen (Called c r) w) (do_api E c w)"

fun calls :: "('h, 'k) env \<Rightarrow> 'h api list \<Rightarrow> ('h, 'k) world \<Rightarrow> ('h, 'k) world option" where
  "calls E [] w = Some w"
| "calls E (c # cs) w = Option.bind (call E c w) (calls E cs)"

definition tell :: "('h, 'k) env \<Rightarrow> 'h \<Rightarrow> notice \<Rightarrow> ('h, 'k) world \<Rightarrow> (('h, 'k) world \<times> bool) option" where
  "tell E fn n w =
     (case en_user E fn n w of (cs, b) \<Rightarrow> map_option (\<lambda>w. (w, b)) (calls E cs (happen (Told fn n) w)))"

text \<open>A function object that may be empty.\<close>

definition tell_if :: "('h, 'k) env \<Rightarrow> 'h option \<Rightarrow> notice \<Rightarrow> ('h, 'k) world \<Rightarrow> ('h, 'k) world option" where
  "tell_if E fn n w = (case fn of None \<Rightarrow> Some w | Some fn \<Rightarrow> map_option fst (tell E fn n w))"

subsection \<open>Callbacks of \<open>client_socket\<close>\<close>

definition client_of :: "nat \<Rightarrow> ('h, 'k) world \<Rightarrow> nat option" where
  "client_of f w = (case m_ctx (ev_poller w) f of Some (Client_Object c) \<Rightarrow> Some c | _ \<Rightarrow> None)"

definition stop_read_timer :: "nat \<Rightarrow> ('h, 'k) world \<Rightarrow> ('h, 'k) world" where
  "stop_read_timer c w =
     (if ct_waiting (need_timer (cs_read_timer (client c w)))
      then upd_read_timer c (\<lambda>t. t\<lparr>ct_waiting := False\<rparr>) (event_del_timer (Read_Timer c) w) else w)"

definition stop_write_timer :: "nat \<Rightarrow> ('h, 'k) world \<Rightarrow> ('h, 'k) world" where
  "stop_write_timer c w =
     (if ct_waiting (need_timer (cs_write_timer (client c w)))
      then upd_write_timer c (\<lambda>t. t\<lparr>ct_waiting := False\<rparr>) (event_del_timer (Write_Timer c) w) else w)"

definition client_connect_callback :: "('h, 'k) env \<Rightarrow> nat \<Rightarrow> ('h, 'k) world \<Rightarrow> ('h, 'k) world option" where
  "client_connect_callback E f w = do {
     c \<leftarrow> client_of f w;
     let w = upd_client c (\<lambda>x. x\<lparr>cs_flags := cs_flags x AND NOT client_f_wtimer\<rparr>) w;
     let w = (if ct_connecting (need_timer (cs_write_timer (client c w)))
              then event_del_timer (Write_Timer c)
                (upd_write_timer c (\<lambda>t. t\<lparr>ct_waiting := False, ct_connecting := False\<rparr>) w)
              else w);
     let (w, ret, err) = in_kernel (sys_so_error (en_system E) (f_fd (ev_files w f))) w;
     if ret = 0 \<and> (err = 0 \<or> err = EISCONN)
     then do {
       w \<leftarrow> nio_event_del_write (en_ops E) f w;
       fn \<leftarrow> cs_on_connect (client c w);
       map_option fst (tell E fn (Connected (f_fd (ev_files w f)) False) w) }
     else do {
       w \<leftarrow> nio_event_del_readwrite (en_ops E) f w;
       fn \<leftarrow> cs_on_connect (client c w);
       map_option fst (tell E fn (Connected (- 1) False) w) } }"

definition client_read_callback :: "('h, 'k) env \<Rightarrow> nat \<Rightarrow> ('h, 'k) world \<Rightarrow> ('h, 'k) world option" where
  "client_read_callback E f w = do {
     c \<leftarrow> client_of f w;
     let w = upd_client c (\<lambda>x. x\<lparr>cs_flags := cs_flags x AND NOT client_f_rtimer\<rparr>) w;
     let w = stop_read_timer c w;
     tell_if E (cs_on_read (client c w)) (Readable (f_fd (ev_files w f)) False) w }"

definition client_write_callback :: "('h, 'k) env \<Rightarrow> nat \<Rightarrow> ('h, 'k) world \<Rightarrow> ('h, 'k) world option" where
  "client_write_callback E f w = do {
     c \<leftarrow> client_of f w;
     let w = upd_client c (\<lambda>x. x\<lparr>cs_flags := cs_flags x AND NOT client_f_wtimer\<rparr>) w;
     let w = stop_write_timer c w;
     if pending (cs_buf (client c w)) \<noteq> []
     then do {
       (w, ret) \<leftarrow> client_flush E c w;
       if ret = - 1 then do {
         g \<leftarrow> cs_fe (client c w);
         tell_if E (cs_on_error (client c w)) (Failed (f_fd (ev_files w g))) w }
       else if ret = 0 \<or> pending (cs_buf (client c w)) = [] then Some w
       else tell_if E (cs_on_write (client c w)) (Writable (f_fd (ev_files w f)) False) w }
     else tell_if E (cs_on_write (client c w)) (Writable (f_fd (ev_files w f)) False) w }"

text \<open>\<open>on_timer\<close> for the read and for the write timer.\<close>

definition client_on_read_timer :: "('h, 'k) env \<Rightarrow> nat \<Rightarrow> ('h, 'k) world \<Rightarrow> ('h, 'k) world option" where
  "client_on_read_timer E c w = do {
     let w = upd_read_timer c (\<lambda>t. t\<lparr>ct_waiting := False\<rparr>) w;
     let w = upd_client c (\<lambda>x. x\<lparr>cs_flags := cs_flags x OR client_f_rtimer\<rparr>) w;
     w \<leftarrow> (case cs_on_read (client c w) of
             None \<Rightarrow> Some w
           | Some fn \<Rightarrow> do {
               f \<leftarrow> cs_fe (client c w);
               map_option fst (tell E fn (Readable (f_fd (ev_files w f)) True) w) });
     Some (upd_client c (\<lambda>x. x\<lparr>cs_flags := cs_flags x AND NOT client_f_rtimer\<rparr>) w) }"

definition client_on_write_timer :: "('h, 'k) env \<Rightarrow> nat \<Rightarrow> ('h, 'k) world \<Rightarrow> ('h, 'k) world option" where
  "client_on_write_timer E c w = do {
     let w = upd_write_timer c (\<lambda>t. t\<lparr>ct_waiting := False\<rparr>) w;
     let w = upd_client c (\<lambda>x. x\<lparr>cs_flags := cs_flags x OR client_f_wtimer\<rparr>) w;
     w \<leftarrow> (if ct_connecting (need_timer (cs_write_timer (client c w)))
           then do {
             let w = upd_write_timer c (\<lambda>t. t\<lparr>ct_connecting := False\<rparr>) w;
             (case cs_on_connect (client c w) of
                None \<Rightarrow> Some w
              | Some fn \<Rightarrow> do {
                  f \<leftarrow> cs_fe (client c w);
                  map_option fst (tell E fn (Connected (f_fd (ev_files w f)) True) w) }) }
           else (case cs_on_write (client c w) of
                None \<Rightarrow> Some w
              | Some fn \<Rightarrow> do {
                  f \<leftarrow> cs_fe (client c w);
                  map_option fst (tell E fn (Writable (f_fd (ev_files w f)) True) w) }));
     Some (upd_client c (\<lambda>x. x\<lparr>cs_flags := cs_flags x AND NOT client_f_wtimer\<rparr>) w) }"

text \<open>The system call \<open>close\<close>, noted for the client.\<close>

definition client_shut :: "('h, 'k) env \<Rightarrow> nat \<Rightarrow> int \<Rightarrow> ('h, 'k) world \<Rightarrow> ('h, 'k) world" where
  "client_shut E c fd w = happen (Shut (Client_Object c) fd) (kernel_do (sys_close (en_system E) fd) w)"

definition client_close :: "('h, 'k) env \<Rightarrow> nat \<Rightarrow> ('h, 'k) world \<Rightarrow> ('h, 'k) world option" where
  "client_close E c w = do {
     let w = happen (Closing (Client_Object c)) w;
     let w = stop_read_timer c w;
     let w = stop_write_timer c w;
     (case cs_fe (client c w) of
        Some f \<Rightarrow>
          let fd = f_fd (ev_files w f)
          in if fd \<ge> 0 then
               (case cs_on_close (client c w) of
                  Some fn \<Rightarrow> do {
                    (w, yes) \<leftarrow> tell E fn (Closed fd) w;
                    Some (if yes then client_shut E c fd w else w) }
                | None \<Rightarrow> Some (client_shut E c fd w))
             else tell_if E (cs_on_close (client c w)) (Closed (- 1)) w
      | None \<Rightarrow> tell_if E (cs_on_close (client c w)) (Closed (- 1)) w) }"

subsection \<open>Callbacks of \<open>event_proc\<close> and \<open>server_socket\<close>\<close>

definition proc_of_file :: "nat \<Rightarrow> ('h, 'k) world \<Rightarrow> nat option" where
  "proc_of_file f w = (case m_ctx (ev_poller w) f of Some (Proc_Object p) \<Rightarrow> Some p | _ \<Rightarrow> None)"

definition server_on_read :: "('h, 'k) env \<Rightarrow> nat \<Rightarrow> 'h server_socket \<Rightarrow> ('h, 'k) world \<Rightarrow> ('h, 'k) world option" where
  "server_on_read E p s w = do {
     (w, fd, err, addr) \<leftarrow> server_accept E p True w;
     if fd = - 1
     then (if err \<noteq> EAGAIN then tell_if E (sv_on_error s) Accept_Failed w else Some w)
     else tell_if E (sv_on_accept s) (Accepted fd addr) w }"

definition server_on_close :: "('h, 'k) env \<Rightarrow> 'h server_socket \<Rightarrow> ('h, 'k) world \<Rightarrow> ('h, 'k) world option" where
  "server_on_close E s w = tell_if E (sv_on_close s) Server_Closed w"

text \<open>The virtual functions.\<close>

definition proc_on_read :: "('h, 'k) env \<Rightarrow> nat \<Rightarrow> ('h, 'k) world \<Rightarrow> ('h, 'k) world option" where
  "proc_on_read E p w =
     (case ep_class (proc p w) of
        Base \<Rightarrow> Some w | Server s \<Rightarrow> server_on_read E p s w
      | Derived fn \<Rightarrow> map_option fst (tell E fn (Proc_Readable p) w))"

definition proc_on_write :: "('h, 'k) env \<Rightarrow> nat \<Rightarrow> ('h, 'k) world \<Rightarrow> ('h, 'k) world option" where
  "proc_on_write E p w =
     (case ep_class (proc p w) of Derived fn \<Rightarrow> map_option fst (tell E fn (Proc_Writable p) w) | _ \<Rightarrow> Some w)"

definition proc_on_connect :: "('h, 'k) env \<Rightarrow> nat \<Rightarrow> bool \<Rightarrow> ('h, 'k) world \<Rightarrow> ('h, 'k) world option" where
  "proc_on_connect E p ok w =
     (case ep_class (proc p w) of Derived fn \<Rightarrow> map_option fst (tell E fn (Proc_Connected p ok) w) | _ \<Rightarrow> Some w)"

definition proc_on_error :: "('h, 'k) env \<Rightarrow> nat \<Rightarrow> ('h, 'k) world \<Rightarrow> ('h, 'k) world option" where
  "proc_on_error E p w =
     (case ep_class (proc p w) of
        Derived fn \<Rightarrow> map_option fst (tell E fn (Proc_Failed p) w) | _ \<Rightarrow> proc_close_await E p w)"

definition proc_on_close :: "('h, 'k) env \<Rightarrow> nat \<Rightarrow> ('h, 'k) world \<Rightarrow> ('h, 'k) world option" where
  "proc_on_close E p w =
     (let w = happen (Closing (Proc_Object p)) w
      in case ep_class (proc p w) of
           Base \<Rightarrow> Some w | Server s \<Rightarrow> server_on_close E s w
         | Derived fn \<Rightarrow> map_option fst (tell E fn (Proc_Closed p) w))"

definition proc_read_proc :: "('h, 'k) env \<Rightarrow> nat \<Rightarrow> ('h, 'k) world \<Rightarrow> ('h, 'k) world option" where
  "proc_read_proc E f w = do { p \<leftarrow> proc_of_file f w; proc_on_read E p w }"

definition proc_write_proc :: "('h, 'k) env \<Rightarrow> nat \<Rightarrow> ('h, 'k) world \<Rightarrow> ('h, 'k) world option" where
  "proc_write_proc E f w = do {
     p \<leftarrow> proc_of_file f w;
     if pending (ep_buf (proc p w)) \<noteq> []
     then do {
       (w, ret) \<leftarrow> proc_flush E p w;
       if ret = - 1 then proc_on_error E p w
       else if ret = 0 \<or> pending (ep_buf (proc p w)) \<noteq> [] then Some w
       else proc_on_write E p w }
     else proc_on_write E p w }"

definition proc_connect_proc :: "('h, 'k) env \<Rightarrow> nat \<Rightarrow> ('h, 'k) world \<Rightarrow> ('h, 'k) world option" where
  "proc_connect_proc E f w = do {
     p \<leftarrow> proc_of_file f w;
     w \<leftarrow> proc_write_disable E p w;
     let (w, ret, err) = in_kernel (sys_so_error (en_system E) (f_fd (ev_files w f))) w;
     proc_on_connect E p (ret = 0 \<and> (err = 0 \<or> err = EISCONN)) w }"

fun run_callback :: "('h, 'k) env \<Rightarrow> callback \<Rightarrow> nat \<Rightarrow> ('h, 'k) world \<Rightarrow> ('h, 'k) world option" where
  "run_callback E Client_Read f w = client_read_callback E f w"
| "run_callback E Client_Write f w = client_write_callback E f w"
| "run_callback E Client_Connect f w = client_connect_callback E f w"
| "run_callback E Proc_Read f w = proc_read_proc E f w"
| "run_callback E Proc_Write f w = proc_write_proc E f w"
| "run_callback E Proc_Connect f w = proc_connect_proc E f w"

subsection \<open>\<open>nio_event::wait\<close>\<close>

text \<open>
  The lists of objects to be closed can grow while they are gone through: the loops see what is
  appended behind their place.
\<close>

partial_function (option) close_procs :: "('h, 'k) env \<Rightarrow> nat \<Rightarrow> ('h, 'k) world \<Rightarrow> ('h, 'k) world option" where
  "close_procs E i w =
     (if i < length (m_procs_free (ev_poller w))
      then let p = m_procs_free (ev_poller w) ! i
           in Option.bind (proc_on_close E p w) (close_procs E (i + 1))
      else Some w)"

partial_function (option) close_clients :: "('h, 'k) env \<Rightarrow> nat \<Rightarrow> ('h, 'k) world \<Rightarrow> ('h, 'k) world option" where
  "close_clients E i w =
     (if i < length (m_clients_free (ev_poller w))
      then let c = m_clients_free (ev_poller w) ! i
           in Option.bind (client_close E c w) (close_clients E (i + 1))
      else Some w)"

declare close_procs.simps [code] close_clients.simps [code]

definition before_wait :: "('h, 'k) env \<Rightarrow> ('h, 'k) world \<Rightarrow> ('h, 'k) world option" where
  "before_wait E w = do {
     w \<leftarrow> close_procs E 0 w;
     let w = upd_poller (\<lambda>m. m\<lparr>m_procs_free := []\<rparr>) w;
     w \<leftarrow> close_clients E 0 w;
     Some (upd_poller (\<lambda>m. m\<lparr>m_clients_free := []\<rparr>) w) }"

fun on_timer :: "('h, 'k) env \<Rightarrow> timer_id \<Rightarrow> ('h, 'k) world \<Rightarrow> ('h, 'k) world option" where
  "on_timer E (Read_Timer c) w = client_on_read_timer E c w"
| "on_timer E (Write_Timer c) w = client_on_write_timer E c w"
| "on_timer E (User_Timer t) w = map_option fst (tell E (en_timer E t) (Timeout t) w)"

fun on_timers :: "('h, 'k) env \<Rightarrow> timer_id list \<Rightarrow> ('h, 'k) world \<Rightarrow> ('h, 'k) world option" where
  "on_timers E [] w = Some w"
| "on_timers E (t # ts) w = Option.bind (on_timer E t w) (on_timers E ts)"

definition trigger_timers :: "('h, 'k) env \<Rightarrow> ('h, 'k) world \<Rightarrow> ('h, 'k) world option" where
  "trigger_timers E w =
     (case expire_timers (m_stamp (ev_poller w)) (m_timers (ev_poller w)) of
        (q, ts) \<Rightarrow> on_timers E ts (upd_poller (\<lambda>m. m\<lparr>m_timers := q\<rparr>) w))"

definition event_wait :: "('h, 'k) env \<Rightarrow> int \<Rightarrow> ('h, 'k) world \<Rightarrow> ('h, 'k) world option" where
  "event_wait E ms w = do {
     let ms = wait_timeout (m_stamp (ev_poller w)) ms (m_timers (ev_poller w));
     (w, _) \<leftarrow> nio_event_wait2 ((en_ops E)\<lparr>op_event_wait := en_event_wait E (run_callback E)\<rparr>) (before_wait E) ms w;
     if tq_timers (m_timers (ev_poller w)) \<noteq> [] then trigger_timers E w else Some w }"

end
