(* ===== verification/Cpp_Abstract.thy ===== *)
theory Cpp_Abstract
  imports Cpp_Machine
begin

text \<open>
  The abstract machine that the C++ classes implement.  A \<open>view\<close> is what matters of the machine
  to the promises of the classes: the timers, which of them their owners believe to be running, the
  objects to be closed, the bytes to be written and the history.  \<open>evolves\<close> are the moves that
  objects make on it, and the promises are invariants of these moves.
\<close>

subsection \<open>Views\<close>

record 'h view =
  v_timers :: "timer_id timer_queue"
  v_wait :: "timer_id \<Rightarrow> bool"
  v_closing :: "owner \<Rightarrow> bool"
  v_procs_free :: "nat list"
  v_clients_free :: "nat list"
  v_buf :: "owner \<Rightarrow> bytes"
  v_trace :: "'h happening list"
  v_fresh :: nat
  v_ctx :: "nat \<Rightarrow> owner option"
  v_bound :: "nat \<Rightarrow> bool"

primrec waits :: "('h, 'k) machine \<Rightarrow> timer_id \<Rightarrow> bool" where
  "waits m (Read_Timer c) = ct_waiting (need_timer (cs_read_timer (m_clients m c)))"
| "waits m (Write_Timer c) = ct_waiting (need_timer (cs_write_timer (m_clients m c)))"
| "waits m (User_Timer t) = False"

primrec object_closing :: "('h, 'k) machine \<Rightarrow> owner \<Rightarrow> bool" where
  "object_closing m (Client_Object c) = cs_closing (m_clients m c)"
| "object_closing m (Proc_Object p) = ep_closing (m_procs m p)"

primrec object_buf :: "('h, 'k) machine \<Rightarrow> owner \<Rightarrow> bytes" where
  "object_buf m (Client_Object c) = pending (cs_buf (m_clients m c))"
| "object_buf m (Proc_Object p) = pending (ep_buf (m_procs m p))"

definition view :: "('h, 'k) world \<Rightarrow> 'h view" where
  "view w = (let m = ev_poller w in
     \<lparr>v_timers = m_timers m, v_wait = waits m, v_closing = object_closing m, v_procs_free = m_procs_free m,
      v_clients_free = m_clients_free m, v_buf = object_buf m, v_trace = m_trace m, v_fresh = m_fresh m, v_ctx = m_ctx m,
      v_bound = (\<lambda>p. ep_ev (m_procs m p))\<rparr>)"

lemma view_fields [simp]:
  "v_timers (view w) = m_timers (ev_poller w)" "v_closing (view w) = object_closing (ev_poller w)"
  "v_procs_free (view w) = m_procs_free (ev_poller w)" "v_clients_free (view w) = m_clients_free (ev_poller w)"
  "v_buf (view w) = object_buf (ev_poller w)" "v_trace (view w) = m_trace (ev_poller w)"
  "v_fresh (view w) = m_fresh (ev_poller w)" "v_wait (view w) = waits (ev_poller w)" "v_ctx (view w) = m_ctx (ev_poller w)"
  "v_bound (view w) p = ep_ev (m_procs (ev_poller w) p)"
  by (simp_all add: view_def Let_def)

subsection \<open>Moves\<close>

fun of_client :: "timer_id \<Rightarrow> bool" where
  "of_client (User_Timer t) \<longleftrightarrow> False" | "of_client t \<longleftrightarrow> True"

primrec address :: "owner \<Rightarrow> nat" where
  "address (Client_Object c) = c" | "address (Proc_Object p) = p"

primrec timer_owner :: "timer_id \<Rightarrow> nat" where
  "timer_owner (Read_Timer c) = c" | "timer_owner (Write_Timer c) = c" | "timer_owner (User_Timer t) = 0"

text \<open>
  A move carries the bytes it takes over for an object.  A timer can be stopped only where the flag is
  set: in the callbacks of the loop, not in the methods that anyone can call.
\<close>

inductive evolves :: "bool \<Rightarrow> (owner \<times> bytes) list \<Rightarrow> 'h view \<Rightarrow> 'h view \<Rightarrow> bool" where
  ev_refl: "evolves cb [] v v"
| ev_trans: "evolves cb l u v \<Longrightarrow> evolves cb l' v x \<Longrightarrow> evolves cb (l @ l') u x"
| ev_start: "of_client t \<Longrightarrow> timer_owner t < v_fresh v \<Longrightarrow> \<not> v_wait v t \<Longrightarrow>
    evolves cb [] v (v\<lparr>v_timers := add_timer s t ms (v_timers v), v_wait := (v_wait v)(t := True)\<rparr>)"
| ev_stop: "of_client t \<Longrightarrow> cb \<Longrightarrow>
    evolves cb [] v (v\<lparr>v_timers := del_timer t (v_timers v), v_wait := (v_wait v)(t := False)\<rparr>)"
| ev_add: "armed (v_timers v) (User_Timer t) = None \<Longrightarrow>
    evolves cb [] v (v\<lparr>v_timers := add_timer s (User_Timer t) ms (v_timers v)\<rparr>)"
| ev_del: "evolves cb [] v (v\<lparr>v_timers := del_timer (User_Timer t) (v_timers v)\<rparr>)"
| ev_reset: "evolves cb [] v (v\<lparr>v_timers := reset_timer s (User_Timer t) ms (v_timers v)\<rparr>)"
| ev_close_client: "c < v_fresh v \<Longrightarrow> \<not> v_closing v (Client_Object c) \<Longrightarrow>
    evolves cb [] v (v\<lparr>v_clients_free := v_clients_free v @ [c], v_closing := (v_closing v)(Client_Object c := True)\<rparr>)"
| ev_close_proc: "p < v_fresh v \<Longrightarrow> \<not> v_closing v (Proc_Object p) \<Longrightarrow>
    evolves cb [] v (v\<lparr>v_procs_free := v_procs_free v @ [p], v_closing := (v_closing v)(Proc_Object p := True)\<rparr>)"
| ev_told: "evolves cb [] v (v\<lparr>v_trace := v_trace v @ [Told fn n]\<rparr>)"
| ev_send: "address ob < v_fresh v \<Longrightarrow> xs @ b = v_buf v ob @ bs \<Longrightarrow>
    evolves cb [(ob, bs)] v (v\<lparr>v_buf := (v_buf v)(ob := b), v_trace := v_trace v @ [Sent ob xs]\<rparr>)"
| ev_keep: "address ob < v_fresh v \<Longrightarrow> evolves cb [(ob, bs)] v (v\<lparr>v_buf := (v_buf v)(ob := v_buf v ob @ bs)\<rparr>)"
| ev_file: "evolves cb [] v (v\<lparr>v_fresh := Suc (v_fresh v), v_ctx := (v_ctx v)(v_fresh v := None)\<rparr>)"
| ev_own: "address ob < v_fresh v \<Longrightarrow> evolves cb [] v (v\<lparr>v_ctx := (v_ctx v)(f := Some ob)\<rparr>)"
| ev_new_client: "a = v_fresh v \<Longrightarrow>
    evolves cb [] v (v\<lparr>v_fresh := Suc a, v_wait := (v_wait v)(Read_Timer a := False, Write_Timer a := False),
      v_closing := (v_closing v)(Client_Object a := False), v_buf := (v_buf v)(Client_Object a := [])\<rparr>)"
| ev_new_proc: "a = v_fresh v \<Longrightarrow>
    evolves cb [] v (v\<lparr>v_fresh := Suc a, v_closing := (v_closing v)(Proc_Object a := False),
      v_buf := (v_buf v)(Proc_Object a := []), v_bound := (v_bound v)(a := False)\<rparr>)"
| ev_bind: "p < v_fresh v \<Longrightarrow> evolves cb [] v (v\<lparr>v_bound := (v_bound v)(p := True)\<rparr>)"

lemma evolves_mono: "evolves cb l v v' \<Longrightarrow> evolves True l v v'"
  by (induction rule: evolves.induct) (auto intro: evolves.intros)

lemma ev_trans_none: "evolves cb [] u v \<Longrightarrow> evolves cb l v x \<Longrightarrow> evolves cb l u x"
  using ev_trans [of cb "[]" u v l x] by simp

text \<open>The bytes taken over for an object, in order.\<close>

definition gain :: "owner \<Rightarrow> (owner \<times> bytes) list \<Rightarrow> bytes" where
  "gain ob l = concat (map snd (filter (\<lambda>x. fst x = ob) l))"

lemma gain_simps [simp]:
  "gain ob [] = []" "gain ob ((ob', bs) # l) = (if ob' = ob then bs @ gain ob l else gain ob l)"
  "gain ob (l @ l') = gain ob l @ gain ob l'"
  by (simp_all add: gain_def)

text \<open>
  A whole call of a method, with the bytes it takes over: those it is given if it does not return -1, and
  maybe others if it does.  \<open>moves\<close> adds such calls.
\<close>

fun takes_over :: "'h api \<Rightarrow> int \<Rightarrow> owner \<Rightarrow> bytes \<Rightarrow> bool" where
  "takes_over (Write_Data c b data ms) r ob bs \<longleftrightarrow>
     (if ob = Client_Object c then r = - 1 \<or> bs = data else bs = [])"
| "takes_over (Proc_Write_Data p b data) r ob bs \<longleftrightarrow>
     (if ob = Proc_Object p then r = - 1 \<or> bs = data else bs = [])"
| "takes_over _ r ob bs \<longleftrightarrow> bs = []"

text \<open>
  A call can ask an object to close, which is marked then, unless it is an \<open>event_proc\<close> that has not been bound to an
  event and a descriptor.
\<close>

fun asks :: "'h api \<Rightarrow> owner option" where
  "asks (Close_Await c) = Some (Client_Object c)"
| "asks (Proc_Close_Await p) = Some (Proc_Object p)"
| "asks _ = None"

fun binds :: "owner \<Rightarrow> 'h happening \<Rightarrow> bool" where
  "binds (Proc_Object p) (Called (Proc_Bind q fd) r) \<longleftrightarrow> q = p"
| "binds (Proc_Object p) (Called (Proc_Open cls fd) r) \<longleftrightarrow> r = int p"
| "binds (Proc_Object p) (Called (Server_Accept_Await q) r) \<longleftrightarrow> q = p \<and> r \<noteq> 0"
| "binds _ _ \<longleftrightarrow> False"

primrec can_close :: "'h view \<Rightarrow> owner \<Rightarrow> bool" where
  "can_close v (Client_Object c) \<longleftrightarrow> True"
| "can_close v (Proc_Object p) \<longleftrightarrow> v_bound v p"

inductive moves :: "bool \<Rightarrow> 'h view \<Rightarrow> 'h view \<Rightarrow> bool" where
  mv_quiet: "evolves cb l v v' \<Longrightarrow> (\<And>ob. gain ob l = []) \<Longrightarrow> moves cb v v'"
| mv_call: "evolves cb l v v' \<Longrightarrow> (\<And>ob. takes_over c r ob (gain ob l)) \<Longrightarrow>
    (\<And>ob. asks c = Some ob \<Longrightarrow> can_close v ob \<Longrightarrow> v_closing v' ob) \<Longrightarrow> (\<And>ob. binds ob (Called c r) \<Longrightarrow> can_close v' ob) \<Longrightarrow>
    moves cb v (v'\<lparr>v_trace := v_trace v' @ [Called c r]\<rparr>)"
| mv_trans: "moves cb u v \<Longrightarrow> moves cb v x \<Longrightarrow> moves cb u x"

lemma moves_mono: "moves cb v v' \<Longrightarrow> moves True v v'"
  by (induction rule: moves.induct) (auto intro: moves.intros evolves_mono)

lemma moves_refl [simp]: "moves cb v v"
  by (rule mv_quiet [OF ev_refl]) simp

lemma moves_evolves: "evolves cb [] v v' \<Longrightarrow> moves cb v v'"
  by (erule mv_quiet) simp

subsection \<open>Invariants\<close>

text \<open>No descriptor belongs to an object that does not exist.\<close>

definition known :: "'h view \<Rightarrow> bool" where
  "known v \<longleftrightarrow> (\<forall>f ob. v_ctx v f = Some ob \<longrightarrow> address ob < v_fresh v)"

lemma evolves_known: "evolves cb l v v' \<Longrightarrow> known v \<Longrightarrow> known v'"
  by (induction rule: evolves.induct) (auto simp: known_def less_Suc_eq)

lemma moves_known: "moves cb v v' \<Longrightarrow> known v \<Longrightarrow> known v'"
proof (induction rule: moves.induct)
  case (mv_call cb l v v' c r)
  from evolves_known [OF mv_call(1,5)] show ?case by (simp add: known_def)
qed (auto dest: evolves_known)

lemma evolves_fresh: "evolves cb l v v' \<Longrightarrow> v_fresh v \<le> v_fresh v'"
  by (induction rule: evolves.induct) auto

lemma moves_fresh: "moves cb v v' \<Longrightarrow> v_fresh v \<le> v_fresh v'"
  by (induction rule: moves.induct) (auto dest: evolves_fresh)

text \<open>
  The owner of a timer believes it to be running if and only if it is in the queue or has been taken out of
  it to be run: \<open>T\<close>.
\<close>

definition running_ok :: "timer_id set \<Rightarrow> timer_id timer_queue \<Rightarrow> (timer_id \<Rightarrow> bool) \<Rightarrow> nat \<Rightarrow> bool" where
  "running_ok T q wt n \<longleftrightarrow> tq_inv q \<and>
     (\<forall>t. of_client t \<longrightarrow> wt t = (armed q t \<noteq> None \<or> t \<in> T)) \<and>
     (\<forall>t \<in> T. of_client t \<longrightarrow> armed q t = None) \<and>
     (\<forall>t. of_client t \<longrightarrow> wt t \<longrightarrow> timer_owner t < n)"

definition timers_ok :: "timer_id set \<Rightarrow> 'h view \<Rightarrow> bool" where
  "timers_ok T v \<longleftrightarrow> running_ok T (v_timers v) (v_wait v) (v_fresh v)"

lemma running_start:
  assumes "running_ok T q wt n" "of_client t" "\<not> wt t" "timer_owner t < n"
  shows "running_ok T (add_timer s t ms q) (wt(t := True)) n"
proof -
  have n: "armed q t = None" "t \<notin> T" "tq_inv q" using assms by (auto simp: running_ok_def)
  show ?thesis
    using assms(1,2,4) n unfolding running_ok_def add_timer_armed [OF n(1)] using add_timer_inv [OF n(3,1)] by auto
qed

lemma running_stop:
  assumes "running_ok {} q wt n"
  shows "running_ok {} (del_timer t q) (wt(t := False)) n"
proof -
  have n: "tq_inv q" using assms by (simp add: running_ok_def)
  show ?thesis using assms unfolding running_ok_def del_timer_armed [OF n] using del_timer_inv [OF n] by auto
qed

lemma running_add:
  assumes "running_ok T q wt n" "armed q (User_Timer u) = None"
  shows "running_ok T (add_timer s (User_Timer u) ms q) wt n"
proof -
  have n: "tq_inv q" using assms by (simp add: running_ok_def)
  show ?thesis
    using assms(1) unfolding running_ok_def add_timer_armed [OF assms(2)] using add_timer_inv [OF n assms(2)] by auto
qed

lemma running_del:
  assumes "running_ok T q wt n"
  shows "running_ok T (del_timer (User_Timer u) q) wt n"
proof -
  have n: "tq_inv q" using assms by (simp add: running_ok_def)
  show ?thesis using assms unfolding running_ok_def del_timer_armed [OF n] using del_timer_inv [OF n] by auto
qed

lemma running_reset:
  assumes "running_ok T q wt n"
  shows "running_ok T (reset_timer s (User_Timer u) ms q) wt n"
proof -
  have "tq_inv q" using assms by (simp add: running_ok_def)
  then have "armed (del_timer (User_Timer u) q) (User_Timer u) = None" by (simp add: del_timer_armed)
  with running_add running_del [OF assms] show ?thesis by (simp add: reset_timer_def)
qed

lemma running_more: "running_ok T q wt n \<Longrightarrow> running_ok T q wt (Suc n)"
  by (auto simp: running_ok_def less_Suc_eq)

lemma running_new:
  "running_ok T q wt n \<Longrightarrow> running_ok T q (wt(Read_Timer n := False, Write_Timer n := False)) (Suc n)"
proof -
  assume r: "running_ok T q wt n"
  then have "\<not> wt (Read_Timer n)" "\<not> wt (Write_Timer n)" by (force simp: running_ok_def)+
  then have "wt(Read_Timer n := False, Write_Timer n := False) = wt" by (auto simp: fun_eq_iff)
  with running_more [OF r] show ?thesis by simp
qed

lemma evolves_timers:
  "evolves cb l v v' \<Longrightarrow> cb \<longrightarrow> T = {} \<Longrightarrow> timers_ok T v \<Longrightarrow> timers_ok T v'"
  by (induction rule: evolves.induct)
     (simp_all add: timers_ok_def running_start running_stop running_more running_new running_add running_del running_reset)

lemma moves_timers: "moves cb v v' \<Longrightarrow> cb \<longrightarrow> T = {} \<Longrightarrow> timers_ok T v \<Longrightarrow> timers_ok T v'"
proof (induction rule: moves.induct)
  case (mv_call cb l v v' c r)
  from evolves_timers [OF mv_call(1,5,6)] show ?case by (simp add: timers_ok_def)
qed (simp_all add: evolves_timers)

text \<open>
  An object that has been asked to close is waiting for it, in its list from place \<open>i\<close> or \<open>j\<close> on, or has been closed
  once; no other has.
\<close>

primrec to_close :: "nat \<Rightarrow> nat \<Rightarrow> 'h view \<Rightarrow> owner \<Rightarrow> nat" where
  "to_close i j v (Proc_Object p) = count_list (drop i (v_procs_free v)) p"
| "to_close i j v (Client_Object c) = count_list (drop j (v_clients_free v)) c"

definition closes_ok :: "nat \<Rightarrow> nat \<Rightarrow> 'h view \<Rightarrow> bool" where
  "closes_ok i j v \<longleftrightarrow> i \<le> length (v_procs_free v) \<and> j \<le> length (v_clients_free v) \<and>
     (\<forall>ob. count_list (v_trace v) (Closing ob) + to_close i j v ob = of_bool (v_closing v ob)) \<and>
     (\<forall>ob. v_closing v ob \<longrightarrow> address ob < v_fresh v)"

lemma closes_okI:
  assumes "i \<le> length (v_procs_free v)" "j \<le> length (v_clients_free v)"
    "\<And>ob. count_list (v_trace v) (Closing ob) + to_close i j v ob = of_bool (v_closing v ob)"
    "\<And>ob. v_closing v ob \<Longrightarrow> address ob < v_fresh v"
  shows "closes_ok i j v"
  using assms by (simp add: closes_ok_def)

lemma closes_okD:
  assumes "closes_ok i j v"
  shows "i \<le> length (v_procs_free v)" "j \<le> length (v_clients_free v)"
    "count_list (v_trace v) (Closing ob) + to_close i j v ob = of_bool (v_closing v ob)"
    "v_closing v ob \<Longrightarrow> address ob < v_fresh v"
  using assms by (simp_all add: closes_ok_def)

lemma to_close_cong [simp]:
  "to_close i j (v\<lparr>v_timers := q\<rparr>) = to_close i j v" "to_close i j (v\<lparr>v_wait := wt\<rparr>) = to_close i j v"
  "to_close i j (v\<lparr>v_closing := cl\<rparr>) = to_close i j v" "to_close i j (v\<lparr>v_buf := b\<rparr>) = to_close i j v"
  "to_close i j (v\<lparr>v_trace := tr\<rparr>) = to_close i j v" "to_close i j (v\<lparr>v_fresh := n\<rparr>) = to_close i j v"
  "to_close i j (v\<lparr>v_ctx := ctx\<rparr>) = to_close i j v" "to_close i j (v\<lparr>v_bound := bd\<rparr>) = to_close i j v"
  by (rule ext, case_tac x; simp)+

lemma evolves_closes: "evolves cb l v v' \<Longrightarrow> closes_ok i j v \<Longrightarrow> closes_ok i j v'"
proof (induction rule: evolves.induct)
  case (ev_close_client c v cb)
  note d = closes_okD [OF ev_close_client(3)]
  show ?case
  proof (rule closes_okI)
    fix ob show "count_list (v_trace (v\<lparr>v_clients_free := v_clients_free v @ [c], v_closing := (v_closing v)(Client_Object c := True)\<rparr>))
        (Closing ob) + to_close i j (v\<lparr>v_clients_free := v_clients_free v @ [c], v_closing := (v_closing v)(Client_Object c := True)\<rparr>) ob =
      of_bool (v_closing (v\<lparr>v_clients_free := v_clients_free v @ [c], v_closing := (v_closing v)(Client_Object c := True)\<rparr>) ob)"
      using d(1,2) d(3) [of ob] ev_close_client(2) by (cases ob) auto
  qed (use d ev_close_client in \<open>auto split: if_splits\<close>)
next
  case (ev_close_proc p v cb)
  note d = closes_okD [OF ev_close_proc(3)]
  show ?case
  proof (rule closes_okI)
    fix ob show "count_list (v_trace (v\<lparr>v_procs_free := v_procs_free v @ [p], v_closing := (v_closing v)(Proc_Object p := True)\<rparr>))
        (Closing ob) + to_close i j (v\<lparr>v_procs_free := v_procs_free v @ [p], v_closing := (v_closing v)(Proc_Object p := True)\<rparr>) ob =
      of_bool (v_closing (v\<lparr>v_procs_free := v_procs_free v @ [p], v_closing := (v_closing v)(Proc_Object p := True)\<rparr>) ob)"
      using d(1,2) d(3) [of ob] ev_close_proc(2) by (cases ob) auto
  qed (use d ev_close_proc in \<open>auto split: if_splits\<close>)
next
  case (ev_new_client a v cb)
  note d = closes_okD [OF ev_new_client(2)]
  have "\<not> v_closing v (Client_Object a)" using d(4) [of "Client_Object a"] ev_new_client(1) by auto
  then have "(v_closing v)(Client_Object a := False) = v_closing v" by (auto simp: fun_eq_iff)
  with d ev_new_client show ?case by (simp add: closes_ok_def less_SucI)
next
  case (ev_new_proc a v cb)
  note d = closes_okD [OF ev_new_proc(2)]
  have "\<not> v_closing v (Proc_Object a)" using d(4) [of "Proc_Object a"] ev_new_proc(1) by auto
  then have "(v_closing v)(Proc_Object a := False) = v_closing v" by (auto simp: fun_eq_iff)
  with d ev_new_proc show ?case by (simp add: closes_ok_def less_SucI)
qed (simp_all add: closes_ok_def less_SucI)

lemma moves_closes: "moves cb v v' \<Longrightarrow> closes_ok i j v \<Longrightarrow> closes_ok i j v'"
proof (induction rule: moves.induct)
  case (mv_call cb l v v' c r)
  from evolves_closes [OF mv_call(1,5)] show ?case by (simp add: closes_ok_def)
qed (simp_all add: evolves_closes)

text \<open>What is asked to close stays so.\<close>

lemma evolves_closing:
  "evolves cb l v v' \<Longrightarrow> closes_ok i j v \<Longrightarrow> v_closing v ob \<Longrightarrow> v_closing v' ob"
proof (induction rule: evolves.induct)
  case (ev_trans cb l u v l' x)
  then show ?case using evolves_closes by blast
qed (auto dest: closes_okD(4))

lemma moves_closing: "moves cb v v' \<Longrightarrow> closes_ok i j v \<Longrightarrow> v_closing v ob \<Longrightarrow> v_closing v' ob"
proof (induction rule: moves.induct)
  case (mv_call cb l v v' c r)
  then show ?case by (simp add: evolves_closing)
next
  case (mv_trans cb u v x)
  then show ?case using moves_closes by blast
qed (simp add: evolves_closing)

text \<open>
  Whether the history has a call that asks an object to close, where an \<open>event_proc\<close> must have been bound by a call
  before: an object that has been asked to close is marked.
\<close>

fun asked_when :: "bool \<Rightarrow> owner \<Rightarrow> 'h happening list \<Rightarrow> bool" where
  "asked_when b ob [] \<longleftrightarrow> False"
| "asked_when b ob (Called c r # xs) \<longleftrightarrow> b \<and> asks c = Some ob \<or> asked_when (b \<or> binds ob (Called c r)) ob xs"
| "asked_when b ob (_ # xs) \<longleftrightarrow> asked_when b ob xs"

primrec asked :: "owner \<Rightarrow> 'h happening list \<Rightarrow> bool" where
  "asked (Client_Object c) xs \<longleftrightarrow> asked_when True (Client_Object c) xs"
| "asked (Proc_Object p) xs \<longleftrightarrow> asked_when False (Proc_Object p) xs"

lemma can_close_cong [simp]:
  "can_close (v\<lparr>v_procs_free := ps\<rparr>) = can_close v" "can_close (v\<lparr>v_clients_free := cs\<rparr>) = can_close v"
  "can_close (v\<lparr>v_timers := q\<rparr>) = can_close v" "can_close (v\<lparr>v_wait := wt\<rparr>) = can_close v"
  "can_close (v\<lparr>v_trace := tr\<rparr>) = can_close v"
  by (rule ext, case_tac x; simp)+

lemma asked_Nil [simp]: "\<not> asked ob []"
  by (cases ob) simp_all

lemma binds_quiet [simp]:
  "\<not> binds ob (Told fn n)" "\<not> binds ob (Sent ob' bs)" "\<not> binds ob (Closing ob')" "\<not> binds ob (Shut ob' fd)"
  "\<not> binds (Client_Object c) x"
  by (cases ob; simp)+

lemma asked_when_append:
  "asked_when b ob (xs @ ys) \<longleftrightarrow> asked_when b ob xs \<or> asked_when (b \<or> list_ex (binds ob) xs) ob ys"
  by (induction b ob xs rule: asked_when.induct) (simp_all add: disj_assoc)

lemma asked_quiet [simp]:
  "asked ob (xs @ [Told fn n]) = asked ob xs" "asked ob (xs @ [Sent ob' bs]) = asked ob xs"
  "asked ob (xs @ [Closing ob']) = asked ob xs" "asked ob (xs @ [Shut ob' fd]) = asked ob xs"
  by (cases ob; simp add: asked_when_append)+

definition asked_ok :: "'h view \<Rightarrow> bool" where
  "asked_ok v \<longleftrightarrow> (\<forall>ob. asked ob (v_trace v) \<longrightarrow> v_closing v ob) \<and>
     (\<forall>ob. list_ex (binds ob) (v_trace v) \<longrightarrow> can_close v ob) \<and> (\<forall>p. v_bound v p \<longrightarrow> p < v_fresh v)"

lemma evolves_bound:
  "evolves cb l v v' \<Longrightarrow> (\<forall>p. v_bound v p \<longrightarrow> p < v_fresh v) \<Longrightarrow>
     (\<forall>p. v_bound v' p \<longrightarrow> p < v_fresh v') \<and> (\<forall>p. v_bound v p \<longrightarrow> v_bound v' p) \<and>
     (\<forall>ob. asked ob (v_trace v') = asked ob (v_trace v)) \<and> (\<forall>ob. list_ex (binds ob) (v_trace v') = list_ex (binds ob) (v_trace v))"
  by (induction rule: evolves.induct) (auto simp: less_SucI)

lemma can_close_mono: "(\<forall>p. v_bound v p \<longrightarrow> v_bound v' p) \<Longrightarrow> can_close v ob \<Longrightarrow> can_close v' ob"
  by (cases ob) simp_all

lemma evolves_asked:
  assumes "evolves cb l v v'" "closes_ok i j v" "asked_ok v"
  shows "asked_ok v'"
proof -
  have "\<forall>p. v_bound v p \<longrightarrow> p < v_fresh v" using assms(3) by (simp add: asked_ok_def)
  from evolves_bound [OF assms(1) this] evolves_closing [OF assms(1,2)] can_close_mono [of v v'] assms(3)
  show ?thesis by (simp add: asked_ok_def)
qed

lemma asked_call:
  assumes "asked_ok v" "asked_ok v'" "list_ex (binds ob) (v_trace v') \<Longrightarrow> list_ex (binds ob) (v_trace v)"
    "asked ob (v_trace v' @ [Called c r])" "asks c = Some ob \<Longrightarrow> can_close v ob \<Longrightarrow> v_closing v' ob"
  shows "v_closing v' ob"
  using assms by (cases ob) (auto simp: asked_when_append asked_ok_def)

lemma moves_asked: "moves cb v v' \<Longrightarrow> closes_ok i j v \<Longrightarrow> asked_ok v \<Longrightarrow> asked_ok v'"
proof (induction rule: moves.induct)
  case (mv_call cb l v v' c r)
  let ?v = "v'\<lparr>v_trace := v_trace v' @ [Called c r]\<rparr>"
  have bd: "\<forall>p. v_bound v p \<longrightarrow> p < v_fresh v" using mv_call(6) by (simp add: asked_ok_def)
  have a: "asked_ok v'" by (rule evolves_asked [OF mv_call(1,5,6)])
  have "v_closing v' ob" if "asked ob (v_trace v' @ [Called c r])" for ob
    using asked_call [OF mv_call(6) a _ that mv_call(3)] evolves_bound [OF mv_call(1) bd] by blast
  with a mv_call(4) show ?case by (auto simp: asked_ok_def)
next
  case (mv_trans cb u v x)
  then show ?case using moves_closes by blast
qed (simp add: evolves_asked)

text \<open>
  What an object has been given to write, as long as no call has failed, is what the kernel has taken and
  what is in its buffer, in order.
\<close>

fun given :: "owner \<Rightarrow> 'h happening list \<Rightarrow> bytes" where
  "given ob [] = []"
| "given (Client_Object c) (Called (Write_Data c' b data ms) r # xs) = (if c' = c then data else []) @ given (Client_Object c) xs"
| "given (Proc_Object p) (Called (Proc_Write_Data p' b data) r # xs) = (if p' = p then data else []) @ given (Proc_Object p) xs"
| "given ob (_ # xs) = given ob xs"

fun taken :: "owner \<Rightarrow> 'h happening list \<Rightarrow> bytes" where
  "taken ob [] = []"
| "taken ob (Sent ob' bs # xs) = (if ob' = ob then bs else []) @ taken ob xs"
| "taken ob (_ # xs) = taken ob xs"

fun write_failed :: "owner \<Rightarrow> 'h happening \<Rightarrow> bool" where
  "write_failed (Client_Object c) (Called (Write_Data c' b data ms) r) \<longleftrightarrow> c' = c \<and> r = - 1"
| "write_failed (Proc_Object p) (Called (Proc_Write_Data p' b data) r) \<longleftrightarrow> p' = p \<and> r = - 1"
| "write_failed _ _ \<longleftrightarrow> False"

lemma given_append [simp]: "given ob (xs @ ys) = given ob xs @ given ob ys"
  by (induction ob xs rule: given.induct) simp_all

lemma taken_append [simp]: "taken ob (xs @ ys) = taken ob xs @ taken ob ys"
  by (induction ob xs rule: taken.induct) simp_all

definition stream_ok :: "'h view \<Rightarrow> bool" where
  "stream_ok v \<longleftrightarrow>
     (\<forall>ob. list_all (\<lambda>x. \<not> write_failed ob x) (v_trace v) \<longrightarrow> taken ob (v_trace v) @ v_buf v ob = given ob (v_trace v)) \<and>
     (\<forall>ob. v_buf v ob \<noteq> [] \<longrightarrow> address ob < v_fresh v)"

lemma given_quiet [simp]: "given ob [Told fn n] = []" "given ob [Sent ob' bs] = []" "given ob [Closing ob'] = []" "given ob [Shut ob' fd] = []"
  by (cases ob; simp)+

lemma failed_quiet [simp]: "\<not> write_failed ob (Told fn n)" "\<not> write_failed ob (Sent ob' bs)" "\<not> write_failed ob (Closing ob')" "\<not> write_failed ob (Shut ob' fd)"
  by (cases ob; simp)+

lemma evolves_stream:
  "evolves cb l v v' \<Longrightarrow> (\<And>ob. v_buf v ob \<noteq> [] \<Longrightarrow> address ob < v_fresh v) \<Longrightarrow>
     (\<forall>ob. taken ob (v_trace v') @ v_buf v' ob = taken ob (v_trace v) @ v_buf v ob @ gain ob l \<and>
        given ob (v_trace v') = given ob (v_trace v) \<and>
        list_all (\<lambda>x. \<not> write_failed ob x) (v_trace v') = list_all (\<lambda>x. \<not> write_failed ob x) (v_trace v) \<and>
        (v_buf v' ob \<noteq> [] \<longrightarrow> address ob < v_fresh v'))"
proof (induction rule: evolves.induct)
  case (ev_trans cb l u v l' x)
  have "address ob < v_fresh v" if "v_buf v ob \<noteq> []" for ob using ev_trans.IH(1) [OF ev_trans.prems] that by blast
  from ev_trans.IH(2) [OF this] ev_trans.IH(1) [OF ev_trans.prems] show ?case by (simp flip: append_assoc)
next
  case (ev_new_client a v cb)
  have "v_buf v (Client_Object a) = []" using ev_new_client(2) [of "Client_Object a"] ev_new_client(1) by auto
  then have "(v_buf v)(Client_Object a := []) = v_buf v" by (auto simp: fun_eq_iff)
  with ev_new_client show ?case by (auto simp: less_SucI)
next
  case (ev_new_proc a v cb)
  have "v_buf v (Proc_Object a) = []" using ev_new_proc(2) [of "Proc_Object a"] ev_new_proc(1) by auto
  then have "(v_buf v)(Proc_Object a := []) = v_buf v" by (auto simp: fun_eq_iff)
  with ev_new_proc show ?case by (auto simp: less_SucI)
qed (auto simp: less_SucI split: if_splits)

lemma given_call:
  assumes "takes_over c r ob bs" "\<not> write_failed ob (Called c r)"
  shows "given ob [Called c r] = bs"
  using assms by (cases c; cases ob) (auto split: if_splits)

lemma taken_call [simp]: "taken ob [Called c r] = []"
  by simp

lemma moves_stream: "moves cb v v' \<Longrightarrow> stream_ok v \<Longrightarrow> stream_ok v'"
proof (induction rule: moves.induct)
  case (mv_quiet cb l v v')
  then have "address ob < v_fresh v" if "v_buf v ob \<noteq> []" for ob using that by (simp add: stream_ok_def)
  from evolves_stream [OF mv_quiet(1) this] mv_quiet(2,3) show ?case by (simp add: stream_ok_def)
next
  case (mv_call cb l v v' c r)
  then have "address ob < v_fresh v" if "v_buf v ob \<noteq> []" for ob using that by (simp add: stream_ok_def)
  from evolves_stream [OF mv_call(1) this] mv_call(5) given_call [OF mv_call(2)] show ?case
    by (auto simp: stream_ok_def)
qed blast

text \<open>How often an object has been closed, and how often its descriptor; moves close neither.\<close>

definition times_closed :: "'h view \<Rightarrow> owner \<Rightarrow> nat" where
  "times_closed v ob = count_list (v_trace v) (Closing ob)"

lemma evolves_closed: "evolves cb l v v' \<Longrightarrow> times_closed v' ob = times_closed v ob"
  by (induction rule: evolves.induct) (simp_all add: times_closed_def)

lemma moves_closed: "moves cb v v' \<Longrightarrow> times_closed v' ob = times_closed v ob"
proof (induction rule: moves.induct)
  case (mv_call cb l v v' c r)
  from evolves_closed [OF mv_call(1), of ob] show ?case by (simp add: times_closed_def)
qed (simp_all add: evolves_closed)

fun shuts :: "owner \<Rightarrow> 'h happening \<Rightarrow> bool" where
  "shuts ob (Shut ob' fd) \<longleftrightarrow> ob' = ob"
| "shuts ob _ \<longleftrightarrow> False"

definition times_shut :: "'h view \<Rightarrow> owner \<Rightarrow> nat" where
  "times_shut v ob = length (filter (shuts ob) (v_trace v))"

lemma evolves_shut: "evolves cb l v v' \<Longrightarrow> times_shut v' ob = times_shut v ob"
  by (induction rule: evolves.induct) (simp_all add: times_shut_def)

lemma moves_shut: "moves cb v v' \<Longrightarrow> times_shut v' ob = times_shut v ob"
proof (induction rule: moves.induct)
  case (mv_call cb l v v' c r)
  from evolves_shut [OF mv_call(1), of ob] show ?case by (simp add: times_shut_def)
qed (simp_all add: evolves_shut)

text \<open>A descriptor is closed only when its object is.\<close>

definition shut_ok :: "'h view \<Rightarrow> bool" where
  "shut_ok v \<longleftrightarrow> (\<forall>ob. times_shut v ob \<le> times_closed v ob)"

lemma moves_shut_ok: "moves cb v v' \<Longrightarrow> shut_ok v \<Longrightarrow> shut_ok v'"
  by (simp add: shut_ok_def moves_shut moves_closed)

subsection \<open>All of it\<close>

definition sound :: "'h view \<Rightarrow> bool" where
  "sound v \<longleftrightarrow> known v \<and> timers_ok {} v \<and> closes_ok 0 0 v \<and> shut_ok v \<and> asked_ok v \<and> stream_ok v"

lemma moves_sound: "moves cb v v' \<Longrightarrow> sound v \<Longrightarrow> sound v'"
  by (auto simp: sound_def intro: moves_known moves_timers moves_closes moves_shut_ok moves_asked moves_stream)

end
