(* ===== verification/Cpp_Moves.thy ===== *)
theory Cpp_Moves
  imports Cpp_Event Cpp_Abstract
begin

text \<open>
  Every method of the C++ classes, and every callback that the event loop makes on them, is a sequence of
  moves of the abstract machine, whatever the poller and the kernel do and whatever the user's functions call.
  What is relied on of the poller is the locale \<open>cpp_poller\<close>.
\<close>

subsection \<open>What the poller leaves alone\<close>

definition steady :: "('h, 'k) world \<Rightarrow> ('h, 'k) world \<Rightarrow> bool" where
  "steady w w' \<longleftrightarrow> (\<exists>k. ev_poller w' = (ev_poller w)\<lparr>m_kernel := k\<rparr>)"

lemma steady_refl [simp]: "steady w w"
  by (auto simp: steady_def intro!: exI [of _ "m_kernel (ev_poller w)"])

lemma steady_trans: "steady u v \<Longrightarrow> steady v w \<Longrightarrow> steady u w"
  by (auto simp: steady_def)

lemma steady_simps [simp]:
  "steady u (upd_file f g w) = steady u w" "steady (upd_file f g u) w = steady u w"
  "steady u (enqueue f w) = steady u w" "steady (enqueue f u) w = steady u w"
  "steady u (w\<lparr>ev_rings := h\<rparr>) = steady u w" "steady (u\<lparr>ev_rings := h\<rparr>) w = steady u w"
  by (simp_all add: steady_def)

definition stamped :: "('h, 'k) world \<Rightarrow> ('h, 'k) world \<Rightarrow> bool" where
  "stamped w w' \<longleftrightarrow> (\<exists>k s. w' = w\<lparr>ev_poller := (ev_poller w)\<lparr>m_kernel := k, m_stamp := s\<rparr>\<rparr>)"

lemma drain_related:
  assumes "drain first body s = Some s'" "\<And>s. R s s" "\<And>s t u. R s t \<Longrightarrow> R t u \<Longrightarrow> R s u" "\<And>f s t. body f s = Some t \<Longrightarrow> R s t"
  shows "R s s'"
proof -
  have "(\<forall>f s t. body f s = Some t \<longrightarrow> R s t) \<longrightarrow> R s s'"
    by (rule drain.raw_induct [where P = "\<lambda>first body s s'. (\<forall>f s t. body f s = Some t \<longrightarrow> R s t) \<longrightarrow> R s s'", OF _ assms(1)])
       (auto split: if_splits simp: bind_eq_Some_conv assms(2), meson assms(3))
  with assms(4) show ?thesis by blast
qed

lemma bind_Some:
  assumes "Option.bind x f = Some y"
  obtains z where "x = Some z" "f z = Some y"
  using assms by (auto simp: bind_eq_Some_conv)

locale cpp_poller =
  fixes E :: "('h, 'k) env"
  assumes add_steady: "op_add (en_ops E) d f w = Some (w', r) \<Longrightarrow> steady w w'"
    and del_steady: "op_del (en_ops E) d f w = Some (w', r) \<Longrightarrow> steady w w'"
    and del_both_steady: "op_del_readwrite (en_ops E) = Some del \<Longrightarrow> del f w = Some (w', r) \<Longrightarrow> steady w w'"
    and fflush_steady: "op_event_fflush (en_ops E) = Some fflush \<Longrightarrow> fflush w = Some (w', r) \<Longrightarrow> steady w w'"
    and wait_runs: "en_event_wait E run ms w = Some (w', n, t) \<Longrightarrow> (\<And>v. R v v) \<Longrightarrow> (\<And>u v x. R u v \<Longrightarrow> R v x \<Longrightarrow> R u x) \<Longrightarrow>
      (\<And>p f v v'. run p f v = Some v' \<Longrightarrow> R v v') \<Longrightarrow> (\<And>v v'. stamped v v' \<Longrightarrow> R v v') \<Longrightarrow> R w w'"
begin

lemma event_add_steady: "event_add d (en_seekable E) (en_ops E) f p w = Some (w', r) \<Longrightarrow> steady w w'"
  unfolding event_add_def Let_def
  by (auto split: if_splits simp: bind_eq_Some_conv dest!: add_steady)

lemma event_del_steady: "event_del d (en_ops E) f w = Some w' \<Longrightarrow> steady w w'"
  unfolding event_del_def Let_def
  by (auto split: if_splits simp: bind_eq_Some_conv dest!: del_steady)

lemma del_op_steady: "map_option fst (op_del (en_ops E) d f w) = Some w' \<Longrightarrow> steady w w'"
  by (auto dest: del_steady)

lemma del_if_steady:
  "(if b then map_option fst (op_del_read (en_ops E) f w) else Some w) = Some w' \<Longrightarrow> steady w w'"
  "(if b then map_option fst (op_del_write (en_ops E) f w) else Some w) = Some w' \<Longrightarrow> steady w w'"
  using del_op_steady [of Reading f w w'] del_op_steady [of Writing f w w'] by (simp_all split: if_splits)

lemma del_readwrite_steady:
  assumes "nio_event_del_readwrite (en_ops E) f w = Some w'"
  shows "steady w w'"
proof -
  obtain w1 where w1: "(case op_del_readwrite (en_ops E) of
        Some del \<Rightarrow>
          if f_mask (ev_files w f) AND (NIO_EVENT_READ OR NIO_EVENT_WRITE) \<noteq> 0
          then map_option fst (del f w) else Some w
      | None \<Rightarrow>
          Option.bind
            (if f_mask (ev_files w f) AND NIO_EVENT_READ \<noteq> 0 then map_option fst (op_del_read (en_ops E) f w) else Some w)
            (\<lambda>w. if f_mask (ev_files w f) AND NIO_EVENT_WRITE \<noteq> 0 then map_option fst (op_del_write (en_ops E) f w) else Some w)) =
     Some w1" and w': "steady w1 w'"
    using assms unfolding nio_event_del_readwrite_def Let_def
    by (elim bind_Some) (auto split: option.splits if_splits dest!: fflush_steady)
  from w1 have "steady w w1"
  proof (cases "op_del_readwrite (en_ops E)")
    case None
    with w1 show ?thesis by (auto simp: bind_eq_Some_conv intro: steady_trans dest!: del_if_steady)
  next
    case (Some del)
    with w1 show ?thesis by (auto split: if_splits dest: del_both_steady)
  qed
  with w' show ?thesis by (rule steady_trans [rotated])
qed

lemma when_oper_steady:
  "when_oper b f (op_del (en_ops E) d) w = Some w' \<Longrightarrow> steady w w'" "when_oper b f (op_add (en_ops E) d) w = Some w' \<Longrightarrow> steady w w'"
  by (auto simp: when_oper_def split: if_splits dest: del_steady add_steady)

lemma prepare_file_steady:
  assumes "prepare_file (en_ops E) f w = Some w'"
  shows "steady w w'"
proof -
  obtain w1 w2 w3 w4 where w: "when_oper NIO_EVENT_DEL_READ f (op_del (en_ops E) Reading) w = Some w1"
    "when_oper NIO_EVENT_DEL_WRITE f (op_del (en_ops E) Writing) w1 = Some w2"
    "when_oper NIO_EVENT_ADD_READ f (op_add (en_ops E) Reading) w2 = Some w3"
    "when_oper NIO_EVENT_ADD_WRITE f (op_add (en_ops E) Writing) w3 = Some w4" "steady w4 w'"
    using assms by (auto simp: prepare_file_def Let_def bind_eq_Some_conv)
  then show ?thesis by (meson when_oper_steady steady_trans)
qed

lemma prepare_steady:
  assumes "nio_event_prepare (en_ops E) w = Some w'"
  shows "steady w w'"
proof -
  obtain w1 where w1: "drain (\<lambda>e. nio_ring_first (ev_events e) (ev_rings e)) (prepare_file (en_ops E)) w = Some w1" "steady w1 w'"
    using assms by (auto simp: nio_event_prepare_def)
  have "steady w w1"
    by (rule drain_related [OF w1(1), where R = steady]) (auto intro: prepare_file_steady steady_trans)
  with w1(2) show ?thesis by (rule steady_trans [rotated])
qed

end

subsection \<open>The view of a step\<close>

lemma need_timer_Some [simp]: "need_timer (Some t) = t"
  by (simp add: need_timer_def)

lemma upd_client_fields [simp]:
  "client d (upd_client c g w) = (if d = c then g (client c w) else client d w)" "proc p (upd_client c g w) = proc p w"
  "ev_files (upd_client c g w) = ev_files w" "ev_flags (upd_client c g w) = ev_flags w"
  by (simp_all add: upd_client_def client_def proc_def)

lemma upd_machine [simp]:
  "m_fresh (ev_poller (upd_client c g w)) = m_fresh (ev_poller w)" "m_stamp (ev_poller (upd_client c g w)) = m_stamp (ev_poller w)"
  "m_ctx (ev_poller (upd_client c g w)) = m_ctx (ev_poller w)" "m_timers (ev_poller (upd_client c g w)) = m_timers (ev_poller w)"
  "m_procs_free (ev_poller (upd_client c g w)) = m_procs_free (ev_poller w)"
  "m_clients_free (ev_poller (upd_client c g w)) = m_clients_free (ev_poller w)"
  "m_fresh (ev_poller (upd_proc p h w)) = m_fresh (ev_poller w)" "m_stamp (ev_poller (upd_proc p h w)) = m_stamp (ev_poller w)"
  "m_ctx (ev_poller (upd_proc p h w)) = m_ctx (ev_poller w)" "m_timers (ev_poller (upd_proc p h w)) = m_timers (ev_poller w)"
  "m_procs_free (ev_poller (upd_proc p h w)) = m_procs_free (ev_poller w)"
  "m_clients_free (ev_poller (upd_proc p h w)) = m_clients_free (ev_poller w)"
  "m_fresh (ev_poller (happen x w)) = m_fresh (ev_poller w)" "m_ctx (ev_poller (happen x w)) = m_ctx (ev_poller w)"
  "m_procs_free (ev_poller (happen x w)) = m_procs_free (ev_poller w)" "m_clients_free (ev_poller (happen x w)) = m_clients_free (ev_poller w)"
  "m_fresh (ev_poller (event_add_timer t ms w)) = m_fresh (ev_poller w)" "m_fresh (ev_poller (event_del_timer t w)) = m_fresh (ev_poller w)"
  by (simp_all add: upd_client_def upd_proc_def happen_def event_add_timer_def event_del_timer_def)

lemma upd_proc_fields [simp]:
  "client c (upd_proc p g w) = client c w" "proc q (upd_proc p g w) = (if q = p then g (proc p w) else proc q w)"
  "ev_files (upd_proc p g w) = ev_files w" "ev_flags (upd_proc p g w) = ev_flags w"
  by (simp_all add: upd_proc_def client_def proc_def)

lemma happen_fields [simp]:
  "client c (happen x w) = client c w" "proc p (happen x w) = proc p w" "ev_files (happen x w) = ev_files w"
  by (simp_all add: happen_def client_def proc_def)

lemma timer_fields [simp]:
  "client c (event_add_timer t ms w) = client c w" "client c (event_del_timer t w) = client c w"
  "client c (event_reset_timer t ms w) = client c w"
  by (simp_all add: event_add_timer_def event_del_timer_def event_reset_timer_def client_def)

lemma timer_upd_fields [simp]:
  "cs_read_timer (client c (upd_read_timer c g w)) = Some (g (need_timer (cs_read_timer (client c w))))"
  "cs_write_timer (client c (upd_write_timer c g w)) = Some (g (need_timer (cs_write_timer (client c w))))"
  "cs_buf (client d (upd_read_timer c g w)) = cs_buf (client d w)" "cs_buf (client d (upd_write_timer c g w)) = cs_buf (client d w)"
  by (simp_all add: upd_read_timer_def upd_write_timer_def)

lemma view_eqI:
  assumes "m_timers (ev_poller w') = m_timers (ev_poller w)" "waits (ev_poller w') = waits (ev_poller w)"
    "object_closing (ev_poller w') = object_closing (ev_poller w)" "object_buf (ev_poller w') = object_buf (ev_poller w)"
    "m_procs_free (ev_poller w') = m_procs_free (ev_poller w)" "m_clients_free (ev_poller w') = m_clients_free (ev_poller w)"
    "m_trace (ev_poller w') = m_trace (ev_poller w)" "m_fresh (ev_poller w') = m_fresh (ev_poller w)"
    "m_ctx (ev_poller w') = m_ctx (ev_poller w)" "\<And>p. ep_ev (m_procs (ev_poller w') p) = ep_ev (m_procs (ev_poller w) p)"
  shows "view w' = view w"
  using assms by (simp add: view_def Let_def)

lemma view_upd_client:
  "view (upd_client c g w) = (view w)
     \<lparr>v_wait := (v_wait (view w))(Read_Timer c := ct_waiting (need_timer (cs_read_timer (g (client c w)))),
        Write_Timer c := ct_waiting (need_timer (cs_write_timer (g (client c w))))),
      v_closing := (v_closing (view w))(Client_Object c := cs_closing (g (client c w))),
      v_buf := (v_buf (view w))(Client_Object c := pending (cs_buf (g (client c w))))\<rparr>"
proof -
  have "waits (ev_poller (upd_client c g w)) t = ((waits (ev_poller w))
      (Read_Timer c := ct_waiting (need_timer (cs_read_timer (g (client c w)))),
       Write_Timer c := ct_waiting (need_timer (cs_write_timer (g (client c w)))))) t" for t
    by (cases t) (simp_all add: upd_client_def client_def)
  moreover have "object_closing (ev_poller (upd_client c g w)) ob =
      ((object_closing (ev_poller w))(Client_Object c := cs_closing (g (client c w)))) ob" for ob
    by (cases ob) (simp_all add: upd_client_def client_def)
  moreover have "object_buf (ev_poller (upd_client c g w)) ob =
      ((object_buf (ev_poller w))(Client_Object c := pending (cs_buf (g (client c w))))) ob" for ob
    by (cases ob) (simp_all add: upd_client_def client_def)
  ultimately show ?thesis by (simp add: view_def upd_client_def fun_eq_iff Let_def)
qed

lemma view_upd_proc:
  "view (upd_proc p g w) = (view w)
     \<lparr>v_closing := (v_closing (view w))(Proc_Object p := ep_closing (g (proc p w))),
      v_buf := (v_buf (view w))(Proc_Object p := pending (ep_buf (g (proc p w)))),
      v_bound := (v_bound (view w))(p := ep_ev (g (proc p w)))\<rparr>"
proof -
  have "waits (ev_poller (upd_proc p g w)) t = waits (ev_poller w) t" for t
    by (cases t) (simp_all add: upd_proc_def)
  moreover have "object_closing (ev_poller (upd_proc p g w)) ob =
      ((object_closing (ev_poller w))(Proc_Object p := ep_closing (g (proc p w)))) ob" for ob
    by (cases ob) (simp_all add: upd_proc_def proc_def)
  moreover have "object_buf (ev_poller (upd_proc p g w)) ob =
      ((object_buf (ev_poller w))(Proc_Object p := pending (ep_buf (g (proc p w))))) ob" for ob
    by (cases ob) (simp_all add: upd_proc_def proc_def)
  ultimately show ?thesis by (simp add: view_def upd_proc_def proc_def fun_eq_iff Let_def)
qed

lemma view_client:
  "v_wait (view w) (Read_Timer c) = ct_waiting (need_timer (cs_read_timer (client c w)))"
  "v_wait (view w) (Write_Timer c) = ct_waiting (need_timer (cs_write_timer (client c w)))"
  "v_closing (view w) (Client_Object c) = cs_closing (client c w)" "v_closing (view w) (Proc_Object p) = ep_closing (proc p w)"
  "v_buf (view w) (Client_Object c) = pending (cs_buf (client c w))" "v_buf (view w) (Proc_Object p) = pending (ep_buf (proc p w))"
  "v_bound (view w) p = ep_ev (proc p w)"
  by (simp_all add: client_def proc_def)

text \<open>An update that does not touch what is in view.\<close>

lemma view_client_same:
  assumes "cs_read_timer (g (client c w)) = cs_read_timer (client c w)" "cs_write_timer (g (client c w)) = cs_write_timer (client c w)"
    "cs_closing (g (client c w)) = cs_closing (client c w)" "cs_buf (g (client c w)) = cs_buf (client c w)"
  shows "view (upd_client c g w) = view w"
  unfolding view_upd_client assms view_client [symmetric] fun_upd_triv by simp

lemma view_proc_same:
  assumes "ep_closing (g (proc p w)) = ep_closing (proc p w)" "ep_buf (g (proc p w)) = ep_buf (proc p w)"
    "ep_ev (g (proc p w)) = ep_ev (proc p w)"
  shows "view (upd_proc p g w) = view w"
  unfolding view_upd_proc assms view_client [symmetric] fun_upd_triv by simp

lemma view_read_timer:
  "view (upd_read_timer c g w) =
     (view w)\<lparr>v_wait := (v_wait (view w))(Read_Timer c := ct_waiting (g (need_timer (cs_read_timer (client c w)))))\<rparr>"
  unfolding upd_read_timer_def view_upd_client
  by (simp add: fun_upd_idem view_client fun_upd_twist del: view_fields)

lemma view_write_timer:
  "view (upd_write_timer c g w) =
     (view w)\<lparr>v_wait := (v_wait (view w))(Write_Timer c := ct_waiting (g (need_timer (cs_write_timer (client c w)))))\<rparr>"
  unfolding upd_write_timer_def view_upd_client
  by (simp add: fun_upd_idem view_client fun_upd_twist del: view_fields)

lemma view_client_buf:
  "view (upd_client c (\<lambda>x. x\<lparr>cs_buf := Some (h x)\<rparr>) w) =
     (view w)\<lparr>v_buf := (v_buf (view w))(Client_Object c := h (client c w))\<rparr>"
  unfolding view_upd_client
  by (simp add: fun_upd_idem view_client pending_def del: view_fields)

lemma view_proc_buf:
  "view (upd_proc p (\<lambda>x. x\<lparr>ep_buf := Some (h x)\<rparr>) w) =
     (view w)\<lparr>v_buf := (v_buf (view w))(Proc_Object p := h (proc p w))\<rparr>"
  unfolding view_upd_proc
  by (simp add: fun_upd_idem view_client pending_def del: view_fields)

lemma view_closing:
  "view (upd_client c (\<lambda>x. x\<lparr>cs_closing := b\<rparr>) w) = (view w)\<lparr>v_closing := (v_closing (view w))(Client_Object c := b)\<rparr>"
  "view (upd_proc p (\<lambda>x. x\<lparr>ep_closing := b\<rparr>) w) = (view w)\<lparr>v_closing := (v_closing (view w))(Proc_Object p := b)\<rparr>"
  unfolding view_upd_client view_upd_proc
  by (simp_all add: fun_upd_idem view_client del: view_fields)

lemma view_poller:
  "view (upd_poller (\<lambda>m. m\<lparr>m_trace := tr m\<rparr>) w) = (view w)\<lparr>v_trace := tr (ev_poller w)\<rparr>"
  "view (upd_poller (\<lambda>m. m\<lparr>m_timers := tm m\<rparr>) w) = (view w)\<lparr>v_timers := tm (ev_poller w)\<rparr>"
  "view (upd_poller (\<lambda>m. m\<lparr>m_fresh := n m\<rparr>) w) = (view w)\<lparr>v_fresh := n (ev_poller w)\<rparr>"
  "view (upd_poller (\<lambda>m. m\<lparr>m_ctx := ctx m\<rparr>) w) = (view w)\<lparr>v_ctx := ctx (ev_poller w)\<rparr>"
  "view (upd_poller (\<lambda>m. m\<lparr>m_procs_free := ps m\<rparr>) w) = (view w)\<lparr>v_procs_free := ps (ev_poller w)\<rparr>"
  "view (upd_poller (\<lambda>m. m\<lparr>m_clients_free := cs m\<rparr>) w) = (view w)\<lparr>v_clients_free := cs (ev_poller w)\<rparr>"
  "view (upd_poller (\<lambda>m. m\<lparr>m_kernel := k m\<rparr>) w) = view w"
proof -
  have u: "waits (m\<lparr>m_trace := a\<rparr>) = waits m" "waits (m\<lparr>m_timers := b\<rparr>) = waits m" "waits (m\<lparr>m_fresh := d\<rparr>) = waits m"
    "waits (m\<lparr>m_ctx := e\<rparr>) = waits m" "waits (m\<lparr>m_procs_free := f\<rparr>) = waits m" "waits (m\<lparr>m_clients_free := f\<rparr>) = waits m"
    "waits (m\<lparr>m_kernel := k'\<rparr>) = waits m"
    for m :: "('h, 'k) machine" and a b d e f k' by (rule ext, case_tac x; simp)+
  have c: "object_closing (m\<lparr>m_trace := a\<rparr>) = object_closing m" "object_closing (m\<lparr>m_timers := b\<rparr>) = object_closing m"
    "object_closing (m\<lparr>m_fresh := d\<rparr>) = object_closing m" "object_closing (m\<lparr>m_ctx := e\<rparr>) = object_closing m"
    "object_closing (m\<lparr>m_procs_free := f\<rparr>) = object_closing m" "object_closing (m\<lparr>m_clients_free := f\<rparr>) = object_closing m"
    "object_closing (m\<lparr>m_kernel := k'\<rparr>) = object_closing m"
    for m :: "('h, 'k) machine" and a b d e f k' by (rule ext, case_tac x; simp)+
  have b: "object_buf (m\<lparr>m_trace := a\<rparr>) = object_buf m" "object_buf (m\<lparr>m_timers := b\<rparr>) = object_buf m"
    "object_buf (m\<lparr>m_fresh := d\<rparr>) = object_buf m" "object_buf (m\<lparr>m_ctx := e\<rparr>) = object_buf m"
    "object_buf (m\<lparr>m_procs_free := f\<rparr>) = object_buf m" "object_buf (m\<lparr>m_clients_free := f\<rparr>) = object_buf m"
    "object_buf (m\<lparr>m_kernel := k'\<rparr>) = object_buf m"
    for m :: "('h, 'k) machine" and a b d e f k' by (rule ext, case_tac x; simp)+
  show "view (upd_poller (\<lambda>m. m\<lparr>m_trace := tr m\<rparr>) w) = (view w)\<lparr>v_trace := tr (ev_poller w)\<rparr>"
    "view (upd_poller (\<lambda>m. m\<lparr>m_timers := tm m\<rparr>) w) = (view w)\<lparr>v_timers := tm (ev_poller w)\<rparr>"
    "view (upd_poller (\<lambda>m. m\<lparr>m_fresh := n m\<rparr>) w) = (view w)\<lparr>v_fresh := n (ev_poller w)\<rparr>"
    "view (upd_poller (\<lambda>m. m\<lparr>m_ctx := ctx m\<rparr>) w) = (view w)\<lparr>v_ctx := ctx (ev_poller w)\<rparr>"
    "view (upd_poller (\<lambda>m. m\<lparr>m_procs_free := ps m\<rparr>) w) = (view w)\<lparr>v_procs_free := ps (ev_poller w)\<rparr>"
    "view (upd_poller (\<lambda>m. m\<lparr>m_clients_free := cs m\<rparr>) w) = (view w)\<lparr>v_clients_free := cs (ev_poller w)\<rparr>"
    "view (upd_poller (\<lambda>m. m\<lparr>m_kernel := k m\<rparr>) w) = view w"
    by (simp_all add: view_def Let_def u c b)
qed

text \<open>What a step on the kernel leaves alone.\<close>

definition alike :: "('h, 'k) world \<Rightarrow> ('h, 'k) world \<Rightarrow> bool" where
  "alike w w' \<longleftrightarrow> view w' = view w \<and> (\<forall>c. client c w' = client c w) \<and> (\<forall>p. proc p w' = proc p w) \<and>
     m_stamp (ev_poller w') = m_stamp (ev_poller w)"

lemma steady_alike: "steady w w' \<Longrightarrow> alike w w'"
proof -
  assume "steady w w'"
  then obtain k where k: "ev_poller w' = (ev_poller w)\<lparr>m_kernel := k\<rparr>" by (auto simp: steady_def)
  then have "view w' = view (upd_poller (\<lambda>m. m\<lparr>m_kernel := k\<rparr>) w)" by (simp add: view_def upd_poller_def)
  with k show ?thesis by (simp add: alike_def view_poller client_def proc_def)
qed

lemma alikeD:
  assumes "alike w w'"
  shows "view w' = view w" "client c w' = client c w" "proc p w' = proc p w" "m_stamp (ev_poller w') = m_stamp (ev_poller w)"
    "m_timers (ev_poller w') = m_timers (ev_poller w)" "m_ctx (ev_poller w') = m_ctx (ev_poller w)"
    "m_fresh (ev_poller w') = m_fresh (ev_poller w)" "m_procs_free (ev_poller w') = m_procs_free (ev_poller w)"
    "m_clients_free (ev_poller w') = m_clients_free (ev_poller w)" "waits (ev_poller w') = waits (ev_poller w)"
    "object_closing (ev_poller w') = object_closing (ev_poller w)" "object_buf (ev_poller w') = object_buf (ev_poller w)"
    "m_trace (ev_poller w') = m_trace (ev_poller w)"
  using assms view_fields unfolding alike_def by metis+

lemma alike_iff:
  "alike w w' \<longleftrightarrow> view w' = view w \<and> (\<forall>c. client c w' = client c w) \<and> (\<forall>p. proc p w' = proc p w) \<and>
     m_stamp (ev_poller w') = m_stamp (ev_poller w) \<and> m_timers (ev_poller w') = m_timers (ev_poller w) \<and>
     m_ctx (ev_poller w') = m_ctx (ev_poller w) \<and> m_fresh (ev_poller w') = m_fresh (ev_poller w) \<and>
     m_procs_free (ev_poller w') = m_procs_free (ev_poller w) \<and> m_clients_free (ev_poller w') = m_clients_free (ev_poller w) \<and>
     waits (ev_poller w') = waits (ev_poller w) \<and> object_closing (ev_poller w') = object_closing (ev_poller w) \<and>
     object_buf (ev_poller w') = object_buf (ev_poller w) \<and> m_trace (ev_poller w') = m_trace (ev_poller w)"
  using alikeD [of w w'] unfolding alike_def by blast

lemma in_kernel_alike: "in_kernel g w = (w', r) \<Longrightarrow> alike w w'"
  by (rule steady_alike) (auto simp: in_kernel_def steady_def upd_poller_def split: prod.splits)

lemma kernel_do_alike [simp]: "alike w (kernel_do g w)"
  by (rule steady_alike) (auto simp: kernel_do_def steady_def upd_poller_def)

lemma kernel_do_fields [simp]:
  "view (kernel_do g w) = view w" "client c (kernel_do g w) = client c w" "proc p (kernel_do g w) = proc p w"
  "ev_files (kernel_do g w) = ev_files w"
  using kernel_do_alike [of w g] by (simp_all only: alike_iff) (simp add: kernel_do_def)

lemma alike_trans: "alike u v \<Longrightarrow> alike v w \<Longrightarrow> alike u w"
  by (simp add: alike_iff)

lemma alike_kernel_do [simp]: "alike (kernel_do g w) w' = alike w w'" "alike w' (kernel_do g w) = alike w' w"
  using kernel_do_alike [of w g] by (auto simp: alike_iff)

subsection \<open>Methods are moves\<close>

lemma evolves_same: "view w' = view w \<Longrightarrow> evolves cb [] (view w) (view w')"
  using ev_refl by metis

lemma evolves_alike: "alike w w' \<Longrightarrow> evolves cb [] (view w) (view w')"
  by (rule evolves_same) (simp add: alikeD)

text \<open>Starting a timer, in the two steps of the code.\<close>

lemma view_event_timer:
  "view (event_add_timer t ms w) = (view w)\<lparr>v_timers := add_timer (m_stamp (ev_poller w)) t ms (m_timers (ev_poller w))\<rparr>"
  "view (event_del_timer t w) = (view w)\<lparr>v_timers := del_timer t (m_timers (ev_poller w))\<rparr>"
  "view (event_reset_timer t ms w) = (view w)\<lparr>v_timers := reset_timer (m_stamp (ev_poller w)) t ms (m_timers (ev_poller w))\<rparr>"
  by (simp_all add: event_add_timer_def event_del_timer_def event_reset_timer_def view_poller)

lemma start_read_timer:
  assumes "\<not> ct_waiting (need_timer (cs_read_timer (client c w)))" "c < m_fresh (ev_poller w)"
    "\<And>t. ct_waiting (g t)"
  shows "evolves cb [] (view w) (view (upd_read_timer c g (event_add_timer (Read_Timer c) ms w)))"
  using ev_start [of "Read_Timer c" "view w" cb "m_stamp (ev_poller w)" ms] assms
  by (simp add: view_read_timer view_event_timer client_def)

lemma start_write_timer:
  assumes "\<not> ct_waiting (need_timer (cs_write_timer (client c w)))" "c < m_fresh (ev_poller w)"
    "\<And>t. ct_waiting (g t)"
  shows "evolves cb [] (view w) (view (upd_write_timer c g (event_add_timer (Write_Timer c) ms w)))"
  using ev_start [of "Write_Timer c" "view w" cb "m_stamp (ev_poller w)" ms] assms
  by (simp add: view_write_timer view_event_timer client_def)

lemma create_timer [simp]: "view (upd_read_timer c id w) = view w" "view (upd_write_timer c id w) = view w"
  by (simp_all add: view_read_timer view_write_timer fun_upd_idem view_client del: view_fields)

lemma timer_upd_machine [simp]:
  "m_fresh (ev_poller (upd_read_timer c g w)) = m_fresh (ev_poller w)"
  "m_fresh (ev_poller (upd_write_timer c g w)) = m_fresh (ev_poller w)"
  "m_timers (ev_poller (upd_read_timer c g w)) = m_timers (ev_poller w)"
  "m_timers (ev_poller (upd_write_timer c g w)) = m_timers (ev_poller w)"
  by (simp_all add: upd_read_timer_def upd_write_timer_def upd_client_def)

lemma bind_pair:
  assumes "Option.bind x (\<lambda>(a, b). f a b) = Some y"
  obtains a b where "x = Some (a, b)" "f a b = Some y"
  using assms by (auto simp: bind_eq_Some_conv)

lemma case_pair:
  assumes "(case x of (a, b) \<Rightarrow> f a b) = Some y"
  obtains a b where "x = (a, b)" "f a b = Some y"
  using assms by (auto split: prod.splits)

lemma if_Some:
  assumes "(if b then x else y) = Some z"
  obtains (true) "b" "x = Some z" | (false) "\<not> b" "y = Some z"
  using assms by (auto split: if_splits)

lemmas path = bind_pair bind_Some case_pair if_Some

lemma file_alloc:
  assumes "nio_file_alloc fd w = (w', f)"
  shows "evolves cb [] (view w) (view w')" "client c w' = client c w" "proc p w' = proc p w"
    "m_fresh (ev_poller w') = Suc (m_fresh (ev_poller w))" "m_stamp (ev_poller w') = m_stamp (ev_poller w)" "f = m_fresh (ev_poller w)"
proof -
  have e: "ev_poller w' = (ev_poller w)\<lparr>m_fresh := Suc (m_fresh (ev_poller w)), m_ctx := (m_ctx (ev_poller w))(m_fresh (ev_poller w) := None)\<rparr>"
    "f = m_fresh (ev_poller w)"
    using assms by (auto simp: nio_file_alloc_def new_address_def nio_file_init_def Let_def)
  have "view w' = view (upd_poller (\<lambda>m. m\<lparr>m_ctx := (m_ctx (ev_poller w))(m_fresh (ev_poller w) := None)\<rparr>)
      (upd_poller (\<lambda>m. m\<lparr>m_fresh := Suc (m_fresh m)\<rparr>) w))"
    by (simp add: view_def e Let_def)
  also have "\<dots> = (view w)\<lparr>v_fresh := Suc (v_fresh (view w)), v_ctx := (v_ctx (view w))(v_fresh (view w) := None)\<rparr>"
    by (simp add: view_poller)
  finally show "evolves cb [] (view w) (view w')" using ev_file by metis
  show "client c w' = client c w" "proc p w' = proc p w"
    "m_fresh (ev_poller w') = Suc (m_fresh (ev_poller w))" "m_stamp (ev_poller w') = m_stamp (ev_poller w)" "f = m_fresh (ev_poller w)"
    by (simp_all add: client_def proc_def e)
qed

lemma set_ctx:
  "address ob < m_fresh (ev_poller w) \<Longrightarrow> evolves cb [] (view w) (view (nio_file_set_ctx f ob w))"
  "client c (nio_file_set_ctx f ob w) = client c w" "proc p (nio_file_set_ctx f ob w) = proc p w"
  "m_fresh (ev_poller (nio_file_set_ctx f ob w)) = m_fresh (ev_poller w)"
  "m_stamp (ev_poller (nio_file_set_ctx f ob w)) = m_stamp (ev_poller w)"
  using ev_own [of ob "view w" cb f] by (simp_all add: nio_file_set_ctx_def view_poller client_def proc_def)

lemma view_happen: "view (happen x w) = (view w)\<lparr>v_trace := v_trace (view w) @ [x]\<rparr>"
  by (simp add: happen_def view_poller)

lemma happen_view_fields [simp]:
  "object_buf (ev_poller (happen x w)) = object_buf (ev_poller w)" "waits (ev_poller (happen x w)) = waits (ev_poller w)"
  "object_closing (ev_poller (happen x w)) = object_closing (ev_poller w)" "m_trace (ev_poller (happen x w)) = m_trace (ev_poller w) @ [x]"
  using arg_cong [OF view_happen, of v_buf x w] arg_cong [OF view_happen, of v_wait x w]
    arg_cong [OF view_happen, of v_closing x w] arg_cong [OF view_happen, of v_trace x w] by simp_all

lemma write_out_cases:
  assumes "write_out sys ob fd data w = (w', r)"
  obtains (wrote) w1 n where "alike w w1" "r = Wrote n" "w' = happen (Sent ob (take n data)) w1"
    | (not) "alike w w'" "r = Again \<or> r = Broken"
  using assms in_kernel_alike [of "sys_write sys fd data" w]
  by (cases r) (auto simp: write_out_def Let_def split: prod.splits written.splits)

lemma flush_cases:
  assumes "flush_bytes sys ob fd b w = (w', b', ret)"
  obtains (wrote) w1 n where "alike w w1" "w' = happen (Sent ob (take n b)) w1" "b' = drop n b"
    | (not) "alike w w'" "b' = b"
proof -
  obtain w1 r where w1: "write_out sys ob fd b w = (w1, r)" by fastforce
  from w1 show thesis
  proof (cases rule: write_out_cases)
    case (wrote w2 n)
    with assms w1 that(1) show ?thesis by (auto simp: flush_bytes_def Let_def written_ret_def split: if_splits)
  next
    case not
    with assms w1 that(2) show ?thesis by (auto simp: flush_bytes_def Let_def written_ret_def split: if_splits)
  qed
qed

lemma from_offset_wrote: "from_offset (written_ret (Wrote n)) prev data = drop n data"
  by (simp add: from_offset_def written_ret_def nat_add_distrib)

lemma timer_commute: "x\<lparr>v_wait := wt, v_timers := q\<rparr> = x\<lparr>v_timers := q, v_wait := wt\<rparr>"
  by (cases x) simp

lemma view_commute: "x\<lparr>v_trace := t, v_buf := b\<rparr> = x\<lparr>v_buf := b, v_trace := t\<rparr>"
  by (cases x) simp

lemma send_view:
  assumes "alike w w1" "address ob < m_fresh (ev_poller w)" "take n xs @ b = v_buf (view w) ob @ bs"
  shows "evolves cb [(ob, bs)] (view w) ((view (happen (Sent ob (take n xs)) w1))\<lparr>v_buf := (v_buf (view w))(ob := b)\<rparr>)"
  using ev_send [of ob "view w" "take n xs" b bs cb] assms
  by (simp add: alike_iff view_happen view_commute)

text \<open>
  The ways through \<open>write\<close> of both classes when the buffer is empty; \<open>keep\<close> appends to the buffer.
\<close>

definition written_path ::
  "(('h, 'k) world \<Rightarrow> (('h, 'k) world \<times> bool) option) \<Rightarrow> (bytes \<Rightarrow> ('h, 'k) world) \<Rightarrow> ('h, 'k) world \<Rightarrow> byte \<Rightarrow> bytes \<Rightarrow>
     written \<Rightarrow> ('h, 'k) world \<Rightarrow> int \<Rightarrow> bool" where
  "written_path await keep w1 prev data q w' r \<longleftrightarrow>
     written_ret q = int (length data) \<and> w' = w1 \<and> r = written_ret q \<or>
     written_ret q \<noteq> int (length data) \<and> written_ret q = - 1 \<and> q \<noteq> Again \<and> w' = w1 \<and> r = - 1 \<or>
     written_ret q \<noteq> int (length data) \<and> \<not> (written_ret q = - 1 \<and> q \<noteq> Again) \<and>
       (\<exists>ok. await (keep (from_offset (written_ret q) prev data)) = Some (w', ok) \<and> r = (if ok then written_ret q else - 1))"

lemma write_out_same:
  assumes "write_out sys ob fd data w = (w', r)"
  shows "m_fresh (ev_poller w') = m_fresh (ev_poller w)" "client c w' = client c w" "proc p w' = proc p w"
    "v_buf (view w') = v_buf (view w)"
  using assms by (auto elim!: write_out_cases simp: alike_iff view_happen)

lemma written_evolves:
  assumes out: "write_out sys ob fd data w = (w1, q)" and fresh: "address ob < m_fresh (ev_poller w)"
    and empty: "v_buf (view w) ob = []" and path: "written_path await keep w1 prev data q w' r"
    and keep: "\<And>bs. view (keep bs) = (view w1)\<lparr>v_buf := (v_buf (view w1))(ob := bs)\<rparr>"
    and await: "\<And>bs w2 ok. await (keep bs) = Some (w2, ok) \<Longrightarrow> evolves cb [] (view (keep bs)) (view w2)"
  shows "\<exists>l. evolves cb l (view w) (view w') \<and>
    (\<forall>ob'. if ob' = ob then r = - 1 \<or> gain ob' l = data else gain ob' l = [])"
  using out
proof (cases rule: write_out_cases)
  case (wrote w0 n)
  have sent: "evolves cb [(ob, data)] (view w) ((view w1)\<lparr>v_buf := (v_buf (view w1))(ob := drop n data)\<rparr>)"
    using send_view [OF wrote(1), of ob n data "drop n data" data cb] fresh empty wrote(3) write_out_same(4) [OF out] by simp
  have "evolves cb [(ob, data)] (view w) (view w')"
  proof (cases "n = length data")
    case True
    then have "(view w1)\<lparr>v_buf := (v_buf (view w1))(ob := drop n data)\<rparr> = view w1"
      using empty write_out_same(4) [OF out] by (simp add: fun_upd_idem)
    with sent path True show ?thesis by (simp add: wrote(2) written_ret_def written_path_def)
  next
    case False
    then obtain ok where "await (keep (drop n data)) = Some (w', ok)"
      using path by (auto simp: wrote(2) written_path_def from_offset_wrote) (auto simp: written_ret_def)
    from ev_trans [OF sent, of "[]"] await [OF this] show ?thesis by (simp add: keep)
  qed
  then show ?thesis by (intro exI [of _ "[(ob, data)]"]) simp
next
  case not
  then have same: "view w1 = view w" by (simp add: alike_iff)
  show ?thesis
  proof (cases "q = Again")
    case True
    then obtain ok where ok: "await (keep (prev # data)) = Some (w', ok)" "r = - 1"
      using path by (auto simp: written_ret_def written_path_def from_offset_def split: if_splits)
    have "evolves cb [(ob, prev # data)] (view w) (view (keep (prev # data)))"
      using ev_keep [of ob "view w" cb "prev # data"] fresh empty by (simp add: keep same)
    from ev_trans [OF this await [OF ok(1)]] ok(2) show ?thesis
      by (intro exI [of _ "[(ob, prev # data)]"]) simp
  next
    case False
    then have "view w' = view w" "r = - 1" using path not same by (auto simp: written_ret_def written_path_def)
    then show ?thesis using ev_refl [of cb "view w"] by (intro exI [of _ "[]"]) simp
  qed
qed

lemma flushed_evolves:
  assumes "flush_bytes sys ob fd b w = (w1, b', r)" "address ob < m_fresh (ev_poller w)" "b = v_buf (view w) ob"
    "view w' = (view w1)\<lparr>v_buf := (v_buf (view w1))(ob := b')\<rparr>"
  shows "\<exists>l. evolves cb l (view w) (view w') \<and> (\<forall>ob. gain ob l = [])"
  using assms(1)
proof (cases rule: flush_cases)
  case (wrote w2 n)
  have "evolves cb [(ob, [])] (view w) (view w')"
    using send_view [OF wrote(1) assms(2), of n b b' "[]" cb] wrote assms(3,4) by (simp add: alike_iff)
  then show ?thesis by (intro exI [of _ "[(ob, [])]"]) simp
next
  case not
  then have "view w' = view w" using assms(3,4) by (simp add: alike_iff fun_upd_idem)
  then show ?thesis using ev_refl [of cb "view w"] by (intro exI [of _ "[]"]) simp
qed

lemma delay_close_view:
  "\<not> cs_closing (client c w) \<Longrightarrow> view (upd_client c (\<lambda>x. x\<lparr>cs_closing := True\<rparr>) (delay_close_client c w)) =
     (view w)\<lparr>v_clients_free := v_clients_free (view w) @ [c], v_closing := (v_closing (view w))(Client_Object c := True)\<rparr>"
  "\<not> ep_closing (proc p w) \<Longrightarrow> view (upd_proc p (\<lambda>x. x\<lparr>ep_closing := True\<rparr>) (delay_close_proc p w)) =
     (view w)\<lparr>v_procs_free := v_procs_free (view w) @ [p], v_closing := (v_closing (view w))(Proc_Object p := True)\<rparr>"
  unfolding delay_close_client_def delay_close_proc_def
  by (simp_all add: view_closing view_poller)

context cpp_poller
begin

lemma add_alike:
  "nio_event_add_read (en_seekable E) (en_ops E) f p w = Some (w', r) \<Longrightarrow> alike w w'"
  "nio_event_add_write (en_seekable E) (en_ops E) f p w = Some (w', r) \<Longrightarrow> alike w w'"
  unfolding event_add_eq by (rule steady_alike, erule event_add_steady)+

lemma del_alike:
  "nio_event_del_read (en_ops E) f w = Some w' \<Longrightarrow> alike w w'" "nio_event_del_write (en_ops E) f w = Some w' \<Longrightarrow> alike w w'"
  "nio_event_del_readwrite (en_ops E) f w = Some w' \<Longrightarrow> alike w w'"
  unfolding event_del_eq by (rule steady_alike, erule event_del_steady del_readwrite_steady)+

lemma start_read_alike:
  assumes "alike w w1" "\<not> ct_waiting (need_timer (cs_read_timer (client c w1)))" "c < m_fresh (ev_poller w)" "\<And>t. ct_waiting (g t)"
  shows "evolves cb [] (view w) (view (upd_read_timer c g (event_add_timer (Read_Timer c) ms (upd_read_timer c id w1))))"
  using start_read_timer [of c "upd_read_timer c id w1" g cb ms] assms by (simp add: alikeD [OF assms(1)])

lemma start_write_alike:
  assumes "alike w w1" "\<not> ct_waiting (need_timer (cs_write_timer (client c w1)))" "c < m_fresh (ev_poller w)" "\<And>t. ct_waiting (g t)"
  shows "evolves cb [] (view w) (view (upd_write_timer c g (event_add_timer (Write_Timer c) ms (upd_write_timer c id w1))))"
  using start_write_timer [of c "upd_write_timer c id w1" g cb ms] assms by (simp add: alikeD [OF assms(1)])

lemma await_alike:
  "(if b then nio_event_add_read (en_seekable E) (en_ops E) f p w else Some (w, 1)) = Some (w', r) \<Longrightarrow> alike w w'"
  "(if b then nio_event_add_write (en_seekable E) (en_ops E) f p w else Some (w, 1)) = Some (w', r) \<Longrightarrow> alike w w'"
  by (auto split: if_splits intro: add_alike simp: steady_alike)

lemma client_read_await_evolves:
  "client_read_await E c ms w = Some (w', b) \<Longrightarrow> c < m_fresh (ev_poller w) \<Longrightarrow> evolves cb [] (view w) (view w')"
  unfolding client_read_await_def Let_def
  by (elim bind_pair bind_Some, drule await_alike)
     (auto split: if_splits intro: evolves_alike start_read_alike)

lemma client_write_await_evolves:
  "client_write_await E c ms w = Some (w', b) \<Longrightarrow> c < m_fresh (ev_poller w) \<Longrightarrow> evolves cb [] (view w) (view w')"
  unfolding client_write_await_def Let_def
  by (elim bind_pair bind_Some, drule await_alike)
     (auto split: if_splits intro: evolves_alike start_write_alike)

lemma client_disable_evolves:
  "client_read_disable E c w = Some w' \<Longrightarrow> evolves cb [] (view w) (view w')"
  "client_write_disable E c w = Some w' \<Longrightarrow> evolves cb [] (view w) (view w')"
  "client_readwrite_disable E c w = Some w' \<Longrightarrow> evolves cb [] (view w) (view w')"
  unfolding client_read_disable_def client_write_disable_def client_readwrite_disable_def
  by (elim bind_Some, drule del_alike, erule evolves_alike)+

text \<open>The end of \<open>connect_await\<close>: the client gets its descriptor, and its timer is started.\<close>

lemma connect_own:
  assumes "alike w w1" "nio_file_alloc fd w1 = (w2, f)" "alike w2 w3" "c < m_fresh (ev_poller w)"
  shows "evolves cb [] (view w) (view (upd_client c (\<lambda>x. x\<lparr>cs_fe := Some f\<rparr>) (nio_file_set_ctx f (Client_Object c) w3)))"
proof -
  note fa = file_alloc [OF assms(2)]
  have "c < m_fresh (ev_poller w3)" using assms fa(4) by (simp add: alike_iff)
  then have "evolves cb [] (view w3) (view (nio_file_set_ctx f (Client_Object c) w3))" by (intro set_ctx(1)) simp
  then show ?thesis using assms(1,3) fa(1) by (auto simp: alike_iff view_client_same intro: ev_trans_none)
qed

lemma connect_timer:
  assumes "alike w w1" "nio_file_alloc fd w1 = (w2, f)" "alike w2 w3" "c < m_fresh (ev_poller w)"
    "\<not> ct_waiting (need_timer (cs_write_timer (client c w)))" "\<And>t. ct_waiting (g t)"
  shows "evolves cb [] (view w) (view (upd_write_timer c g (event_add_timer (Write_Timer c) ms (upd_write_timer c id
    (upd_client c (\<lambda>x. x\<lparr>cs_fe := Some f\<rparr>) (nio_file_set_ctx f (Client_Object c) w3))))))"
proof -
  let ?w4 = "upd_client c (\<lambda>x. x\<lparr>cs_fe := Some f\<rparr>) (nio_file_set_ctx f (Client_Object c) w3)"
  have "c < m_fresh (ev_poller ?w4)" "\<not> ct_waiting (need_timer (cs_write_timer (client c ?w4)))"
    using assms file_alloc [OF assms(2)] by (simp_all add: alike_iff set_ctx)
  then have "evolves cb [] (view ?w4) (view (upd_write_timer c g (event_add_timer (Write_Timer c) ms (upd_write_timer c id ?w4))))"
    using assms(6) by (intro start_write_alike) (simp_all add: alike_def)
  with connect_own [OF assms(1-4)] show ?thesis by (rule ev_trans_none)
qed

lemma connect_refused:
  assumes "alike w w1" "nio_file_alloc fd w1 = (w2, f)" "alike w2 w3"
  shows "evolves cb [] (view w) (view w3)"
  using assms(1,3) file_alloc(1) [OF assms(2)] by (simp add: alike_iff)

lemma client_connect_await_evolves:
  "client_connect_await E c ip port ms w = Some (w', b) \<Longrightarrow> c < m_fresh (ev_poller w) \<Longrightarrow>
     \<not> ct_waiting (need_timer (cs_write_timer (client c w))) \<Longrightarrow> evolves cb [] (view w) (view w')"
  unfolding client_connect_await_def Let_def
  apply (elim path; drule in_kernel_alike; drule in_kernel_alike; simp only: alike_kernel_do; drule (1) alike_trans)
  subgoal by (auto intro: evolves_alike)
  subgoal by (auto intro: connect_refused dest!: add_alike)
  subgoal by (auto intro: connect_own dest!: add_alike)
  subgoal by (auto intro: connect_timer dest!: add_alike)
  done

lemma close_file_alike:
  "(case fe of Some f \<Rightarrow> if f_fd (ev_files w f) \<ge> 0 then nio_event_del_readwrite (en_ops E) f w else Some w | None \<Rightarrow> Some w) = Some w' \<Longrightarrow>
     alike w w'"
  by (auto split: option.splits if_splits intro: del_alike simp: steady_alike)

lemma client_close_await_evolves:
  "client_close_await E c w = Some w' \<Longrightarrow> c < m_fresh (ev_poller w) \<Longrightarrow> evolves cb [] (view w) (view w')"
  unfolding client_close_await_def Let_def
  apply (elim path)
  subgoal for w1
    using delay_close_view(1) [of c w1] ev_close_client [of c "view w" cb]
    by (auto dest!: close_file_alike simp: alike_iff client_def)
  subgoal by (auto intro: evolves_same)
  done

lemma client_flush_evolves:
  assumes "client_flush E c w = Some (w', r)" "c < m_fresh (ev_poller w)"
  shows "\<exists>l. evolves cb l (view w) (view w') \<and> (\<forall>ob. gain ob l = [])"
proof (cases "pending (cs_buf (client c w)) = []")
  case True
  with assms have "w' = w" by (simp add: client_flush_def)
  then show ?thesis using ev_refl by fastforce
next
  case False
  then obtain f w1 b where f: "flush_bytes (en_system E) (Client_Object c) (f_fd (ev_files w f)) (pending (cs_buf (client c w))) w = (w1, b, r)"
    and w': "w' = upd_client c (\<lambda>x. x\<lparr>cs_buf := Some b\<rparr>) w1"
    using assms(1) unfolding client_flush_def Let_def by (elim path) auto
  show ?thesis
    by (rule flushed_evolves [OF f]) (use assms(2) in \<open>simp_all add: w' view_client_buf client_def\<close>)
qed

lemma client_write_evolves:
  assumes "client_write E c prev data ms w = Some (w', r)" "c < m_fresh (ev_poller w)"
  shows "\<exists>l. evolves cb l (view w) (view w') \<and> (\<forall>ob. takes_over (Write_Data c prev data ms) r ob (gain ob l))"
proof (cases "pending (cs_buf (client c w)) = []")
  case False
  then have w': "w' = upd_client c (\<lambda>x. x\<lparr>cs_buf := Some (pending (cs_buf x) @ data)\<rparr>) w"
    using assms(1) by (simp add: client_write_def)
  have "evolves cb [(Client_Object c, data)] (view w) (view w')"
    using ev_keep [of "Client_Object c" "view w" cb data] assms(2) by (simp add: w' view_client_buf client_def)
  then show ?thesis by (intro exI [of _ "[(Client_Object c, data)]"]) simp
next
  case True
  let ?keep = "\<lambda>w1 bs. upd_client c (\<lambda>x. x\<lparr>cs_buf := Some (pending (cs_buf x) @ bs)\<rparr>) w1"
  obtain f w1 q where out: "write_out (en_system E) (Client_Object c) (f_fd (ev_files w f)) data w = (w1, q)"
    and cs: "written_path (client_write_await E c ms) (?keep w1) w1 prev data q w' r"
    using assms(1) True unfolding client_write_def Let_def written_path_def by (elim path) (auto split: if_splits)
  have "\<exists>l. evolves cb l (view w) (view w') \<and>
      (\<forall>ob. if ob = Client_Object c then r = - 1 \<or> gain ob l = data else gain ob l = [])"
  proof (rule written_evolves [OF out _ _ cs])
    fix bs w2 ok assume "client_write_await E c ms (?keep w1 bs) = Some (w2, ok)"
    then show "evolves cb [] (view (?keep w1 bs)) (view w2)"
      using assms(2) write_out_same(1) [OF out] by (intro client_write_await_evolves) simp_all
  qed (use assms(2) True write_out_same [OF out] in \<open>simp_all add: view_client_buf client_def\<close>)
  then show ?thesis by simp
qed

lemma client_set_evolves [simp]:
  "view (client_on_connect c fn w) = view w" "view (client_on_read c fn w) = view w" "view (client_on_write c fn w) = view w"
  "view (client_on_error c fn w) = view w" "view (client_on_close c fn w) = view w"
  unfolding client_on_connect_def client_on_read_def client_on_write_def client_on_error_def client_on_close_def
  by (simp_all add: view_client_same)

lemma client_new_evolves:
  assumes "client_new w = (w', c)"
  shows "evolves cb [] (view w) (view w')" "c = m_fresh (ev_poller w)" "m_fresh (ev_poller w') = Suc c"
proof -
  have e: "c = m_fresh (ev_poller w)" "w' = upd_client c (\<lambda>_. client_socket_new) (upd_poller (\<lambda>m. m\<lparr>m_fresh := m_fresh m + 1\<rparr>) w)"
    using assms by (auto simp: client_new_def new_address_def)
  have "view w' = (view w)\<lparr>v_fresh := Suc c, v_wait := (v_wait (view w))(Read_Timer c := False, Write_Timer c := False),
      v_closing := (v_closing (view w))(Client_Object c := False), v_buf := (v_buf (view w))(Client_Object c := [])\<rparr>"
    unfolding e(2) view_upd_client view_poller
    by (simp add: client_socket_new_def need_timer_def client_timer_new_def pending_def e(1) upd_poller_def)
  then show "evolves cb [] (view w) (view w')" using ev_new_client [of c "view w" cb] e(1) by simp
  show "c = m_fresh (ev_poller w)" "m_fresh (ev_poller w') = Suc c" using e by simp_all
qed

lemma client_open_evolves:
  assumes "client_open fd w = (w', c)"
  shows "evolves cb [] (view w) (view w')"
proof -
  obtain w1 w2 f where w: "client_new w = (w1, c)" "nio_file_alloc fd w1 = (w2, f)"
    "w' = nio_file_set_ctx f (Client_Object c) (upd_client c (\<lambda>x. x\<lparr>cs_fe := Some f\<rparr>) w2)"
    using assms unfolding client_open_def Let_def by (auto split: prod.splits)
  note n = client_new_evolves [OF w(1)] and a = file_alloc [OF w(2)]
  have v: "view (upd_client c (\<lambda>x. x\<lparr>cs_fe := Some f\<rparr>) w2) = view w2" by (simp add: view_client_same)
  have "evolves cb [] (view (upd_client c (\<lambda>x. x\<lparr>cs_fe := Some f\<rparr>) w2)) (view w')"
    unfolding w(3) by (rule set_ctx) (simp add: a(4) n(3))
  with n(1) a(1) v show ?thesis by (metis ev_trans_none)
qed

subsection \<open>The methods of \<open>event_proc\<close> and \<open>server_socket\<close>\<close>

lemma proc_new_evolves:
  assumes "proc_new cls w = (w', p)"
  shows "evolves cb [] (view w) (view w')"
proof -
  have e: "p = m_fresh (ev_poller w)" "w' = upd_proc p (\<lambda>_. event_proc_new cls) (upd_poller (\<lambda>m. m\<lparr>m_fresh := m_fresh m + 1\<rparr>) w)"
    using assms by (auto simp: proc_new_def new_address_def)
  have "view w' = (view w)\<lparr>v_fresh := Suc p, v_closing := (v_closing (view w))(Proc_Object p := False),
      v_buf := (v_buf (view w))(Proc_Object p := []), v_bound := (v_bound (view w))(p := False)\<rparr>"
    unfolding e(2) view_upd_proc view_poller
    by (simp add: event_proc_new_def pending_def e(1) upd_poller_def)
  then show ?thesis using ev_new_proc [of p "view w" cb] e(1) by simp
qed

lemma proc_ev_evolves:
  "p < m_fresh (ev_poller w) \<Longrightarrow> evolves cb [] (view w) (view (upd_proc p (\<lambda>x. x\<lparr>ep_ev := True\<rparr>) w))"
  using ev_bind [of p "view w" cb]
  unfolding view_upd_proc by (simp add: fun_upd_idem view_client del: view_fields) simp

lemma proc_open_evolves:
  assumes "proc_open cls fd w = (w', p)"
  shows "evolves cb [] (view w) (view w')"
proof -
  obtain w1 w2 f where w: "proc_new cls w = (w1, p)" "nio_file_alloc fd (upd_proc p (\<lambda>x. x\<lparr>ep_ev := True\<rparr>) w1) = (w2, f)"
    "w' = nio_file_set_ctx f (Proc_Object p) (upd_proc p (\<lambda>x. x\<lparr>ep_fe := Some f\<rparr>) w2)"
    using assms unfolding proc_open_def Let_def by (auto split: prod.splits)
  note a = file_alloc [OF w(2)]
  have p: "p < m_fresh (ev_poller w1)" using w(1) by (auto simp: proc_new_def new_address_def upd_poller_def upd_proc_def)
  have v: "view (upd_proc p (\<lambda>x. x\<lparr>ep_fe := Some f\<rparr>) w2) = view w2" by (simp add: view_proc_same)
  have "evolves cb [] (view (upd_proc p (\<lambda>x. x\<lparr>ep_fe := Some f\<rparr>) w2)) (view w')"
    unfolding w(3) using p by (intro set_ctx(1)) (simp add: a(4))
  then have "evolves cb [] (view w1) (view w')" using a(1) proc_ev_evolves [OF p] unfolding v by (blast intro: ev_trans_none)
  with proc_new_evolves [OF w(1)] show ?thesis by (rule ev_trans_none)
qed

lemma proc_bind_evolves:
  assumes "p < m_fresh (ev_poller w)"
  shows "evolves cb [] (view w) (view (proc_bind p fd w))" "m_fresh (ev_poller w) \<le> m_fresh (ev_poller (proc_bind p fd w))"
proof -
  let ?w1 = "upd_proc p (\<lambda>x. x\<lparr>ep_ev := True\<rparr>) w"
  obtain w2 f where w2: "nio_file_alloc fd ?w1 = (w2, f)" by fastforce
  note a = file_alloc [OF w2]
  have b: "proc_bind p fd w = upd_proc p (\<lambda>x. x\<lparr>ep_fe := Some f\<rparr>) (nio_file_set_ctx f (Proc_Object p) w2)"
    by (simp add: proc_bind_def w2)
  have "evolves cb [] (view w2) (view (nio_file_set_ctx f (Proc_Object p) w2))" by (rule set_ctx) (simp add: a(4) assms less_SucI)
  then show "evolves cb [] (view w) (view (proc_bind p fd w))"
    using a(1) [of cb] proc_ev_evolves [OF assms] by (simp add: b view_proc_same) (blast intro: ev_trans_none)
  show "m_fresh (ev_poller w) \<le> m_fresh (ev_poller (proc_bind p fd w))" by (simp add: b set_ctx a)
qed

lemma proc_await_alike:
  "proc_read_await E p w = Some (w', b) \<Longrightarrow> alike w w'" "proc_write_await E p w = Some (w', b) \<Longrightarrow> alike w w'"
  "proc_connect_await E p w = Some (w', b) \<Longrightarrow> alike w w'"
  "proc_read_disable E p w = Some w' \<Longrightarrow> alike w w'" "proc_write_disable E p w = Some w' \<Longrightarrow> alike w w'"
  unfolding proc_read_await_def proc_write_await_def proc_connect_await_def proc_read_disable_def proc_write_disable_def
  by (elim path; auto intro: add_alike del_alike simp: steady_alike)+

lemma proc_close_await_evolves:
  "proc_close_await E p w = Some w' \<Longrightarrow> p < m_fresh (ev_poller w) \<Longrightarrow> evolves cb [] (view w) (view w')"
  unfolding proc_close_await_def Let_def
  apply (elim path)
  subgoal by (auto intro: evolves_same)
  subgoal for f w1
    using delay_close_view(2) [of p w1] ev_close_proc [of p "view w" cb]
    by (auto dest!: del_alike simp: alike_iff proc_def)
  subgoal by (auto intro: evolves_same)
  done

lemma proc_flush_evolves:
  assumes "proc_flush E p w = Some (w', r)" "p < m_fresh (ev_poller w)"
  shows "\<exists>l. evolves cb l (view w) (view w') \<and> (\<forall>ob. gain ob l = [])"
proof (cases "pending (ep_buf (proc p w)) = []")
  case True
  with assms have "w' = w" by (simp add: proc_flush_def)
  then show ?thesis using ev_refl by fastforce
next
  case False
  then obtain f w1 b where f: "flush_bytes (en_system E) (Proc_Object p) (f_fd (ev_files w f)) (pending (ep_buf (proc p w))) w = (w1, b, r)"
    and w': "w' = upd_proc p (\<lambda>x. x\<lparr>ep_buf := Some b\<rparr>) w1"
    using assms(1) unfolding proc_flush_def Let_def by (elim path) auto
  show ?thesis
    by (rule flushed_evolves [OF f]) (use assms(2) in \<open>simp_all add: w' view_proc_buf proc_def\<close>)
qed

lemma proc_write_evolves:
  assumes "proc_write E p prev data w = Some (w', r)" "p < m_fresh (ev_poller w)"
  shows "\<exists>l. evolves cb l (view w) (view w') \<and> (\<forall>ob. takes_over (Proc_Write_Data p prev data) r ob (gain ob l))"
proof (cases "pending (ep_buf (proc p w)) = []")
  case False
  then have w': "w' = upd_proc p (\<lambda>x. x\<lparr>ep_buf := Some (pending (ep_buf x) @ data)\<rparr>) w"
    using assms(1) by (simp add: proc_write_def)
  have "evolves cb [(Proc_Object p, data)] (view w) (view w')"
    using ev_keep [of "Proc_Object p" "view w" cb data] assms(2) by (simp add: w' view_proc_buf proc_def)
  then show ?thesis by (intro exI [of _ "[(Proc_Object p, data)]"]) simp
next
  case True
  let ?keep = "\<lambda>w1 bs. upd_proc p (\<lambda>x. x\<lparr>ep_buf := Some (pending (ep_buf x) @ bs)\<rparr>) w1"
  obtain f w1 q where out: "write_out (en_system E) (Proc_Object p) (f_fd (ev_files w f)) data w = (w1, q)"
    and cs: "written_path (proc_write_await E p) (?keep w1) w1 prev data q w' r"
    using assms(1) True unfolding proc_write_def Let_def written_path_def by (elim path) (auto split: if_splits)
  have "\<exists>l. evolves cb l (view w) (view w') \<and>
      (\<forall>ob. if ob = Proc_Object p then r = - 1 \<or> gain ob l = data else gain ob l = [])"
  proof (rule written_evolves [OF out _ _ cs])
    fix bs w2 ok assume "proc_write_await E p (?keep w1 bs) = Some (w2, ok)"
    then show "evolves cb [] (view (?keep w1 bs)) (view w2)" by (intro evolves_alike proc_await_alike(2))
  qed (use assms(2) True write_out_same [OF out] in \<open>simp_all add: view_proc_buf proc_def\<close>)
  then show ?thesis by simp
qed

lemma upd_server_view [simp]: "view (upd_server p g w) = view w"
  unfolding upd_server_def by (simp add: view_proc_same)

lemma server_open_same: "server_open E p ip port w = Some (w', b) \<Longrightarrow> view w' = view w"
  unfolding server_open_def Let_def
  by (elim path) (auto dest!: in_kernel_alike simp: alike_iff)

lemma server_accept_alike: "server_accept E p b w = Some (w', r) \<Longrightarrow> alike w w'"
  unfolding server_accept_def Let_def
  by (elim path) (auto dest!: in_kernel_alike split: sum.splits)

lemma server_accept_await_evolves:
  "server_accept_await E p w = Some (w', b) \<Longrightarrow> p < m_fresh (ev_poller w) \<Longrightarrow> evolves cb [] (view w) (view w')"
  unfolding server_accept_await_def
  by (elim path) (auto dest!: proc_await_alike(1) simp: alike_iff intro: evolves_same proc_bind_evolves)

lemma server_set_same [simp]:
  "view (server_set_on_accept p fn w) = view w" "view (server_set_on_error p fn w) = view w" "view (server_set_on_close p fn w) = view w"
  by (simp_all add: server_set_on_accept_def server_set_on_error_def server_set_on_close_def)

end

subsection \<open>Calls\<close>

text \<open>
  The rules of a program: it calls methods of objects that exist, connects a client only when its write
  timer is not running, adds no timer twice, and leaves \<open>set_closing\<close> to the classes.  What becomes of a program that does not keep
  them is told in \<open>Cpp_System\<close>.
\<close>

fun api_object :: "'h api \<Rightarrow> nat option" where
  "api_object (On_Connect c fn) = Some c"
| "api_object (On_Read c fn) = Some c"
| "api_object (On_Write c fn) = Some c"
| "api_object (On_Error c fn) = Some c"
| "api_object (On_Close c fn) = Some c"
| "api_object (Read_Disable c) = Some c"
| "api_object (Write_Disable c) = Some c"
| "api_object (Read_Write_Disable c) = Some c"
| "api_object (Connect_Await c ip port ms) = Some c"
| "api_object (Read_Await c ms) = Some c"
| "api_object (Write_Await c ms) = Some c"
| "api_object (Write_Data c b data ms) = Some c"
| "api_object (Close_Await c) = Some c"
| "api_object (Set_Closing c yes) = Some c"
| "api_object (Proc_Bind p fd) = Some p"
| "api_object (Proc_Read_Await p) = Some p"
| "api_object (Proc_Write_Await p) = Some p"
| "api_object (Proc_Read_Disable p) = Some p"
| "api_object (Proc_Write_Disable p) = Some p"
| "api_object (Proc_Connect_Await p) = Some p"
| "api_object (Proc_Write_Data p b data) = Some p"
| "api_object (Proc_Close_Await p) = Some p"
| "api_object (Proc_Set_Closing p) = Some p"
| "api_object (Server_Open p ip port) = Some p"
| "api_object (Server_Accept_Await p) = Some p"
| "api_object (Server_On_Accept p fn) = Some p"
| "api_object (Server_On_Error p fn) = Some p"
| "api_object (Server_On_Close p fn) = Some p"
| "api_object _ = None"

fun api_rule :: "'h api \<Rightarrow> ('h, 'k) world \<Rightarrow> bool" where
  "api_rule (Connect_Await c ip port ms) w \<longleftrightarrow> \<not> ct_waiting (need_timer (cs_write_timer (client c w)))"
| "api_rule (Add_Timer t ms) w \<longleftrightarrow> armed (m_timers (ev_poller w)) (User_Timer t) = None"
| "api_rule (Set_Closing c yes) w \<longleftrightarrow> False"
| "api_rule (Proc_Set_Closing p) w \<longleftrightarrow> False"
| "api_rule _ w \<longleftrightarrow> True"

definition fine :: "'h api \<Rightarrow> ('h, 'k) world \<Rightarrow> bool" where
  "fine c w \<longleftrightarrow> (case api_object c of None \<Rightarrow> True | Some a \<Rightarrow> a < m_fresh (ev_poller w)) \<and> api_rule c w"

fun fine_calls :: "('h, 'k) env \<Rightarrow> 'h api list \<Rightarrow> ('h, 'k) world \<Rightarrow> bool" where
  "fine_calls E [] w \<longleftrightarrow> True"
| "fine_calls E (c # cs) w \<longleftrightarrow> fine c w \<and> (case call E c w of None \<Rightarrow> True | Some w \<Rightarrow> fine_calls E cs w)"

text \<open>The same of what the user's functions call.\<close>

definition careful :: "('h, 'k) env \<Rightarrow> bool" where
  "careful E \<longleftrightarrow> (\<forall>fn n w. fine_calls E (fst (en_user E fn n w)) (happen (Told fn n) w))"

lemma returns_Some [simp]:
  "returns r = Some (w, x) \<longleftrightarrow> r = Some w \<and> x = 0"
  "returns_bool q = Some (w, x) \<longleftrightarrow> (\<exists>b. q = Some (w, b) \<and> x = of_bool b)"
  "returns_address a = Some (w, x) \<longleftrightarrow> (\<exists>n. a = (w, n) \<and> x = int n)"
  by (auto simp: returns_def returns_bool_def returns_address_def split: prod.splits)

context cpp_poller
begin

lemma none_taken: "evolves cb [] v v' \<Longrightarrow> (\<And>ob. takes_over c r ob []) \<Longrightarrow>
    \<exists>l. evolves cb l v v' \<and> (\<forall>ob. takes_over c r ob (gain ob l))"
  by (rule exI [of _ "[]"]) simp

lemma none_gained: "evolves cb [] v v' \<Longrightarrow> \<exists>l. evolves cb l v v' \<and> (\<forall>ob. gain ob l = [])"
  by (rule exI [of _ "[]"]) simp

lemma gained_moves: "\<exists>l. evolves cb l v v' \<and> (\<forall>ob. gain ob l = []) \<Longrightarrow> moves cb v v'"
  by (blast intro: mv_quiet)

lemma alike_moves: "alike w w1 \<Longrightarrow> moves cb (view w1) v \<Longrightarrow> moves cb (view w) v"
  by (simp add: alikeD(1))

lemma alike_moves_refl: "alike w w1 \<Longrightarrow> moves cb (view w) (view w1)"
  by (simp add: alikeD(1))

lemma view_user_timer:
  "armed (m_timers (ev_poller w)) (User_Timer t) = None \<Longrightarrow> evolves cb [] (view w) (view (event_add_timer (User_Timer t) ms w))"
  "evolves cb [] (view w) (view (event_del_timer (User_Timer t) w))"
  "evolves cb [] (view w) (view (event_reset_timer (User_Timer t) ms w))"
  unfolding view_event_timer
  using ev_add [of "view w"] ev_del [of cb "view w"] ev_reset [of cb "view w"] by simp_all

lemma do_api_evolves:
  assumes "do_api E c w = Some (w', r)" "fine c w"
  shows "\<exists>l. evolves cb l (view w) (view w') \<and> (\<forall>ob. takes_over c r ob (gain ob l))"
proof -
  note m = client_disable_evolves client_read_await_evolves client_write_await_evolves client_connect_await_evolves
    client_close_await_evolves client_new_evolves(1) client_open_evolves proc_new_evolves proc_open_evolves proc_bind_evolves(1)
    proc_close_await_evolves server_accept_await_evolves view_user_timer
  note a = proc_await_alike [THEN evolves_alike] evolves_same [OF server_open_same]
  show ?thesis
  proof (cases c)
    case (Write_Data c b data ms)
    then show ?thesis using assms client_write_evolves by (simp add: fine_def)
  next
    case (Proc_Write_Data p b data)
    then show ?thesis using assms proc_write_evolves by (simp add: fine_def)
  qed (use assms in \<open>auto simp: fine_def intro!: none_taken none_gained intro: m a evolves_same ev_refl\<close>)
qed

lemma close_await_marks:
  "client_close_await E c w = Some w' \<Longrightarrow> cs_closing (client c w')"
  "proc_close_await E p w = Some w' \<Longrightarrow> ep_ev (proc p w) \<Longrightarrow> ep_closing (proc p w')"
  by (auto simp: client_close_await_def proc_close_await_def elim!: bind_Some split: if_splits)

lemma do_api_asks:
  assumes "do_api E c w = Some (w', r)" "asks c = Some ob" "can_close (view w) ob"
  shows "v_closing (view w') ob"
  using assms
proof (cases c)
  case (Close_Await d)
  with assms close_await_marks(1) [of d w w'] show ?thesis by (auto simp: view_client(3) simp del: view_fields)
next
  case (Proc_Close_Await p)
  with assms close_await_marks(2) [of p w w'] show ?thesis by (auto simp: view_client(4,7) simp del: view_fields)
qed simp_all

lemma proc_bind_bound: "ep_ev (proc p (proc_bind p fd w))"
proof -
  obtain w2 f where w2: "nio_file_alloc fd (upd_proc p (\<lambda>x. x\<lparr>ep_ev := True\<rparr>) w) = (w2, f)" by fastforce
  then show ?thesis using file_alloc(3) [OF w2, of p] by (simp add: proc_bind_def set_ctx)
qed

lemma proc_open_bound:
  assumes "proc_open cls fd w = (w', p)" shows "ep_ev (proc p w')"
proof -
  obtain w1 w2 f where w: "proc_new cls w = (w1, p)" "nio_file_alloc fd (upd_proc p (\<lambda>x. x\<lparr>ep_ev := True\<rparr>) w1) = (w2, f)"
    "w' = nio_file_set_ctx f (Proc_Object p) (upd_proc p (\<lambda>x. x\<lparr>ep_fe := Some f\<rparr>) w2)"
    using assms unfolding proc_open_def Let_def by (auto split: prod.splits)
  then show ?thesis using file_alloc(3) [OF w(2), of p] by (simp add: set_ctx)
qed

lemma accept_await_bound: "server_accept_await E p w = Some (w', True) \<Longrightarrow> ep_ev (proc p w')"
  unfolding server_accept_await_def
  by (elim path) (auto dest!: proc_await_alike(1) simp: alike_iff proc_bind_bound)

lemma do_api_binds:
  assumes "do_api E c w = Some (w', r)" "binds ob (Called c r)"
  shows "can_close (view w') ob"
proof (cases ob)
  case (Proc_Object p)
  with assms show ?thesis
    by (cases c) (auto simp: view_client(7) proc_bind_bound proc_open_bound accept_await_bound simp del: view_fields)
qed simp

lemma call_moves:
  assumes "call E c w = Some w'" "fine c w"
  shows "moves cb (view w) (view w')"
proof -
  obtain w1 r where w1: "do_api E c w = Some (w1, r)" "w' = happen (Called c r) w1" using assms(1) by (auto simp: call_def)
  from do_api_evolves [OF w1(1) assms(2)] obtain l where "evolves cb l (view w) (view w1)" "\<And>ob. takes_over c r ob (gain ob l)"
    by blast
  then show ?thesis
    unfolding w1(2) view_happen using do_api_asks [OF w1(1)] do_api_binds [OF w1(1)] by (rule mv_call)
qed

lemma calls_moves: "calls E cs w = Some w' \<Longrightarrow> fine_calls E cs w \<Longrightarrow> moves cb (view w) (view w')"
proof (induction cs arbitrary: w)
  case (Cons c cs)
  then obtain w1 where w1: "call E c w = Some w1" "calls E cs w1 = Some w'" by (auto simp: bind_eq_Some_conv)
  with Cons.prems have "fine c w" "fine_calls E cs w1" by simp_all
  with w1 Cons.IH show ?case by (blast intro: mv_trans call_moves)
qed simp

lemma tell_moves:
  assumes "careful E" "tell E fn n w = Some (w', b)"
  shows "moves cb (view w) (view w')"
proof -
  have "calls E (fst (en_user E fn n w)) (happen (Told fn n) w) = Some w'"
    using assms(2) by (auto simp: tell_def split: prod.splits)
  from calls_moves [OF this] assms(1) have "moves cb (view (happen (Told fn n) w)) (view w')" by (simp add: careful_def)
  moreover have "moves cb (view w) (view (happen (Told fn n) w))"
    unfolding view_happen by (rule moves_evolves [OF ev_told])
  ultimately show ?thesis by (rule mv_trans [rotated])
qed

lemma tell_fst_moves: "careful E \<Longrightarrow> map_option fst (tell E fn n w) = Some w' \<Longrightarrow> moves cb (view w) (view w')"
  by (auto intro: tell_moves)

lemma tell_if_moves: "careful E \<Longrightarrow> tell_if E fn n w = Some w' \<Longrightarrow> moves cb (view w) (view w')"
  by (auto simp: tell_if_def split: option.splits intro: tell_moves)

subsection \<open>Callbacks\<close>

lemma flags_view [simp]: "view (upd_client c (\<lambda>x. x\<lparr>cs_flags := g x\<rparr>) w) = view w"
  by (simp add: view_client_same)

lemma stop_timer_moves:
  "moves True (view w) (view (stop_read_timer c w))" "moves True (view w) (view (stop_write_timer c w))"
  using ev_stop [of "Read_Timer c" True "view w"] ev_stop [of "Write_Timer c" True "view w"]
  by (auto simp: stop_read_timer_def stop_write_timer_def view_read_timer view_write_timer view_event_timer intro: moves_evolves)

lemma client_ofD: "client_of f w = Some c \<Longrightarrow> known (view w) \<Longrightarrow> c < m_fresh (ev_poller w)"
  by (fastforce simp: client_of_def known_def split: option.splits owner.splits)

lemma proc_of_fileD: "proc_of_file f w = Some p \<Longrightarrow> known (view w) \<Longrightarrow> p < m_fresh (ev_poller w)"
  by (fastforce simp: proc_of_file_def known_def split: option.splits owner.splits)

lemma stop_timer_fresh [simp]:
  "m_fresh (ev_poller (stop_read_timer c w)) = m_fresh (ev_poller w)" "m_fresh (ev_poller (stop_write_timer c w)) = m_fresh (ev_poller w)"
  by (simp_all add: stop_read_timer_def stop_write_timer_def)

lemma client_read_callback_moves:
  assumes "careful E" "client_read_callback E f w = Some w'"
  shows "moves True (view w) (view w')"
proof -
  obtain c where c: "client_of f w = Some c" using assms(2) by (auto simp: client_read_callback_def bind_eq_Some_conv)
  let ?w1 = "stop_read_timer c (upd_client c (\<lambda>x. x\<lparr>cs_flags := cs_flags x AND NOT client_f_rtimer\<rparr>) w)"
  have s: "moves True (view w) (view ?w1)" using stop_timer_moves(1) [of "upd_client c (\<lambda>x. x\<lparr>cs_flags := cs_flags x AND NOT client_f_rtimer\<rparr>) w" c] by simp
  have "tell_if E (cs_on_read (client c ?w1)) (Readable (f_fd (ev_files ?w1 f)) False) ?w1 = Some w'"
    using assms(2) by (simp add: client_read_callback_def Let_def c)
  from mv_trans [OF s tell_if_moves [OF assms(1) this]] show ?thesis .
qed

lemma client_write_callback_moves:
  assumes "careful E" "known (view w)" "client_write_callback E f w = Some w'"
  shows "moves True (view w) (view w')"
proof -
  obtain c where c: "client_of f w = Some c" using assms(3) by (auto simp: client_write_callback_def bind_eq_Some_conv)
  let ?w1 = "stop_write_timer c (upd_client c (\<lambda>x. x\<lparr>cs_flags := cs_flags x AND NOT client_f_wtimer\<rparr>) w)"
  have s: "moves True (view w) (view ?w1)" using stop_timer_moves(2) [of "upd_client c (\<lambda>x. x\<lparr>cs_flags := cs_flags x AND NOT client_f_wtimer\<rparr>) w" c] by simp
  have f: "moves True (view w) (view w2)" if "client_flush E c ?w1 = Some (w2, r)" for w2 r
    using gained_moves [OF client_flush_evolves [OF that]] client_ofD [OF c assms(2)] by (auto intro: mv_trans [OF s])
  show ?thesis
    using assms(3) unfolding client_write_callback_def Let_def c bind.simps
    apply (elim path)
    subgoal by (drule f, erule mv_trans, erule tell_if_moves [OF assms(1)])
    subgoal by (drule f) simp
    subgoal by (drule f, erule mv_trans, erule tell_if_moves [OF assms(1)])
    subgoal by (rule mv_trans [OF s], erule tell_if_moves [OF assms(1)])
    done
qed

lemma client_connect_callback_moves:
  assumes "careful E" "client_connect_callback E f w = Some w'"
  shows "moves True (view w) (view w')"
proof -
  obtain c where c: "client_of f w = Some c" using assms(2) by (auto simp: client_connect_callback_def bind_eq_Some_conv)
  let ?w0 = "upd_client c (\<lambda>x. x\<lparr>cs_flags := cs_flags x AND NOT client_f_wtimer\<rparr>) w"
  let ?w1 = "if ct_connecting (need_timer (cs_write_timer (client c ?w0)))
     then event_del_timer (Write_Timer c) (upd_write_timer c (\<lambda>t. t\<lparr>ct_waiting := False, ct_connecting := False\<rparr>) ?w0) else ?w0"
  have s: "moves True (view w) (view ?w1)"
    using ev_stop [of "Write_Timer c" True "view w"]
    by (auto simp: view_write_timer view_event_timer timer_commute intro: moves_evolves)
  have a: "moves True (view w) (view w2)" if "in_kernel g ?w1 = (w2, r)" for g :: "'k \<Rightarrow> 'k \<times> 'r" and w2 r
    using in_kernel_alike [OF that] s by (simp add: alike_iff)
  have d: "moves True (view w2) (view w3)" if "alike w2 w3" for w2 w3 using that by (simp add: alike_iff)
  show ?thesis
    using assms(2) unfolding client_connect_callback_def Let_def c bind.simps
    by (elim path) (drule a, drule del_alike, drule d, drule (1) mv_trans, drule tell_fst_moves [OF assms(1)], erule (1) mv_trans)+
qed

lemma server_on_read_moves: "careful E \<Longrightarrow> server_on_read E p s w = Some w' \<Longrightarrow> moves True (view w) (view w')"
  unfolding server_on_read_def
  apply (elim path)
  subgoal by (drule server_accept_alike, erule alike_moves, erule (1) tell_if_moves)
  subgoal by (drule server_accept_alike) (auto intro: alike_moves_refl)
  subgoal by (drule server_accept_alike, erule alike_moves, erule (1) tell_if_moves)
  done

lemma proc_virtual_moves:
  assumes "careful E"
  shows "proc_on_read E p w = Some w' \<Longrightarrow> moves True (view w) (view w')"
    "proc_on_write E p w = Some w' \<Longrightarrow> moves True (view w) (view w')"
    "proc_on_connect E p ok w = Some w' \<Longrightarrow> moves True (view w) (view w')"
    "p < m_fresh (ev_poller w) \<Longrightarrow> proc_on_error E p w = Some w' \<Longrightarrow> moves True (view w) (view w')"
    "proc_on_close E p w = Some w' \<Longrightarrow> moves True (view (happen (Closing (Proc_Object p)) w)) (view w')"
  unfolding proc_on_read_def proc_on_write_def proc_on_connect_def proc_on_error_def proc_on_close_def server_on_close_def Let_def
  using assms
  by (auto split: proc_class.splits intro: server_on_read_moves tell_moves tell_if_moves proc_close_await_evolves moves_evolves)

lemma proc_write_proc_moves:
  assumes "careful E" "known (view w)" "proc_write_proc E f w = Some w'"
  shows "moves True (view w) (view w')"
proof -
  obtain p where p: "proc_of_file f w = Some p" using assms(3) by (auto simp: proc_write_proc_def bind_eq_Some_conv)
  note pf = proc_of_fileD [OF p assms(2)]
  have f: "moves True (view w) (view w2) \<and> p < m_fresh (ev_poller w2)" if "proc_flush E p w = Some (w2, r)" for w2 r
  proof -
    have m: "moves True (view w) (view w2)" by (rule gained_moves [OF proc_flush_evolves [OF that pf]])
    then show ?thesis using pf moves_fresh [OF m] by simp
  qed
  show ?thesis
    using assms(3) unfolding proc_write_proc_def p bind.simps
    by (elim path) (auto dest!: f intro: mv_trans proc_virtual_moves [OF assms(1)])
qed

lemma proc_connect_proc_moves: "careful E \<Longrightarrow> proc_connect_proc E f w = Some w' \<Longrightarrow> moves True (view w) (view w')"
  unfolding proc_connect_proc_def Let_def
  by (elim path, drule proc_await_alike, drule in_kernel_alike, drule (1) alike_trans, erule alike_moves, erule (1) proc_virtual_moves)

lemma run_callback_moves:
  "careful E \<Longrightarrow> known (view w) \<Longrightarrow> run_callback E p f w = Some w' \<Longrightarrow> moves True (view w) (view w')"
  by (cases p) (auto simp: proc_read_proc_def bind_eq_Some_conv intro: client_read_callback_moves client_write_callback_moves
    client_connect_callback_moves proc_write_proc_moves proc_connect_proc_moves proc_virtual_moves)

end

end
