(* ===== verification/Cpp_Program.thy ===== *)
theory Cpp_Program
  imports Cpp_Moves
begin

text \<open>
  Programs over the C++ classes: any calls of methods, and \<open>nio_event::wait\<close> in between.  The promises of
  the classes hold all along.
\<close>

subsection \<open>Closing\<close>

lemma closing_proc:
  assumes "closes_ok i j (view w)" "i < length (m_procs_free (ev_poller w))" "p = m_procs_free (ev_poller w) ! i"
  shows "closes_ok (Suc i) j (view (happen (Closing (Proc_Object p)) w))"
proof (rule closes_okI)
  note d = closes_okD [OF assms(1)]
  have l: "drop i (m_procs_free (ev_poller w)) = p # drop (Suc i) (m_procs_free (ev_poller w))"
    using assms(2,3) by (simp add: Cons_nth_drop_Suc)
  fix ob show "count_list (v_trace (view (happen (Closing (Proc_Object p)) w))) (Closing ob) +
      to_close (Suc i) j (view (happen (Closing (Proc_Object p)) w)) ob = of_bool (v_closing (view (happen (Closing (Proc_Object p)) w)) ob)"
    using d(3) [of ob] l by (cases ob; cases "v_closing (view w) ob") (simp_all split: if_splits)
qed (use assms closes_okD [OF assms(1)] in \<open>simp_all\<close>)

lemma closing_client:
  assumes "closes_ok i j (view w)" "j < length (m_clients_free (ev_poller w))" "c = m_clients_free (ev_poller w) ! j"
  shows "closes_ok i (Suc j) (view (happen (Closing (Client_Object c)) w))"
proof (rule closes_okI)
  note d = closes_okD [OF assms(1)]
  have l: "drop j (m_clients_free (ev_poller w)) = c # drop (Suc j) (m_clients_free (ev_poller w))"
    using assms(2,3) by (simp add: Cons_nth_drop_Suc)
  fix ob show "count_list (v_trace (view (happen (Closing (Client_Object c)) w))) (Closing ob) +
      to_close i (Suc j) (view (happen (Closing (Client_Object c)) w)) ob = of_bool (v_closing (view (happen (Closing (Client_Object c)) w)) ob)"
    using d(3) [of ob] l by (cases ob; cases "v_closing (view w) ob") (simp_all split: if_splits)
qed (use assms closes_okD [OF assms(1)] in \<open>simp_all\<close>)

text \<open>Closing an object is no move for the rest of what is promised.\<close>

definition rest_ok :: "'h view \<Rightarrow> bool" where
  "rest_ok v \<longleftrightarrow> known v \<and> timers_ok {} v \<and> shut_ok v \<and> asked_ok v \<and> stream_ok v"

lemma rest_closing: "rest_ok (view w) \<Longrightarrow> rest_ok (view (happen (Closing ob) w))"
  by (auto simp: rest_ok_def known_def timers_ok_def asked_ok_def stream_ok_def shut_ok_def times_shut_def times_closed_def view_happen intro: le_SucI)

text \<open>Nor is closing its descriptor, which the object must allow for.\<close>

lemma rest_shut:
  assumes "rest_ok v" "times_shut v ob < times_closed v ob"
  shows "rest_ok (v\<lparr>v_trace := v_trace v @ [Shut ob fd]\<rparr>)"
  using assms by (auto simp: rest_ok_def known_def timers_ok_def asked_ok_def stream_ok_def shut_ok_def times_shut_def times_closed_def Suc_le_eq)

lemma closes_shut: "closes_ok i j (v\<lparr>v_trace := v_trace v @ [Shut ob fd]\<rparr>) = closes_ok i j v"
  by (simp add: closes_ok_def)

lemma moves_rest: "moves cb v v' \<Longrightarrow> closes_ok i j v \<Longrightarrow> rest_ok v \<Longrightarrow> rest_ok v'"
  by (auto simp: rest_ok_def intro: moves_known moves_timers moves_shut_ok moves_asked moves_stream)

context cpp_poller
begin

lemma client_shut_view: "view (client_shut E c fd w) = (view w)\<lparr>v_trace := v_trace (view w) @ [Shut (Client_Object c) fd]\<rparr>"
  by (simp only: client_shut_def view_happen kernel_do_fields)

lemma client_close_moves:
  assumes "careful E" "client_close E c w = Some w'"
  obtains (moved) "moves True (view (happen (Closing (Client_Object c)) w)) (view w')"
    | (shut) v fd where "moves True (view (happen (Closing (Client_Object c)) w)) v" "view w' = v\<lparr>v_trace := v_trace v @ [Shut (Client_Object c) fd]\<rparr>"
proof -
  let ?w0 = "happen (Closing (Client_Object c)) w"
  let ?w1 = "stop_write_timer c (stop_read_timer c ?w0)"
  have s: "moves True (view ?w0) (view ?w1)"
    using mv_trans [OF stop_timer_moves(1) [of ?w0 c] stop_timer_moves(2)] .
  have t: "moves True (view ?w1) (view w2) \<Longrightarrow> moves True (view ?w0) (view w2)" for w2 using mv_trans [OF s] .
  have "moves True (view ?w1) (view w') \<or> (\<exists>w2 fd. moves True (view ?w1) (view w2) \<and> w' = client_shut E c fd w2)"
    using assms(2) unfolding client_close_def Let_def
    by (auto split: option.splits if_splits simp: bind_eq_Some_conv
        intro: tell_if_moves [OF assms(1)] tell_moves [OF assms(1)] moves_refl simp del: view_fields)
  with t that client_shut_view show thesis by blast
qed

text \<open>One turn of a loop, and what holds after all of them.\<close>

definition kept :: "('h, 'k) world \<Rightarrow> ('h, 'k) world \<Rightarrow> bool" where
  "kept w w' \<longleftrightarrow> rest_ok (view w') \<and> (\<forall>ob. v_closing (view w) ob \<longrightarrow> v_closing (view w') ob) \<and>
     (\<forall>ob. times_closed (view w) ob \<le> times_closed (view w') ob)"

lemma close_proc_turn:
  assumes "careful E" "closes_ok i j (view w)" "rest_ok (view w)" "i < length (m_procs_free (ev_poller w))"
    "proc_on_close E (m_procs_free (ev_poller w) ! i) w = Some w'"
  shows "closes_ok (Suc i) j (view w') \<and> kept w w'"
proof -
  let ?w = "happen (Closing (Proc_Object (m_procs_free (ev_poller w) ! i))) w"
  have c: "closes_ok (Suc i) j (view ?w)" using assms(2,4) by (rule closing_proc) simp
  have m: "moves True (view ?w) (view w')" using assms(1,5) by (rule proc_virtual_moves)
  have n: "times_closed (view w) ob \<le> times_closed (view w') ob" for ob
    using moves_closed [OF m, of ob] by (simp add: times_closed_def)
  show ?thesis
    using moves_closes [OF m c] moves_rest [OF m c rest_closing [OF assms(3)]] moves_closing [OF m c] n by (simp add: kept_def)
qed

lemma close_client_turn:
  assumes "careful E" "closes_ok i j (view w)" "rest_ok (view w)" "j < length (m_clients_free (ev_poller w))"
    "client_close E (m_clients_free (ev_poller w) ! j) w = Some w'"
  shows "closes_ok i (Suc j) (view w') \<and> kept w w'"
proof -
  let ?ob = "Client_Object (m_clients_free (ev_poller w) ! j)"
  let ?w = "happen (Closing ?ob) w"
  have c: "closes_ok i (Suc j) (view ?w)" using assms(2,4) by (rule closing_client) simp
  have m: "closes_ok i (Suc j) v" "rest_ok v" "v_closing (view w) ob \<Longrightarrow> v_closing v ob" "times_closed (view w) ob \<le> times_closed v ob"
    "times_shut v ?ob < times_closed v ?ob" if "moves True (view ?w) v" for v ob
    using moves_closes [OF that c] moves_rest [OF that c rest_closing [OF assms(3)]] moves_closing [OF that c, of ob]
      moves_closed [OF that, of ob] moves_closed [OF that, of ?ob] moves_shut [OF that, of ?ob] assms(3)
    by (simp_all add: times_closed_def times_shut_def rest_ok_def shut_ok_def le_imp_less_Suc)
  from assms(1,5) show ?thesis
  proof (cases rule: client_close_moves)
    case moved
    from m [OF moved] show ?thesis by (simp add: kept_def)
  next
    case (shut v fd)
    have "times_closed (view w') ob = times_closed v ob" for ob by (simp add: shut(2) times_closed_def)
    with m [OF shut(1)] show ?thesis by (simp add: kept_def shut(2) closes_shut rest_shut del: view_fields)
  qed
qed

lemma close_procs_ok:
  assumes "careful E" "close_procs E i w = Some w'" "closes_ok i 0 (view w)" "rest_ok (view w)"
  shows "closes_ok (length (m_procs_free (ev_poller w'))) 0 (view w') \<and> kept w w'"
proof -
  have "careful F \<longrightarrow> closes_ok i 0 (view w) \<longrightarrow> rest_ok (view w) \<longrightarrow> F = E \<longrightarrow>
    closes_ok (length (m_procs_free (ev_poller w'))) 0 (view w') \<and> kept w w'" if "close_procs F i w = Some w'" for F i and w w' :: "('h, 'k) world"
  proof (rule close_procs.raw_induct [where P = "\<lambda>F i w w'. careful F \<longrightarrow> closes_ok i 0 (view w) \<longrightarrow> rest_ok (view w) \<longrightarrow> F = E \<longrightarrow>
      closes_ok (length (m_procs_free (ev_poller w'))) 0 (view w') \<and> kept w w'", OF _ that], intro impI)
    fix step F i and w w' :: "('h, 'k) world"
    assume ih: "\<And>F i w w'. step F i w = Some w' \<Longrightarrow> careful F \<longrightarrow> closes_ok i 0 (view w) \<longrightarrow> rest_ok (view w) \<longrightarrow> F = E \<longrightarrow>
        closes_ok (length (m_procs_free (ev_poller w'))) 0 (view w') \<and> kept w w'"
      and s: "(if i < length (m_procs_free (ev_poller w))
        then let p = m_procs_free (ev_poller w) ! i
             in Option.bind (proc_on_close F p w) (step F (i + 1))
        else Some w) = Some w'"
      and a: "careful F" "closes_ok i 0 (view w)" "rest_ok (view w)" "F = E"
    show "closes_ok (length (m_procs_free (ev_poller w'))) 0 (view w') \<and> kept w w'"
    proof (cases "i < length (m_procs_free (ev_poller w))")
      case True
      with s obtain w1 where w1: "step F (Suc i) w1 = Some w'"
        "proc_on_close E (m_procs_free (ev_poller w) ! i) w = Some w1"
        by (auto simp: Let_def bind_eq_Some_conv a(4))
      from close_proc_turn [OF _ a(2,3) True w1(2)] a(1,4) ih [OF w1(1)] show ?thesis by (auto simp: kept_def times_closed_def moves_closed intro: order_trans)
    next
      case False
      with s a(2,3) closes_okD(1) [OF a(2)] show ?thesis by (auto simp: kept_def times_closed_def moves_closed intro: order_trans)
    qed
  qed
  with assms show ?thesis by blast
qed

lemma close_clients_ok:
  assumes "careful E" "close_clients E i w = Some w'" "closes_ok 0 i (view w)" "rest_ok (view w)"
  shows "closes_ok 0 (length (m_clients_free (ev_poller w'))) (view w') \<and> kept w w'"
proof -
  have "careful F \<longrightarrow> closes_ok 0 i (view w) \<longrightarrow> rest_ok (view w) \<longrightarrow> F = E \<longrightarrow>
    closes_ok 0 (length (m_clients_free (ev_poller w'))) (view w') \<and> kept w w'" if "close_clients F i w = Some w'" for F i and w w' :: "('h, 'k) world"
  proof (rule close_clients.raw_induct [where P = "\<lambda>F i w w'. careful F \<longrightarrow> closes_ok 0 i (view w) \<longrightarrow> rest_ok (view w) \<longrightarrow> F = E \<longrightarrow>
      closes_ok 0 (length (m_clients_free (ev_poller w'))) (view w') \<and> kept w w'", OF _ that], intro impI)
    fix step F i and w w' :: "('h, 'k) world"
    assume ih: "\<And>F i w w'. step F i w = Some w' \<Longrightarrow> careful F \<longrightarrow> closes_ok 0 i (view w) \<longrightarrow> rest_ok (view w) \<longrightarrow> F = E \<longrightarrow>
        closes_ok 0 (length (m_clients_free (ev_poller w'))) (view w') \<and> kept w w'"
      and s: "(if i < length (m_clients_free (ev_poller w))
        then let c = m_clients_free (ev_poller w) ! i
             in Option.bind (client_close F c w) (step F (i + 1))
        else Some w) = Some w'"
      and a: "careful F" "closes_ok 0 i (view w)" "rest_ok (view w)" "F = E"
    show "closes_ok 0 (length (m_clients_free (ev_poller w'))) (view w') \<and> kept w w'"
    proof (cases "i < length (m_clients_free (ev_poller w))")
      case True
      with s obtain w1 where w1: "step F (Suc i) w1 = Some w'"
        "client_close E (m_clients_free (ev_poller w) ! i) w = Some w1"
        by (auto simp: Let_def bind_eq_Some_conv a(4))
      from close_client_turn [OF _ a(2,3) True w1(2)] a(1,4) ih [OF w1(1)] show ?thesis by (auto simp: kept_def times_closed_def moves_closed intro: order_trans)
    next
      case False
      with s a(2,3) closes_okD(2) [OF a(2)] show ?thesis by (auto simp: kept_def times_closed_def moves_closed intro: order_trans)
    qed
  qed
  with assms show ?thesis by blast
qed

text \<open>With the lists emptied, every object that had been asked to close before has been closed once.\<close>

lemma to_close_end:
  "closes_ok (length (v_procs_free v)) 0 v \<Longrightarrow> v_closing v (Proc_Object p) \<Longrightarrow> times_closed v (Proc_Object p) = 1"
  "closes_ok 0 (length (v_clients_free v)) v \<Longrightarrow> v_closing v (Client_Object c) \<Longrightarrow> times_closed v (Client_Object c) = 1"
  using closes_okD(3) [of _ _ v "Proc_Object p"] closes_okD(3) [of _ _ v "Client_Object c"] by (fastforce simp: times_closed_def)+

lemma to_close_empty:
  assumes "closes_ok (length (v_procs_free v)) 0 v" shows "closes_ok 0 0 (v\<lparr>v_procs_free := []\<rparr>)"
proof (rule closes_okI)
  fix ob show "count_list (v_trace (v\<lparr>v_procs_free := []\<rparr>)) (Closing ob) + to_close 0 0 (v\<lparr>v_procs_free := []\<rparr>) ob =
      of_bool (v_closing (v\<lparr>v_procs_free := []\<rparr>) ob)"
    using closes_okD(3) [OF assms, of ob] by (cases ob) simp_all
qed (use closes_okD [OF assms] in simp_all)

lemma to_close_empty_clients:
  assumes "closes_ok 0 (length (v_clients_free v)) v" shows "closes_ok 0 0 (v\<lparr>v_clients_free := []\<rparr>)"
proof (rule closes_okI)
  fix ob show "count_list (v_trace (v\<lparr>v_clients_free := []\<rparr>)) (Closing ob) + to_close 0 0 (v\<lparr>v_clients_free := []\<rparr>) ob =
      of_bool (v_closing (v\<lparr>v_clients_free := []\<rparr>) ob)"
    using closes_okD(3) [OF assms, of ob] by (cases ob) simp_all
qed (use closes_okD [OF assms] in simp_all)

lemma times_closed_le: "closes_ok i j v \<Longrightarrow> times_closed v ob \<le> 1"
  using closes_okD(3) [of i j v ob] by (simp add: times_closed_def of_bool_def split: if_splits)

lemma rest_free:
  "rest_ok (v\<lparr>v_procs_free := ps\<rparr>) = rest_ok v" "rest_ok (v\<lparr>v_clients_free := cs\<rparr>) = rest_ok v"
  by (auto simp: rest_ok_def known_def timers_ok_def asked_ok_def stream_ok_def shut_ok_def times_shut_def times_closed_def)

lemma sound_rest: "sound v \<longleftrightarrow> closes_ok 0 0 v \<and> rest_ok v"
  by (auto simp: sound_def rest_ok_def)

lemma before_wait_ok:
  assumes "careful E" "before_wait E w = Some w'" "sound (view w)"
  shows "sound (view w')" "kept w w'" "v_closing (view w) ob \<Longrightarrow> times_closed (view w') ob = 1"
proof -
  let ?clear = "upd_poller (\<lambda>m. m\<lparr>m_procs_free := []\<rparr>)"
  obtain w1 w2 where w: "close_procs E 0 w = Some w1" "close_clients E 0 (?clear w1) = Some w2"
    "w' = upd_poller (\<lambda>m. m\<lparr>m_clients_free := []\<rparr>) w2"
    using assms(2) by (auto simp: before_wait_def bind_eq_Some_conv)
  from close_procs_ok [OF assms(1) w(1)] assms(3)
  have c1: "closes_ok (length (m_procs_free (ev_poller w1))) 0 (view w1)" and k1: "kept w w1" by (simp_all add: sound_rest)
  have v1: "view (?clear w1) = (view w1)\<lparr>v_procs_free := []\<rparr>" by (simp add: view_poller)
  have r1: "closes_ok 0 0 (view (?clear w1))" "rest_ok (view (?clear w1))"
    using to_close_empty [of "view w1"] c1 k1 by (simp_all only: v1 view_fields kept_def rest_free)
  from close_clients_ok [OF assms(1) w(2) r1]
  have c2: "closes_ok 0 (length (m_clients_free (ev_poller w2))) (view w2)" and k2: "kept (?clear w1) w2" by simp_all
  have v2: "view w' = (view w2)\<lparr>v_clients_free := []\<rparr>" by (simp add: view_poller w(3))
  have cl: "times_closed (view (?clear w1)) = times_closed (view w1)" "times_closed (view w') = times_closed (view w2)"
      "v_closing (view (?clear w1)) = v_closing (view w1)" "v_closing (view w') = v_closing (view w2)"
    unfolding v1 v2 by (simp_all add: times_closed_def fun_eq_iff)
  have s: "closes_ok 0 0 (view w')" using to_close_empty_clients [of "view w2"] c2 by (simp only: v2 view_fields)
  with k2 show "sound (view w')" by (simp only: sound_rest v2 rest_free kept_def)
  show "kept w w'"
    using k1 k2 unfolding kept_def cl by (simp only: v2 rest_free) (blast intro: order_trans)
  assume ob: "v_closing (view w) ob"
  have le: "times_closed (view w') ob \<le> 1" by (rule times_closed_le [OF s])
  show "times_closed (view w') ob = 1"
  proof (cases ob)
    case (Proc_Object p)
    with to_close_end(1) [of "view w1" p] c1 k1 ob have "times_closed (view w1) ob = 1" by (simp only: view_fields kept_def)
    with k2 le show ?thesis unfolding kept_def cl by (metis le_antisym)
  next
    case (Client_Object c)
    with to_close_end(2) [of "view w2" c] c2 k1 k2 ob show ?thesis unfolding kept_def cl by (simp only: view_fields)
  qed
qed

subsection \<open>Timers\<close>

text \<open>A timer that has been taken out of the queue is no longer believed to be running when its function is called.\<close>

abbreviation rung :: "timer_id \<Rightarrow> 'h view \<Rightarrow> 'h view" where
  "rung t v \<equiv> v\<lparr>v_wait := (v_wait v)(t := False)\<rparr>"

lemma rung_user: "rung (User_Timer t) (view w) = view w"
  by (simp add: fun_upd_idem)

lemma tell_file_moves:
  assumes "careful E"
    "(case fn of None \<Rightarrow> Some w | Some fn \<Rightarrow> Option.bind g (\<lambda>f. map_option fst (tell E fn (n f) w))) = Some w'"
  shows "moves cb (view w) (view w')"
  using assms(2) by (auto split: option.splits elim!: bind_Some intro: tell_moves [OF assms(1)])

lemma client_on_read_timer_moves:
  assumes "careful E" "client_on_read_timer E c w = Some w'"
  shows "moves False (rung (Read_Timer c) (view w)) (view w')"
proof -
  have "moves False (view (upd_client c (\<lambda>x. x\<lparr>cs_flags := cs_flags x OR client_f_rtimer\<rparr>)
      (upd_read_timer c (\<lambda>t. t\<lparr>ct_waiting := False\<rparr>) w))) (view w')"
    using assms(2) unfolding client_on_read_timer_def Let_def
    apply (elim bind_Some)
    apply (drule tell_file_moves [OF assms(1)])
    apply (auto simp del: view_fields)
    done
  then show ?thesis by (simp add: view_read_timer del: view_fields)
qed

lemma client_on_write_timer_moves:
  assumes "careful E" "client_on_write_timer E c w = Some w'"
  shows "moves False (rung (Write_Timer c) (view w)) (view w')"
proof -
  let ?w1 = "upd_client c (\<lambda>x. x\<lparr>cs_flags := cs_flags x OR client_f_wtimer\<rparr>) (upd_write_timer c (\<lambda>t. t\<lparr>ct_waiting := False\<rparr>) w)"
  let ?w2 = "upd_write_timer c (\<lambda>t. t\<lparr>ct_connecting := False\<rparr>) ?w1"
  have v2: "view ?w2 = view ?w1"
    unfolding view_write_timer [of c _ ?w1] by (simp add: fun_upd_idem view_client del: view_fields)
  have "moves False (view ?w1) (view w')"
    using assms(2) unfolding client_on_write_timer_def Let_def
    apply (elim bind_Some if_Some)
    subgoal by (drule tell_file_moves [OF assms(1), where cb = False], unfold v2, drule sym [of "Some _"]) (simp del: view_fields)
    subgoal by (drule tell_file_moves [OF assms(1), where cb = False], drule sym [of "Some _"]) (simp del: view_fields)
    done
  then show ?thesis by (simp add: view_write_timer del: view_fields)
qed

lemma on_timer_moves:
  assumes "careful E" "on_timer E t w = Some w'"
  shows "moves False (rung t (view w)) (view w')"
proof (cases t)
  case (User_Timer u)
  with assms show ?thesis by (auto simp: rung_user simp del: view_fields fun_upd_apply intro: tell_moves)
qed (use assms client_on_read_timer_moves client_on_write_timer_moves in auto)

lemma running_rung:
  assumes "running_ok (insert t T) q wt n" "t \<notin> T"
  shows "running_ok T q (wt(t := False)) n"
  using assms by (auto simp: running_ok_def)

text \<open>What a step keeps of all that is promised: nothing is lost, and closing is for good.\<close>

definition grows :: "('h, 'k) world \<Rightarrow> ('h, 'k) world \<Rightarrow> bool" where
  "grows w w' \<longleftrightarrow> (sound (view w) \<longrightarrow> sound (view w') \<and>
     (\<forall>ob. v_closing (view w) ob \<longrightarrow> v_closing (view w') ob) \<and> (\<forall>ob. times_closed (view w) ob \<le> times_closed (view w') ob))"

lemma grows_refl: "grows w w"
  by (simp add: grows_def)

lemma grows_trans: "grows u v \<Longrightarrow> grows v w \<Longrightarrow> grows u w"
  unfolding grows_def by (blast intro: order_trans)

lemma moves_grows: "moves cb (view w) (view w') \<Longrightarrow> grows w w'"
  by (auto simp: grows_def moves_closed sound_def intro: moves_closing moves_known moves_timers moves_closes moves_shut_ok moves_asked moves_stream simp del: view_fields)

lemma grows_same: "view w' = view w \<Longrightarrow> grows w w'"
  by (simp add: grows_def del: view_fields)

text \<open>While timers are being run, \<open>T\<close> are those that are still to be run.\<close>

definition sound_but :: "timer_id set \<Rightarrow> 'h view \<Rightarrow> bool" where
  "sound_but T v \<longleftrightarrow> known v \<and> timers_ok T v \<and> closes_ok 0 0 v \<and> shut_ok v \<and> asked_ok v \<and> stream_ok v"

lemma sound_but_rung: "sound_but (insert t T) v \<Longrightarrow> t \<notin> T \<Longrightarrow> sound_but T (rung t v)"
  by (auto simp: sound_but_def known_def timers_ok_def running_rung closes_ok_def shut_ok_def times_shut_def times_closed_def
      asked_ok_def stream_ok_def)

lemma moves_sound_but: "moves False v v' \<Longrightarrow> sound_but T v \<Longrightarrow> sound_but T v'"
  by (auto simp: sound_but_def intro: moves_known moves_timers moves_closes moves_shut_ok moves_asked moves_stream)

lemma on_timers_ok:
  assumes "careful E"
  shows "on_timers E ts w = Some w' \<Longrightarrow> distinct ts \<Longrightarrow> sound_but (set ts) (view w) \<Longrightarrow>
    sound (view w') \<and> (\<forall>ob. v_closing (view w) ob \<longrightarrow> v_closing (view w') ob) \<and> (\<forall>ob. times_closed (view w') ob = times_closed (view w) ob)"
proof (induction ts arbitrary: w)
  case (Cons t ts)
  then obtain w1 where w1: "on_timer E t w = Some w1" "on_timers E ts w1 = Some w'" by (auto elim: bind_Some)
  note m = on_timer_moves [OF assms w1(1)]
  have r: "sound_but (set ts) (rung t (view w))" using sound_but_rung [of t "set ts" "view w"] Cons.prems(2,3) by (simp del: view_fields)
  then have c: "closes_ok 0 0 (rung t (view w))" by (simp add: sound_but_def)
  have "v_closing (view w) ob \<longrightarrow> v_closing (view w1) ob" "times_closed (view w1) ob = times_closed (view w) ob" for ob
    using moves_closing [OF m c, of ob] moves_closed [OF m, of ob] by (simp_all add: times_closed_def)
  with Cons.IH [OF w1(2) _ moves_sound_but [OF m r]] Cons.prems(2) show ?case by simp
qed (simp add: sound_but_def sound_def)

lemma expire_sound:
  assumes "sound (view w)" "expire_timers s (m_timers (ev_poller w)) = (q, ts)"
  shows "distinct ts" "sound_but (set ts) ((view w)\<lparr>v_timers := q\<rparr>)"
proof -
  let ?q = "m_timers (ev_poller w)"
  have r: "running_ok {} ?q (waits (ev_poller w)) (m_fresh (ev_poller w))" using assms(1) by (simp add: sound_def timers_ok_def)
  then have i: "tq_inv ?q" by (simp add: running_ok_def)
  have q: "q = fst (expire_timers s ?q)" "ts = snd (expire_timers s ?q)" using assms(2) by simp_all
  show "distinct ts" unfolding q by (rule expire_distinct [OF i])
  have "running_ok (set ts) q (waits (ev_poller w)) (m_fresh (ev_poller w))"
    using r unfolding running_ok_def q expire_armed [OF i]
    by (auto simp: expire_inv [OF i] expire_due [OF i] split: option.splits)
  then show "sound_but (set ts) ((view w)\<lparr>v_timers := q\<rparr>)"
    using assms(1) by (auto simp: sound_but_def sound_def known_def timers_ok_def closes_ok_def shut_ok_def times_shut_def times_closed_def
        asked_ok_def stream_ok_def)
qed

lemma trigger_timers_grows:
  assumes "careful E" "trigger_timers E w = Some w'"
  shows "grows w w'"
proof -
  obtain q ts where q: "expire_timers (m_stamp (ev_poller w)) (m_timers (ev_poller w)) = (q, ts)" by fastforce
  let ?w = "upd_poller (\<lambda>m. m\<lparr>m_timers := q\<rparr>) w"
  have v: "view ?w = (view w)\<lparr>v_timers := q\<rparr>" by (simp add: view_poller)
  have t: "on_timers E ts ?w = Some w'" using assms(2) q by (simp add: trigger_timers_def)
  show ?thesis
  proof (cases "sound (view w)")
    case True
    from on_timers_ok [OF assms(1) t] expire_sound [OF True q] show ?thesis
      unfolding grows_def v by (simp add: times_closed_def)
  qed (simp add: grows_def)
qed

subsection \<open>Waiting\<close>

lemma stamped_view: "stamped w w' \<Longrightarrow> view w' = view w"
proof -
  assume "stamped w w'"
  then obtain k s where m: "ev_poller w' = (ev_poller w)\<lparr>m_kernel := k, m_stamp := s\<rparr>" by (auto simp: stamped_def)
  show ?thesis
    by (rule view_eqI) (simp_all add: m fun_eq_iff, (rule allI, case_tac x; simp)+)
qed

lemma run_callback_grows:
  assumes "careful E" "run_callback E p f w = Some w'"
  shows "grows w w'"
proof (cases "known (view w)")
  case True
  from run_callback_moves [OF assms(1) this assms(2)] show ?thesis by (rule moves_grows)
next
  case False
  then show ?thesis by (simp add: grows_def sound_def)
qed

lemma prepare_other_wait [simp]: "nio_event_prepare (ops\<lparr>op_event_wait := x\<rparr>) (w :: ('p, 'q) nio_event) = nio_event_prepare ops w"
proof -
  have "prepare_file (ops\<lparr>op_event_wait := x\<rparr>) f e = prepare_file ops f e" for f and e :: "('p, 'q) nio_event"
    by (simp add: prepare_file_def)
  then have "prepare_file (ops\<lparr>op_event_wait := x\<rparr>) = prepare_file ops" by (simp add: fun_eq_iff)
  then show ?thesis by (simp add: nio_event_prepare_def)
qed

lemma event_wait_ok:
  assumes "careful E" "event_wait E ms w = Some w'" "sound (view w)"
  shows "sound (view w')" "\<forall>ob. v_closing (view w) ob \<longrightarrow> v_closing (view w') ob \<and> times_closed (view w') ob = 1"
proof -
  obtain w1 w2 w3 n t where w: "nio_event_prepare (en_ops E) w = Some w1" "before_wait E w1 = Some w2"
    "en_event_wait E (run_callback E) n w2 = Some (w3, t)"
    "(if tq_timers (m_timers (ev_poller w3)) \<noteq> [] then trigger_timers E w3 else Some w3) = Some w'"
    using assms(2) unfolding event_wait_def nio_event_wait2_def Let_def
    by (elim bind_Some) (auto split: prod.splits)
  have v1: "view w1 = view w" using prepare_steady [OF w(1)] steady_alike alikeD(1) by blast
  note b = before_wait_ok [OF assms(1) w(2), unfolded v1, OF assms(3)]
  obtain n' t' where "t = (n', t')" by fastforce
  from wait_runs [where R = grows, OF w(3) [unfolded this]]
  have g: "grows w2 w3"
    using grows_refl grows_trans run_callback_grows [OF assms(1)] grows_same stamped_view by blast
  have "grows w3 w'" using w(4) trigger_timers_grows [OF assms(1)] grows_refl by (auto split: if_splits)
  with g have g: "grows w2 w'" by (rule grows_trans)
  with b(1) show s: "sound (view w')" by (simp add: grows_def)
  have "closes_ok 0 0 (view w')" using s by (simp add: sound_def)
  then have "times_closed (view w') ob \<le> 1" for ob by (rule times_closed_le)
  with g b show "\<forall>ob. v_closing (view w) ob \<longrightarrow> v_closing (view w') ob \<and> times_closed (view w') ob = 1"
    unfolding grows_def kept_def v1 by (metis le_antisym)
qed

lemma event_wait_grows:
  assumes "careful E" "event_wait E ms w = Some w'"
  shows "grows w w'"
proof (cases "sound (view w)")
  case True
  note w = event_wait_ok [OF assms True]
  have "closes_ok 0 0 (view w)" using True by (simp add: sound_def)
  then have "times_closed (view w) ob \<le> of_bool (v_closing (view w) ob)" for ob
    using closes_okD(3) [of 0 0 "view w" ob] by (simp add: times_closed_def)
  then have "times_closed (view w) ob \<le> times_closed (view w') ob" for ob
    using w(2) by (cases "v_closing (view w) ob") (metis of_bool_eq(2), metis of_bool_eq(1) le_zero_eq zero_le)
  with w show ?thesis by (simp add: grows_def)
qed (simp add: grows_def)

end

subsection \<open>Programs\<close>

text \<open>A program calls methods, and waits.\<close>

datatype 'h command = Method "'h api" | Wait int

fun do_command :: "('h, 'k) env \<Rightarrow> 'h command \<Rightarrow> ('h, 'k) world \<Rightarrow> ('h, 'k) world option" where
  "do_command E (Method c) w = call E c w"
| "do_command E (Wait ms) w = event_wait E ms w"

fun run_program :: "('h, 'k) env \<Rightarrow> 'h command list \<Rightarrow> ('h, 'k) world \<Rightarrow> ('h, 'k) world option" where
  "run_program E [] w = Some w"
| "run_program E (c # cs) w = Option.bind (do_command E c w) (run_program E cs)"

fun fine_program :: "('h, 'k) env \<Rightarrow> 'h command list \<Rightarrow> ('h, 'k) world \<Rightarrow> bool" where
  "fine_program E [] w \<longleftrightarrow> True"
| "fine_program E (c # cs) w \<longleftrightarrow> (case c of Method m \<Rightarrow> fine m w | Wait ms \<Rightarrow> True) \<and>
     (case do_command E c w of None \<Rightarrow> True | Some w \<Rightarrow> fine_program E cs w)"

text \<open>The machine when \<open>nio_event\<close> has been constructed, on a kernel \<open>k\<close> at time \<open>s\<close>: no object has been made.\<close>

definition machine_new :: "int \<Rightarrow> 'k \<Rightarrow> ('h, 'k) machine" where
  "machine_new s k =
     \<lparr>m_kernel = k, m_stamp = s, m_ctx = (\<lambda>_. None), m_fresh = 2, m_clients = (\<lambda>_. client_socket_new),
      m_procs = (\<lambda>_. event_proc_new Base), m_timers = timer_queue_new, m_procs_free = [], m_clients_free = [], m_trace = []\<rparr>"

definition NIO_EVENT_F_ONESHOT :: u32 where "NIO_EVENT_F_ONESHOT = 1"
definition NIO_EVENT_F_DIRECT :: u32 where "NIO_EVENT_F_DIRECT = 2"

definition event_flags :: "u32 \<Rightarrow> u32" where
  "event_flags flags =
     (let f = 0;
          f = (if flags AND NIO_EVENT_F_DIRECT \<noteq> 0 then f OR NIO_EVENT_DIRECT else f)
      in if flags AND NIO_EVENT_F_ONESHOT \<noteq> 0 then f OR NIO_EVENT_ONESHOT else f)"

definition event_new :: "int \<Rightarrow> u32 \<Rightarrow> int \<Rightarrow> 'k \<Rightarrow> ('h, 'k) world" where
  "event_new max_size flags s k = nio_event_setup max_size (event_flags flags) (blank_event (machine_new s k))"

lemma sound_new: "sound (view (event_new n flags s k :: ('h, 'k) world))"
proof -
  let ?m = "machine_new s k :: ('h, 'k) machine"
  have m: "ev_poller (event_new n flags s k) = ?m" by (simp add: event_new_def nio_event_setup_def)
  note new = machine_new_def client_socket_new_def event_proc_new_def need_timer_def client_timer_new_def pending_def
  have "\<not> waits ?m t" for t by (cases t) (simp_all add: new)
  then have w: "waits ?m = (\<lambda>_. False)" by (simp add: fun_eq_iff)
  have "\<not> object_closing ?m ob" for ob by (cases ob) (simp_all add: new)
  then have c: "object_closing ?m = (\<lambda>_. False)" by (simp add: fun_eq_iff)
  have "object_buf ?m ob = []" for ob by (cases ob) (simp_all add: new)
  then have b: "object_buf ?m = (\<lambda>_. [])" by (simp add: fun_eq_iff)
  have t: "to_close 0 0 (view (event_new n flags s k :: ('h, 'k) world)) ob = 0" for ob by (cases ob) (simp_all add: m machine_new_def)
  show ?thesis
    unfolding sound_def known_def timers_ok_def running_ok_def closes_ok_def shut_ok_def times_shut_def times_closed_def asked_ok_def stream_ok_def
    by (simp add: m w c b t) (simp add: machine_new_def event_proc_new_def)
qed

context cpp_poller
begin

lemma call_grows: "call E c w = Some w' \<Longrightarrow> fine c w \<Longrightarrow> grows w w'"
  using call_moves [of c w w' False] moves_grows by blast

lemma command_grows:
  assumes "careful E" "do_command E c w = Some w'" "case c of Method m \<Rightarrow> fine m w | Wait ms \<Rightarrow> True"
  shows "grows w w'"
proof (cases c)
  case (Method m)
  with assms show ?thesis by (auto intro: call_grows)
next
  case (Wait ms)
  then have "event_wait E ms w = Some w'" using assms(2) by simp
  from event_wait_grows [OF assms(1) this] show ?thesis .
qed

lemma program_grows:
  "careful E \<Longrightarrow> run_program E cs w = Some w' \<Longrightarrow> fine_program E cs w \<Longrightarrow> grows w w'"
proof (induction cs arbitrary: w)
  case (Cons c cs)
  then obtain w1 where w1: "do_command E c w = Some w1" "run_program E cs w1 = Some w'" by (auto elim: bind_Some)
  with Cons.prems(3) have "case c of Method m \<Rightarrow> fine m w | Wait ms \<Rightarrow> True" "fine_program E cs w1" by simp_all
  with w1 Cons.IH Cons.prems(1) show ?case by (blast intro: grows_trans command_grows)
qed (simp add: grows_refl)

lemma program_sound: "careful E \<Longrightarrow> run_program E cs w = Some w' \<Longrightarrow> fine_program E cs w \<Longrightarrow> sound (view w) \<Longrightarrow> sound (view w')"
  using program_grows by (auto simp: grows_def)

end

end
