(* ===== verification/Cpp_System.thy ===== *)
theory Cpp_System
  imports Cpp_Program
begin

text \<open>
  The C++ classes on the epoll poller, and the promises they keep in every program that runs on it.
\<close>

subsection \<open>The epoll poller on the machine\<close>

text \<open>The stamp of the event: the time of \<open>clock_gettime\<close>, when it returns one, down to the millisecond.\<close>

definition SEC2NS :: int where "SEC2NS = 1000000000"

definition nio_set_stamp :: "(int \<times> int) option \<Rightarrow> int \<Rightarrow> int" where
  "nio_set_stamp time stamp = (case time of None \<Rightarrow> stamp | Some (sec, nsec) \<Rightarrow> sec * SEC2NS + nsec - nsec smod MS2NS)"

text \<open>The system calls work on the kernel's part of the machine; \<open>clock\<close> is \<open>clock_gettime\<close>.\<close>

definition machine_ctl :: "'k epoll_ctl \<Rightarrow> ('h, 'k) machine epoll_ctl" where
  "machine_ctl ctl op fd ev m = (case ctl op fd ev (m_kernel m) of (k, ret) \<Rightarrow> (m\<lparr>m_kernel := k\<rparr>, ret))"

definition machine_wait ::
  "('k \<Rightarrow> (int \<times> int) option) \<Rightarrow> (int \<Rightarrow> 'k \<Rightarrow> 'k \<times> epoll_result) \<Rightarrow> int \<Rightarrow> ('h, 'k) machine \<Rightarrow> ('h, 'k) machine \<times> epoll_result" where
  "machine_wait clock wait timeout m =
     (case wait timeout (m_kernel m) of (k, r) \<Rightarrow> (m\<lparr>m_kernel := k, m_stamp := nio_set_stamp (clock k) (m_stamp m)\<rparr>, r))"

text \<open>A program's environment, with \<open>NIO_EVENT_T_KERNEL\<close> on Linux.\<close>

definition on_epoll ::
  "'k epoll_ctl \<Rightarrow> ('k \<Rightarrow> (int \<times> int) option) \<Rightarrow> (int \<Rightarrow> 'k \<Rightarrow> 'k \<times> epoll_result) \<Rightarrow> ('h, 'k) env \<Rightarrow> ('h, 'k) env" where
  "on_epoll ctl clock wait E =
     E\<lparr>en_ops := nio_epoll_create (machine_ctl ctl) (machine_wait clock wait) (\<lambda>_ _. Some),
       en_event_wait := epoll_event_wait (machine_wait clock wait)\<rparr>"

lemma machine_ctl_steady:
  "machine_ctl ctl op fd ev m = (m', r) \<Longrightarrow> \<exists>k. m' = m\<lparr>m_kernel := k\<rparr>"
  by (auto simp: machine_ctl_def split: prod.splits)

lemma epoll_steady:
  "epoll_add_read (machine_ctl ctl) f w = Some (w', r) \<Longrightarrow> steady w w'"
  "epoll_add_write (machine_ctl ctl) f w = Some (w', r) \<Longrightarrow> steady w w'"
  "epoll_del_read (machine_ctl ctl) f w = Some (w', r) \<Longrightarrow> steady w w'"
  "epoll_del_write (machine_ctl ctl) f w = Some (w', r) \<Longrightarrow> steady w w'"
  "epoll_del_readwrite (machine_ctl ctl) f w = Some (w', r) \<Longrightarrow> steady w w'"
  by (auto simp: epoll_add_read_def epoll_add_write_def epoll_del_read_def epoll_del_write_def epoll_del_readwrite_def
    Let_def steady_def upd_file_def dest!: machine_ctl_steady split: prod.splits if_splits)

text \<open>Whatever every callback does, a wait does.\<close>

lemma run_proc_related:
  assumes "run_proc run b p f w = Some (w', t)" "\<And>w. R w w" "\<And>p f v v'. run p f v = Some v' \<Longrightarrow> R v v'"
  shows "R w w'"
  using assms by (auto simp: run_proc_def split: option.splits if_splits)

lemma epoll_dispatch_related:
  assumes "\<And>w. R w w" "\<And>u v x. R u v \<Longrightarrow> R v x \<Longrightarrow> R u x" "\<And>p f v v'. run p f v = Some v' \<Longrightarrow> R v v'"
  shows "epoll_dispatch run evs w = Some (w', t) \<Longrightarrow> R w w'"
proof (induction evs arbitrary: w t)
  case Nil
  then show ?case using assms(1) by simp
next
  case (Cons x evs)
  obtain ev f where x: "x = (ev, f)" by fastforce
  show ?case
  proof (cases "f = 0")
    case True
    with Cons x show ?thesis by simp
  next
    case False
    with Cons.prems x obtain w1 t1 w2 t2 t3 where
      w1: "run_proc run (ev AND (EPOLLIN OR EPOLL_ERR) \<noteq> 0) (f_r_proc (ev_files w f)) f w = Some (w1, t1)" and
      w2: "run_proc run (ev AND (EPOLLOUT OR EPOLL_ERR) \<noteq> 0) (f_w_proc (ev_files w f)) f w1 = Some (w2, t2)" and
      w3: "epoll_dispatch run evs w2 = Some (w', t3)"
      by (auto simp: Let_def elim!: bind_Some split: prod.splits)
    have "R w w1" by (rule run_proc_related [where R = R, OF w1 assms(1)]) (rule assms(3))
    moreover have "R w1 w2" by (rule run_proc_related [where R = R, OF w2 assms(1)]) (rule assms(3))
    ultimately show ?thesis using Cons.IH [OF w3] assms(2) by blast
  qed
qed

lemma epoll_wait_related:
  assumes "epoll_event_wait (machine_wait clock wait) run ms w = Some (w', n, t)" "\<And>v. R v v"
    "\<And>u v x. R u v \<Longrightarrow> R v x \<Longrightarrow> R u x" "\<And>p f v v'. run p f v = Some v' \<Longrightarrow> R v v'" "\<And>v v'. stamped v v' \<Longrightarrow> R v v'"
  shows "R w w'"
proof -
  obtain k r where k: "wait ms (m_kernel (ev_poller w)) = (k, r)" by fastforce
  let ?w = "w\<lparr>ev_poller := (ev_poller w)\<lparr>m_kernel := k, m_stamp := nio_set_stamp (clock k) (m_stamp (ev_poller w))\<rparr>\<rparr>"
  have s: "R w ?w" by (rule assms(5)) (auto simp: stamped_def)
  show ?thesis
  proof (cases r)
    case (Epoll_Failed eintr)
    with assms(1) k s show ?thesis by (simp add: epoll_event_wait_def machine_wait_def split: if_splits)
  next
    case (Epolled evs)
    with assms(1) k have *: "epoll_dispatch run evs ?w = Some (w', t)"
      by (auto simp: epoll_event_wait_def machine_wait_def)
    have "R ?w w'" by (rule epoll_dispatch_related [where R = R, OF _ _ _ *]) (rule assms(2), erule (1) assms(3), erule assms(4))
    with s show ?thesis by (rule assms(3))
  qed
qed

interpretation cpp: cpp_poller "on_epoll ctl clock wait E"
  for ctl :: "'k epoll_ctl" and clock wait and E :: "('h, 'k) env"
proof
  fix d f and w w' :: "('h, 'k) world" and r
  show "op_add (en_ops (on_epoll ctl clock wait E)) d f w = Some (w', r) \<Longrightarrow> steady w w'"
    by (cases d) (auto simp: on_epoll_def nio_epoll_create_def intro: epoll_steady)
  show "op_del (en_ops (on_epoll ctl clock wait E)) d f w = Some (w', r) \<Longrightarrow> steady w w'"
    by (cases d) (auto simp: on_epoll_def nio_epoll_create_def intro: epoll_steady)
  show "op_del_readwrite (en_ops (on_epoll ctl clock wait E)) = Some del \<Longrightarrow> del f w = Some (w', r) \<Longrightarrow> steady w w'" for del
    by (auto simp: on_epoll_def nio_epoll_create_def intro: epoll_steady)
  show "op_event_fflush (en_ops (on_epoll ctl clock wait E)) = Some fflush \<Longrightarrow> fflush w = Some (w', r) \<Longrightarrow> steady w w'" for fflush
    by (simp add: on_epoll_def nio_epoll_create_def)
next
  fix run ms and w w' :: "('h, 'k) world" and n t and R :: "('h, 'k) world \<Rightarrow> ('h, 'k) world \<Rightarrow> bool"
  assume w: "en_event_wait (on_epoll ctl clock wait E) run ms w = Some (w', n, t)" and R: "\<And>v. R v v"
    "\<And>u v x. R u v \<Longrightarrow> R v x \<Longrightarrow> R u x" "\<And>p f v v'. run p f v = Some v' \<Longrightarrow> R v v'" "\<And>v v'. stamped v v' \<Longrightarrow> R v v'"
  from w have "epoll_event_wait (machine_wait clock wait) run ms w = Some (w', n, t)" by (simp add: on_epoll_def)
  from epoll_wait_related [OF this R] show "R w w'" .
qed

subsection \<open>A program for the witnesses\<close>

text \<open>
  The kernel is the interest list of epoll; it takes two bytes at a time, and one descriptor is ready for whatever is
  asked for.  When the timer 0 fires, the user deletes the timer 1 and closes the client, if there is one.
\<close>

definition demo_system :: "(int \<rightharpoonup> epoll_event) system" where
  "demo_system =
     \<lparr>sys_write = (\<lambda>fd bs k. (k, Wrote (min 2 (length bs)))), sys_close = (\<lambda>fd k. k), sys_socket = (\<lambda>k. (k, 8)),
      sys_options = (\<lambda>fd k. k), sys_connect = (\<lambda>fd ip port k. (k, - 1, EINPROGRESS)), sys_so_error = (\<lambda>fd k. (k, 0, 0)),
      sys_bind = (\<lambda>fd ip port k. (k, 0)), sys_listen = (\<lambda>fd n k. (k, 0)), sys_accept = (\<lambda>fd k. (k, - 1, EAGAIN, Addr_Other)),
      sys_inet_ntop = (\<lambda>a. Inl 0), sys_if_name = (\<lambda>n. None)\<rparr>"

definition demo_user :: "bool \<Rightarrow> notice \<Rightarrow> (bool, int \<rightharpoonup> epoll_event) world \<Rightarrow> bool api list \<times> bool" where
  "demo_user fn n w = (if n = Timeout 0 then Del_Timer 1 # (if 2 < m_fresh (ev_poller w) then [Close_Await 2] else []) else [], True)"

definition demo_wait :: "int \<Rightarrow> (int \<rightharpoonup> epoll_event) \<Rightarrow> (int \<rightharpoonup> epoll_event) \<times> epoll_result" where
  "demo_wait ms k = (k, Epolled (case k 7 of None \<Rightarrow> [] | Some x \<Rightarrow> if fst x = 0 then [] else [x]))"

definition demo_env :: "(bool, int \<rightharpoonup> epoll_event) env" where
  "demo_env = on_epoll list_ctl (\<lambda>k. Some (0, 5000000)) demo_wait
     \<lparr>en_system = demo_system, en_seekable = (\<lambda>fd. False),
      en_ops = nio_epoll_create (machine_ctl list_ctl) (machine_wait (\<lambda>k. None) demo_wait) (\<lambda>_ _. Some),
      en_event_wait = epoll_event_wait (machine_wait (\<lambda>k. None) demo_wait), en_user = demo_user, en_timer = (\<lambda>t. True)\<rparr>"

definition demo_start :: "(bool, int \<rightharpoonup> epoll_event) world" where
  "demo_start = event_new 100 0 0 Map.empty"

definition demo_program :: "bool command list" where
  "demo_program =
     [Method (Client_Open 7), Method (On_Read 2 True), Method (On_Close 2 False), Method (Add_Timer 0 1), Method (Read_Await 2 100),
      Method (Write_Data 2 0 [1, 2, 3] 0)]"

text \<open>What evaluates it.\<close>

lemmas demo_world = demo_env_def on_epoll_def demo_start_def event_new_def machine_new_def blank_event_def nio_event_setup_def event_flags_def
  demo_system_def demo_wait_def demo_user_def list_ctl_def machine_ctl_def machine_wait_def nio_set_stamp_def SEC2NS_def nio_epoll_create_def
  timer_queue_new_def client_socket_new_def event_proc_new_def client_timer_new_def need_timer_def pending_def
  NIO_EVENT_F_ONESHOT_def NIO_EVENT_F_DIRECT_def client_f_init_def client_f_rtimer_def client_f_wtimer_def
  EPOLLIN_def EPOLLOUT_def EPOLLONESHOT_def EPOLL_ERR_def MS2NS_def nio_consts

lemmas demo_memory = upd_poller_def upd_client_def upd_proc_def upd_file_def happen_def client_def proc_def new_address_def
  nio_file_alloc_def nio_file_init_def nio_file_set_ctx_def in_kernel_def kernel_do_def
  nio_ring_init_def nio_ring_prepend_def nio_ring_first_def nio_ring_detach_def set_len_def set_parent_def set_pred_def set_succ_def Let_def

lemmas demo_calls = call_def returns_def returns_bool_def returns_address_def client_open_def client_new_def
  client_on_connect_def client_on_read_def client_on_write_def client_on_error_def client_on_close_def
  client_read_await_def client_write_await_def client_close_await_def delay_close_client_def client_write_def client_flush_def
  write_out_def written_ret_def from_offset_def flush_bytes_def upd_read_timer_def upd_write_timer_def
  event_add_timer_def event_del_timer_def add_timer_def del_timer_def set_expire_def get_expire_def armed_def
  nio_event_isset_oneshot_def nio_event_add_read_def nio_event_add_write_def nio_event_del_readwrite_def checkfd_def enqueue_def

lemmas demo_loop = event_wait_def wait_timeout_def nio_event_wait2_def wait2_timeout_def nio_event_prepare_def before_wait_def
  drain.simps close_procs.simps close_clients.simps prepare_file_def when_oper_def epoll_event_wait_def run_proc_def
  epoll_add_read_def epoll_add_write_def epoll_del_read_def epoll_del_write_def epoll_del_readwrite_def
  trigger_timers_def expire_timers_def client_read_callback_def client_write_callback_def client_close_def client_shut_def client_of_def
  stop_read_timer_def stop_write_timer_def tell_if_def tell_def

lemmas demo = demo_world demo_memory demo_calls demo_loop

lemma demo_careful: "careful demo_env"
proof -
  have d: "fine (Del_Timer t) w" for t and w :: "(bool, int \<rightharpoonup> epoll_event) world" by (simp add: fine_def)
  have c: "fine (Close_Await 2) w" if "2 < m_fresh (ev_poller w)" for w :: "(bool, int \<rightharpoonup> epoll_event) world"
    using that by (simp add: fine_def)
  have k: "m_fresh (ev_poller w') = m_fresh (ev_poller w)" if "call E (Del_Timer t) w = Some w'" for E t
    and w w' :: "(bool, int \<rightharpoonup> epoll_event) world"
    using that by (auto simp: call_def)
  show ?thesis
    by (auto simp: careful_def demo_env_def on_epoll_def demo_user_def d c k split: option.splits)
qed

subsection \<open>The history\<close>

text \<open>The history only grows.\<close>

lemma evolves_prefix: "evolves cb l v v' \<Longrightarrow> prefix (v_trace v) (v_trace v')"
  by (induction rule: evolves.induct) (auto intro: prefix_order.trans)

lemma moves_prefix: "moves cb v v' \<Longrightarrow> prefix (v_trace v) (v_trace v')"
  by (induction rule: moves.induct) (auto dest: evolves_prefix intro: prefix_order.trans)

lemma prefix_since: "prefix xs ys \<Longrightarrow> prefix ys zs \<Longrightarrow> x \<in> set (drop (length xs) ys) \<Longrightarrow> x \<in> set (drop (length xs) zs)"
  by (auto simp: prefix_def)

context cpp_poller
begin

lemma on_timer_prefix: "careful E \<Longrightarrow> on_timer E t w = Some w' \<Longrightarrow> prefix (m_trace (ev_poller w)) (m_trace (ev_poller w'))"
  using moves_prefix [OF on_timer_moves] by fastforce

lemma tell_told:
  assumes "careful E" "tell E fn n w = Some (w', b)"
  shows "prefix (m_trace (ev_poller w) @ [Told fn n]) (m_trace (ev_poller w'))"
proof -
  have "calls E (fst (en_user E fn n w)) (happen (Told fn n) w) = Some w'"
    using assms(2) by (auto simp: tell_def split: prod.splits)
  from moves_prefix [OF calls_moves [OF this]] assms(1) show ?thesis by (simp add: careful_def)
qed

lemma on_timers_prefix: "careful E \<Longrightarrow> on_timers E ts w = Some w' \<Longrightarrow> prefix (m_trace (ev_poller w)) (m_trace (ev_poller w'))"
proof (induction ts arbitrary: w)
  case (Cons t ts)
  then obtain w1 where "on_timer E t w = Some w1" "on_timers E ts w1 = Some w'" by (auto elim: bind_Some)
  with Cons on_timer_prefix show ?case by (blast intro: prefix_order.trans)
qed simp

lemma on_timers_told:
  "careful E \<Longrightarrow> on_timers E ts w = Some w' \<Longrightarrow> User_Timer t \<in> set ts \<Longrightarrow>
    Told (en_timer E t) (Timeout t) \<in> set (drop (length (m_trace (ev_poller w))) (m_trace (ev_poller w')))"
proof (induction ts arbitrary: w)
  case (Cons u ts)
  then obtain w1 where w1: "on_timer E u w = Some w1" "on_timers E ts w1 = Some w'" by (auto elim: bind_Some)
  note p = on_timer_prefix [OF Cons.prems(1) w1(1)] on_timers_prefix [OF Cons.prems(1) w1(2)]
  show ?case
  proof (cases "u = User_Timer t")
    case True
    then obtain b where "tell E (en_timer E t) (Timeout t) w = Some (w1, b)" using w1(1) by auto
    from tell_told [OF Cons.prems(1) this] p(2) show ?thesis by (auto simp: prefix_def)
  next
    case False
    with Cons.IH [OF Cons.prems(1) w1(2)] Cons.prems(3) p show ?thesis by (auto simp: prefix_def)
  qed
qed simp

end

subsection \<open>Properties\<close>

text \<open>
  C7: however a program that keeps the rules (\<open>fine\<close>) uses the C++ classes on the epoll poller, from the construction of the event on and with
  callbacks and timers running.  The rules are that only methods of existing objects are called, that no client is connected while its
  write timer is running, that the user adds no timer that is in the queue, and does not call \<open>set_closing\<close>; the user's functions keep them too (\<open>careful\<close>).
  Then a client's timer is marked as waiting if and only if it is in the queue of timers, which is
  sorted, holds no timer twice and has every timer under its own expiry.
\<close>

theorem client_timers_armed:
  assumes "careful (on_epoll ctl clock wait E)" "fine_program (on_epoll ctl clock wait E) cs (event_new n flags s k)"
    "run_program (on_epoll ctl clock wait E) cs (event_new n flags s k) = Some w"
  shows "(ct_waiting (need_timer (cs_read_timer (client c w))) \<longleftrightarrow> armed (m_timers (ev_poller w)) (Read_Timer c) \<noteq> None) \<and>
    (ct_waiting (need_timer (cs_write_timer (client c w))) \<longleftrightarrow> armed (m_timers (ev_poller w)) (Write_Timer c) \<noteq> None) \<and>
    tq_inv (m_timers (ev_poller w))"
proof -
  have "sound (view w)" using cpp.program_sound [OF assms(1,3,2) sound_new] .
  then have "running_ok {} (m_timers (ev_poller w)) (waits (ev_poller w)) (m_fresh (ev_poller w))"
    by (simp add: sound_def timers_ok_def)
  then have "tq_inv (m_timers (ev_poller w))" "of_client t \<Longrightarrow> waits (ev_poller w) t \<longleftrightarrow> armed (m_timers (ev_poller w)) t \<noteq> None" for t
    by (simp_all add: running_ok_def)
  from this(1) this(2) [of "Read_Timer c"] this(2) [of "Write_Timer c"] show ?thesis by (simp add: client_def)
qed

theorem client_timers_armed_witness:
  "\<exists>w. run_program demo_env [Method (Client_Open 7), Method (Read_Await 2 100), Method (Write_Data 2 0 [1, 2, 3] 0)] demo_start = Some w \<and>
     ct_waiting (need_timer (cs_read_timer (client 2 w))) \<and> armed (m_timers (ev_poller w)) (Read_Timer 2) \<noteq> None \<and>
     armed (m_timers (ev_poller w)) (Write_Timer 2) = None"
proof -
  let ?cs = "[Method (Client_Open 7), Method (Read_Await 2 100), Method (Write_Data 2 0 [1, 2, 3] 0)] :: bool command list"
  have f: "fine_program demo_env ?cs demo_start" by (simp add: demo fine_def)
  have r: "\<exists>w. run_program demo_env ?cs demo_start = Some w \<and> ct_waiting (need_timer (cs_read_timer (client 2 w))) \<and>
      \<not> ct_waiting (need_timer (cs_write_timer (client 2 w)))"
    by (simp add: demo)
  from r client_timers_armed [OF demo_careful [unfolded demo_env_def] f [unfolded demo_env_def demo_start_def]] show ?thesis
    unfolding demo_env_def demo_start_def by blast
qed

text \<open>
  What \<open>client_socket::close\<close> owes.  The function given to \<open>on_close\<close> is called with the descriptor, and the descriptor is closed,
  once, if the function says so; without a function it is closed.  A client without a descriptor has -1 for it, and none is closed.
\<close>

definition client_closed :: "('h, 'k) env \<Rightarrow> nat \<Rightarrow> ('h, 'k) world \<Rightarrow> ('h, 'k) world \<Rightarrow> bool" where
  "client_closed E c w w' \<longleftrightarrow>
     (let fd = client_sock_handle c w; ob = Client_Object c; note = Closed (if 0 \<le> fd then fd else - 1)
      in case cs_on_close (client c w) of
           None \<Rightarrow>
             m_trace (ev_poller w') = m_trace (ev_poller w) @ Closing ob # (if 0 \<le> fd then [Shut ob fd] else []) \<and>
             m_kernel (ev_poller w') = (if 0 \<le> fd then sys_close (en_system E) fd else id) (m_kernel (ev_poller w))
         | Some fn \<Rightarrow>
             prefix (m_trace (ev_poller w) @ [Closing ob, Told fn note]) (m_trace (ev_poller w')) \<and>
             (\<forall>yes. (\<forall>u. snd (en_user E fn note u) = yes) \<longrightarrow>
                times_shut (view w') ob = times_shut (view w) ob + of_bool (yes \<and> 0 \<le> fd)))"

text \<open>What the \<open>on_close\<close> of an \<open>event_proc\<close> owes: the user is told, by the function of a server or the derived class.\<close>

definition proc_closed :: "nat \<Rightarrow> ('h, 'k) world \<Rightarrow> ('h, 'k) world \<Rightarrow> bool" where
  "proc_closed p w w' \<longleftrightarrow>
     prefix (m_trace (ev_poller w) @ Closing (Proc_Object p) #
         (case ep_class (proc p w) of
            Base \<Rightarrow> []
          | Server s \<Rightarrow> (case sv_on_close s of None \<Rightarrow> [] | Some fn \<Rightarrow> [Told fn Server_Closed])
          | Derived fn \<Rightarrow> [Told fn (Proc_Closed p)]))
       (m_trace (ev_poller w'))"

lemma stop_timers_fields:
  "m_kernel (ev_poller (stop_write_timer c (stop_read_timer c w))) = m_kernel (ev_poller w)"
  "m_trace (ev_poller (stop_write_timer c (stop_read_timer c w))) = m_trace (ev_poller w)"
  "ev_files (stop_write_timer c (stop_read_timer c w)) = ev_files w"
  "cs_fe (client c (stop_write_timer c (stop_read_timer c w))) = cs_fe (client c w)"
  "cs_on_close (client c (stop_write_timer c (stop_read_timer c w))) = cs_on_close (client c w)"
  by (simp_all add: stop_read_timer_def stop_write_timer_def upd_read_timer_def upd_write_timer_def event_del_timer_def
      upd_client_def upd_poller_def client_def)

context cpp_poller
begin

text \<open>What a call of the user does for closing.\<close>

lemma tell_closing:
  assumes "careful E" "tell E fn n w = Some (w', yes)"
  shows "prefix (m_trace (ev_poller w) @ [Told fn n]) (m_trace (ev_poller w'))" "times_shut (view w') ob = times_shut (view w) ob"
    "\<exists>u. yes = snd (en_user E fn n u)"
  using tell_told [OF assms] moves_shut [OF tell_moves [OF assms]] assms(2)
  by (auto simp: tell_def split: prod.splits intro!: exI [of _ w])

lemma client_close_owes:
  assumes "careful E" "client_close E c w = Some w'"
  shows "client_closed E c w w'"
proof -
  let ?fd = "client_sock_handle c w" and ?ob = "Client_Object c"
  let ?w1 = "stop_write_timer c (stop_read_timer c (happen (Closing ?ob) w))"
  let ?note = "Closed (if 0 \<le> ?fd then ?fd else - 1)"
  have shut: "m_trace (ev_poller (client_shut E c ?fd v)) = m_trace (ev_poller v) @ [Shut ?ob ?fd]"
    "m_kernel (ev_poller (client_shut E c ?fd v)) = sys_close (en_system E) ?fd (m_kernel (ev_poller v))" for v
    by (simp_all add: client_shut_def) (simp_all add: happen_def kernel_do_def upd_poller_def)
  have fe: "cs_fe (client c ?w1) = cs_fe (client c w)" "cs_on_close (client c ?w1) = cs_on_close (client c w)" "ev_files ?w1 = ev_files w"
    "m_trace (ev_poller ?w1) = m_trace (ev_poller w) @ [Closing ?ob]" "m_kernel (ev_poller ?w1) = m_kernel (ev_poller w)"
    unfolding stop_timers_fields by simp_all (simp add: happen_def)
  have start: "times_shut (view ?w1) ?ob = times_shut (view w) ?ob" by (simp add: times_shut_def fe(4))
  show ?thesis
  proof (cases "cs_on_close (client c w)")
    case None
    then have "w' = (if 0 \<le> ?fd then client_shut E c ?fd ?w1 else ?w1)"
      using assms(2) fe by (auto simp: client_close_def Let_def client_sock_handle_def tell_if_def split: option.splits if_splits)
    with None fe(4,5) shut show ?thesis by (simp add: client_closed_def Let_def)
  next
    case (Some fn)
    then obtain w2 yes where w2: "tell E fn ?note ?w1 = Some (w2, yes)" "w' = (if yes \<and> 0 \<le> ?fd then client_shut E c ?fd w2 else w2)"
      using assms(2) fe by (auto simp: client_close_def Let_def client_sock_handle_def tell_if_def elim!: bind_Some split: option.splits if_splits)
    note t = tell_closing [OF assms(1) w2(1)]
    from t(3) have "yes = y" if "\<forall>u. snd (en_user E fn ?note u) = y" for y using that by blast
    moreover have tr: "m_trace (ev_poller w') = m_trace (ev_poller w2) @ (if yes \<and> 0 \<le> ?fd then [Shut ?ob ?fd] else [])"
      unfolding w2(2) using shut(1) by simp
    then have "times_shut (view w') ?ob = times_shut (view w) ?ob + of_bool (yes \<and> 0 \<le> ?fd)"
      using t(2) [of ?ob] start by (simp add: times_shut_def)
    moreover have "prefix (m_trace (ev_poller w) @ [Closing ?ob, Told fn ?note]) (m_trace (ev_poller w'))"
      unfolding tr using t(1) unfolding fe(4) by (simp add: prefix_prefix)
    ultimately show ?thesis by (simp only: client_closed_def Some Let_def option.case) blast
  qed
qed

lemma proc_on_close_owes:
  assumes "careful E" "proc_on_close E p w = Some w'"
  shows "proc_closed p w w'"
  using assms(2) tell_told [OF assms(1), of _ _ "happen (Closing (Proc_Object p)) w"]
  by (auto simp: proc_on_close_def proc_closed_def server_on_close_def tell_if_def Let_def split: proc_class.splits option.splits)

end

text \<open>
  C3: however a program that keeps the rules (\<open>fine\<close>) uses the C++ classes on the epoll poller.  An object's \<open>close\<close> or \<open>on_close\<close> is
  entered at most once, and only when it is marked as closing; an object that \<open>close_await\<close> has been called of is marked, where an
  \<open>event_proc\<close> must have been bound before; when the next call of \<open>wait\<close> has returned, it has been entered exactly once for every marked
  object, and no client's descriptor has been closed twice.  What is entered does what it owes: it tells the user, and closes the client's descriptor
  as the user's function answers.
\<close>

theorem closed_exactly_once:
  assumes "careful (on_epoll ctl clock wait E)" "fine_program (on_epoll ctl clock wait E) cs (event_new n flags s k)"
    "run_program (on_epoll ctl clock wait E) cs (event_new n flags s k) = Some w"
    "event_wait (on_epoll ctl clock wait E) ms w = Some w'"
  shows "times_closed (view w) ob \<le> of_bool (object_closing (ev_poller w) ob) \<and>
    (asked ob (m_trace (ev_poller w)) \<longrightarrow> object_closing (ev_poller w) ob) \<and>
    (object_closing (ev_poller w) ob \<longrightarrow> times_closed (view w') ob = 1) \<and> times_shut (view w') ob \<le> 1 \<and>
    (client_close (on_epoll ctl clock wait E) c v = Some v' \<longrightarrow> client_closed (on_epoll ctl clock wait E) c v v') \<and>
    (proc_on_close (on_epoll ctl clock wait E) p v = Some v' \<longrightarrow> proc_closed p v v')"
proof -
  have s: "sound (view w)" using cpp.program_sound [OF assms(1,3,2) sound_new] .
  then have c: "closes_ok 0 0 (view w)" and a: "asked_ok (view w)" by (simp_all add: sound_def)
  have s': "shut_ok (view w')" "closes_ok 0 0 (view w')" using cpp.event_wait_ok(1) [OF assms(1,4) s] by (simp_all add: sound_def)
  then have "times_shut (view w') ob \<le> 1" using cpp.times_closed_le [OF s'(2), of ob] by (auto simp: shut_ok_def intro: order_trans)
  moreover have "times_closed (view w) ob \<le> of_bool (object_closing (ev_poller w) ob)"
    using closes_okD(3) [OF c, of ob] by (simp add: times_closed_def)
  moreover have "asked ob (m_trace (ev_poller w)) \<longrightarrow> object_closing (ev_poller w) ob" using a by (simp add: asked_ok_def)
  moreover have "object_closing (ev_poller w) ob \<longrightarrow> times_closed (view w') ob = 1"
    using cpp.event_wait_ok(2) [OF assms(1,4) s] by simp
  ultimately show ?thesis using cpp.client_close_owes [OF assms(1)] cpp.proc_on_close_owes [OF assms(1)] by blast
qed

theorem closed_exactly_once_witness:
  "\<exists>w w'. run_program demo_env [Method (Client_Open 7), Method (On_Close 2 False), Method (Close_Await 2)] demo_start = Some w \<and>
     event_wait demo_env 5 w = Some w' \<and> times_closed (view w) (Client_Object 2) = 0 \<and> times_closed (view w') (Client_Object 2) = 1 \<and>
     m_trace (ev_poller w') = m_trace (ev_poller w) @ [Closing (Client_Object 2), Told False (Closed 7), Shut (Client_Object 2) 7]"
proof -
  let ?cs = "[Method (Client_Open 7), Method (On_Close 2 False), Method (Close_Await 2)] :: bool command list"
  have f: "fine_program demo_env ?cs demo_start" by (simp add: demo fine_def)
  have "\<exists>w w'. run_program demo_env ?cs demo_start = Some w \<and> event_wait demo_env 5 w = Some w' \<and>
      object_closing (ev_poller w) (Client_Object 2) \<and> times_closed (view w) (Client_Object 2) = 0 \<and>
      m_trace (ev_poller w') = m_trace (ev_poller w) @ [Closing (Client_Object 2), Told False (Closed 7), Shut (Client_Object 2) 7]"
    by (simp add: demo times_closed_def)
  with closed_exactly_once [OF demo_careful [unfolded demo_env_def] f [unfolded demo_env_def demo_start_def]] show ?thesis
    unfolding demo_env_def demo_start_def by blast
qed

context cpp_poller
begin

lemma file_alloc_timers: "nio_file_alloc fd w = (w', f) \<Longrightarrow> m_timers (ev_poller w') = m_timers (ev_poller w)"
  by (auto simp: nio_file_alloc_def new_address_def nio_file_init_def upd_poller_def Let_def)

lemma connect_await_timers:
  "client_connect_await E c ip port ms w = Some (w', True) \<Longrightarrow> 0 \<le> ms \<Longrightarrow>
     \<exists>s. m_timers (ev_poller w') = add_timer s (Write_Timer c) ms (m_timers (ev_poller w))"
  unfolding client_connect_await_def Let_def
  apply (elim path; drule in_kernel_alike; drule in_kernel_alike; simp only: alike_kernel_do; drule (1) alike_trans)
     apply (auto dest!: add_alike file_alloc_timers simp: alike_iff event_add_timer_def nio_file_set_ctx_def)
  done

lemma close_await_list:
  assumes "client_close_await E c w = Some w'" "\<not> cs_closing (client c w)"
  shows "m_clients_free (ev_poller w') = m_clients_free (ev_poller w) @ [c]"
proof -
  obtain u where u: "alike w u" "w' = upd_client c (\<lambda>x. x\<lparr>cs_closing := True\<rparr>) (delay_close_client c u)"
    using assms unfolding client_close_await_def Let_def by (elim path) (auto dest: close_file_alike)
  then show ?thesis using delay_close_view(1) [of c u, THEN arg_cong [where f = v_clients_free]] assms(2) by (simp add: alike_iff)
qed

end

text \<open>
  C24: why the rules have a client connected only while its write timer does not run.  \<open>connect_await\<close> adds the timer without looking:
  however often it is in the queue, it is once more after the call, so a timer that is running is in the queue twice and the queue is no longer sound.
\<close>

theorem connect_await_queues_twice:
  assumes "client_connect_await (on_epoll ctl clock wait E) c ip port ms w = Some (w', True)" "0 \<le> ms"
  shows "count_list (map snd (tq_timers (m_timers (ev_poller w')))) (Write_Timer c) =
      Suc (count_list (map snd (tq_timers (m_timers (ev_poller w)))) (Write_Timer c)) \<and>
    (armed (m_timers (ev_poller w)) (Write_Timer c) \<noteq> None \<longrightarrow> \<not> tq_inv (m_timers (ev_poller w')))"
proof -
  obtain s where t: "m_timers (ev_poller w') = add_timer s (Write_Timer c) ms (m_timers (ev_poller w))"
    using cpp.connect_await_timers [OF assms] by blast
  have n: "count_list (map snd (tq_timers (m_timers (ev_poller w')))) (Write_Timer c) =
      Suc (count_list (map snd (tq_timers (m_timers (ev_poller w)))) (Write_Timer c))"
    by (simp add: t add_timer_eq count_mm_insert)
  moreover have "\<not> tq_inv (m_timers (ev_poller w'))" if "armed (m_timers (ev_poller w)) (Write_Timer c) \<noteq> None"
  proof
    assume "tq_inv (m_timers (ev_poller w'))"
    then have "count_list (map snd (tq_timers (m_timers (ev_poller w')))) (Write_Timer c) \<le> 1"
      unfolding tq_inv_def by (blast intro: distinct_count)
    moreover have "Write_Timer c \<in> set (map snd (tq_timers (m_timers (ev_poller w))))"
      using that unfolding armed_None by simp
    then have "count_list (map snd (tq_timers (m_timers (ev_poller w)))) (Write_Timer c) \<noteq> 0" by (simp only: count_list_0_iff) simp
    ultimately show False using n by simp
  qed
  ultimately show ?thesis by blast
qed

theorem connect_await_queues_twice_witness:
  "\<exists>w w'. run_program demo_env [Method (Client_Open 7), Method (Write_Await 2 100)] demo_start = Some w \<and> tq_inv (m_timers (ev_poller w)) \<and>
     client_connect_await demo_env 2 ''127.0.0.1'' 80 50 w = Some (w', True) \<and> \<not> tq_inv (m_timers (ev_poller w'))"
proof -
  let ?cs = "[Method (Client_Open 7), Method (Write_Await 2 100)] :: bool command list"
  have "\<exists>w w'. run_program demo_env ?cs demo_start = Some w \<and> client_connect_await demo_env 2 ''127.0.0.1'' 80 50 w = Some (w', True) \<and>
      tq_inv (m_timers (ev_poller w)) \<and> armed (m_timers (ev_poller w)) (Write_Timer 2) \<noteq> None"
    by (simp add: demo client_connect_await_def EINPROGRESS_def tq_inv_def)
  then obtain w w' where w: "run_program demo_env ?cs demo_start = Some w" "client_connect_await demo_env 2 ''127.0.0.1'' 80 50 w = Some (w', True)"
    "tq_inv (m_timers (ev_poller w))" "armed (m_timers (ev_poller w)) (Write_Timer 2) \<noteq> None" by blast
  from connect_await_queues_twice [OF w(2) [unfolded demo_env_def]] w(4) have "\<not> tq_inv (m_timers (ev_poller w'))" by simp
  with w show ?thesis by blast
qed

text \<open>
  C25: why the rules have \<open>set_closing\<close> left alone.  A client that is marked by hand is never closed: \<open>close_await\<close> does nothing then.  And when
  the mark of a client that is to be closed is taken away, a second \<open>close_await\<close> puts it into the list again, from which every entry is closed.
\<close>

theorem set_closing_spoils:
  assumes "client_close_await (on_epoll ctl clock wait E) c w = Some w1" "\<not> cs_closing (client c w)"
    "client_close_await (on_epoll ctl clock wait E) c (client_set_closing c False w1) = Some w2"
  shows "m_clients_free (ev_poller w2) = m_clients_free (ev_poller w) @ [c, c] \<and>
    client_close_await (on_epoll ctl clock wait E) c (client_set_closing c True w) = Some (client_set_closing c True w)"
proof -
  have "m_clients_free (ev_poller (client_set_closing c False w1)) = m_clients_free (ev_poller w1)" by (simp add: client_set_closing_def)
  with cpp.close_await_list [OF assms(1,2)] cpp.close_await_list [OF assms(3)] show ?thesis by (simp add: client_set_closing_def client_close_await_def)
qed

theorem set_closing_spoils_witness:
  "\<exists>w w1 w2 w3. run_program demo_env [Method (Client_Open 7)] demo_start = Some w \<and> client_close_await demo_env 2 w = Some w1 \<and>
     client_close_await demo_env 2 (client_set_closing 2 False w1) = Some w2 \<and> m_clients_free (ev_poller w2) = [2, 2] \<and>
     event_wait demo_env 5 w2 = Some w3 \<and> times_shut (view w3) (Client_Object 2) = 2"
proof -
  have "\<exists>w w1 w2 w3. run_program demo_env [Method (Client_Open 7)] demo_start = Some w \<and> client_close_await demo_env 2 w = Some w1 \<and>
      client_close_await demo_env 2 (client_set_closing 2 False w1) = Some w2 \<and> event_wait demo_env 5 w2 = Some w3 \<and>
      times_shut (view w3) (Client_Object 2) = 2 \<and> \<not> cs_closing (client 2 w) \<and> m_clients_free (ev_poller w) = []"
    by (simp add: demo client_set_closing_def times_shut_def)
  then obtain w w1 w2 w3 where w: "run_program demo_env [Method (Client_Open 7)] demo_start = Some w" "client_close_await demo_env 2 w = Some w1"
      "client_close_await demo_env 2 (client_set_closing 2 False w1) = Some w2" "event_wait demo_env 5 w2 = Some w3"
      "times_shut (view w3) (Client_Object 2) = 2" "\<not> cs_closing (client 2 w)" "m_clients_free (ev_poller w) = []" by blast
  from set_closing_spoils [OF w(2) [unfolded demo_env_def] w(6) w(3) [unfolded demo_env_def]] w(7)
  have "m_clients_free (ev_poller w2) = [2, 2]" by simp
  with w show ?thesis by blast
qed

lemma program_stream:
  assumes "careful (on_epoll ctl clock wait E)" "fine_program (on_epoll ctl clock wait E) cs (event_new n flags s k)"
    "run_program (on_epoll ctl clock wait E) cs (event_new n flags s k) = Some w"
  shows "stream_ok (view w)"
  using cpp.program_sound [OF assms(1,3,2) sound_new] by (simp add: sound_def)

text \<open>
  C4: however a program that keeps the rules (\<open>fine\<close>) uses the C++ classes on the epoll poller: as long as no writing call on an object has
  returned -1, the bytes that the kernel has taken for it, followed by what is in its buffer, are the bytes that the calls have been
  given, in order, with none lost, repeated or made up, whether calls or the callbacks of the loop have written them.
\<close>

theorem bytes_in_order:
  assumes "careful (on_epoll ctl clock wait E)" "fine_program (on_epoll ctl clock wait E) cs (event_new n flags s k)"
    "run_program (on_epoll ctl clock wait E) cs (event_new n flags s k) = Some w"
    "list_all (\<lambda>x. \<not> write_failed ob x) (m_trace (ev_poller w))"
  shows "taken ob (m_trace (ev_poller w)) @ object_buf (ev_poller w) ob = given ob (m_trace (ev_poller w))"
  using program_stream [OF assms(1-3)] assms(4) by (simp add: stream_ok_def)

theorem bytes_in_order_witness:
  "\<exists>w. run_program demo_env [Method (Client_Open 7), Method (Write_Data 2 0 [1, 2, 3] 0), Method (Write_Data 2 3 [4, 5] 0), Wait 5]
       demo_start = Some w \<and>
     taken (Client_Object 2) (m_trace (ev_poller w)) @ object_buf (ev_poller w) (Client_Object 2) = [1, 2, 3, 4, 5] \<and>
     taken (Client_Object 2) (m_trace (ev_poller w)) = [1, 2, 3, 4]"
proof -
  let ?cs = "[Method (Client_Open 7), Method (Write_Data 2 0 [1, 2, 3] 0), Method (Write_Data 2 3 [4, 5] 0), Wait 5] :: bool command list"
  have f: "fine_program demo_env ?cs demo_start" by (simp add: demo fine_def)
  have "\<exists>w. run_program demo_env ?cs demo_start = Some w \<and>
      list_all (\<lambda>x. \<not> write_failed (Client_Object 2) x) (m_trace (ev_poller w)) \<and>
      given (Client_Object 2) (m_trace (ev_poller w)) = [1, 2, 3, 4, 5] \<and> taken (Client_Object 2) (m_trace (ev_poller w)) = [1, 2, 3, 4]"
    by (simp add: demo)
  then obtain w where w: "run_program demo_env ?cs demo_start = Some w"
      "list_all (\<lambda>x. \<not> write_failed (Client_Object 2) x) (m_trace (ev_poller w))"
      "given (Client_Object 2) (m_trace (ev_poller w)) = [1, 2, 3, 4, 5]" "taken (Client_Object 2) (m_trace (ev_poller w)) = [1, 2, 3, 4]"
    by blast
  from bytes_in_order [OF demo_careful [unfolded demo_env_def] f [unfolded demo_env_def demo_start_def]
      w(1) [unfolded demo_env_def demo_start_def] w(2)] w(3,4)
  show ?thesis using w(1) by auto
qed

text \<open>
  C19: \<open>trigger_timers\<close> calls \<open>on_timer\<close> of every timer of the user that is due when it starts, also of one that the
  function of an earlier one has deleted meanwhile.
\<close>

theorem due_timers_told:
  assumes "careful (on_epoll ctl clock wait E)" "trigger_timers (on_epoll ctl clock wait E) w = Some w'"
    "tq_inv (m_timers (ev_poller w))" "armed (m_timers (ev_poller w)) (User_Timer t) = Some k" "k \<le> m_stamp (ev_poller w)"
  shows "Told (en_timer E t) (Timeout t) \<in> set (drop (length (m_trace (ev_poller w))) (m_trace (ev_poller w')))"
proof -
  obtain q ts where q: "expire_timers (m_stamp (ev_poller w)) (m_timers (ev_poller w)) = (q, ts)" by fastforce
  have "User_Timer t \<in> set ts" using expire_due [OF assms(3)] assms(4,5) q by (metis snd_conv)
  moreover have "on_timers (on_epoll ctl clock wait E) ts (upd_poller (\<lambda>m. m\<lparr>m_timers := q\<rparr>) w) = Some w'"
    using assms(2) q by (simp add: trigger_timers_def)
  ultimately have "Told (en_timer (on_epoll ctl clock wait E) t) (Timeout t) \<in>
      set (drop (length (m_trace (ev_poller (upd_poller (\<lambda>m. m\<lparr>m_timers := q\<rparr>) w)))) (m_trace (ev_poller w')))"
    by (intro cpp.on_timers_told [OF assms(1)])
  then show ?thesis by (simp add: on_epoll_def upd_poller_def)
qed

theorem due_timers_told_witness:
  "\<exists>w w'. run_program demo_env [Method (Add_Timer 0 1), Method (Add_Timer 1 1)] demo_start = Some w \<and>
     trigger_timers demo_env (upd_poller (\<lambda>m. m\<lparr>m_stamp := 5000000\<rparr>) w) = Some w' \<and>
     Called (Del_Timer 1) 0 \<in> set (m_trace (ev_poller w')) \<and> Told True (Timeout 1) \<in> set (m_trace (ev_poller w'))"
proof -
  let ?cs = "[Method (Add_Timer 0 1), Method (Add_Timer 1 1)] :: bool command list"
  have "\<exists>w w'. run_program demo_env ?cs demo_start = Some w \<and>
      trigger_timers demo_env (upd_poller (\<lambda>m. m\<lparr>m_stamp := 5000000\<rparr>) w) = Some w' \<and>
      Called (Del_Timer 1) 0 \<in> set (m_trace (ev_poller w')) \<and>
      m_timers (ev_poller w) = \<lparr>tq_counter = 2, tq_timers = [(1000000, User_Timer 0), (1000001, User_Timer 1)],
        tq_expire = (\<lambda>_. 0)(User_Timer 0 := 1000000, User_Timer 1 := 1000001)\<rparr>"
    by (simp add: demo)
  then obtain w w' where w: "run_program demo_env ?cs demo_start = Some w"
      "trigger_timers demo_env (upd_poller (\<lambda>m. m\<lparr>m_stamp := 5000000\<rparr>) w) = Some w'"
      "Called (Del_Timer 1) 0 \<in> set (m_trace (ev_poller w'))"
      "m_timers (ev_poller w) = \<lparr>tq_counter = 2, tq_timers = [(1000000, User_Timer 0), (1000001, User_Timer 1)],
        tq_expire = (\<lambda>_. 0)(User_Timer 0 := 1000000, User_Timer 1 := 1000001)\<rparr>" by blast
  from due_timers_told [OF demo_careful [unfolded demo_env_def] w(2) [unfolded demo_env_def], of 1 1000001] w(4)
  have "Told True (Timeout 1) \<in> set (m_trace (ev_poller w'))"
    by (auto simp: tq_inv_def armed_def upd_poller_def dest: in_set_dropD)
  with w show ?thesis by blast
qed

text \<open>What waiting for an event leaves alone, and the callbacks tell.\<close>

context cpp_poller
begin

lemma client_write_await_buf: "client_write_await E c ms w = Some (w', ok) \<Longrightarrow> cs_buf (client d w') = cs_buf (client d w)"
  unfolding client_write_await_def Let_def
  by (elim bind_pair bind_Some, drule await_alike) (auto split: if_splits simp: alikeD)

lemma client_flush_fields:
  assumes "client_flush E c w = Some (w', r)"
  shows "cs_on_write (client c w') = cs_on_write (client c w)" "cs_fe (client c w') = cs_fe (client c w)"
  using assms unfolding client_flush_def Let_def
  by (elim path; auto elim!: flush_cases simp: alikeD)+

lemma tell_if_told:
  assumes "careful E" "tell_if E (Some fn) n w = Some w'"
  shows "prefix (m_trace (ev_poller w) @ [Told fn n]) (m_trace (ev_poller w'))"
  using assms tell_told [OF assms(1)] by (auto simp: tell_if_def)

end

text \<open>
  C22: when the kernel has no room (\<open>EAGAIN\<close>) and nothing is in the buffer, \<open>client_socket::write\<close> returns -1 but has put one byte more
  than the data into the buffer: the byte in front of the data, which the loop will then send first.
\<close>

theorem write_again_spoils:
  assumes "client_write (on_epoll ctl clock wait E) c prev data ms w = Some (w', r)" "pending (cs_buf (client c w)) = []"
    "cs_fe (client c w) = Some f" "sys_write (en_system E) (f_fd (ev_files w f)) data (m_kernel (ev_poller w)) = (k, Again)"
  shows "r = - 1 \<and> pending (cs_buf (client c w')) = prev # data"
proof -
  let ?w1 = "upd_client c (\<lambda>x. x\<lparr>cs_buf := Some (pending (cs_buf x) @ prev # data)\<rparr>) (upd_poller (\<lambda>m. m\<lparr>m_kernel := k\<rparr>) w)"
  obtain ok where ok: "client_write_await (on_epoll ctl clock wait E) c ms ?w1 = Some (w', ok)" "r = - 1"
    using assms by (auto simp: client_write_def write_out_def in_kernel_def written_ret_def from_offset_def Let_def on_epoll_def
        elim!: bind_pair split: if_splits)
  have "client c (upd_poller (\<lambda>m. m\<lparr>m_kernel := k\<rparr>) w) = client c w" by (simp add: client_def upd_poller_def)
  with cpp.client_write_await_buf [OF ok(1), of c] assms(2) ok(2) show ?thesis by (simp add: pending_def)
qed

theorem write_again_spoils_witness:
  "\<exists>w'. client_write (demo_env\<lparr>en_system := demo_system\<lparr>sys_write := \<lambda>fd bs k. (k, Again)\<rparr>\<rparr>) 2 9 [1, 2] 0
       (upd_client 2 (\<lambda>x. x\<lparr>cs_fe := Some 3\<rparr>) demo_start) = Some (w', - 1) \<and> pending (cs_buf (client 2 w')) = [9, 1, 2]"
proof -
  let ?E = "demo_env\<lparr>en_system := demo_system\<lparr>sys_write := \<lambda>fd bs k. (k, Again)\<rparr>\<rparr>"
  let ?w = "upd_client 2 (\<lambda>x. x\<lparr>cs_fe := Some 3\<rparr>) demo_start"
  have e: "?E = on_epoll list_ctl (\<lambda>k. Some (0, 5000000)) demo_wait ?E" by (simp add: demo_env_def on_epoll_def)
  have "\<exists>w' r. client_write ?E 2 9 [1, 2] 0 ?w = Some (w', r)" by (simp add: demo)
  then obtain w' r where w: "client_write ?E 2 9 [1, 2] 0 ?w = Some (w', r)" by blast
  then have o: "client_write (on_epoll list_ctl (\<lambda>k. Some (0, 5000000)) demo_wait ?E) 2 9 [1, 2] 0 ?w = Some (w', r)" by (simp only: e [symmetric])
  have "r = - 1 \<and> pending (cs_buf (client 2 w')) = 9 # [1, 2]"
    by (rule write_again_spoils [OF o]) (simp_all add: demo_env_def on_epoll_def demo_start_def event_new_def
      nio_event_setup_def machine_new_def client_socket_new_def pending_def client_def upd_client_def upd_poller_def)
  with w show ?thesis by simp
qed

lemma stop_write_timer_fields [simp]:
  "ev_files (stop_write_timer c w) = ev_files w" "m_kernel (ev_poller (stop_write_timer c w)) = m_kernel (ev_poller w)"
  "m_trace (ev_poller (stop_write_timer c w)) = m_trace (ev_poller w)" "cs_buf (client c (stop_write_timer c w)) = cs_buf (client c w)"
  "cs_fe (client c (stop_write_timer c w)) = cs_fe (client c w)" "cs_on_write (client c (stop_write_timer c w)) = cs_on_write (client c w)"
  by (simp_all add: stop_write_timer_def upd_write_timer_def event_del_timer_def upd_client_def upd_poller_def client_def)

lemma kernel_fields:
  "m_kernel (ev_poller (upd_client c g w)) = m_kernel (ev_poller w)" "m_trace (ev_poller (upd_client c g w)) = m_trace (ev_poller w)"
  "client c (upd_poller (\<lambda>m. m\<lparr>m_kernel := k\<rparr>) w) = client c w" "ev_files (upd_poller (\<lambda>m. m\<lparr>m_kernel := k\<rparr>) w) = ev_files w"
  "m_trace (ev_poller (upd_poller (\<lambda>m. m\<lparr>m_kernel := k\<rparr>) w)) = m_trace (ev_poller w)"
  by (simp_all add: upd_client_def upd_poller_def client_def)

lemma flush_wrote:
  assumes "b = pending (cs_buf (client c w))" "b \<noteq> []" "cs_fe (client c w) = Some f" "0 < n" "n \<le> length b"
    "sys_write (en_system E) (f_fd (ev_files w f)) b (m_kernel (ev_poller w)) = (k, Wrote n)"
  shows "client_flush E c w = Some (upd_client c (\<lambda>x. x\<lparr>cs_buf := Some (drop n b)\<rparr>)
    (happen (Sent (Client_Object c) (take n b)) (upd_poller (\<lambda>m. m\<lparr>m_kernel := k\<rparr>) w)), int n)"
  using assms by (auto simp: client_flush_def flush_bytes_def write_out_def in_kernel_def written_ret_def Let_def)

text \<open>
  C21: after the loop has written what was in the buffer of a client, the function given to \<open>on_write\<close> is called
  if bytes are left; when everything has been written, the user is told nothing.
\<close>

theorem flushed_client_is_silent:
  assumes "careful (on_epoll ctl clock wait E)" "client_of f w = Some c" "cs_on_write (client c w) = Some fn"
    "buf = pending (cs_buf (client c w))" "buf \<noteq> []" "cs_fe (client c w) = Some f" "0 < n" "n \<le> length buf"
    "sys_write (en_system E) (f_fd (ev_files w f)) buf (m_kernel (ev_poller w)) = (k, Wrote n)"
    "client_write_callback (on_epoll ctl clock wait E) f w = Some w'"
  shows "if n = length buf then m_trace (ev_poller w') = m_trace (ev_poller w) @ [Sent (Client_Object c) buf]
    else prefix (m_trace (ev_poller w) @ [Sent (Client_Object c) (take n buf), Told fn (Writable (f_fd (ev_files w f)) False)])
      (m_trace (ev_poller w'))"
proof -
  let ?E = "on_epoll ctl clock wait E"
  let ?w1 = "stop_write_timer c (upd_client c (\<lambda>x. x\<lparr>cs_flags := cs_flags x AND NOT client_f_wtimer\<rparr>) w)"
  let ?w2 = "upd_client c (\<lambda>x. x\<lparr>cs_buf := Some (drop n buf)\<rparr>)
    (happen (Sent (Client_Object c) (take n buf)) (upd_poller (\<lambda>m. m\<lparr>m_kernel := k\<rparr>) ?w1))"
  have f: "client_flush ?E c ?w1 = Some (?w2, int n)"
    using assms(4-9) by (intro flush_wrote) (simp_all add: on_epoll_def kernel_fields)
  have t: "m_trace (ev_poller ?w2) = m_trace (ev_poller w) @ [Sent (Client_Object c) (take n buf)]"
    by (simp add: kernel_fields)
  show ?thesis
  proof (cases "n = length buf")
    case True
    then have "w' = ?w2"
      using assms(2,4,5,6,10) f by (auto simp: client_write_callback_def Let_def pending_def split: if_splits)
    with t True show ?thesis by simp
  next
    case False
    then have "tell_if ?E (Some fn) (Writable (f_fd (ev_files w f)) False) ?w2 = Some w'"
      using assms(2-8,10) f by (auto simp: client_write_callback_def Let_def pending_def kernel_fields split: if_splits)
    from cpp.tell_if_told [OF assms(1) this] False t show ?thesis by simp
  qed
qed

theorem flushed_client_is_silent_witness:
  "\<exists>w w'. run_program demo_env [Method (Client_Open 7), Method (On_Write 2 True), Method (Write_Data 2 0 [1, 2, 3] 0)] demo_start = Some w \<and>
     pending (cs_buf (client 2 w)) = [3] \<and> client_write_callback demo_env 3 w = Some w' \<and>
     m_trace (ev_poller w') = m_trace (ev_poller w) @ [Sent (Client_Object 2) [3]]"
proof -
  let ?cs = "[Method (Client_Open 7), Method (On_Write 2 True), Method (Write_Data 2 0 [1, 2, 3] 0)] :: bool command list"
  have "\<exists>w w'. run_program demo_env ?cs demo_start = Some w \<and> client_write_callback demo_env 3 w = Some w' \<and>
      client_of 3 w = Some 2 \<and> cs_on_write (client 2 w) = Some True \<and> [3] = pending (cs_buf (client 2 w)) \<and> cs_fe (client 2 w) = Some 3"
    by (simp add: demo)
  then obtain w w' where w: "run_program demo_env ?cs demo_start = Some w" "client_write_callback demo_env 3 w = Some w'"
      "client_of 3 w = Some 2" "cs_on_write (client 2 w) = Some True" "[3] = pending (cs_buf (client 2 w))" "cs_fe (client 2 w) = Some 3"
    by blast
  have "if 1 = length [3 :: byte] then m_trace (ev_poller w') = m_trace (ev_poller w) @ [Sent (Client_Object 2) [3]]
    else prefix (m_trace (ev_poller w) @ [Sent (Client_Object 2) (take 1 [3]), Told True (Writable (f_fd (ev_files w 3)) False)])
      (m_trace (ev_poller w'))"
    by (rule flushed_client_is_silent [OF demo_careful [unfolded demo_env_def] w(3-5) _ w(6) _ _ _ w(2) [unfolded demo_env_def]])
      (simp_all add: demo_system_def)
  then have "m_trace (ev_poller w') = m_trace (ev_poller w) @ [Sent (Client_Object 2) [3]]" by simp
  with w(1,2,5) show ?thesis by (metis (no_types))
qed

text \<open>An \<open>event_proc\<close> does the opposite.\<close>

lemma proc_flush_wrote:
  assumes "b = pending (ep_buf (proc p w))" "b \<noteq> []" "ep_fe (proc p w) = Some f" "0 < n" "n \<le> length b"
    "sys_write (en_system E) (f_fd (ev_files w f)) b (m_kernel (ev_poller w)) = (k, Wrote n)"
  shows "proc_flush E p w = Some (upd_proc p (\<lambda>x. x\<lparr>ep_buf := Some (drop n b)\<rparr>)
    (happen (Sent (Proc_Object p) (take n b)) (upd_poller (\<lambda>m. m\<lparr>m_kernel := k\<rparr>) w)), int n)"
  using assms by (auto simp: proc_flush_def flush_bytes_def write_out_def in_kernel_def written_ret_def Let_def)

lemma proc_kernel_fields:
  "m_trace (ev_poller (upd_proc p g w)) = m_trace (ev_poller w)" "proc p (upd_poller (\<lambda>m. m\<lparr>m_kernel := k\<rparr>) w) = proc p w"
  by (simp_all add: upd_proc_def upd_poller_def proc_def)

text \<open>
  C20: when the loop has written everything in the buffer of an \<open>event_proc\<close>, the \<open>on_write\<close> of the class derived from it is called;
  while bytes are left, it is not.
\<close>

theorem flushed_proc_tells:
  assumes "careful (on_epoll ctl clock wait E)" "proc_of_file f w = Some p" "ep_class (proc p w) = Derived fn"
    "buf = pending (ep_buf (proc p w))" "buf \<noteq> []" "ep_fe (proc p w) = Some f" "0 < n" "n \<le> length buf"
    "sys_write (en_system E) (f_fd (ev_files w f)) buf (m_kernel (ev_poller w)) = (k, Wrote n)"
    "proc_write_proc (on_epoll ctl clock wait E) f w = Some w'"
  shows "if n = length buf then prefix (m_trace (ev_poller w) @ [Sent (Proc_Object p) buf, Told fn (Proc_Writable p)]) (m_trace (ev_poller w'))
    else m_trace (ev_poller w') = m_trace (ev_poller w) @ [Sent (Proc_Object p) (take n buf)]"
proof -
  let ?E = "on_epoll ctl clock wait E"
  let ?w2 = "upd_proc p (\<lambda>x. x\<lparr>ep_buf := Some (drop n buf)\<rparr>)
    (happen (Sent (Proc_Object p) (take n buf)) (upd_poller (\<lambda>m. m\<lparr>m_kernel := k\<rparr>) w))"
  have f: "proc_flush ?E p w = Some (?w2, int n)"
    using assms(4-9) by (intro proc_flush_wrote) (simp_all add: on_epoll_def)
  have t: "m_trace (ev_poller ?w2) = m_trace (ev_poller w) @ [Sent (Proc_Object p) (take n buf)]"
    by (simp add: proc_kernel_fields kernel_fields)
  show ?thesis
  proof (cases "n = length buf")
    case True
    then obtain b where "tell ?E fn (Proc_Writable p) ?w2 = Some (w', b)"
      using assms(2-5,7,10) f
      by (auto simp: proc_write_proc_def proc_on_write_def pending_def proc_kernel_fields split: if_splits)
    from cpp.tell_told [OF assms(1) this] True t show ?thesis by simp
  next
    case False
    then have "w' = ?w2"
      using assms(2-5,7,8,10) f
      by (auto simp: proc_write_proc_def pending_def proc_kernel_fields split: if_splits)
    with t False show ?thesis by simp
  qed
qed

theorem flushed_proc_tells_witness:
  "\<exists>w w'. run_program demo_env [Method (Proc_New (Derived True)), Method (Proc_Bind 2 7), Method (Proc_Write_Data 2 0 [1, 2, 3])] demo_start = Some w \<and>
     pending (ep_buf (proc 2 w)) = [3] \<and> proc_write_proc demo_env 3 w = Some w' \<and>
     Told True (Proc_Writable 2) \<in> set (m_trace (ev_poller w'))"
proof -
  let ?cs = "[Method (Proc_New (Derived True)), Method (Proc_Bind 2 7), Method (Proc_Write_Data 2 0 [1, 2, 3])] :: bool command list"
  note d = proc_new_def proc_bind_def proc_write_def proc_write_await_def proc_flush_def proc_write_proc_def proc_of_file_def proc_on_write_def
  have "\<exists>w w'. run_program demo_env ?cs demo_start = Some w \<and> proc_write_proc demo_env 3 w = Some w' \<and>
      proc_of_file 3 w = Some 2 \<and> ep_class (proc 2 w) = Derived True \<and> [3] = pending (ep_buf (proc 2 w)) \<and> ep_fe (proc 2 w) = Some 3"
    by (simp add: demo d)
  then obtain w w' where w: "run_program demo_env ?cs demo_start = Some w" "proc_write_proc demo_env 3 w = Some w'"
      "proc_of_file 3 w = Some 2" "ep_class (proc 2 w) = Derived True" "[3] = pending (ep_buf (proc 2 w))" "ep_fe (proc 2 w) = Some 3"
    by blast
  have "if 1 = length [3 :: byte] then prefix (m_trace (ev_poller w) @ [Sent (Proc_Object 2) [3], Told True (Proc_Writable 2)]) (m_trace (ev_poller w'))
    else m_trace (ev_poller w') = m_trace (ev_poller w) @ [Sent (Proc_Object 2) (take 1 [3])]"
    by (rule flushed_proc_tells [OF demo_careful [unfolded demo_env_def] w(3-5) _ w(6) _ _ _ w(2) [unfolded demo_env_def]])
      (simp_all add: demo_system_def)
  then have "Told True (Proc_Writable 2) \<in> set (m_trace (ev_poller w'))" by (auto dest: set_mono_prefix)
  with w(1,2,5) show ?thesis by (metis (no_types))
qed

text \<open>
  C23: a \<open>listen\<close> that fails leaks the socket: \<open>server_socket::open\<close> forgets it before it closes it, and closes -1
  instead.  When \<open>bind\<close> fails, the socket is closed.
\<close>

theorem server_open_leaks:
  assumes "server p w = Some s" "sys_socket (en_system E) (m_kernel (ev_poller w)) = (k1, fd)" "0 \<le> fd"
    "sys_bind (en_system E) fd ip port (sys_options (en_system E) fd k1) = (k2, b)"
    "sys_listen (en_system E) fd (sv_backlog s) k2 = (k3, l)" "b < 0 \<or> l < 0"
  shows "\<exists>w'. server_open E p ip port w = Some (w', False) \<and> proc_sock_handle p w' = - 1 \<and>
    m_kernel (ev_poller w') = (if b < 0 then sys_close (en_system E) fd k2 else sys_close (en_system E) (- 1) k3)"
  using assms
  by (auto simp: server_open_def server_def in_kernel_def kernel_do_def upd_server_def upd_proc_def upd_poller_def proc_def
    proc_sock_handle_def Let_def split: proc_class.splits)

theorem server_open_leaks_witness:
  "\<exists>w'. server_open (demo_env\<lparr>en_system := demo_system\<lparr>sys_listen := \<lambda>fd n k. (k, - 1), sys_socket := \<lambda>k. (k(8 \<mapsto> (0, 0)), 8),
         sys_close := \<lambda>fd k. k(fd := None)\<rparr>\<rparr>) 2 ''0.0.0.0'' 80 (fst (proc_new (Server (server_socket_new 100)) demo_start)) = Some (w', False) \<and>
     m_kernel (ev_poller w') 8 \<noteq> None"
proof -
  let ?w = "fst (proc_new (Server (server_socket_new 100)) demo_start)"
  have s: "server 2 ?w = Some (server_socket_new 100)" "m_kernel (ev_poller ?w) = Map.empty"
    by (simp_all add: server_def proc_new_def demo_world demo_memory server_socket_new_def)
  from server_open_leaks [OF s(1), of "demo_env\<lparr>en_system := demo_system\<lparr>sys_listen := \<lambda>fd n k. (k, - 1),
      sys_socket := \<lambda>k. (k(8 \<mapsto> (0, 0)), 8), sys_close := \<lambda>fd k. k(fd := None)\<rparr>\<rparr>"] s(2)
  show ?thesis by (fastforce simp: demo_system_def)
qed

text \<open>
  A client that has been asked to connect and has no function for it: when the connection is made or fails, the callback
  calls the function object all the same, which is empty, and the program ends with an exception.
\<close>

theorem connect_without_function:
  assumes "client_of f w = Some c" "cs_on_connect (client c w) = None"
  shows "client_connect_callback (on_epoll ctl clock wait E) f w = None"
proof (rule ccontr)
  let ?w0 = "upd_client c (\<lambda>x. x\<lparr>cs_flags := cs_flags x AND NOT client_f_wtimer\<rparr>) w"
  let ?w1 = "if ct_connecting (need_timer (cs_write_timer (client c ?w0)))
     then event_del_timer (Write_Timer c) (upd_write_timer c (\<lambda>t. t\<lparr>ct_waiting := False, ct_connecting := False\<rparr>) ?w0) else ?w0"
  have c1: "cs_on_connect (client c ?w1) = None" using assms(2) by (simp add: upd_write_timer_def)
  have no: "False" if "alike ?w1 w2" "alike w2 w3" "cs_on_connect (client c w3) = Some fn" for w2 w3 fn
    using that(3) unfolding alikeD(2) [OF that(2)] alikeD(2) [OF that(1)] c1 by simp
  assume "client_connect_callback (on_epoll ctl clock wait E) f w \<noteq> None"
  then obtain w' where "client_connect_callback (on_epoll ctl clock wait E) f w = Some w'" by blast
  then show False
    unfolding client_connect_callback_def Let_def assms(1) bind.simps
    by (elim path) (drule in_kernel_alike, drule cpp.del_alike, erule (2) no)+
qed

theorem connect_without_function_witness:
  "\<exists>w. run_program demo_env [Method Client_New, Method (Connect_Await 2 ''127.0.0.1'' 80 0)] demo_start = Some w \<and>
     client_connect_callback demo_env 3 w = None"
proof -
  let ?cs = "[Method Client_New, Method (Connect_Await 2 ''127.0.0.1'' 80 0)] :: bool command list"
  have "\<exists>w. run_program demo_env ?cs demo_start = Some w \<and> client_of 3 w = Some 2 \<and> cs_on_connect (client 2 w) = None"
    by (simp add: demo client_connect_await_def EINPROGRESS_def)
  then show ?thesis using connect_without_function unfolding demo_env_def by blast
qed

end
