(* ===== verification/Cpp_Wiring.thy ===== *)
theory Cpp_Wiring
  imports Cpp_System
begin

text \<open>
  The callbacks get their object by a cast: \<open>NIO_FILE.ctx\<close> is a \<open>void *\<close>, which the static methods of
  \<open>client_socket\<close> and of \<open>event_proc\<close> take for one of their own class (cpp/src/client_socket.cpp,
  cpp/src/event_proc.cpp).  Here it is proved that no program can make a cast wrong, and what the loop
  owes to a client whose bytes are waiting.
\<close>

subsection \<open>Well-wired worlds\<close>

definition right_owner :: "callback \<Rightarrow> owner option \<Rightarrow> bool" where
  "right_owner p ob \<longleftrightarrow>
     (if p \<in> {Client_Read, Client_Write, Client_Connect} then \<exists>c. ob = Some (Client_Object c) else \<exists>q. ob = Some (Proc_Object q))"

text \<open>What the typing is about: the callbacks of the descriptors, their owners, and the descriptors of the objects.\<close>

record wires =
  wi_proc :: "nat \<Rightarrow> direction \<Rightarrow> callback option"
  wi_ctx :: "nat \<Rightarrow> owner option"
  wi_fresh :: nat
  wi_client :: "nat \<Rightarrow> nat option"
  wi_object :: "nat \<Rightarrow> nat option"

definition wires :: "('h, 'k) world \<Rightarrow> wires" where
  "wires w = \<lparr>wi_proc = (\<lambda>f d. proc_of d (ev_files w f)), wi_ctx = m_ctx (ev_poller w), wi_fresh = m_fresh (ev_poller w),
     wi_client = (\<lambda>c. cs_fe (client c w)), wi_object = (\<lambda>p. ep_fe (proc p w))\<rparr>"

lemma wires_fields [simp]:
  "wi_proc (wires w) f d = proc_of d (ev_files w f)" "wi_ctx (wires w) = m_ctx (ev_poller w)" "wi_fresh (wires w) = m_fresh (ev_poller w)"
  "wi_client (wires w) c = cs_fe (client c w)" "wi_object (wires w) p = ep_fe (proc p w)"
  by (simp_all add: wires_def)

definition typed :: "wires \<Rightarrow> bool" where
  "typed u \<longleftrightarrow> (\<forall>f d p. wi_proc u f d = Some p \<longrightarrow> right_owner p (wi_ctx u f)) \<and>
     (\<forall>c f. wi_client u c = Some f \<longrightarrow> wi_ctx u f = Some (Client_Object c)) \<and>
     (\<forall>p f. wi_object u p = Some f \<longrightarrow> wi_ctx u f = Some (Proc_Object p)) \<and>
     (\<forall>f. wi_ctx u f \<noteq> None \<longrightarrow> f < wi_fresh u)"

text \<open>Callbacks that are taken out leave a world well typed.\<close>

definition tamer :: "('h, 'k) world \<Rightarrow> ('h, 'k) world \<Rightarrow> bool" where
  "tamer w w' \<longleftrightarrow> wi_ctx (wires w') = wi_ctx (wires w) \<and> wi_fresh (wires w') = wi_fresh (wires w) \<and>
     wi_client (wires w') = wi_client (wires w) \<and> wi_object (wires w') = wi_object (wires w) \<and>
     (\<forall>f d. wi_proc (wires w') f d = None \<or> wi_proc (wires w') f d = wi_proc (wires w) f d)"

lemma tamer_refl [simp]: "tamer w w"
  by (simp add: tamer_def)

lemma tamer_trans: "tamer u v \<Longrightarrow> tamer v w \<Longrightarrow> tamer u w"
  unfolding tamer_def by metis

lemma tamer_typed: "tamer w w' \<Longrightarrow> typed (wires w) \<Longrightarrow> typed (wires w')"
  unfolding tamer_def typed_def by (metis option.distinct(1))

text \<open>Steps that do not touch the wires at all.\<close>

lemma tamer_upd_client: "cs_fe (g (client c w)) = cs_fe (client c w) \<Longrightarrow> tamer w (upd_client c g w)"
  by (auto simp: tamer_def wires_def fun_eq_iff)

lemma tamer_upd_proc: "ep_fe (g (proc p w)) = ep_fe (proc p w) \<Longrightarrow> tamer w (upd_proc p g w)"
  by (auto simp: tamer_def wires_def fun_eq_iff)

lemma tamer_upd_poller:
  assumes "m_ctx (g (ev_poller w)) = m_ctx (ev_poller w)" "m_fresh (g (ev_poller w)) = m_fresh (ev_poller w)"
    "m_clients (g (ev_poller w)) = m_clients (ev_poller w)" "m_procs (g (ev_poller w)) = m_procs (ev_poller w)"
  shows "tamer w (upd_poller g w)"
  using assms by (simp add: tamer_def wires_def client_def proc_def)

lemma tamer_happen: "tamer w (happen x w)"
  unfolding happen_def by (rule tamer_upd_poller) simp_all

lemma tamer_timers:
  "tamer w (event_add_timer t ms w)" "tamer w (event_del_timer t w)" "tamer w (event_reset_timer t ms w)"
  unfolding event_add_timer_def event_del_timer_def event_reset_timer_def by (rule tamer_upd_poller; simp)+

lemma tamer_kernel_do: "tamer w (kernel_do g w)"
  unfolding kernel_do_def by (rule tamer_upd_poller) simp_all

lemma tamer_in_kernel: "in_kernel g w = (w', r) \<Longrightarrow> tamer w w'"
  by (auto simp: in_kernel_def split: prod.splits intro: tamer_upd_poller)

lemma tamer_upd_timer: "tamer w (upd_read_timer c g w)" "tamer w (upd_write_timer c g w)"
  unfolding upd_read_timer_def upd_write_timer_def by (rule tamer_upd_client; simp)+

lemma tamer_stop_timer: "tamer w (stop_read_timer c w)" "tamer w (stop_write_timer c w)"
  unfolding stop_read_timer_def stop_write_timer_def
  by (auto intro: tamer_trans [OF tamer_timers(2) tamer_upd_timer(1)] tamer_trans [OF tamer_timers(2) tamer_upd_timer(2)])

lemma tamer_delay: "tamer w (delay_close_client c w)" "tamer w (delay_close_proc p w)"
proof -
  show "tamer w (delay_close_client c w)"
    unfolding delay_close_client_def by (auto intro!: tamer_trans [OF tamer_upd_client tamer_upd_poller])
  show "tamer w (delay_close_proc p w)"
    unfolding delay_close_proc_def by (auto intro!: tamer_trans [OF tamer_upd_proc tamer_upd_poller])
qed

lemma tamer_file:
  "(\<And>d. proc_of d (g (ev_files w f)) = proc_of d (ev_files w f) \<or> proc_of d (g (ev_files w f)) = None) \<Longrightarrow> tamer w (upd_file f g w)"
  by (auto simp: tamer_def wires_def client_def proc_def)

lemma tamer_then_file:
  "tamer w v \<Longrightarrow> (\<And>d. proc_of d (g (ev_files v f)) = proc_of d (ev_files v f) \<or> proc_of d (g (ev_files v f)) = None) \<Longrightarrow>
    tamer w (upd_file f g v)"
  by (erule tamer_trans) (rule tamer_file)

lemma tamer_rings: "tamer w (w\<lparr>ev_rings := h\<rparr>)"
  by (simp add: tamer_def wires_def client_def proc_def)

lemma tamer_enqueue: "tamer w (enqueue f w)"
  unfolding enqueue_def by (rule tamer_rings)

lemma tamer_write_out: "write_out sys ob fd data w = (w', r) \<Longrightarrow> tamer w w'"
  by (auto simp: write_out_def Let_def split: prod.splits written.splits dest!: tamer_in_kernel intro: tamer_trans tamer_happen)

lemma tamer_flush_bytes: "flush_bytes sys ob fd b w = (w', b', r) \<Longrightarrow> tamer w w'"
  by (auto simp: flush_bytes_def Let_def split: prod.splits if_splits dest!: tamer_write_out)

text \<open>One step after another.\<close>

lemmas tamer_steps =
  tamer_upd_timer(1) [THEN tamer_trans [rotated]] tamer_upd_timer(2) [THEN tamer_trans [rotated]]
  tamer_timers(1) [THEN tamer_trans [rotated]] tamer_timers(2) [THEN tamer_trans [rotated]] tamer_timers(3) [THEN tamer_trans [rotated]]
  tamer_kernel_do [THEN tamer_trans [rotated]] tamer_happen [THEN tamer_trans [rotated]]
  tamer_stop_timer(1) [THEN tamer_trans [rotated]] tamer_stop_timer(2) [THEN tamer_trans [rotated]]
  tamer_delay(1) [THEN tamer_trans [rotated]] tamer_delay(2) [THEN tamer_trans [rotated]]
  tamer_upd_client [THEN tamer_trans [rotated]] tamer_upd_proc [THEN tamer_trans [rotated]]

text \<open>A step that keeps the typing, and the owner that a descriptor has.\<close>

definition keeps :: "('h, 'k) world \<Rightarrow> ('h, 'k) world \<Rightarrow> bool" where
  "keeps w w' \<longleftrightarrow> (typed (wires w) \<longrightarrow> typed (wires w') \<and> wi_ctx (wires w) \<subseteq>\<^sub>m wi_ctx (wires w'))"

lemma keeps_refl [simp]: "keeps w w"
  by (simp add: keeps_def)

lemma keeps_trans: "keeps u v \<Longrightarrow> keeps v w \<Longrightarrow> keeps u w"
  unfolding keeps_def by (blast intro: map_le_trans)

lemma tamer_keeps: "tamer w w' \<Longrightarrow> keeps w w'"
  by (simp add: keeps_def tamer_typed) (simp add: tamer_def)

lemma keeps_tamer: "keeps u v \<Longrightarrow> tamer v w \<Longrightarrow> keeps u w"
  using keeps_trans tamer_keeps by blast

lemma keeps_after: "keeps v w \<Longrightarrow> tamer u v \<Longrightarrow> keeps u w"
  using keeps_trans tamer_keeps by blast

text \<open>The steps that make objects and descriptors, on the wires.\<close>

lemma wires_upd_client: "wires (upd_client c g w) = (wires w)\<lparr>wi_client := (wi_client (wires w))(c := cs_fe (g (client c w)))\<rparr>"
  by (auto simp: wires_def fun_eq_iff)

lemma wires_upd_proc: "wires (upd_proc p g w) = (wires w)\<lparr>wi_object := (wi_object (wires w))(p := ep_fe (g (proc p w)))\<rparr>"
  by (auto simp: wires_def fun_eq_iff)

lemma wires_set_ctx: "wires (nio_file_set_ctx f ob w) = (wires w)\<lparr>wi_ctx := (wi_ctx (wires w))(f := Some ob)\<rparr>"
  by (auto simp: wires_def fun_eq_iff nio_file_set_ctx_def client_def proc_def)

lemma new_address_wires:
  "new_address w = (w', a) \<Longrightarrow> a = wi_fresh (wires w) \<and> wires w' = (wires w)\<lparr>wi_fresh := Suc (wi_fresh (wires w))\<rparr>"
  by (auto simp: wires_def fun_eq_iff new_address_def client_def proc_def)

lemma wires_order:
  "u\<lparr>wi_fresh := a, wi_ctx := x\<rparr> = u\<lparr>wi_ctx := x, wi_fresh := a\<rparr>" "u\<lparr>wi_client := b, wi_ctx := x\<rparr> = u\<lparr>wi_ctx := x, wi_client := b\<rparr>"
  "u\<lparr>wi_object := b, wi_ctx := x\<rparr> = u\<lparr>wi_ctx := x, wi_object := b\<rparr>"
  by simp_all

lemma file_alloc_wires:
  assumes "nio_file_alloc fd w = (w', f)"
  shows "f = wi_fresh (wires w)" "wires w' = (wires w)\<lparr>wi_proc := (wi_proc (wires w))(f := (\<lambda>d. None)),
    wi_ctx := (wi_ctx (wires w))(f := None), wi_fresh := Suc f\<rparr>"
proof -
  have p: "proc_of d (fe\<lparr>f_fd := fd, f_id := - 1, f_type := TYPE_NONE, f_oper := 0, f_mask := NIO_EVENT_NONE,
      f_r_proc := None, f_w_proc := None\<rparr>) = None" for d and fe :: "callback nio_file" by (cases d) simp_all
  show "f = wi_fresh (wires w)" using assms by (auto simp: nio_file_alloc_def new_address_def Let_def)
  show "wires w' = (wires w)\<lparr>wi_proc := (wi_proc (wires w))(f := (\<lambda>d. None)), wi_ctx := (wi_ctx (wires w))(f := None), wi_fresh := Suc f\<rparr>"
    using assms by (auto simp: nio_file_alloc_def new_address_def Let_def nio_file_init_def wires_def fun_eq_iff client_def proc_def p)
qed

subsection \<open>The poller leaves the callbacks alone\<close>

definition same_procs :: "('h, 'k) world \<Rightarrow> ('h, 'k) world \<Rightarrow> bool" where
  "same_procs w w' \<longleftrightarrow> (\<forall>f d. proc_of d (ev_files w' f) = proc_of d (ev_files w f))"

lemma steady_tamer: "steady w w' \<Longrightarrow> same_procs w w' \<Longrightarrow> tamer w w'"
  by (auto simp: steady_def same_procs_def tamer_def wires_def client_def proc_def)

lemma stamped_tamer: "stamped w w' \<Longrightarrow> tamer w w'"
  by (auto simp: stamped_def tamer_def wires_def client_def proc_def)

locale wired_poller = cpp_poller +
  assumes add_procs: "op_add (en_ops E) d f w = Some (w', r) \<Longrightarrow> same_procs w w'"
    and del_procs: "op_del (en_ops E) d f w = Some (w', r) \<Longrightarrow> same_procs w w'"
    and del_both_procs: "op_del_readwrite (en_ops E) = Some del \<Longrightarrow> del f w = Some (w', r) \<Longrightarrow> same_procs w w'"
    and fflush_procs: "op_event_fflush (en_ops E) = Some fflush \<Longrightarrow> fflush w = Some (w', r) \<Longrightarrow> same_procs w w'"
begin

lemma op_tamer:
  "op_add (en_ops E) d f w = Some (w', r) \<Longrightarrow> tamer w w'" "op_del (en_ops E) d f w = Some (w', r) \<Longrightarrow> tamer w w'"
  "op_del_readwrite (en_ops E) = Some del \<Longrightarrow> del f w = Some (w', r) \<Longrightarrow> tamer w w'"
  "op_event_fflush (en_ops E) = Some fflush \<Longrightarrow> fflush w = Some (w', r) \<Longrightarrow> tamer w w'"
  by (blast intro: steady_tamer add_steady add_procs del_steady del_procs del_both_steady del_both_procs fflush_steady fflush_procs)+

lemma op_if_tamer:
  "(if b then map_option fst (op_add (en_ops E) d f w) else Some w) = Some w' \<Longrightarrow> tamer w w'"
  "(if b then map_option fst (op_del (en_ops E) d f w) else Some w) = Some w' \<Longrightarrow> tamer w w'"
  by (auto split: if_splits dest: op_tamer)

lemma event_del_tamer: "event_del d (en_ops E) f w = Some w' \<Longrightarrow> tamer w w'"
proof -
  let ?w1 = "upd_file f (\<lambda>fe. fe\<lparr>f_oper := f_oper fe AND NOT (add_bit d)\<rparr>) w"
  assume "event_del d (en_ops E) f w = Some w'"
  then obtain w2 where w2: "(if has (f_mask (ev_files ?w1 f)) (ev_bit d) then
              if ev_flags ?w1 AND NIO_EVENT_DIRECT \<noteq> 0 then map_option fst (op_del (en_ops E) d f ?w1)
              else if r_parent (ev_rings ?w1) f = f
              then Some (upd_file f (\<lambda>fe. fe\<lparr>f_oper := f_oper fe OR del_bit d\<rparr>) (enqueue f ?w1))
              else Some (upd_file f (\<lambda>fe. fe\<lparr>f_oper := f_oper fe OR del_bit d\<rparr>) ?w1)
            else Some ?w1) = Some w2" "w' = upd_file f (set_proc d None) w2"
    unfolding event_del_def Let_def by (elim bind_Some) simp
  have "tamer w ?w1" by (rule tamer_file) simp
  moreover have "tamer ?w1 w2"
    using w2(1) by (auto split: if_splits dest: op_tamer(2) intro: tamer_file tamer_trans [OF tamer_enqueue tamer_file])
  moreover have "tamer w2 w'" unfolding w2(2) by (rule tamer_file) auto
  ultimately show ?thesis by (blast intro: tamer_trans)
qed

lemma event_add_wires:
  assumes "event_add d (en_seekable E) (en_ops E) f p w = Some (w', r)"
  obtains (refused) "tamer w w'" "r = 0"
    | (added) w1 where "tamer w w1" "wires w' = (wires w1)\<lparr>wi_proc := (wi_proc (wires w1))(f := (wi_proc (wires w1) f)(d := Some p))\<rparr>" "r = 1"
proof -
  have set: "wires (upd_file f (\<lambda>fe. set_proc d (Some p) (fe\<lparr>f_oper := g fe\<rparr>)) v) =
      (wires v)\<lparr>wi_proc := (wi_proc (wires v))(f := (wi_proc (wires v) f)(d := Some p))\<rparr>"
    "wires (upd_file f (set_proc d (Some p)) v) = (wires v)\<lparr>wi_proc := (wi_proc (wires v))(f := (wi_proc (wires v) f)(d := Some p))\<rparr>" for g v
    by (auto simp: wires_def fun_eq_iff client_def proc_def)
  let ?w1 = "upd_file f (\<lambda>fe. fe\<lparr>f_oper := f_oper fe AND NOT (del_bit d)\<rparr>) w"
  define w2 where "w2 = (if f_type (ev_files ?w1 f) = TYPE_NONE then upd_file f (\<lambda>fe. fe\<lparr>f_type := TYPE_SOCK\<rparr>) ?w1 else ?w1)"
  have t1: "tamer w ?w1" by (rule tamer_file) simp
  have t2: "tamer w w2" unfolding w2_def using t1 by (auto intro: tamer_then_file)
  note a = assms [unfolded event_add_def Let_def, folded w2_def]
  show thesis
  proof (cases "f_type (ev_files w f) = TYPE_NOSOCK \<or> f_fd (ev_files w f) \<ge> ev_setsize w")
    case True
    with a have "w' = w" "r = 0" by (auto split: if_splits)
    then show thesis by (intro refused) simp_all
  next
    case False
    note b = a [unfolded if_not_P [OF False [unfolded de_Morgan_disj, THEN conjunct1]] if_not_P [OF False [unfolded de_Morgan_disj, THEN conjunct2]]]
    show thesis
    proof (cases "\<not> has (f_mask (ev_files ?w1 f)) (ev_bit d) \<or> nio_event_isset_oneshot ?w1")
      case True
      note c = b [unfolded if_P [OF True]]
      show thesis
      proof (cases "f_type (ev_files ?w1 f) = TYPE_NONE \<and> en_seekable E (f_fd (ev_files ?w1 f))")
        case True
        from c [unfolded if_P [OF True]] have "w' = upd_file f (\<lambda>fe. fe\<lparr>f_type := TYPE_NOSOCK\<rparr>) ?w1" "r = 0" by simp_all
        with t1 show thesis by (intro refused) (auto intro: tamer_then_file)
      next
        case False
        from c [unfolded if_not_P [OF False]] obtain w3 where w3: "(if ev_flags w2 AND NIO_EVENT_DIRECT \<noteq> 0 then map_option fst (op_add (en_ops E) d f w2)
            else if r_parent (ev_rings w2) f = f then Some (enqueue f w2) else Some w2) = Some w3"
          "w' = upd_file f (\<lambda>fe. set_proc d (Some p) (fe\<lparr>f_oper := f_oper fe OR add_bit d\<rparr>)) w3" "r = 1"
          by (elim bind_Some) simp
        have "tamer w2 w3" using w3(1) by (elim if_Some) (auto dest: op_tamer(1) intro: tamer_enqueue)
        with t2 have "tamer w w3" by (rule tamer_trans)
        then show thesis by (rule added) (simp_all only: w3 set)
      qed
    next
      case False
      from b [unfolded if_not_P [OF False]] have "w' = upd_file f (set_proc d (Some p)) ?w1" "r = 1" by simp_all
      with t1 show thesis by (intro added [of ?w1]) (simp_all only: set)
    qed
  qed
qed

lemma event_add_keeps:
  assumes "event_add d (en_seekable E) (en_ops E) f p w = Some (w', r)"
    "typed (wires w) \<Longrightarrow> right_owner p (wi_ctx (wires w) f)"
  shows "keeps w w'"
  using assms(1)
proof (rule event_add_wires)
  fix w1 assume t: "tamer w w1"
    and w': "wires w' = (wires w1)\<lparr>wi_proc := (wi_proc (wires w1))(f := (wi_proc (wires w1) f)(d := Some p))\<rparr>"
  show "keeps w w'"
    unfolding keeps_def
  proof
    assume typed: "typed (wires w)"
    then have "typed (wires w1)" "right_owner p (wi_ctx (wires w1) f)" "wi_ctx (wires w1) = wi_ctx (wires w)"
      using t assms(2) tamer_typed by (auto simp: tamer_def)
    then show "typed (wires w') \<and> wi_ctx (wires w) \<subseteq>\<^sub>m wi_ctx (wires w')" unfolding w' typed_def by simp
  qed
qed (rule tamer_keeps)

lemma del_readwrite_tamer:
  assumes "nio_event_del_readwrite (en_ops E) f w = Some w'"
  shows "tamer w w'"
proof -
  obtain w1 where w1: "(case op_del_readwrite (en_ops E) of
        Some del \<Rightarrow>
          if f_mask (ev_files w f) AND (NIO_EVENT_READ OR NIO_EVENT_WRITE) \<noteq> 0
          then map_option fst (del f w) else Some w
      | None \<Rightarrow>
          Option.bind
            (if f_mask (ev_files w f) AND NIO_EVENT_READ \<noteq> 0 then map_option fst (op_del (en_ops E) Reading f w) else Some w)
            (\<lambda>w. if f_mask (ev_files w f) AND NIO_EVENT_WRITE \<noteq> 0 then map_option fst (op_del (en_ops E) Writing f w) else Some w)) =
     Some w1"
    and w': "(let e = (if r_parent (ev_rings w1) f \<noteq> f then w1\<lparr>ev_rings := nio_ring_detach f (ev_rings w1)\<rparr> else w1);
                e = upd_file f (\<lambda>fe. fe\<lparr>f_oper := 0\<rparr>) e
            in case op_event_fflush (en_ops E) of Some fflush \<Rightarrow> map_option fst (fflush e) | None \<Rightarrow> Some e) = Some w'"
    using assms unfolding nio_event_del_readwrite_def op_del.simps [symmetric] by (elim bind_Some)
  from w1 have "tamer w w1"
  proof (cases "op_del_readwrite (en_ops E)")
    case None
    with w1 show ?thesis by (auto elim!: bind_Some simp del: op_del.simps dest!: op_if_tamer(2) intro: tamer_trans)
  next
    case (Some del)
    with w1 show ?thesis by (auto split: if_splits dest: op_tamer(3))
  qed
  moreover have "tamer w1 (upd_file f (\<lambda>fe. fe\<lparr>f_oper := 0\<rparr>) (if r_parent (ev_rings w1) f \<noteq> f then w1\<lparr>ev_rings := nio_ring_detach f (ev_rings w1)\<rparr> else w1))"
    by (rule tamer_then_file) (auto intro: tamer_rings)
  moreover have "tamer v w'" if "(case op_event_fflush (en_ops E) of Some fflush \<Rightarrow> map_option fst (fflush v) | None \<Rightarrow> Some v) = Some w'" for v
    using that by (auto split: option.splits dest: op_tamer(4))
  ultimately show ?thesis using w' unfolding Let_def by (blast intro: tamer_trans)
qed

text \<open>Methods of \<open>client_socket\<close>.\<close>

lemma client_owner: "typed (wires w) \<Longrightarrow> cs_fe (client c w) = Some f \<Longrightarrow> wi_ctx (wires w) f = Some (Client_Object c)"
  by (simp add: typed_def)

lemma proc_owner: "typed (wires w) \<Longrightarrow> ep_fe (proc p w) = Some f \<Longrightarrow> wi_ctx (wires w) f = Some (Proc_Object p)"
  by (simp add: typed_def)

lemma client_add_keeps:
  assumes "(if b then event_add d (en_seekable E) (en_ops E) f p w else Some (w, 1)) = Some (w', r)"
    "cs_fe (client c w) = Some f" "p \<in> {Client_Read, Client_Write}"
  shows "keeps w w'"
  using assms(1)
proof (rule if_Some)
  assume "event_add d (en_seekable E) (en_ops E) f p w = Some (w', r)"
  then show "keeps w w'" using assms(2,3) by (rule_tac event_add_keeps) (auto dest: client_owner simp: right_owner_def)
qed simp

lemma read_await_keeps:
  assumes "client_read_await E c ms w = Some (w', b)"
  shows "keeps w w'"
proof -
  obtain f w1 r where f: "cs_fe (client c w) = Some f"
    and add: "(if \<not> nio_event_isset_oneshot w \<or> cs_flags (client c w) AND client_f_rtimer = 0
       then event_add Reading (en_seekable E) (en_ops E) f Client_Read w else Some (w, 1)) = Some (w1, r)"
    and rest: "(if r = 0 then Some (w1, False) else if ms \<le> 0 then Some (w1, True)
       else let w = upd_read_timer c id w1
         in if \<not> ct_waiting (need_timer (cs_read_timer (client c w)))
            then let w = event_add_timer (Read_Timer c) ms w in Some (upd_read_timer c (\<lambda>t. t\<lparr>ct_waiting := True\<rparr>) w, True)
            else Some (w, True)) = Some (w', b)"
    using assms unfolding client_read_await_def event_add_eq by (elim bind_Some bind_pair)
  have "tamer w1 w'" using rest unfolding Let_def by (elim if_Some) (auto intro!: tamer_steps)
  with client_add_keeps [OF add f] show ?thesis by (blast intro: keeps_tamer)
qed

lemma write_await_keeps:
  assumes "client_write_await E c ms w = Some (w', b)"
  shows "keeps w w'"
proof -
  obtain f w1 r where f: "cs_fe (client c w) = Some f"
    and add: "(if \<not> nio_event_isset_oneshot w \<or> cs_flags (client c w) AND client_f_wtimer = 0
       then event_add Writing (en_seekable E) (en_ops E) f Client_Write w else Some (w, 1)) = Some (w1, r)"
    and rest: "(if r = 0 then Some (w1, False) else if ms \<le> 0 then Some (w1, True)
       else let w = upd_write_timer c id w1
         in if \<not> ct_waiting (need_timer (cs_write_timer (client c w)))
            then let w = event_add_timer (Write_Timer c) ms w in Some (upd_write_timer c (\<lambda>t. t\<lparr>ct_waiting := True\<rparr>) w, True)
            else Some (w, True)) = Some (w', b)"
    using assms unfolding client_write_await_def event_add_eq by (elim bind_Some bind_pair)
  have "tamer w1 w'" using rest unfolding Let_def by (elim if_Some) (auto intro!: tamer_steps)
  with client_add_keeps [OF add f] show ?thesis by (blast intro: keeps_tamer)
qed

lemma typed_fresh: "typed u \<Longrightarrow> f = wi_fresh u \<Longrightarrow> wi_ctx u \<subseteq>\<^sub>m (wi_ctx u)(f := x)"
  unfolding typed_def map_le_def by fastforce

text \<open>Between its allocation and \<open>nio_file_set_ctx\<close>, the new descriptor has a callback and no owner.\<close>

lemma typed_connected:
  assumes u: "typed u" and f: "f = wi_fresh u"
    and v: "wi_ctx v = (wi_ctx u)(f := None)" "wi_fresh v = Suc f" "wi_client v = wi_client u" "wi_object v = wi_object u"
      "\<And>g e. wi_proc v g e = None \<or> g \<noteq> f \<and> wi_proc v g e = wi_proc u g e"
    and p: "right_owner p (Some (Client_Object c))"
  shows "typed (v\<lparr>wi_proc := (wi_proc v)(f := (wi_proc v f)(d := Some p)), wi_ctx := (wi_ctx v)(f := Some (Client_Object c)),
      wi_client := (wi_client v)(c := Some f)\<rparr>)"
    "typed v"
proof -
  have old: "wi_ctx u f = None" using u f unfolding typed_def by blast
  have "right_owner q (wi_ctx u g)" if "wi_proc u g e = Some q" for g e q using u that unfolding typed_def by blast
  moreover have "wi_ctx u g = Some (Client_Object b)" "g \<noteq> f" if "wi_client u b = Some g" for b g
    using u that old unfolding typed_def by fastforce+
  moreover have "wi_ctx u g = Some (Proc_Object b)" "g \<noteq> f" if "wi_object u b = Some g" for b g
    using u that old unfolding typed_def by fastforce+
  moreover have "g < Suc f" if "wi_ctx u g \<noteq> None" for g
    using u that f unfolding typed_def by (simp add: less_SucI)
  ultimately show "typed v" "typed (v\<lparr>wi_proc := (wi_proc v)(f := (wi_proc v f)(d := Some p)), wi_ctx := (wi_ctx v)(f := Some (Client_Object c)),
      wi_client := (wi_client v)(c := Some f)\<rparr>)"
    using v p unfolding typed_def by (auto, metis option.distinct(1) option.inject)+
qed

lemma connect_await_keeps:
  assumes "client_connect_await E c ip port ms w = Some (w', b)"
  shows "keeps w w'"
proof -
  obtain w0 fd w1 r err where k: "in_kernel (sys_socket (en_system E)) w = (w0, fd)"
      "in_kernel (sys_connect (en_system E) fd ip port) (kernel_do (sys_options (en_system E) fd) w0) = (w1, r, err)"
    and c: "(if r < 0 \<and> err \<noteq> EINPROGRESS \<and> err \<noteq> EISCONN
     then let w = kernel_do (sys_close (en_system E) fd) w1 in Some (w, False)
     else (case nio_file_alloc fd w1 of (w2, f) \<Rightarrow>
       Option.bind (event_add Writing (en_seekable E) (en_ops E) f Client_Connect w2) (\<lambda>(w3, r).
       if r = 0 then let w = kernel_do (sys_close (en_system E) fd) w3 in Some (w, False)
       else let w = upd_client c (\<lambda>x. x\<lparr>cs_fe := Some f\<rparr>) (nio_file_set_ctx f (Client_Object c) w3)
         in if ms < 0 then Some (w, True)
            else let w = upd_write_timer c id w; w = event_add_timer (Write_Timer c) ms w
              in Some (upd_write_timer c (\<lambda>t. t\<lparr>ct_connecting := True, ct_waiting := True\<rparr>) w, True)))) = Some (w', b)"
    using assms unfolding client_connect_await_def event_add_eq Let_def
    by (elim case_pair) (hypsubst, rule that, assumption, assumption, unfold Let_def)
  have w1: "tamer w w1" using k by (blast intro: tamer_trans tamer_in_kernel tamer_kernel_do)
  show ?thesis
  proof (cases "r < 0 \<and> err \<noteq> EINPROGRESS \<and> err \<noteq> EISCONN")
    case True
    with c w1 show ?thesis by (auto intro!: tamer_keeps intro: tamer_steps)
  next
    case False
    from c [unfolded if_not_P [OF False]] obtain w2 f w3 r where a: "nio_file_alloc fd w1 = (w2, f)"
        "event_add Writing (en_seekable E) (en_ops E) f Client_Connect w2 = Some (w3, r)"
      and rest: "(if r = 0 then let w = kernel_do (sys_close (en_system E) fd) w3 in Some (w, False)
       else let w = upd_client c (\<lambda>x. x\<lparr>cs_fe := Some f\<rparr>) (nio_file_set_ctx f (Client_Object c) w3)
         in if ms < 0 then Some (w, True)
            else let w = upd_write_timer c id w; w = event_add_timer (Write_Timer c) ms w
              in Some (upd_write_timer c (\<lambda>t. t\<lparr>ct_connecting := True, ct_waiting := True\<rparr>) w, True)) = Some (w', b)"
      by (elim case_pair bind_pair)
    note alloc = file_alloc_wires [OF a(1)]
    have v: "typed (wires v)" "typed ((wires v)\<lparr>wi_proc := (wi_proc (wires v))(f := (wi_proc (wires v) f)(Writing := Some Client_Connect)),
        wi_ctx := (wi_ctx (wires v))(f := Some (Client_Object c)), wi_client := (wi_client (wires v))(c := Some f)\<rparr>)"
      if "typed (wires w)" "tamer w2 v" for v
    proof -
      note t = typed_connected [OF tamer_typed [OF w1 that(1)] alloc(1), where v = "wires v" and p = Client_Connect and c = c]
      have x: "wi_ctx (wires w2) = (wi_ctx (wires w1))(f := None)" "wi_fresh (wires w2) = Suc f" "wi_client (wires w2) = wi_client (wires w1)"
        "wi_object (wires w2) = wi_object (wires w1)" "wi_proc (wires w2) g e = (if g = f then None else wi_proc (wires w1) g e)" for g e
        unfolding alloc(2) by (simp_all del: wires_fields)
      have v: "wi_ctx (wires v) = (wi_ctx (wires w1))(f := None)" "wi_fresh (wires v) = Suc f" "wi_client (wires v) = wi_client (wires w1)"
        "wi_object (wires v) = wi_object (wires w1)" using that(2) unfolding tamer_def x(1-4) by blast+
      have p: "wi_proc (wires v) g e = None \<or> g \<noteq> f \<and> wi_proc (wires v) g e = wi_proc (wires w1) g e" for g e
        using that(2) x(5) [of g e] unfolding tamer_def by (metis (no_types))
      have "right_owner Client_Connect (Some (Client_Object c))" by (simp add: right_owner_def)
      note t = t [OF v p this]
      show "typed (wires v)" "typed ((wires v)\<lparr>wi_proc := (wi_proc (wires v))(f := (wi_proc (wires v) f)(Writing := Some Client_Connect)),
        wi_ctx := (wi_ctx (wires v))(f := Some (Client_Object c)), wi_client := (wi_client (wires v))(c := Some f)\<rparr>)"
        by (rule t(2), rule t(1))
    qed
    show ?thesis
      using a(2)
    proof (rule event_add_wires)
      assume "tamer w2 w3" "r = 0"
      then have "keeps w w3" using v(1) [of w3] typed_fresh [OF tamer_typed [OF w1] alloc(1), of None] w1
        unfolding keeps_def tamer_def alloc(2) by (simp del: wires_fields)
      with rest \<open>r = 0\<close> show ?thesis by (auto intro: keeps_tamer [OF _ tamer_kernel_do])
    next
      fix wa assume t: "tamer w2 wa" "r = 1"
        and w3: "wires w3 = (wires wa)\<lparr>wi_proc := (wi_proc (wires wa))(f := (wi_proc (wires wa) f)(Writing := Some Client_Connect))\<rparr>"
      let ?w4 = "upd_client c (\<lambda>x. x\<lparr>cs_fe := Some f\<rparr>) (nio_file_set_ctx f (Client_Object c) w3)"
      have "wi_ctx (wires w) = wi_ctx (wires w1)" "wi_ctx (wires wa) = (wi_ctx (wires w1))(f := None)"
        using w1 t(1) unfolding tamer_def alloc(2) by (simp_all del: wires_fields)
      then have "keeps w ?w4"
        unfolding keeps_def wires_upd_client wires_set_ctx w3
        using v(2) [OF _ t(1)] typed_fresh [OF tamer_typed [OF w1] alloc(1), of "Some (Client_Object c)"] by (simp del: wires_fields)
      moreover have "tamer v (upd_write_timer c h (event_add_timer (Write_Timer c) ms (upd_write_timer c id v)))" for h and v :: "('a, 'b) world"
        by (auto intro!: tamer_steps)
      with rest t(2) have "tamer ?w4 w'" unfolding Let_def by (auto split: if_splits)
      ultimately show ?thesis by (rule keeps_tamer)
    qed
  qed
qed

lemma client_disable_tamer:
  "client_read_disable E c w = Some w' \<Longrightarrow> tamer w w'" "client_write_disable E c w = Some w' \<Longrightarrow> tamer w w'"
  "client_readwrite_disable E c w = Some w' \<Longrightarrow> tamer w w'"
  unfolding client_read_disable_def client_write_disable_def client_readwrite_disable_def event_del_eq
  by (auto elim!: bind_Some dest: event_del_tamer del_readwrite_tamer)

lemma client_close_await_tamer:
  assumes "client_close_await E c w = Some w'"
  shows "tamer w w'"
proof (cases "cs_closing (client c w)")
  case True
  with assms show ?thesis by (simp add: client_close_await_def)
next
  case False
  with assms obtain w1 where "(case cs_fe (client c w) of
       Some f \<Rightarrow> if f_fd (ev_files w f) \<ge> 0 then nio_event_del_readwrite (en_ops E) f w else Some w | None \<Rightarrow> Some w) = Some w1"
    and w': "w' = upd_client c (\<lambda>x. x\<lparr>cs_closing := True\<rparr>) (delay_close_client c w1)"
    unfolding client_close_await_def Let_def by (auto elim!: bind_Some)
  then have "tamer w w1" by (auto split: option.splits if_splits dest: del_readwrite_tamer)
  then show ?thesis unfolding w' by (auto intro!: tamer_steps)
qed

lemma client_write_keeps:
  assumes "client_write E c prev data ms w = Some (w', n)"
  shows "keeps w w'"
proof (cases "pending (cs_buf (client c w)) \<noteq> []")
  case True
  with assms show ?thesis by (auto simp: client_write_def intro!: tamer_keeps tamer_upd_client)
next
  case False
  with assms obtain f w1 r where w1: "write_out (en_system E) (Client_Object c) (f_fd (ev_files w f)) data w = (w1, r)"
    and rest: "(if written_ret r = int (length data) then Some (w1, written_ret r)
        else if written_ret r = - 1 \<and> r \<noteq> Again then Some (w1, - 1)
        else Option.bind (client_write_await E c ms (upd_client c (\<lambda>x. x\<lparr>cs_buf := Some (pending (cs_buf x) @ from_offset (written_ret r) prev data)\<rparr>) w1))
          (\<lambda>(w, ok). Some (w, if ok then written_ret r else - 1))) = Some (w', n)"
    unfolding client_write_def Let_def by (auto split: prod.splits elim!: bind_Some)
  have "tamer w (upd_client c (\<lambda>x. x\<lparr>cs_buf := Some (pending (cs_buf x) @ from_offset (written_ret r) prev data)\<rparr>) w1)" "tamer w w1"
    using tamer_write_out [OF w1] by (auto intro!: tamer_steps)
  with rest show ?thesis by (elim if_Some bind_pair) (auto intro: tamer_keeps keeps_trans dest: write_await_keeps)
qed

lemma client_flush_tamer: "client_flush E c w = Some (w', n) \<Longrightarrow> tamer w w'"
  unfolding client_flush_def Let_def
  by (auto split: if_splits prod.splits elim!: bind_Some dest!: tamer_flush_bytes intro!: tamer_steps)

text \<open>Methods of \<open>event_proc\<close> and \<open>server_socket\<close>.\<close>

lemma proc_add_keeps:
  assumes "event_add d (en_seekable E) (en_ops E) f p w = Some (w', r)" "ep_fe (proc q w) = Some f" "p \<in> {Proc_Read, Proc_Write, Proc_Connect}"
  shows "keeps w w'"
  using assms(2,3) by (intro event_add_keeps [OF assms(1)]) (auto dest: proc_owner simp: right_owner_def)

lemma proc_await_keeps:
  "proc_read_await E p w = Some (w', b) \<Longrightarrow> keeps w w'" "proc_write_await E p w = Some (w', b) \<Longrightarrow> keeps w w'"
  "proc_connect_await E p w = Some (w', b) \<Longrightarrow> keeps w w'"
  unfolding proc_read_await_def proc_write_await_def proc_connect_await_def event_add_eq
  by (elim if_Some bind_Some bind_pair, simp, simp add: proc_add_keeps)+

lemma proc_disable_tamer:
  "proc_read_disable E p w = Some w' \<Longrightarrow> tamer w w'" "proc_write_disable E p w = Some w' \<Longrightarrow> tamer w w'"
  unfolding proc_read_disable_def proc_write_disable_def event_del_eq
  by (auto split: if_splits elim!: bind_Some dest: event_del_tamer)

lemma proc_close_await_tamer: "proc_close_await E p w = Some w' \<Longrightarrow> tamer w w'"
  unfolding proc_close_await_def Let_def
  by (auto split: if_splits elim!: bind_Some dest!: del_readwrite_tamer intro!: tamer_steps)

lemma proc_flush_tamer: "proc_flush E p w = Some (w', n) \<Longrightarrow> tamer w w'"
  unfolding proc_flush_def Let_def
  by (auto split: if_splits prod.splits elim!: bind_Some dest!: tamer_flush_bytes intro!: tamer_steps)

lemma proc_write_keeps:
  assumes "proc_write E p prev data w = Some (w', n)"
  shows "keeps w w'"
proof (cases "pending (ep_buf (proc p w)) \<noteq> []")
  case True
  with assms show ?thesis by (auto simp: proc_write_def intro!: tamer_keeps tamer_upd_proc)
next
  case False
  with assms obtain f w1 r where w1: "write_out (en_system E) (Proc_Object p) (f_fd (ev_files w f)) data w = (w1, r)"
    and rest: "(if written_ret r = int (length data) then Some (w1, written_ret r)
        else if written_ret r = - 1 \<and> r \<noteq> Again then Some (w1, - 1)
        else Option.bind (proc_write_await E p (upd_proc p (\<lambda>x. x\<lparr>ep_buf := Some (pending (ep_buf x) @ from_offset (written_ret r) prev data)\<rparr>) w1))
          (\<lambda>(w, ok). Some (w, if ok then written_ret r else - 1))) = Some (w', n)"
    unfolding proc_write_def Let_def by (auto split: prod.splits elim!: bind_Some)
  have "tamer w (upd_proc p (\<lambda>x. x\<lparr>ep_buf := Some (pending (ep_buf x) @ from_offset (written_ret r) prev data)\<rparr>) w1)" "tamer w w1"
    using tamer_write_out [OF w1] by (auto intro!: tamer_steps)
  with rest show ?thesis by (elim if_Some bind_pair) (auto intro: tamer_keeps keeps_trans dest: proc_await_keeps(2))
qed

text \<open>A new descriptor of an object, with no callbacks.\<close>

lemma typed_owned:
  assumes u: "typed u" and f: "f = wi_fresh u"
  shows "typed (u\<lparr>wi_proc := (wi_proc u)(f := (\<lambda>d. None)), wi_ctx := (wi_ctx u)(f := Some (Proc_Object p)), wi_fresh := Suc f,
      wi_object := (wi_object u)(p := Some f)\<rparr>)"
    "typed (u\<lparr>wi_proc := (wi_proc u)(f := (\<lambda>d. None)), wi_ctx := (wi_ctx u)(f := Some (Client_Object p)), wi_fresh := Suc f,
      wi_client := (wi_client u)(p := Some f)\<rparr>)"
proof -
  have old: "wi_ctx u f = None" using u f unfolding typed_def by blast
  have "right_owner q (wi_ctx u g)" if "wi_proc u g e = Some q" for g e q using u that unfolding typed_def by blast
  moreover have "wi_ctx u g = Some (Client_Object b)" "g \<noteq> f" if "wi_client u b = Some g" for b g
    using u that old unfolding typed_def by fastforce+
  moreover have "wi_ctx u g = Some (Proc_Object b)" "g \<noteq> f" if "wi_object u b = Some g" for b g
    using u that old unfolding typed_def by fastforce+
  moreover have "g < Suc f" if "wi_ctx u g \<noteq> None" for g
    using u that f unfolding typed_def by (simp add: less_SucI)
  ultimately show "typed (u\<lparr>wi_proc := (wi_proc u)(f := (\<lambda>d. None)), wi_ctx := (wi_ctx u)(f := Some (Proc_Object p)), wi_fresh := Suc f,
      wi_object := (wi_object u)(p := Some f)\<rparr>)" "typed (u\<lparr>wi_proc := (wi_proc u)(f := (\<lambda>d. None)), wi_ctx := (wi_ctx u)(f := Some (Client_Object p)),
      wi_fresh := Suc f, wi_client := (wi_client u)(p := Some f)\<rparr>)"
    unfolding typed_def by auto
qed

lemma typed_made: "typed u \<Longrightarrow> typed (u\<lparr>wi_fresh := Suc (wi_fresh u), wi_object := (wi_object u)(p := None)\<rparr>)"
  "typed u \<Longrightarrow> typed (u\<lparr>wi_fresh := Suc (wi_fresh u), wi_client := (wi_client u)(c := None)\<rparr>)"
  unfolding typed_def by (auto intro: less_SucI)

lemma made_keeps: "client_new w = (w', c) \<Longrightarrow> keeps w w'" "proc_new cls w = (w', p) \<Longrightarrow> keeps w w'"
  using typed_made [of "wires w"]
  by (auto simp: client_new_def proc_new_def keeps_def wires_upd_client wires_upd_proc client_socket_new_def event_proc_new_def
      split: prod.splits dest!: new_address_wires simp del: wires_fields)

lemma proc_bind_keeps: "keeps w (proc_bind p fd w)"
proof -
  let ?w = "upd_proc p (\<lambda>x. x\<lparr>ep_ev := True\<rparr>) w"
  obtain w1 f where a: "nio_file_alloc fd ?w = (w1, f)" by fastforce
  have b: "proc_bind p fd w = upd_proc p (\<lambda>x. x\<lparr>ep_fe := Some f\<rparr>) (nio_file_set_ctx f (Proc_Object p) w1)"
    using a by (simp add: proc_bind_def Let_def)
  have "keeps ?w (proc_bind p fd w)"
    using typed_owned(1) [of "wires ?w" f p] typed_fresh [of "wires ?w" f "Some (Proc_Object p)"] file_alloc_wires [OF a]
    unfolding b keeps_def wires_upd_proc wires_set_ctx by (simp add: wires_order del: wires_fields)
  moreover have "tamer w ?w" by (rule tamer_upd_proc) simp
  ultimately show ?thesis by (blast intro: keeps_trans tamer_keeps)
qed

lemma proc_open_keeps:
  assumes "proc_open cls fd w = (w', p)"
  shows "keeps w w'"
proof -
  obtain w1 where w1: "proc_new cls w = (w1, p)" using assms by (auto simp: proc_open_def Let_def split: prod.splits)
  let ?w = "upd_proc p (\<lambda>x. x\<lparr>ep_ev := True\<rparr>) w1"
  obtain w2 f where a: "nio_file_alloc fd ?w = (w2, f)" by fastforce
  have b: "w' = nio_file_set_ctx f (Proc_Object p) (upd_proc p (\<lambda>x. x\<lparr>ep_fe := Some f\<rparr>) w2)"
    using assms w1 a by (simp add: proc_open_def Let_def)
  have "keeps ?w w'"
    using typed_owned(1) [of "wires ?w" f p] typed_fresh [of "wires ?w" f "Some (Proc_Object p)"] file_alloc_wires [OF a]
    unfolding b keeps_def wires_upd_proc wires_set_ctx by (simp add: wires_order del: wires_fields)
  moreover have "tamer w1 ?w" by (rule tamer_upd_proc) simp
  ultimately show ?thesis using made_keeps(2) [OF w1] by (blast intro: keeps_trans tamer_keeps)
qed

lemma client_open_keeps:
  assumes "client_open fd w = (w', c)"
  shows "keeps w w'"
proof -
  obtain w1 where w1: "client_new w = (w1, c)" using assms by (auto simp: client_open_def Let_def split: prod.splits)
  obtain w2 f where a: "nio_file_alloc fd w1 = (w2, f)" by fastforce
  have b: "w' = nio_file_set_ctx f (Client_Object c) (upd_client c (\<lambda>x. x\<lparr>cs_fe := Some f\<rparr>) w2)"
    using assms w1 a by (simp add: client_open_def Let_def)
  have "keeps w1 w'"
    using typed_owned(2) [of "wires w1" f c] typed_fresh [of "wires w1" f "Some (Client_Object c)"] file_alloc_wires [OF a]
    unfolding b keeps_def wires_upd_client wires_set_ctx by (simp add: wires_order del: wires_fields)
  with made_keeps(1) [OF w1] show ?thesis by (rule keeps_trans)
qed

lemma upd_server_tamer: "tamer w (upd_server p g w)"
  unfolding upd_server_def by (rule tamer_upd_proc) simp

lemma server_open_tamer:
  assumes "server_open E p ip port w = Some (w', b)"
  shows "tamer w w'"
  using assms unfolding server_open_def Let_def
  by (elim bind_Some if_Some case_pair)
    (auto dest!: tamer_in_kernel intro!: tamer_steps upd_server_tamer [THEN tamer_trans [rotated]],
      (meson upd_server_tamer tamer_kernel_do tamer_trans)+)

lemma server_accept_tamer: "server_accept E p b w = Some (w', fd, err, addr) \<Longrightarrow> tamer w w'"
  unfolding server_accept_def Let_def
  by (auto split: prod.splits if_splits sum.splits elim!: bind_Some dest!: tamer_in_kernel intro!: tamer_steps)

lemma server_accept_await_keeps: "server_accept_await E p w = Some (w', b) \<Longrightarrow> keeps w w'"
  unfolding server_accept_await_def
  by (auto split: if_splits elim!: bind_Some dest!: proc_await_keeps(1) intro: keeps_trans [OF proc_bind_keeps])

subsection \<open>Calls of methods\<close>

lemma do_api_keeps:
  assumes "do_api E a w = Some (w', r)"
  shows "keeps w w'"
proof -
  note methods = client_on_connect_def client_on_read_def client_on_write_def client_on_error_def client_on_close_def
    server_set_on_accept_def server_set_on_error_def server_set_on_close_def client_set_closing_def proc_set_closing_def
  show ?thesis
    using assms
    by (cases a)
      (auto simp: returns_def returns_bool_def returns_address_def methods split: prod.splits
        dest: made_keeps client_open_keeps proc_open_keeps read_await_keeps write_await_keeps connect_await_keeps client_write_keeps proc_write_keeps
          proc_await_keeps server_accept_await_keeps client_disable_tamer [THEN tamer_keeps] client_close_await_tamer [THEN tamer_keeps]
          proc_disable_tamer [THEN tamer_keeps] proc_close_await_tamer [THEN tamer_keeps] server_open_tamer [THEN tamer_keeps]
        intro!: proc_bind_keeps tamer_upd_client [THEN tamer_keeps] tamer_upd_proc [THEN tamer_keeps] upd_server_tamer [THEN tamer_keeps] tamer_timers [THEN tamer_keeps])
qed

lemma calls_keeps: "calls E cs w = Some w' \<Longrightarrow> keeps w w'"
proof (induction cs arbitrary: w)
  case (Cons c cs)
  then obtain w1 where w1: "call E c w = Some w1" "calls E cs w1 = Some w'" by (auto elim: bind_Some)
  have "keeps w w1" using w1(1) by (auto simp: call_def intro: keeps_tamer [OF do_api_keeps tamer_happen])
  with Cons.IH [OF w1(2)] show ?case by (rule keeps_trans [rotated])
qed simp

lemma tell_keeps: "tell E fn n w = Some (w', b) \<Longrightarrow> keeps w w'"
  by (auto simp: tell_def split: prod.splits dest!: calls_keeps intro: keeps_trans [OF tamer_keeps [OF tamer_happen]])

lemma told_keeps: "map_option fst (tell E fn n w) = Some w' \<Longrightarrow> keeps w w'"
  by (auto dest: tell_keeps)

lemma tell_if_keeps: "tell_if E fn n w = Some w' \<Longrightarrow> keeps w w'"
  by (auto simp: tell_if_def split: option.splits dest: tell_keeps)

subsection \<open>Callbacks, timers and closing\<close>

lemma connect_callback_keeps:
  assumes "client_connect_callback E f w = Some w'"
  shows "keeps w w'"
proof -
  have s: "tamer w (if b then event_del_timer t (upd_write_timer c g (upd_client c (\<lambda>x. x\<lparr>cs_flags := h x\<rparr>) w))
      else upd_client c (\<lambda>x. x\<lparr>cs_flags := h x\<rparr>) w)" for b t c g h
    by (auto intro!: tamer_steps)
  have k: "keeps w w'" if "in_kernel g (if b then event_del_timer t (upd_write_timer c g' (upd_client c (\<lambda>x. x\<lparr>cs_flags := h x\<rparr>) w))
      else upd_client c (\<lambda>x. x\<lparr>cs_flags := h x\<rparr>) w) = (w1, r)" "tamer w1 w2" "map_option fst (tell E fn n w2) = Some w'"
    for b t c g h g' w1 w2 and r :: 'r and fn n
    using tamer_in_kernel [OF that(1)] that(2) told_keeps [OF that(3)] s by (blast intro: keeps_after tamer_trans)
  show ?thesis
    using assms unfolding client_connect_callback_def Let_def event_del_eq
    by (elim path) (erule k, erule event_del_tamer del_readwrite_tamer, assumption)+
qed

lemma read_callback_keeps: "client_read_callback E f w = Some w' \<Longrightarrow> keeps w w'"
  unfolding client_read_callback_def Let_def
  by (elim bind_Some, drule tell_if_keeps, erule keeps_after) (intro tamer_steps, simp_all)

lemma write_callback_keeps:
  assumes "client_write_callback E f w = Some w'"
  shows "keeps w w'"
proof -
  have t: "keeps w w'" if "keeps (stop_write_timer c (upd_client c (\<lambda>x. x\<lparr>cs_flags := h x\<rparr>) w)) w'" for c h
    by (rule keeps_after [OF that]) (intro tamer_steps, simp_all)
  have k: "keeps w w'" if "client_flush E c (stop_write_timer c (upd_client c (\<lambda>x. x\<lparr>cs_flags := h x\<rparr>) w)) = Some (v, r)" "keeps v w'" for c h v r
    by (rule t) (rule keeps_after [OF that(2) client_flush_tamer [OF that(1)]])
  show ?thesis
    using assms unfolding client_write_callback_def Let_def
    by (elim path) ((erule k, (erule tell_if_keeps | simp))+, rule t, erule tell_if_keeps)
qed

lemma proc_virtual_keeps:
  "proc_on_read E p w = Some w' \<Longrightarrow> keeps w w'" "proc_on_write E p w = Some w' \<Longrightarrow> keeps w w'"
  "proc_on_connect E p ok w = Some w' \<Longrightarrow> keeps w w'" "proc_on_error E p w = Some w' \<Longrightarrow> keeps w w'"
  "proc_on_close E p w = Some w' \<Longrightarrow> keeps w w'"
proof -
  have s: "keeps w w'" if "server_on_read E p s w = Some w'" for s
    using that unfolding server_on_read_def
    by (auto split: if_splits elim!: bind_Some dest!: server_accept_tamer tell_if_keeps intro: keeps_after tamer_keeps)
  show "proc_on_read E p w = Some w' \<Longrightarrow> keeps w w'"
    unfolding proc_on_read_def by (auto split: proc_class.splits dest: s tell_keeps)
  show "proc_on_close E p w = Some w' \<Longrightarrow> keeps w w'"
    unfolding proc_on_close_def server_on_close_def Let_def
    by (auto split: proc_class.splits dest!: tell_keeps tell_if_keeps intro: keeps_after [OF _ tamer_happen] tamer_keeps [OF tamer_happen])
qed (auto simp: proc_on_write_def proc_on_connect_def proc_on_error_def split: proc_class.splits
    dest: tell_keeps tell_if_keeps proc_close_await_tamer [THEN tamer_keeps])

lemma proc_callback_keeps:
  "proc_read_proc E f w = Some w' \<Longrightarrow> keeps w w'" "proc_write_proc E f w = Some w' \<Longrightarrow> keeps w w'"
  "proc_connect_proc E f w = Some w' \<Longrightarrow> keeps w w'"
  unfolding proc_read_proc_def proc_write_proc_def proc_connect_proc_def Let_def
  by (auto split: if_splits prod.splits elim!: bind_Some dest!: proc_virtual_keeps proc_flush_tamer proc_disable_tamer(2) tamer_in_kernel)
    (blast intro: keeps_after tamer_trans tamer_keeps)+

lemma run_callback_keeps: "run_callback E p f w = Some w' \<Longrightarrow> keeps w w'"
  by (cases p) (auto dest: connect_callback_keeps read_callback_keeps write_callback_keeps proc_callback_keeps)

lemma read_timer_keeps: "client_on_read_timer E c w = Some w' \<Longrightarrow> keeps w w'"
proof -
  assume r: "client_on_read_timer E c w = Some w'"
  let ?w1 = "upd_client c (\<lambda>x. x\<lparr>cs_flags := cs_flags x OR client_f_rtimer\<rparr>) (upd_read_timer c (\<lambda>t. t\<lparr>ct_waiting := False\<rparr>) w)"
  from r obtain w2 where w2: "(case cs_on_read (client c ?w1) of None \<Rightarrow> Some ?w1
      | Some fn \<Rightarrow> Option.bind (cs_fe (client c ?w1)) (\<lambda>f. map_option fst (tell E fn (Readable (f_fd (ev_files ?w1 f)) True) ?w1))) = Some w2"
    "w' = upd_client c (\<lambda>x. x\<lparr>cs_flags := cs_flags x AND NOT client_f_rtimer\<rparr>) w2"
    unfolding client_on_read_timer_def Let_def by (elim bind_Some) simp
  have "keeps ?w1 w2" using w2(1) by (simp only: option.case_eq_if split: if_splits) (auto elim!: bind_Some dest: tell_keeps)
  moreover have "tamer w ?w1" by (intro tamer_steps) simp_all
  moreover have "tamer w2 w'" unfolding w2(2) by (rule tamer_upd_client) simp
  ultimately show ?thesis by (blast intro: keeps_after keeps_tamer)
qed

lemma told_file_keeps:
  "(case fn of None \<Rightarrow> Some w | Some fn \<Rightarrow> Option.bind x (\<lambda>f. map_option fst (tell E fn (n f) w))) = Some w' \<Longrightarrow> keeps w w'"
  by (auto split: option.splits elim!: bind_Some dest: tell_keeps)

lemma write_timer_keeps:
  assumes "client_on_write_timer E c w = Some w'"
  shows "keeps w w'"
proof -
  let ?w1 = "upd_client c (\<lambda>x. x\<lparr>cs_flags := cs_flags x OR client_f_wtimer\<rparr>) (upd_write_timer c (\<lambda>t. t\<lparr>ct_waiting := False\<rparr>) w)"
  let ?w1' = "upd_write_timer c (\<lambda>t. t\<lparr>ct_connecting := False\<rparr>) ?w1"
  have t: "tamer w ?w1" "tamer w ?w1'" by (intro tamer_steps, simp_all)+
  obtain w2 where "keeps ?w1 w2 \<or> keeps ?w1' w2" "w' = upd_client c (\<lambda>x. x\<lparr>cs_flags := cs_flags x AND NOT client_f_wtimer\<rparr>) w2"
    using assms unfolding client_on_write_timer_def Let_def by (elim bind_Some if_Some) (drule told_file_keeps, blast)+
  moreover from this(2) have "tamer w2 w'" by (simp add: tamer_upd_client)
  ultimately show ?thesis using t by (blast intro: keeps_after keeps_tamer)
qed

lemma on_timers_keeps: "on_timers E ts w = Some w' \<Longrightarrow> keeps w w'"
proof (induction ts arbitrary: w)
  case (Cons t ts)
  then obtain w1 where w1: "on_timer E t w = Some w1" "on_timers E ts w1 = Some w'" by (auto elim: bind_Some)
  have "keeps w w1" using w1(1) by (cases t) (auto dest: read_timer_keeps write_timer_keeps tell_keeps)
  with Cons.IH [OF w1(2)] show ?case by (rule keeps_trans [rotated])
qed simp

lemma trigger_keeps: "trigger_timers E w = Some w' \<Longrightarrow> keeps w w'"
  unfolding trigger_timers_def
  by (elim case_pair, drule on_timers_keeps, erule keeps_after) (rule tamer_upd_poller; simp)

lemma client_close_keeps:
  assumes "client_close E c w = Some w'"
  shows "keeps w w'"
proof -
  let ?w1 = "stop_write_timer c (stop_read_timer c (happen (Closing (Client_Object c)) w))"
  have "tamer w ?w1" by (intro tamer_steps) simp
  moreover have shut: "tamer v (client_shut E c fd v)" for v fd
    unfolding client_shut_def using tamer_trans [OF tamer_kernel_do tamer_happen] .
  moreover have "keeps ?w1 w'"
    using assms unfolding client_close_def Let_def
    by (auto split: option.splits if_splits elim!: bind_Some dest!: tell_if_keeps tell_keeps intro: keeps_tamer [OF _ shut] tamer_keeps [OF shut])
  ultimately show ?thesis by (blast intro: keeps_after)
qed

lemma close_procs_keeps: "close_procs E i w = Some w' \<Longrightarrow> keeps w w'"
proof -
  have "F = E \<longrightarrow> keeps w w'" if "close_procs F i w = Some w'" for F i and w w' :: "('a, 'b) world"
  proof (rule close_procs.raw_induct [where P = "\<lambda>F i w w'. F = E \<longrightarrow> keeps w w'", OF _ that], intro impI)
    fix step F i and w w' :: "('a, 'b) world"
    assume ih: "\<And>F i w w'. step F i w = Some w' \<Longrightarrow> F = E \<longrightarrow> keeps w w'" and F: "F = E"
      and s: "(if i < length (m_procs_free (ev_poller w))
        then let p = m_procs_free (ev_poller w) ! i
             in Option.bind (proc_on_close F p w) (step F (i + 1))
        else Some w) = Some w'"
    show "keeps w w'"
      using s unfolding Let_def F
      by (elim if_Some bind_Some) (auto dest!: proc_virtual_keeps(5) ih intro: keeps_trans)
  qed
  then show "close_procs E i w = Some w' \<Longrightarrow> keeps w w'" by blast
qed

lemma close_clients_keeps: "close_clients E i w = Some w' \<Longrightarrow> keeps w w'"
proof -
  have "F = E \<longrightarrow> keeps w w'" if "close_clients F i w = Some w'" for F i and w w' :: "('a, 'b) world"
  proof (rule close_clients.raw_induct [where P = "\<lambda>F i w w'. F = E \<longrightarrow> keeps w w'", OF _ that], intro impI)
    fix step F i and w w' :: "('a, 'b) world"
    assume ih: "\<And>F i w w'. step F i w = Some w' \<Longrightarrow> F = E \<longrightarrow> keeps w w'" and F: "F = E"
      and s: "(if i < length (m_clients_free (ev_poller w))
        then let c = m_clients_free (ev_poller w) ! i
             in Option.bind (client_close F c w) (step F (i + 1))
        else Some w) = Some w'"
    show "keeps w w'"
      using s unfolding Let_def F
      by (elim if_Some bind_Some) (auto dest!: client_close_keeps ih intro: keeps_trans)
  qed
  then show "close_clients E i w = Some w' \<Longrightarrow> keeps w w'" by blast
qed

lemma before_wait_keeps: "before_wait E w = Some w' \<Longrightarrow> keeps w w'"
proof -
  assume "before_wait E w = Some w'"
  then obtain w1 w2 where w: "close_procs E 0 w = Some w1" "close_clients E 0 (upd_poller (\<lambda>m. m\<lparr>m_procs_free := []\<rparr>) w1) = Some w2"
    "w' = upd_poller (\<lambda>m. m\<lparr>m_clients_free := []\<rparr>) w2"
    by (auto simp: before_wait_def elim!: bind_Some)
  have t: "tamer w1 (upd_poller (\<lambda>m. m\<lparr>m_procs_free := []\<rparr>) w1)" "tamer w2 w'" unfolding w(3) by (rule tamer_upd_poller; simp)+
  with close_procs_keeps [OF w(1)] close_clients_keeps [OF w(2)] show ?thesis by (blast intro: keeps_trans keeps_tamer)
qed

lemma prepare_file_tamer: "prepare_file (en_ops E) f w = Some w' \<Longrightarrow> tamer w w'"
proof -
  assume p: "prepare_file (en_ops E) f w = Some w'"
  have o: "when_oper b f (op_del (en_ops E) d) u = Some v \<Longrightarrow> tamer u v" "when_oper b f (op_add (en_ops E) d) u = Some v \<Longrightarrow> tamer u v"
    for b d u v by (auto simp: when_oper_def split: if_splits dest: op_tamer)
  obtain w4 where w4: "tamer w w4" "w' = upd_file f (\<lambda>fe. fe\<lparr>f_oper := 0\<rparr>) (w4\<lparr>ev_rings := nio_ring_detach f (ev_rings w4)\<rparr>)"
    using p unfolding prepare_file_def Let_def op_del.simps [symmetric] op_add.simps [symmetric]
    by (elim bind_Some) (auto simp del: op_del.simps op_add.simps dest!: o intro: tamer_trans)
  show ?thesis unfolding w4(2) by (rule tamer_then_file) (use w4(1) tamer_rings in \<open>blast intro: tamer_trans\<close>, simp)
qed

lemma prepare_tamer: "nio_event_prepare (en_ops E) w = Some w' \<Longrightarrow> tamer w w'"
proof -
  assume "nio_event_prepare (en_ops E) w = Some w'"
  then obtain w1 where w1: "drain (\<lambda>e. nio_ring_first (ev_events e) (ev_rings e)) (prepare_file (en_ops E)) w = Some w1"
    "w' = w1\<lparr>ev_rings := nio_ring_init (ev_events w1) (ev_rings w1)\<rparr>"
    by (auto simp: nio_event_prepare_def)
  have "tamer w w1" by (rule drain_related [OF w1(1), where R = tamer]) (auto intro: prepare_file_tamer tamer_trans)
  then show ?thesis unfolding w1(2) by (rule tamer_trans) (rule tamer_rings)
qed

lemma event_wait_keeps:
  assumes "event_wait E ms w = Some w'"
  shows "keeps w w'"
proof -
  obtain w1 w2 w3 n k t where w: "nio_event_prepare (en_ops E) w = Some w1" "before_wait E w1 = Some w2"
    "en_event_wait E (run_callback E) n w2 = Some (w3, k, t)"
    "(if tq_timers (m_timers (ev_poller w3)) \<noteq> [] then trigger_timers E w3 else Some w3) = Some w'"
    using assms unfolding event_wait_def nio_event_wait2_def Let_def
    by (elim bind_Some) (auto split: prod.splits)
  have "keeps w2 w3"
    by (rule wait_runs [where R = keeps, OF w(3)]) (auto intro: keeps_trans run_callback_keeps tamer_keeps stamped_tamer)
  moreover have "keeps w3 w'" using w(4) by (auto split: if_splits dest: trigger_keeps)
  ultimately show ?thesis using prepare_tamer [OF w(1)] before_wait_keeps [OF w(2)] by (blast intro: keeps_after keeps_trans)
qed

lemma program_keeps: "run_program E cs w = Some w' \<Longrightarrow> keeps w w'"
proof (induction cs arbitrary: w)
  case (Cons c cs)
  then obtain w1 where w1: "do_command E c w = Some w1" "run_program E cs w1 = Some w'" by (auto elim: bind_Some)
  have "keeps w w1"
  proof (cases c)
    case (Method m)
    with w1(1) show ?thesis using calls_keeps [of "[m]" w w1] by simp
  next
    case (Wait ms)
    with w1(1) show ?thesis by (simp add: event_wait_keeps)
  qed
  with Cons.IH [OF w1(2)] show ?case by (rule keeps_trans [rotated])
qed simp

end

subsection \<open>On the epoll poller\<close>

lemma epoll_procs:
  "epoll_add_read ctl f w = Some (w', r) \<Longrightarrow> same_procs w w'" "epoll_add_write ctl f w = Some (w', r) \<Longrightarrow> same_procs w w'"
  "epoll_del_read ctl f w = Some (w', r) \<Longrightarrow> same_procs w w'" "epoll_del_write ctl f w = Some (w', r) \<Longrightarrow> same_procs w w'"
  "epoll_del_readwrite ctl f w = Some (w', r) \<Longrightarrow> same_procs w w'"
proof -
  have m: "proc_of d (fe\<lparr>f_mask := x, f_id := y\<rparr>) = proc_of d fe" "proc_of d (fe\<lparr>f_mask := x\<rparr>) = proc_of d fe"
    "proc_of d (fe\<lparr>f_id := y\<rparr>) = proc_of d fe" for d x y and fe :: "callback nio_file" by (cases d; simp)+
  show "epoll_add_read ctl f w = Some (w', r) \<Longrightarrow> same_procs w w'" "epoll_add_write ctl f w = Some (w', r) \<Longrightarrow> same_procs w w'"
    "epoll_del_read ctl f w = Some (w', r) \<Longrightarrow> same_procs w w'" "epoll_del_write ctl f w = Some (w', r) \<Longrightarrow> same_procs w w'"
    "epoll_del_readwrite ctl f w = Some (w', r) \<Longrightarrow> same_procs w w'"
    by (auto simp: epoll_add_read_def epoll_add_write_def epoll_del_read_def epoll_del_write_def epoll_del_readwrite_def
      Let_def same_procs_def m split: prod.splits if_splits)
qed

interpretation cw: wired_poller "on_epoll ctl clock wait E"
  for ctl :: "'k epoll_ctl" and clock wait and E :: "('h, 'k) env"
proof
  fix d f and w w' :: "('h, 'k) world" and r
  show "op_add (en_ops (on_epoll ctl clock wait E)) d f w = Some (w', r) \<Longrightarrow> same_procs w w'"
    by (cases d) (auto simp: on_epoll_def nio_epoll_create_def intro: epoll_procs)
  show "op_del (en_ops (on_epoll ctl clock wait E)) d f w = Some (w', r) \<Longrightarrow> same_procs w w'"
    by (cases d) (auto simp: on_epoll_def nio_epoll_create_def intro: epoll_procs)
  show "op_del_readwrite (en_ops (on_epoll ctl clock wait E)) = Some del \<Longrightarrow> del f w = Some (w', r) \<Longrightarrow> same_procs w w'" for del
    by (auto simp: on_epoll_def nio_epoll_create_def intro: epoll_procs)
  show "op_event_fflush (en_ops (on_epoll ctl clock wait E)) = Some fflush \<Longrightarrow> fflush w = Some (w', r) \<Longrightarrow> same_procs w w'" for fflush
    by (simp add: on_epoll_def nio_epoll_create_def)
qed

text \<open>What runs a callback when its cast is right, and does anything at all when it is not.\<close>

definition checked ::
  "('h, 'k) env \<Rightarrow> (callback \<Rightarrow> nat \<Rightarrow> ('h, 'k) world \<Rightarrow> ('h, 'k) world option) \<Rightarrow>
     callback \<Rightarrow> nat \<Rightarrow> ('h, 'k) world \<Rightarrow> ('h, 'k) world option" where
  "checked E g p f w = (if right_owner p (m_ctx (ev_poller w) f) then run_callback E p f w else g p f w)"

lemma run_checked:
  assumes "\<And>p. q = Some p \<Longrightarrow> right_owner p (m_ctx (ev_poller w) f)"
  shows "run_proc (run_callback E) b q f w = run_proc (checked E g) b q f w"
  using assms by (auto simp: run_proc_def checked_def split: option.splits)

lemma typed_proc: "typed (wires w) \<Longrightarrow> proc_of d (ev_files w f) = Some p \<Longrightarrow> right_owner p (m_ctx (ev_poller w) f)"
  by (simp add: typed_def)

lemma right_owner_le: "right_owner p (a f) \<Longrightarrow> a \<subseteq>\<^sub>m b \<Longrightarrow> right_owner p (b f)"
  by (auto simp: right_owner_def map_le_def dom_def split: if_splits)

lemma dispatch_checked:
  fixes w :: "('h, 'k) world" and E :: "('h, 'k) env"
  fixes ctl clock wait
  defines "F \<equiv> on_epoll ctl clock wait E"
  assumes "typed (wires w)"
  shows "epoll_dispatch (run_callback F) evs w = epoll_dispatch (checked F g) evs w"
  using assms(2)
proof (induction evs arbitrary: w)
  case (Cons x evs)
  obtain ev f where x: "x = (ev, f)" by fastforce
  have run: "keeps v v'" if "run_proc (run_callback F) b q f v = Some (v', t)" for b q v v' t
    using that by (auto simp: run_proc_def F_def split: option.splits if_splits dest: cw.run_callback_keeps)
  have r: "run_proc (run_callback F) b (f_r_proc (ev_files w f)) f w = run_proc (checked F g) b (f_r_proc (ev_files w f)) f w" for b
    using typed_proc [OF Cons.prems, of Reading f] by (intro run_checked) simp
  have w: "run_proc (run_callback F) b (f_w_proc (ev_files w f)) f v = run_proc (checked F g) b (f_w_proc (ev_files w f)) f v"
    if "keeps w v" for b v
    using typed_proc [OF Cons.prems, of Writing f] that Cons.prems right_owner_le
    by (intro run_checked) (fastforce simp: keeps_def)
  have rest: "epoll_dispatch (run_callback F) evs v = epoll_dispatch (checked F g) evs v" if "keeps w v" for v
    using that Cons.prems by (intro Cons.IH) (simp add: keeps_def)
  show ?case
  proof (cases "f = 0")
    case True
    with x rest [of w] show ?thesis by simp
  next
    case False
    show ?thesis
      unfolding x epoll_dispatch.simps Let_def if_not_P [OF False] r [symmetric]
    proof (rule Option.bind_cong [OF refl], clarify)
      fix v t assume "run_proc (run_callback F) (ev AND (EPOLLIN OR EPOLL_ERR) \<noteq> 0) (f_r_proc (ev_files w f)) f w = Some (v, t)"
      then have k: "keeps w v" by (rule run)
      show "Option.bind (run_proc (run_callback F) (ev AND (EPOLLOUT OR EPOLL_ERR) \<noteq> 0) (f_w_proc (ev_files w f)) f v)
          (\<lambda>(e, t2). map_option (\<lambda>(e, t3). (e, t @ t2 @ t3)) (epoll_dispatch (run_callback F) evs e)) =
        Option.bind (run_proc (checked F g) (ev AND (EPOLLOUT OR EPOLL_ERR) \<noteq> 0) (f_w_proc (ev_files w f)) f v)
          (\<lambda>(e, t2). map_option (\<lambda>(e, t3). (e, t @ t2 @ t3)) (epoll_dispatch (checked F g) evs e))"
        unfolding w [OF k, symmetric]
        by (rule Option.bind_cong [OF refl], clarify) (metis keeps_trans [OF k] run rest)
    qed
  qed
qed simp

lemma wait_checked:
  assumes "typed (wires w)"
  shows "epoll_event_wait (machine_wait clock wait) (run_callback (on_epoll ctl clock wait E)) ms w =
    epoll_event_wait (machine_wait clock wait) (checked (on_epoll ctl clock wait E) g) ms w"
proof -
  obtain m r where m: "machine_wait clock wait ms (ev_poller w) = (m, r)" by fastforce
  then have "stamped w (w\<lparr>ev_poller := m\<rparr>)" by (auto simp: machine_wait_def stamped_def split: prod.splits)
  then have "typed (wires (w\<lparr>ev_poller := m\<rparr>))" using assms stamped_tamer tamer_typed by blast
  from dispatch_checked [OF this] show ?thesis by (simp add: epoll_event_wait_def m split: epoll_result.split)
qed

subsection \<open>Properties\<close>

lemma typed_new: "typed (wires (event_new n flags s k))"
proof -
  have "proc_of d (ev_files (event_new n flags s k) f) = None" for d f
    by (cases d) (simp_all add: event_new_def nio_event_setup_def blank_event_def)
  then show ?thesis
    by (simp add: typed_def client_def proc_def event_new_def nio_event_setup_def blank_event_def machine_new_def client_socket_new_def event_proc_new_def)
qed

text \<open>
  C5: the casts of the callbacks are right.  Whatever a program does with the C++ classes on the epoll poller, and whatever the
  user's functions call, every callback in a descriptor is of the class of the object that the context pointer of the descriptor
  points to, and the descriptor keeps this owner for good.  So a \<open>wait\<close> makes no wrong cast, not even in a callback that has
  been looked up before another one took it out: if the callbacks did anything else (\<open>g\<close>) on a context of the other class,
  the outcome would be the same.
\<close>

theorem callbacks_typed:
  assumes "run_program (on_epoll ctl clock wait E) cs (event_new n flags s k) = Some w"
  shows "(\<forall>f d p. proc_of d (ev_files w f) = Some p \<longrightarrow>
      (if p \<in> {Client_Read, Client_Write, Client_Connect} then \<exists>c. client_of f w = Some c else \<exists>q. proc_of_file f w = Some q)) \<and>
    (\<forall>cs' w'. run_program (on_epoll ctl clock wait E) cs' w = Some w' \<longrightarrow> m_ctx (ev_poller w) \<subseteq>\<^sub>m m_ctx (ev_poller w')) \<and>
    nio_event_wait2 ((en_ops (on_epoll ctl clock wait E))\<lparr>op_event_wait := epoll_event_wait (machine_wait clock wait) (run_callback (on_epoll ctl clock wait E))\<rparr>)
        (before_wait (on_epoll ctl clock wait E)) ms w =
      nio_event_wait2 ((en_ops (on_epoll ctl clock wait E))\<lparr>op_event_wait := epoll_event_wait (machine_wait clock wait) (checked (on_epoll ctl clock wait E) g)\<rparr>)
        (before_wait (on_epoll ctl clock wait E)) ms w"
proof (intro conjI allI impI)
  have typed: "typed (wires w)" using cw.program_keeps [OF assms, unfolded keeps_def, THEN mp, OF typed_new] by blast
  show "if p \<in> {Client_Read, Client_Write, Client_Connect} then \<exists>c. client_of f w = Some c else \<exists>q. proc_of_file f w = Some q"
    if "proc_of d (ev_files w f) = Some p" for f d p
    using typed_proc [OF typed that] by (auto simp: right_owner_def client_of_def proc_of_file_def split: if_splits)
  show "m_ctx (ev_poller w) \<subseteq>\<^sub>m m_ctx (ev_poller w')" if "run_program (on_epoll ctl clock wait E) cs' w = Some w'" for cs' w'
    using cw.program_keeps [OF that] typed by (simp add: keeps_def)
  have k: "typed (wires v)" if "Option.bind (nio_event_prepare (en_ops (on_epoll ctl clock wait E)) w) (before_wait (on_epoll ctl clock wait E)) = Some v" for v
  proof -
    from that obtain u where u: "nio_event_prepare (en_ops (on_epoll ctl clock wait E)) w = Some u" "before_wait (on_epoll ctl clock wait E) u = Some v"
      by (rule bind_Some)
    from keeps_after [OF cw.before_wait_keeps [OF u(2)] cw.prepare_tamer [OF u(1)]] typed show ?thesis by (simp add: keeps_def)
  qed
  show "nio_event_wait2 ((en_ops (on_epoll ctl clock wait E))\<lparr>op_event_wait := epoll_event_wait (machine_wait clock wait) (run_callback (on_epoll ctl clock wait E))\<rparr>)
        (before_wait (on_epoll ctl clock wait E)) ms w =
      nio_event_wait2 ((en_ops (on_epoll ctl clock wait E))\<lparr>op_event_wait := epoll_event_wait (machine_wait clock wait) (checked (on_epoll ctl clock wait E) g)\<rparr>)
        (before_wait (on_epoll ctl clock wait E)) ms w"
    unfolding nio_event_wait2_def Let_def cpp.prepare_other_wait bind_assoc [symmetric]
    by (rule Option.bind_cong [OF refl]) (simp add: k wait_checked)
qed

text \<open>A client whose write callback has been registered; its context is the client before and after a \<open>wait\<close>.\<close>

theorem callbacks_typed_witness:
  "\<exists>w. run_program demo_env [Method (Client_Open 7), Method (Write_Data 2 0 [1, 2, 3] 0)] demo_start = Some w \<and>
     proc_of Writing (ev_files w 3) = Some Client_Write \<and> client_of 3 w \<noteq> None"
proof -
  let ?cs = "[Method (Client_Open 7), Method (Write_Data 2 0 [1, 2, 3] 0)] :: bool command list"
  obtain w where w: "run_program demo_env ?cs demo_start = Some w" "proc_of Writing (ev_files w 3) = Some Client_Write"
  proof -
    have "\<exists>w. run_program demo_env ?cs demo_start = Some w \<and> proc_of Writing (ev_files w 3) = Some Client_Write" by (simp add: demo)
    then show thesis using that by blast
  qed
  from callbacks_typed [OF w(1) [unfolded demo_env_def demo_start_def], THEN conjunct1, rule_format, OF w(2)]
  have "client_of 3 w \<noteq> None" by simp
  with w show ?thesis by blast
qed

end
