(* ===== verification/Cpp_Progress.thy ===== *)
theory Cpp_Progress
  imports Cpp_System
begin

text \<open>
  What the loop owes to a client with bytes in its buffer (cpp/src/client_socket.cpp, cpp/src/nio_event.cpp): when only
  its descriptor is watched, for writing, and the peer keeps reading, waiting often enough writes all of them.
\<close>

subsection \<open>The kernel\<close>

text \<open>
  What epoll_wait(2) and write(2) document; \<open>interest\<close> is the kernel's interest list.  With valid arguments, \<open>epoll_wait\<close> fails only
  when it is interrupted.  Otherwise it returns entries of descriptors on the list, each at most once, with what was registered with it, and
  events that it was registered for, or an error or a hangup.  Waiting and writing add no entry and remove none, and change none that is not one-shot.
  \<open>write\<close> takes no more bytes than there are.
\<close>

definition reports :: "(int \<rightharpoonup> epoll_event) \<Rightarrow> epoll_event \<Rightarrow> int \<Rightarrow> bool" where
  "reports reg x fd \<longleftrightarrow> (case reg fd of
      None \<Rightarrow> False
    | Some (ev, p) \<Rightarrow> snd x = p \<and> fst x \<noteq> 0 \<and> fst x AND NOT (ev OR EPOLL_ERR) = 0)"

definition still_watched :: "(int \<rightharpoonup> epoll_event) \<Rightarrow> (int \<rightharpoonup> epoll_event) \<Rightarrow> bool" where
  "still_watched reg reg' \<longleftrightarrow> dom reg' = dom reg \<and>
     (\<forall>fd ev p. reg fd = Some (ev, p) \<longrightarrow> ev AND EPOLLONESHOT = 0 \<longrightarrow> reg' fd = Some (ev, p))"

definition epoll_wait_doc :: "('k \<Rightarrow> int \<rightharpoonup> epoll_event) \<Rightarrow> (int \<Rightarrow> 'k \<Rightarrow> 'k \<times> epoll_result) \<Rightarrow> bool" where
  "epoll_wait_doc interest wait \<longleftrightarrow> (\<forall>ms k.
     case wait ms k of (k', r) \<Rightarrow> still_watched (interest k) (interest k') \<and>
       (case r of
          Epoll_Failed eintr \<Rightarrow> eintr
        | Epolled evs \<Rightarrow> \<exists>fds. distinct fds \<and> list_all2 (reports (interest k)) evs fds))"

definition write_doc :: "('k \<Rightarrow> int \<rightharpoonup> epoll_event) \<Rightarrow> 'k system \<Rightarrow> bool" where
  "write_doc interest sys \<longleftrightarrow> (\<forall>fd b k.
     case sys_write sys fd b k of (k', r) \<Rightarrow> still_watched (interest k) (interest k') \<and> (\<forall>n. r = Wrote n \<longrightarrow> n \<le> length b))"

text \<open>
  What is assumed of the world beyond that, for the descriptor \<open>fd\<close>.  There are states \<open>good\<close> of the kernel, which waiting and writing do not leave and in which
  the connection has no error.  A wait can be interrupted or report nothing, and \<open>write\<close> can say \<open>EAGAIN\<close>, but not forever: \<open>rank\<close> goes down each time.
  When \<open>write\<close> takes bytes, it takes one at least.
\<close>

definition fair_kernel ::
  "'k system \<Rightarrow> (int \<Rightarrow> 'k \<Rightarrow> 'k \<times> epoll_result) \<Rightarrow> int \<Rightarrow> ('k \<Rightarrow> bool) \<Rightarrow> ('k \<Rightarrow> nat) \<Rightarrow> bool" where
  "fair_kernel sys wait fd good rank \<longleftrightarrow> (\<forall>k. good k \<longrightarrow>
     (\<forall>ms. case wait ms k of (k', r) \<Rightarrow> good k' \<and>
        (case r of
           Epoll_Failed eintr \<Rightarrow> rank k' < rank k
         | Epolled evs \<Rightarrow> if evs = [] then rank k' < rank k else rank k' \<le> rank k \<and> list_all (\<lambda>x. fst x AND EPOLL_ERR = 0) evs)) \<and>
     (\<forall>b. b \<noteq> [] \<longrightarrow> (case sys_write sys fd b k of (k', r) \<Rightarrow> good k' \<and>
        (case r of Wrote n \<Rightarrow> 0 < n | Again \<Rightarrow> rank k' < rank k | Broken \<Rightarrow> False))))"

text \<open>
  When \<open>fd\<close> is the only descriptor on the list, and is watched for writing: a wait reports nothing, is interrupted, or reports that it can
  be written to, and then \<open>write\<close> takes a byte at least, or comes closer to it.
\<close>

definition served ::
  "'k system \<Rightarrow> (int \<Rightarrow> 'k \<Rightarrow> 'k \<times> epoll_result) \<Rightarrow> int \<Rightarrow> nat \<Rightarrow> ('k \<Rightarrow> bool) \<Rightarrow> ('k \<Rightarrow> nat) \<Rightarrow> bool" where
  "served sys wait fd f good rank \<longleftrightarrow> (\<forall>ms k b. good k \<and> b \<noteq> [] \<longrightarrow>
     (case wait ms k of
        (k1, Epoll_Failed eintr) \<Rightarrow> eintr \<and> good k1 \<and> rank k1 < rank k
      | (k1, Epolled evs) \<Rightarrow>
          evs = [] \<and> good k1 \<and> rank k1 < rank k \<or>
          evs = [(EPOLLOUT, f)] \<and>
            (case sys_write sys fd b k1 of
               (k2, Wrote n) \<Rightarrow> 0 < n \<and> n \<le> length b \<and> good k2 | (k2, Again) \<Rightarrow> good k2 \<and> rank k2 < rank k | (k2, Broken) \<Rightarrow> False)))"

lemma still_watching: "still_watched [fd \<mapsto> (EPOLLOUT, f)] reg \<Longrightarrow> reg = [fd \<mapsto> (EPOLLOUT, f)]"
proof
  fix x assume s: "still_watched [fd \<mapsto> (EPOLLOUT, f)] reg"
  then have "dom reg = {fd}" "reg fd = Some (EPOLLOUT, f)"
    by (simp_all add: still_watched_def EPOLLOUT_def EPOLLONESHOT_def)
  then show "reg x = [fd \<mapsto> (EPOLLOUT, f)] x" by auto
qed

lemma only_writable:
  assumes "e AND NOT (EPOLLOUT OR EPOLL_ERR) = 0" "e AND EPOLL_ERR = 0" "e \<noteq> 0"
  shows "e = EPOLLOUT"
proof (rule bit_word_eqI)
  have o: "bit EPOLLOUT n \<longleftrightarrow> n = 2" for n
    using bit_exp_iff [where 'a = "32 word", of 2 n] by (auto simp: EPOLLOUT_def)
  have e: "bit e n \<Longrightarrow> n = 2" for n
  proof -
    assume b: "bit e n"
    have "bit (e AND NOT (EPOLLOUT OR EPOLL_ERR)) n = False" "bit (e AND EPOLL_ERR) n = False" by (simp_all only: assms) simp_all
    with b bit_imp_le_length [OF b] show ?thesis by (auto simp: bit_simps o)
  qed
  obtain m where "bit e m" using assms(3) by (metis bit_0_eq bit_eqI bot_apply bot_bool_def)
  with e have "bit e 2" by blast
  then show "bit e n = bit EPOLLOUT n" if "n < LENGTH(32)" for n unfolding o using e [of n] by auto
qed

lemma fair_served:
  assumes "epoll_wait_doc interest wait" "write_doc interest sys" "fair_kernel sys wait fd good rank"
  shows "served sys wait fd f (\<lambda>k. good k \<and> interest k = [fd \<mapsto> (EPOLLOUT, f)]) rank"
  unfolding served_def
proof (intro allI impI, elim conjE)
  fix ms k and b :: bytes
  assume k: "good k" "interest k = [fd \<mapsto> (EPOLLOUT, f)]" and b: "b \<noteq> []"
  note fair = assms(3) [unfolded fair_kernel_def, THEN spec, THEN mp]
  obtain k1 r where w: "wait ms k = (k1, r)" by fastforce
  obtain k2 x where x: "sys_write sys fd b k1 = (k2, x)" by fastforce
  have d: "still_watched (interest k) (interest k1)"
    "case r of Epoll_Failed eintr \<Rightarrow> eintr | Epolled evs \<Rightarrow> \<exists>fds. distinct fds \<and> list_all2 (reports (interest k)) evs fds"
    using assms(1) [unfolded epoll_wait_doc_def, rule_format, where ms = ms and k = k] by (simp_all add: w)
  have g: "good k1" "case r of Epoll_Failed eintr \<Rightarrow> rank k1 < rank k
      | Epolled evs \<Rightarrow> if evs = [] then rank k1 < rank k else rank k1 \<le> rank k \<and> list_all (\<lambda>x. fst x AND EPOLL_ERR = 0) evs"
    using conjunct1 [OF fair [OF k(1)], THEN spec, of ms] by (simp_all add: w)
  have i1: "interest k1 = [fd \<mapsto> (EPOLLOUT, f)]" using d(1) k(2) still_watching by simp
  have y: "still_watched (interest k1) (interest k2)" "\<forall>n. x = Wrote n \<longrightarrow> n \<le> length b"
    using assms(2) [unfolded write_doc_def, rule_format, where fd = fd and b = b and k = k1] by (simp_all add: x)
  have h: "good k2" "case x of Wrote n \<Rightarrow> 0 < n | Again \<Rightarrow> rank k2 < rank k1 | Broken \<Rightarrow> False"
    using conjunct2 [OF fair [OF g(1)], THEN spec, THEN mp, OF b] by (simp_all add: x)
  have i2: "interest k2 = [fd \<mapsto> (EPOLLOUT, f)]" using y(1) i1 still_watching by simp
  show "case wait ms k of
        (k1, Epoll_Failed eintr) \<Rightarrow> eintr \<and> (good k1 \<and> interest k1 = [fd \<mapsto> (EPOLLOUT, f)]) \<and> rank k1 < rank k
      | (k1, Epolled evs) \<Rightarrow>
          evs = [] \<and> (good k1 \<and> interest k1 = [fd \<mapsto> (EPOLLOUT, f)]) \<and> rank k1 < rank k \<or>
          evs = [(EPOLLOUT, f)] \<and>
            (case sys_write sys fd b k1 of
               (k2, Wrote n) \<Rightarrow> 0 < n \<and> n \<le> length b \<and> good k2 \<and> interest k2 = [fd \<mapsto> (EPOLLOUT, f)]
             | (k2, Again) \<Rightarrow> (good k2 \<and> interest k2 = [fd \<mapsto> (EPOLLOUT, f)]) \<and> rank k2 < rank k | (k2, Broken) \<Rightarrow> False)"
  proof (cases r)
    case (Epoll_Failed eintr)
    with d(2) g i1 w show ?thesis by simp
  next
    case (Epolled evs)
    show ?thesis
    proof (cases evs)
      case Nil
      with Epolled g i1 w show ?thesis by simp
    next
      case (Cons z zs)
      from d(2) Epolled Cons obtain p ps where p: "distinct (p # ps)" "reports (interest k) z p" "list_all2 (reports (interest k)) zs ps"
        by (auto simp: list_all2_Cons1)
      from p(2) have z: "p = fd" "snd z = f" "fst z \<noteq> 0" "fst z AND NOT (EPOLLOUT OR EPOLL_ERR) = 0"
        by (auto simp: reports_def k(2) split: if_splits option.splits)
      have "zs = []"
      proof (cases zs)
        case (Cons u us)
        with p(3) obtain q qs where "ps = q # qs" "reports (interest k) u q" by (auto simp: list_all2_Cons1)
        with p(1) z(1) show ?thesis by (auto simp: reports_def k(2) split: if_splits)
      qed
      moreover have "fst z AND EPOLL_ERR = 0" "rank k1 \<le> rank k" using g(2) Epolled Cons by simp_all
      ultimately have "evs = [(EPOLLOUT, f)]" "rank k1 \<le> rank k"
        using Cons only_writable [OF z(4) _ z(3)] z(2) by (simp_all add: prod_eq_iff)
      with Epolled w x y(2) h i2 show ?thesis by (auto split: written.splits)
    qed
  qed
qed

subsection \<open>Nothing else is going on\<close>

text \<open>
  A world in which nothing but the client \<open>c\<close> on the descriptor \<open>f\<close> is going on: no request is waiting for the loop, no
  timer is set and no object is to be closed.
\<close>

definition quiet :: "nat \<Rightarrow> nat \<Rightarrow> ('h, 'k) world \<Rightarrow> bool" where
  "quiet c f w \<longleftrightarrow> f \<noteq> 0 \<and> nio_ring_first (ev_events w) (ev_rings w) = 0 \<and> m_procs_free (ev_poller w) = [] \<and>
     m_clients_free (ev_poller w) = [] \<and> tq_timers (m_timers (ev_poller w)) = [] \<and> client_of f w = Some c \<and>
     cs_fe (client c w) = Some f \<and> \<not> ct_waiting (need_timer (cs_write_timer (client c w))) \<and>
     f_w_proc (ev_files w f) = Some Client_Write"

lemma quiet_steps [simp]:
  "cs_fe (g (client c w)) = cs_fe (client c w) \<Longrightarrow> cs_write_timer (g (client c w)) = cs_write_timer (client c w) \<Longrightarrow>
     quiet c f (upd_client c g w) = quiet c f w"
  "quiet c f (happen x w) = quiet c f w" "quiet c f (upd_poller (\<lambda>m. m\<lparr>m_kernel := k\<rparr>) w) = quiet c f w"
  "quiet c f (w\<lparr>ev_poller := (ev_poller w)\<lparr>m_kernel := k, m_stamp := s\<rparr>\<rparr>) = quiet c f w"
  by (simp_all add: quiet_def client_of_def upd_client_def upd_poller_def happen_def client_def)

lemma flush_again:
  assumes "b = pending (cs_buf (client c w))" "b \<noteq> []" "cs_fe (client c w) = Some f"
    "sys_write (en_system E) (f_fd (ev_files w f)) b (m_kernel (ev_poller w)) = (k, Again)"
  shows "client_flush E c w = Some (upd_client c (\<lambda>x. x\<lparr>cs_buf := Some b\<rparr>) (upd_poller (\<lambda>m. m\<lparr>m_kernel := k\<rparr>) w), 0)"
  using assms by (auto simp: client_flush_def flush_bytes_def write_out_def in_kernel_def written_ret_def Let_def)

subsection \<open>One wait\<close>

text \<open>The callback, when the kernel takes some bytes, and when it takes none.\<close>

lemma callback_quiet:
  assumes "quiet c f w" "b = pending (cs_buf (client c w))" "b \<noteq> []"
    "\<And>fn fd v. fst (en_user E fn (Writable fd False) v) = []"
    "sys_write (en_system E) (f_fd (ev_files w f)) b (m_kernel (ev_poller w)) = (k, r)"
    "case r of Wrote n \<Rightarrow> 0 < n \<and> n \<le> length b | Again \<Rightarrow> True | Broken \<Rightarrow> False"
  shows "\<exists>w'. client_write_callback E f w = Some w' \<and> quiet c f w' \<and> f_fd (ev_files w' f) = f_fd (ev_files w f) \<and>
    m_kernel (ev_poller w') = k \<and>
    pending (cs_buf (client c w')) = (case r of Wrote n \<Rightarrow> drop n b | _ \<Rightarrow> b) \<and>
    taken (Client_Object c) (m_trace (ev_poller w')) =
      taken (Client_Object c) (m_trace (ev_poller w)) @ (case r of Wrote n \<Rightarrow> take n b | _ \<Rightarrow> [])"
proof -
  let ?w1 = "upd_client c (\<lambda>x. x\<lparr>cs_flags := cs_flags x AND NOT client_f_wtimer\<rparr>) w"
  have s: "stop_write_timer c ?w1 = ?w1" "client_of f w = Some c" "cs_fe (client c w) = Some f"
    using assms(1) by (simp_all add: stop_write_timer_def quiet_def)
  have b: "b = pending (cs_buf (client c ?w1))" "cs_fe (client c ?w1) = Some f" using assms(2) s by simp_all
  have q: "quiet c f ?w1" using assms(1) by simp
  have wr: "sys_write (en_system E) (f_fd (ev_files ?w1 f)) b (m_kernel (ev_poller ?w1)) = (k, r)"
    using assms(5) by (simp add: kernel_fields)
  show ?thesis
  proof (cases r)
    case (Wrote n)
    let ?w2 = "upd_client c (\<lambda>x. x\<lparr>cs_buf := Some (drop n b)\<rparr>) (happen (Sent (Client_Object c) (take n b)) (upd_poller (\<lambda>m. m\<lparr>m_kernel := k\<rparr>) ?w1))"
    have n: "0 < n" "n \<le> length b" using assms(6) Wrote by simp_all
    have fl: "client_flush E c ?w1 = Some (?w2, int n)" using flush_wrote [OF b(1) assms(3) b(2) n wr [unfolded Wrote]] .
    have w2: "quiet c f ?w2" "f_fd (ev_files ?w2 f) = f_fd (ev_files w f)" "m_kernel (ev_poller ?w2) = k"
      "pending (cs_buf (client c ?w2)) = drop n b" "m_trace (ev_poller ?w2) = m_trace (ev_poller w) @ [Sent (Client_Object c) (take n b)]"
      using q by (simp_all add: kernel_fields pending_def) (simp_all add: happen_def)
    have tell: "\<exists>w'. tell_if E fn (Writable fd False) ?w2 = Some w' \<and> (w' = ?w2 \<or> (\<exists>fn. w' = happen (Told fn (Writable fd False)) ?w2))" for fn fd
    proof (cases fn)
      case (Some h)
      obtain cs yes where e: "en_user E h (Writable fd False) ?w2 = (cs, yes)" by (rule prod.exhaust)
      with assms(4) [of h fd ?w2] have "cs = []" by simp
      with Some e show ?thesis by (auto simp: tell_if_def tell_def)
    qed (simp add: tell_if_def)
    have cb: "client_write_callback E f w =
      (if drop n b = [] then Some ?w2 else tell_if E (cs_on_write (client c ?w2)) (Writable (f_fd (ev_files ?w2 f)) False) ?w2)"
    proof -
      have "pending (cs_buf (client c ?w1)) \<noteq> []" "int n \<noteq> - 1" "int n \<noteq> 0" using b(1) assms(3) n(1) by auto
      then show ?thesis
        by (simp only: client_write_callback_def s(1,2) Option.bind.simps Let_def fl prod.case w2(4) if_False if_True simp_thms)
    qed
    obtain w' where w': "client_write_callback E f w = Some w'" "w' = ?w2 \<or> (\<exists>fn fd. w' = happen (Told fn (Writable fd False)) ?w2)"
    proof (cases "drop n b = []")
      case True
      show thesis by (rule that [of ?w2]) (simp_all only: cb True if_True simp_thms)
    next
      case False
      from tell obtain w' where "tell_if E (cs_on_write (client c ?w2)) (Writable (f_fd (ev_files ?w2 f)) False) ?w2 = Some w'"
        "w' = ?w2 \<or> (\<exists>fn. w' = happen (Told fn (Writable (f_fd (ev_files ?w2 f)) False)) ?w2)" by blast
      then show thesis by (intro that [of w']) (simp only: cb if_not_P [OF False], blast)
    qed
    have "m_kernel (ev_poller (happen x v)) = m_kernel (ev_poller v)" "m_trace (ev_poller (happen x v)) = m_trace (ev_poller v) @ [x]"
      for x and v :: "('a, 'b) world" by (simp_all add: happen_def)
    with w' w2 Wrote show ?thesis by (elim disjE exE) (simp_all del: upd_client_fields)
  next
    case Again
    let ?w2 = "upd_client c (\<lambda>x. x\<lparr>cs_buf := Some b\<rparr>) (upd_poller (\<lambda>m. m\<lparr>m_kernel := k\<rparr>) ?w1)"
    have fl: "client_flush E c ?w1 = Some (?w2, 0)" using flush_again [OF b(1) assms(3) b(2) wr [unfolded Again]] .
    have "client_write_callback E f w = Some ?w2"
      using s b(1) assms(3) fl by (simp add: client_write_callback_def Let_def)
    with Again q show ?thesis by (simp add: kernel_fields pending_def)
  qed (use assms(6) in simp)
qed

text \<open>Preparing and closing find nothing to do.\<close>

lemma quiet_prepared:
  assumes "quiet c f w"
  shows "\<exists>w'. Option.bind (nio_event_prepare ops w) (before_wait E) = Some w' \<and> quiet c f w' \<and>
    client c w' = client c w \<and> ev_files w' = ev_files w \<and> m_kernel (ev_poller w') = m_kernel (ev_poller w) \<and> m_trace (ev_poller w') = m_trace (ev_poller w)"
proof -
  let ?w1 = "w\<lparr>ev_rings := nio_ring_init (ev_events w) (ev_rings w)\<rparr>"
  let ?w2 = "upd_poller (\<lambda>m. m\<lparr>m_clients_free := []\<rparr>) (upd_poller (\<lambda>m. m\<lparr>m_procs_free := []\<rparr>) ?w1)"
  have "nio_event_prepare ops w = Some ?w1"
    using assms by (simp add: nio_event_prepare_def drain.simps quiet_def)
  moreover have "before_wait E ?w1 = Some ?w2"
    using assms by (simp add: before_wait_def close_procs.simps close_clients.simps quiet_def)
  moreover have "nio_ring_first (ev_events ?w2) (ev_rings ?w2) = 0"
    by (simp add: nio_ring_first_def nio_ring_init_def set_len_def set_parent_def set_pred_def set_succ_def)
  then have "quiet c f ?w2" using assms by (simp add: quiet_def client_of_def client_def)
  ultimately show ?thesis by (intro exI [of _ ?w2]) (simp add: client_def)
qed

text \<open>A wait takes bytes out of the buffer, or the kernel comes closer to taking them.\<close>

lemma wait_quiet:
  fixes E :: "('h, 'k) env" and rank ctl clock wait c
  defines "F \<equiv> on_epoll ctl clock wait E"
  defines "togo \<equiv> (\<lambda>v. (length (pending (cs_buf (client c v))), rank (m_kernel (ev_poller v))))"
  assumes q: "quiet c f w" and b: "pending (cs_buf (client c w)) \<noteq> []"
    and user: "\<And>fn fd v. fst (en_user E fn (Writable fd False) v) = []"
    and fair: "served (en_system E) wait (f_fd (ev_files w f)) f good rank" and good: "good (m_kernel (ev_poller w))"
  shows "\<exists>w'. event_wait F ms w = Some w' \<and> quiet c f w' \<and> f_fd (ev_files w' f) = f_fd (ev_files w f) \<and> good (m_kernel (ev_poller w')) \<and>
    taken (Client_Object c) (m_trace (ev_poller w')) @ pending (cs_buf (client c w')) =
      taken (Client_Object c) (m_trace (ev_poller w)) @ pending (cs_buf (client c w)) \<and>
    (togo w', togo w) \<in> less_than <*lex*> less_than"
proof -
  let ?ms = "wait2_timeout (ev_timeout w) (wait_timeout (m_stamp (ev_poller w)) ms (m_timers (ev_poller w)))"
  obtain w1 where w1: "Option.bind (nio_event_prepare (en_ops F) w) (before_wait F) = Some w1" "quiet c f w1"
    "client c w1 = client c w" "ev_files w1 = ev_files w" "m_kernel (ev_poller w1) = m_kernel (ev_poller w)" "m_trace (ev_poller w1) = m_trace (ev_poller w)"
    using quiet_prepared [OF q] by blast
  obtain k1 r where k1: "wait ?ms (m_kernel (ev_poller w)) = (k1, r)" by fastforce
  let ?w2 = "w1\<lparr>ev_poller := (ev_poller w1)\<lparr>m_kernel := k1, m_stamp := nio_set_stamp (clock k1) (m_stamp (ev_poller w1))\<rparr>\<rparr>"
  have w2: "quiet c f ?w2" "client c ?w2 = client c w" "ev_files ?w2 = ev_files w" "m_kernel (ev_poller ?w2) = k1" "m_trace (ev_poller ?w2) = m_trace (ev_poller w)"
    using w1 by (simp_all add: client_def)
  have wait: "event_wait F ms w = Option.bind (case r of
      Epoll_Failed eintr \<Rightarrow> if eintr then Some (?w2, 0, []) else None
    | Epolled evs \<Rightarrow> map_option (\<lambda>(e, t). (e, int (length evs), t)) (epoll_dispatch (run_callback F) evs ?w2))
    (\<lambda>(w, _). if tq_timers (m_timers (ev_poller w)) \<noteq> [] then trigger_timers F w else Some w)"
  proof -
    have m: "machine_wait clock wait ?ms (ev_poller w1) = (ev_poller ?w2, r)" using k1 w1(5) by (simp add: machine_wait_def)
    have e: "en_event_wait F = epoll_event_wait (machine_wait clock wait)" by (simp add: F_def on_epoll_def)
    show ?thesis
      unfolding event_wait_def nio_event_wait2_def Let_def cpp.prepare_other_wait bind_assoc [symmetric] w1(1)
      by (simp add: e epoll_event_wait_def m split: epoll_result.split)
  qed
  have quiet: "tq_timers (m_timers (ev_poller v)) = []" if "quiet c f v" for v :: "('h, 'k) world"
    using that by (simp add: quiet_def)
  have idle: ?thesis if "event_wait F ms w = Some ?w2" "rank k1 < rank (m_kernel (ev_poller w))" "good k1"
    using that w2 by (intro exI [of _ ?w2]) (simp add: togo_def)
  note fr = fair [unfolded served_def, rule_format, OF conjI [OF good b], where ms = ?ms, unfolded k1 prod.case]
  show ?thesis
  proof (cases r)
    case (Epoll_Failed eintr)
    with fr wait quiet [OF w2(1)] show ?thesis by (intro idle) simp_all
  next
    case (Epolled evs)
    show ?thesis
    proof (cases "evs = []")
      case True
      with Epolled fr wait quiet [OF w2(1)] show ?thesis by (intro idle) simp_all
    next
      case False
      obtain k2 x where x: "sys_write (en_system E) (f_fd (ev_files w f)) (pending (cs_buf (client c w))) k1 = (k2, x)" by fastforce
      have fx: "evs = [(EPOLLOUT, f)]" "case x of Wrote n \<Rightarrow> 0 < n \<and> n \<le> length (pending (cs_buf (client c w))) | Again \<Rightarrow> rank k2 < rank (m_kernel (ev_poller w)) | Broken \<Rightarrow> False" "good k2"
        using fr Epolled False x by (auto split: written.splits)
      have "run_callback F Client_Write f ?w2 = client_write_callback F f ?w2" by simp
      moreover have "\<exists>w'. client_write_callback F f ?w2 = Some w' \<and> quiet c f w' \<and> f_fd (ev_files w' f) = f_fd (ev_files ?w2 f) \<and>
          m_kernel (ev_poller w') = k2 \<and>
          pending (cs_buf (client c w')) = (case x of Wrote n \<Rightarrow> drop n (pending (cs_buf (client c w))) | _ \<Rightarrow> pending (cs_buf (client c w))) \<and>
          taken (Client_Object c) (m_trace (ev_poller w')) = taken (Client_Object c) (m_trace (ev_poller ?w2)) @
            (case x of Wrote n \<Rightarrow> take n (pending (cs_buf (client c w))) | _ \<Rightarrow> [])"
        by (rule callback_quiet [OF w2(1)])
          (use w2 b user x fx(2) in \<open>simp_all add: F_def on_epoll_def split: written.splits\<close>)
      ultimately obtain w' where w': "run_callback F Client_Write f ?w2 = Some w'" "quiet c f w'" "f_fd (ev_files w' f) = f_fd (ev_files w f)"
          "m_kernel (ev_poller w') = k2"
          "pending (cs_buf (client c w')) = (case x of Wrote n \<Rightarrow> drop n (pending (cs_buf (client c w))) | _ \<Rightarrow> pending (cs_buf (client c w)))"
          "taken (Client_Object c) (m_trace (ev_poller w')) = taken (Client_Object c) (m_trace (ev_poller w)) @
            (case x of Wrote n \<Rightarrow> take n (pending (cs_buf (client c w))) | _ \<Rightarrow> [])"
        unfolding w2(3,5) by auto
      have "f \<noteq> 0" "f_w_proc (ev_files ?w2 f) = Some Client_Write" using w2(1) by (simp_all add: quiet_def)
      then have "epoll_dispatch (run_callback F) evs ?w2 = Some (w', [(Client_Write, f)])"
        using w'(1) fx(1) by (simp add: run_proc_def Let_def EPOLLIN_def EPOLLOUT_def EPOLL_ERR_def split: option.split)
      with Epolled wait quiet [OF w'(2)] have "event_wait F ms w = Some w'" by simp
      with w' fx(2,3) show ?thesis by (intro exI [of _ w']) (auto simp: togo_def split: written.splits)
    qed
  qed
qed

text \<open>So the buffer is empty in the end.\<close>

lemma served_drains:
  assumes "quiet c f w" "\<And>fn fd v. fst (en_user E fn (Writable fd False) v) = []"
    "served (en_system E) wait (f_fd (ev_files w f)) f good rank" "good (m_kernel (ev_poller w))"
  shows "\<exists>n w'. run_program (on_epoll ctl clock wait E) (replicate n (Wait ms)) w = Some w' \<and> pending (cs_buf (client c w')) = [] \<and>
    taken (Client_Object c) (m_trace (ev_poller w')) = taken (Client_Object c) (m_trace (ev_poller w)) @ pending (cs_buf (client c w))"
proof -
  let ?togo = "\<lambda>v. (length (pending (cs_buf (client c v))), rank (m_kernel (ev_poller v)))"
  have "wf (less_than <*lex*> less_than)" by (intro wf_lex_prod wf_less_than)
  then show ?thesis
    using assms(1,3,4)
  proof (induction "?togo w" arbitrary: w rule: wf_induct_rule)
    case less
    show ?case
    proof (cases "pending (cs_buf (client c w)) = []")
      case True
      then show ?thesis by (intro exI [of _ 0] exI [of _ w]) simp
    next
      case False
      obtain w1 where w1: "event_wait (on_epoll ctl clock wait E) ms w = Some w1" "quiet c f w1" "f_fd (ev_files w1 f) = f_fd (ev_files w f)"
        "good (m_kernel (ev_poller w1))" "taken (Client_Object c) (m_trace (ev_poller w1)) @ pending (cs_buf (client c w1)) =
          taken (Client_Object c) (m_trace (ev_poller w)) @ pending (cs_buf (client c w))"
        "(?togo w1, ?togo w) \<in> less_than <*lex*> less_than"
        using wait_quiet [OF less.prems(1) False assms(2) less.prems(2,3), of ctl clock ms] by blast
      from less.hyps [OF w1(6,2) _ w1(4)] less.prems(2) w1(3) obtain n w' where
        "run_program (on_epoll ctl clock wait E) (replicate n (Wait ms)) w1 = Some w'" "pending (cs_buf (client c w')) = []"
        "taken (Client_Object c) (m_trace (ev_poller w')) = taken (Client_Object c) (m_trace (ev_poller w1)) @ pending (cs_buf (client c w1))" by auto
      with w1(1,5) show ?thesis by (intro exI [of _ "Suc n"] exI [of _ w']) simp
    qed
  qed
qed

lemma buffer_drains:
  assumes "quiet c f w" "interest (m_kernel (ev_poller w)) = [f_fd (ev_files w f) \<mapsto> (EPOLLOUT, f)]"
    "\<And>fn fd v. fst (en_user E fn (Writable fd False) v) = []" "epoll_wait_doc interest wait" "write_doc interest (en_system E)"
    "fair_kernel (en_system E) wait (f_fd (ev_files w f)) good rank" "good (m_kernel (ev_poller w))"
  shows "\<exists>n w'. run_program (on_epoll ctl clock wait E) (replicate n (Wait ms)) w = Some w' \<and> pending (cs_buf (client c w')) = [] \<and>
    taken (Client_Object c) (m_trace (ev_poller w')) = taken (Client_Object c) (m_trace (ev_poller w)) @ pending (cs_buf (client c w))"
  using served_drains [OF assms(1,3) fair_served [OF assms(4,5,6)]] assms(2,7) by blast

subsection \<open>Properties\<close>

text \<open>
  C6: bytes that a client could not write are written, in the simplest world: nothing but this client is going on (\<open>quiet\<close>: no timer is set, no
  request is waiting for the loop, no object is to be closed), its descriptor is the only one on the kernel's interest list, watched for writing, and the user's functions call nothing
  when they are told that a descriptor can be written to.  Then, on a kernel that does what epoll_wait(2) and write(2) document and is fair to the descriptor, some number of calls of
  \<open>wait\<close> return and leave the buffer empty, and the kernel has taken exactly the bytes of the buffer, in order.
\<close>

theorem buffered_bytes_written:
  assumes "quiet c f w" "interest (m_kernel (ev_poller w)) = [f_fd (ev_files w f) \<mapsto> (EPOLLOUT, f)]"
    "\<And>fn fd v. fst (en_user E fn (Writable fd False) v) = []" "epoll_wait_doc interest wait" "write_doc interest (en_system E)"
    "fair_kernel (en_system E) wait (f_fd (ev_files w f)) good rank" "good (m_kernel (ev_poller w))"
  shows "\<exists>n w'. run_program (on_epoll ctl clock wait E) (replicate n (Wait ms)) w = Some w' \<and> pending (cs_buf (client c w')) = [] \<and>
    taken (Client_Object c) (m_trace (ev_poller w')) = taken (Client_Object c) (m_trace (ev_poller w)) @ pending (cs_buf (client c w))"
  using assms by (rule buffer_drains)

text \<open>The environment of the witnesses is fair to the descriptor 7 once epoll watches it for writing.\<close>

definition demo_base :: "(bool, int \<rightharpoonup> epoll_event) env" where
  "demo_base = \<lparr>en_system = demo_system, en_seekable = (\<lambda>fd. False),
      en_ops = nio_epoll_create (machine_ctl list_ctl) (machine_wait (\<lambda>k. None) demo_wait) (\<lambda>_ _. Some),
      en_event_wait = epoll_event_wait (machine_wait (\<lambda>k. None) demo_wait), en_user = demo_user, en_timer = (\<lambda>t. True)\<rparr>"

lemma demo_on_epoll: "demo_env = on_epoll list_ctl (\<lambda>k. Some (0, 5000000)) demo_wait demo_base"
  by (simp add: demo_env_def demo_base_def)

lemma demo_kernel_doc: "epoll_wait_doc (\<lambda>k. k) demo_wait" "write_doc (\<lambda>k. k) (en_system demo_base)"
proof -
  have masked: "e AND NOT e AND NOT x = 0" for e x :: u32 by (rule bit_eqI) (simp add: bit_simps)
  have "\<exists>fds. distinct fds \<and> list_all2 (reports k) (case k 7 of None \<Rightarrow> [] | Some x \<Rightarrow> if fst x = 0 then [] else [x]) fds"
    for k :: "int \<rightharpoonup> epoll_event"
    by (rule exI [of _ "if k 7 = None \<or> fst (the (k 7)) = 0 then [] else [7]"]) (auto simp: reports_def masked split: option.split)
  then show "epoll_wait_doc (\<lambda>k. k) demo_wait" by (simp add: epoll_wait_doc_def demo_wait_def still_watched_def)
qed (simp add: write_doc_def demo_base_def demo_system_def still_watched_def)

lemma demo_fair: "fair_kernel (en_system demo_base) demo_wait fd (\<lambda>k. k 7 = Some (EPOLLOUT, 3)) (\<lambda>k. 0)"
  by (simp add: fair_kernel_def demo_wait_def demo_system_def demo_base_def EPOLLOUT_def EPOLL_ERR_def)

lemma demo_quiet_user: "fst (en_user demo_base fn (Writable fd False) v) = []"
  by (simp add: demo_user_def demo_base_def)

text \<open>Five bytes, of which the call takes two and each wait takes two: after the first wait, the last byte is left.\<close>

theorem buffered_bytes_written_witness:
  "\<exists>w n w'. run_program demo_env [Method (Client_Open 7), Method (Write_Data 2 0 [1, 2, 3, 4, 5] 0), Wait 5] demo_start = Some w \<and>
     pending (cs_buf (client 2 w)) = [5] \<and> run_program demo_env (replicate n (Wait 5)) w = Some w' \<and>
     pending (cs_buf (client 2 w')) = [] \<and> taken (Client_Object 2) (m_trace (ev_poller w')) = [1, 2, 3, 4, 5]"
proof -
  let ?cs = "[Method (Client_Open 7), Method (Write_Data 2 0 [1, 2, 3, 4, 5] 0), Wait 5] :: bool command list"
  have "\<exists>w. run_program demo_env ?cs demo_start = Some w \<and> quiet 2 3 w \<and> f_fd (ev_files w 3) = 7 \<and>
      m_kernel (ev_poller w) = [7 \<mapsto> (EPOLLOUT, 3)] \<and> pending (cs_buf (client 2 w)) = [5] \<and>
      taken (Client_Object 2) (m_trace (ev_poller w)) = [1, 2, 3, 4]"
    by (simp add: demo quiet_def)
  then obtain w where w: "run_program demo_env ?cs demo_start = Some w" "quiet 2 3 w" "f_fd (ev_files w 3) = 7"
      "m_kernel (ev_poller w) = [7 \<mapsto> (EPOLLOUT, 3)]" "pending (cs_buf (client 2 w)) = [5]"
      "taken (Client_Object 2) (m_trace (ev_poller w)) = [1, 2, 3, 4]" by blast
  have i: "m_kernel (ev_poller w) = [f_fd (ev_files w 3) \<mapsto> (EPOLLOUT, 3)]" "m_kernel (ev_poller w) 7 = Some (EPOLLOUT, 3)"
    by (simp_all add: w(3,4))
  obtain n w' where "run_program demo_env (replicate n (Wait 5)) w = Some w'" "pending (cs_buf (client 2 w')) = []"
    "taken (Client_Object 2) (m_trace (ev_poller w')) = taken (Client_Object 2) (m_trace (ev_poller w)) @ pending (cs_buf (client 2 w))"
    using buffered_bytes_written [where interest = "\<lambda>k. k", OF w(2) i(1) demo_quiet_user demo_kernel_doc demo_fair i(2)]
    unfolding demo_on_epoll by blast
  with w(1,5,6) show ?thesis by (intro exI [of _ w] exI [of _ n] exI [of _ w']) simp
qed

end
