(* ===== verification/Spec2Isabelle.thy ===== *)
theory Spec2Isabelle
  imports Mqtt_Client Nio_Timer Nio_Htable Nio_Create Nio_System Cpp_Wiring Cpp_Progress
begin

text \<open>
  libnio is a library for event-driven network programs: an event loop in C over the poller of
  the operating system, a C++ layer of sockets and timers over the loop, and an mqtt client and
  server over the sockets.  These theories model it in shallow embedding, part by part; every
  definition that models code keeps the name it has there.

  \<^bold>\<open>The C core\<close> (c/src).
  \<^item> \<open>Nio_Ring\<close>, \<open>Nio_Array\<close>, \<open>Nio_Htable\<close>: the containers of c/src/common.  Rings and hash table
    are explicit memory (a map from addresses to links); the functions of the code are defined on
    the memory, \<open>do_ring\<close>, \<open>do_array\<close>, \<open>do_table\<close> carry out one call, and each container is shown
    to behave as a list, a list of pointers or a map under every sequence of calls.  Loops over
    links are partial functions, and that they end is part of each theorem.
  \<^item> \<open>Nio_Loop\<close>: the event loop (nio_event.c, nio_file.c, event.h).  A program asks for read and
    write events of a descriptor; the request goes to the poller at once or is kept in the
    descriptor's \<open>oper\<close> bits, with the descriptor on the ring of the loop, until
    \<open>nio_event_prepare\<close>.  The locale \<open>poller\<close> is the contract of the function pointers in
    \<open>NIO_EVENT\<close>; in it, \<open>calls_watched\<close> shows that after a preparation exactly the events last
    asked for are watched.  \<open>loop_rel\<close> relates a loop to the requests it stands for.
  \<^item> \<open>Nio_Epoll\<close>, \<open>Nio_Poll\<close>, \<open>Nio_Select\<close>, \<open>Nio_Kqueue\<close>: the pollers of c/src/events, which interpret
    \<open>poller\<close>.  What the second and the third have in common is the locale \<open>table_poller\<close> of \<open>Nio_Places\<close>,
    which gives \<open>poller\<close>; \<open>Nio_Slots\<close> has the array of places that both keep.  The fourth collects
    changes until they are flushed, so what is watched is what the kernel has with these changes.
    \<open>Nio_Create\<close>: which of them an event gets.
  \<^item> \<open>Nio_System\<close>: the limit of open files, blocking and the delay of tcp, with what is in force afterwards.

  \<^bold>\<open>The C++ layer\<close> (cpp/src).
  \<^item> \<open>Nio_Timer\<close>: the timer queue of nio_event.cpp, with the locale \<open>deadlines\<close> as the contract of
    a timer queue, and the timeout that \<open>wait\<close> and \<open>nio_event_wait2\<close> leave for the poller.
  \<^item> \<open>Cpp_Machine\<close>: the memory that the classes share, as the poller's part of the event: the objects of
    \<open>client_socket\<close>, \<open>event_proc\<close> and \<open>server_socket\<close>, the members of \<open>nio_event\<close> (timers, and the objects
    that are to be closed), the context pointers of the descriptors and the kernel, whose system calls are the
    record \<open>system\<close>.  Function objects of the user are names; what the user does when one is called is a function
    of the environment \<open>env\<close>, from the call and the whole state to the methods he calls.  The history \<open>m_trace\<close>
    is no part of the code: it records calls of methods, calls of the user, bytes the kernel took, an object's \<open>close\<close> or \<open>on_close\<close>
    entered, and descriptors closed, so that theorems can speak about them.
  \<^item> \<open>Cpp_Proc\<close>, \<open>Cpp_Client\<close>: the methods (event_proc.cpp, server_socket.cpp, client_socket.cpp).
    \<open>Cpp_Event\<close>: the callbacks that the loop runs, timers, closing, and \<open>nio_event::wait\<close> around the loop of
    \<open>Nio_Loop\<close>; \<open>run_callback\<close> is the callback that the pollers of the C core are given.
  \<^item> \<open>Cpp_Abstract\<close>: the abstract machine.  \<open>evolves\<close> are its moves on a \<open>view\<close> of the state, \<open>moves\<close> adds whole
    calls, and \<open>sound\<close> is what they keep: descriptors point to objects that exist, timers are marked as waiting
    when they are queued, objects that were asked to close are marked, objects and descriptors are closed once, bytes stay in order.
  \<^item> \<open>Cpp_Moves\<close>: every method and callback is a sequence of moves, in the locale \<open>cpp_poller\<close>: the poller
    changes nothing of the machine but the kernel, and a wait does nothing but run callbacks and read the clock.
    \<open>Cpp_Program\<close>: closing, timers and \<open>wait\<close>, and programs, which call methods and wait.
    \<open>Cpp_System\<close>: the epoll poller on the machine interprets \<open>cpp_poller\<close>, and the theorems about the classes.
  \<^item> \<open>Cpp_Wiring\<close>: the casts of the callbacks.  \<open>typed\<close> says of a state that the callbacks in a descriptor are of the class
    of its owner; the locale \<open>wired_poller\<close> extends \<open>cpp_poller\<close> by a poller that leaves the callbacks alone, in it every
    method, callback and wait keeps \<open>typed\<close>, and the epoll poller interprets it.
    \<open>Cpp_Progress\<close>: that waiting writes what is in a client's buffer when nothing else is going on, on a kernel that does what epoll_wait(2)
    and write(2) document (\<open>epoll_wait_doc\<close>, \<open>write_doc\<close>) and is fair to the descriptor (\<open>fair_kernel\<close>).

  \<^bold>\<open>mqtt\<close> (cpp/src/mqtt).
  \<^item> \<open>Stream_Parser\<close>: the contract that the parsers of all message classes share.  The locale
    \<open>stream_parser\<close> states what a table of handlers owes the loop around it; it gives the locale
    \<open>resumable\<close>: how the bytes are cut into reads does not matter.  Every class interprets it.
  \<^item> \<open>Mqtt_Header\<close> and one theory per message class, each with its object, its setters, its
    serializer \<open>to_string\<close>, its parser \<open>update\<close> and the theorem that a serialized message parses
    back to what it was; \<open>Mqtt_Factory\<close> has \<open>create_message\<close> and the dispatch of the virtual
    methods, \<open>Mqtt_Client\<close> the client that parses a connection into messages.

  \<^bold>\<open>What the lemmas show.\<close>  Of each container and of the loop: an invariant that every operation
  keeps, and a refinement of the abstract object.  Of the C++ classes: what every program can rely on that
  keeps the rules, whatever else the user's functions call, the kernel answers and the poller reports.  The rules (\<open>fine\<close>; \<open>careful\<close> for the user's functions,
  \<open>fine_program\<close> for the program) are: methods of existing objects only, no \<open>connect_await\<close> while the write timer of the client runs, no timer of the user
  added that is in the queue, no \<open>set_closing\<close>.  Two theorems show what happens without the second and the last;
  the casts of the callbacks are right without any rule.  Of each mqtt class: the round trip, for every
  way the bytes are cut, and what happens to input that is none of ours.  Of the client: that a
  sequence of messages arrives as it was sent, but for the members that \<open>arrives\<close> (\<open>Mqtt_Factory\<close>) says are lost, that no input fails an assertion.  Of both layers together, in this theory:
  that messages written to a socket of the C++ layer are delivered at the other end.  Some theorems
  state that the code does something it does not mean to, as the text before them says.

  \<^bold>\<open>Conventions.\<close>  \<open>int\<close> and \<open>size_t\<close> counters of containers, stamps and timeouts are \<open>int\<close>, for
  they cannot reach the end of their range before memory or time does; bytes, flags, hash values
  and everything on the wire are words of their width.  A failed assertion, an access outside an
  array and a loop that does not end are \<open>None\<close> or a result of their own (\<open>AssertFail\<close>).
  Recursion is structural or well-founded except for the loops over links, which are
  \<open>partial_function (option)\<close>; no fuel is used.  System calls, callbacks of the user and the
  result of an allocation are arguments of the definitions.

  \<^bold>\<open>Not modelled.\<close>  The pollers of Windows (nio_event_iocp.c, nio_event_wmsg.c): they name types, members and
  functions that the repository does not have, so there is no code to say what they do.  Logging, memory
  allocation itself and the sample programs: system calls with nothing around
  them.  Freeing an object (an address is never used again), \<open>read\<close> of the sockets, which only
  calls the system, names and debug output.
\<close>

subsection \<open>A property that spans the parts\<close>

text \<open>
  C2: from one mqtt client to another, over the sockets.  A program that keeps the rules (\<open>fine\<close>) has written serialized messages, and nothing
  else, to a client of the C++ layer, and none of these calls has returned -1.  As in the theorem \<open>buffered_bytes_written\<close>, nothing but this client is going on then (\<open>quiet\<close>),
  its descriptor is the only one on the kernel's interest list, watched for writing, the user's functions call nothing when they are told
  that it can be written to, and the kernel does what is documented and is fair to the descriptor.  Then some
  number of calls of \<open>wait\<close> return, after which the bytes that the kernel has taken, in whatever reads they arrive, make a
  receiving mqtt client whose handler never answers false deliver one message for each, in order; each is the one that was sent but for the members that \<open>arrives\<close> says
  are lost: the keep-alive and the will level of a connect request, a will without a topic or a message, the session member of a connack, and the
  duplicate flag and packet id at QoS 0.
\<close>

theorem mqtt_over_sockets:
  assumes "careful (on_epoll ctl clock wait E)" "fine_program (on_epoll ctl clock wait E) cs (event_new n flags s k)"
    "run_program (on_epoll ctl clock wait E) cs (event_new n flags s k) = Some w"
    "list_all (\<lambda>x. \<not> write_failed (Client_Object c) x) (m_trace (ev_poller w))"
    "map (\<lambda>m. snd (send_await mem m)) ms = map Some outs" "given (Client_Object c) (m_trace (ev_poller w)) = concat outs"
    "list_all sendable ms" "\<forall>p. h p" "quiet c f w" "interest (m_kernel (ev_poller w)) = [f_fd (ev_files w f) \<mapsto> (EPOLLOUT, f)]"
    "\<And>fn fd v. fst (en_user E fn (Writable fd False) v) = []" "epoll_wait_doc interest wait" "write_doc interest (en_system E)"
    "fair_kernel (en_system E) wait (f_fd (ev_files w f)) good rank" "good (m_kernel (ev_poller w))"
  shows "\<exists>i w'. run_program (on_epoll ctl clock wait E) (replicate i (Wait ms')) w = Some w' \<and>
    (\<forall>ds. concat ds = taken (Client_Object c) (m_trace (ev_poller w')) \<longrightarrow> list_all (\<lambda>d. d \<noteq> []) ds \<longrightarrow>
       (\<exists>cl ps. client_reads pad (Some h) mqtt_client_new ds = (cl, ps, Rest []) \<and> list_all2 (arrives pad) ms ps))"
proof -
  obtain i w' where w': "run_program (on_epoll ctl clock wait E) (replicate i (Wait ms')) w = Some w'"
    "taken (Client_Object c) (m_trace (ev_poller w')) = taken (Client_Object c) (m_trace (ev_poller w)) @ pending (cs_buf (client c w))"
    using buffer_drains [OF assms(9-15)] by blast
  have "taken (Client_Object c) (m_trace (ev_poller w)) @ pending (cs_buf (client c w)) = concat outs"
    using program_stream [OF assms(1-3)] assms(4,6) by (auto simp: stream_ok_def client_def dest!: spec [of _ "Client_Object c"])
  with w' wires_delivered [OF assms(7,8,5)] show ?thesis
    by (intro exI [of _ i] exI [of _ w'] conjI allI impI) simp_all
qed

text \<open>A ping request and two acknowledgements: ten bytes, of which four are left in the buffer after the first wait.\<close>

theorem mqtt_over_sockets_witness:
  "\<exists>w i w' cl ps. run_program demo_env [Method (Client_Open 7), Method (Write_Data 2 0 [0xc0, 0x00] 0), Method (Write_Data 2 0 [0x40, 0x02, 0x00, 0x07] 0),
       Method (Write_Data 2 0 [0x40, 0x02, 0x00, 0x09] 0), Wait 5] demo_start = Some w \<and>
     pending (cs_buf (client 2 w)) = [0x40, 0x02, 0x00, 0x09] \<and> run_program demo_env (replicate i (Wait 5)) w = Some w' \<and>
     client_reads 0 (Some (\<lambda>_. True)) mqtt_client_new (map (\<lambda>b. [b]) (taken (Client_Object 2) (m_trace (ev_poller w')))) = (cl, ps, Rest []) \<and>
     list_all2 (arrives 0) [M_pingreq mqtt_pingreq_new, M_puback (ack_set_pkt_id 7 mqtt_puback_new), M_puback (ack_set_pkt_id 9 mqtt_puback_new)] ps"
proof -
  let ?ms = "[M_pingreq mqtt_pingreq_new, M_puback (ack_set_pkt_id 7 mqtt_puback_new), M_puback (ack_set_pkt_id 9 mqtt_puback_new)]"
  let ?outs = "[[0xc0, 0x00], [0x40, 0x02, 0x00, 0x07], [0x40, 0x02, 0x00, 0x09]] :: bytes list"
  let ?cs = "[Method (Client_Open 7), Method (Write_Data 2 0 [0xc0, 0x00] 0), Method (Write_Data 2 0 [0x40, 0x02, 0x00, 0x07] 0),
       Method (Write_Data 2 0 [0x40, 0x02, 0x00, 0x09] 0), Wait 5] :: bool command list"
  have m: "list_all sendable ?ms"
    by (simp add: sendable_def message_header_def message_type_def mqtt_pingreq_new_def mqtt_message_new_def
        mqtt_header_new_def ack_set_pkt_id_def mqtt_puback_new_def mqtt_ack_new_def)
  have o: "map (\<lambda>m. snd (send_await [] m)) ?ms = map Some ?outs"
    by (simp add: send_await_def message_to_string_def ping_to_string_eq ack_to_string_eq first_byte_def
        vbi.simps short_bytes_def mosq_msb_def mosq_lsb_def hdr_set_remaing_length_def Let_def
        mqtt_pingreq_new_def mqtt_message_new_def mqtt_header_new_def ack_set_pkt_id_def mqtt_puback_new_def
        mqtt_ack_new_def)
  have f: "fine_program demo_env ?cs demo_start" by (simp add: demo fine_def)
  have "\<exists>w. run_program demo_env ?cs demo_start = Some w \<and> quiet 2 3 w \<and> f_fd (ev_files w 3) = 7 \<and>
      m_kernel (ev_poller w) = [7 \<mapsto> (EPOLLOUT, 3)] \<and> pending (cs_buf (client 2 w)) = [0x40, 0x02, 0x00, 0x09] \<and>
      list_all (\<lambda>x. \<not> write_failed (Client_Object 2) x) (m_trace (ev_poller w)) \<and>
      given (Client_Object 2) (m_trace (ev_poller w)) = concat ?outs"
    by (simp add: demo quiet_def)
  then obtain w where w: "run_program demo_env ?cs demo_start = Some w" "quiet 2 3 w" "f_fd (ev_files w 3) = 7"
      "m_kernel (ev_poller w) = [7 \<mapsto> (EPOLLOUT, 3)]" "pending (cs_buf (client 2 w)) = [0x40, 0x02, 0x00, 0x09]"
      "list_all (\<lambda>x. \<not> write_failed (Client_Object 2) x) (m_trace (ev_poller w))"
      "given (Client_Object 2) (m_trace (ev_poller w)) = concat ?outs" by blast
  have i: "m_kernel (ev_poller w) = [f_fd (ev_files w 3) \<mapsto> (EPOLLOUT, 3)]" "m_kernel (ev_poller w) 7 = Some (EPOLLOUT, 3)"
    by (simp_all add: w(3,4))
  obtain i w' where w': "run_program demo_env (replicate i (Wait 5)) w = Some w'"
    "\<forall>ds. concat ds = taken (Client_Object 2) (m_trace (ev_poller w')) \<longrightarrow> list_all (\<lambda>d. d \<noteq> []) ds \<longrightarrow>
       (\<exists>cl ps. client_reads 0 (Some (\<lambda>_. True)) mqtt_client_new ds = (cl, ps, Rest []) \<and> list_all2 (arrives 0) ?ms ps)"
    using mqtt_over_sockets [where h = "\<lambda>_. True" and interest = "\<lambda>k. k", OF demo_careful [unfolded demo_on_epoll]
        f [unfolded demo_on_epoll demo_start_def] w(1) [unfolded demo_on_epoll demo_start_def] w(6) o w(7) m _ w(2) i(1) demo_quiet_user demo_kernel_doc demo_fair i(2)]
    unfolding demo_on_epoll by blast
  have "list_all (\<lambda>d. d \<noteq> []) (map (\<lambda>b. [b]) bs)" "concat (map (\<lambda>b. [b]) bs) = bs" for bs :: bytes
    by (simp_all add: list_all_iff)
  with w'(2) obtain cl ps where "client_reads 0 (Some (\<lambda>_. True)) mqtt_client_new (map (\<lambda>b. [b]) (taken (Client_Object 2) (m_trace (ev_poller w')))) = (cl, ps, Rest [])"
    "list_all2 (arrives 0) ?ms ps" by blast
  with w(1,5) w'(1) show ?thesis by blast
qed

end
